(* ===== verification/Prelude.thy ===== *)
theory Prelude
  imports Complex_Main "HOL-Library.Multiset"
begin

text \<open>
  Shared ground of the development: the Python run-time errors the programs can raise, the
  result type \<open>py_error + 'a\<close> with its bind, Python's list and dictionary accesses
  that can fail, the stream of values delivered by \<open>random.random()\<close>, and the generic
  lemmas on lists that several components use.
\<close>

section \<open>Errors as values\<close>

text \<open>
  One constructor per exception the modelled code can raise. \<open>SystemExit\<close> is a call of
  \<open>exit(1)\<close> or \<open>sys.exit(1)\<close> after an error message. \<open>OutOfDraws\<close> is not a
  Python error: a run of the model is given the finite list of numbers that
  \<open>random.random()\<close> returns, and the value says that the list was too short. Nor is \<open>Blocked\<close>: the
  call waits for a lock that nobody else can release.
\<close>

datatype py_error =
    IndexError | KeyError | ValueError | AssertionError | ZeroDivisionError
  | TypeError | NameError | AttributeError | RuntimeError | OverflowError | OSError | ConnectionResetError
  | SystemExit | OutOfDraws | Blocked

type_synonym 'a res = "py_error + 'a"

fun rbind :: "'a res \<Rightarrow> ('a \<Rightarrow> 'b res) \<Rightarrow> 'b res" where
  "rbind (Inl e) f = Inl e"
| "rbind (Inr x) f = f x"

lemma rbind_cong [fundef_cong]:
  "m = m' \<Longrightarrow> (\<And>x. m' = Inr x \<Longrightarrow> f x = g x) \<Longrightarrow> rbind m f = rbind m' g"
  by (cases m') auto

lemma rbind_Inr_iff [simp]: "rbind m f = Inr y \<longleftrightarrow> (\<exists>x. m = Inr x \<and> f x = Inr y)"
  by (cases m) auto

lemma rbind_Inl_iff: "rbind m f = Inl e \<longleftrightarrow> m = Inl e \<or> (\<exists>x. m = Inr x \<and> f x = Inl e)"
  by (cases m) auto

lemma rbind_assoc: "rbind (rbind m f) g = rbind m (\<lambda>x. rbind (f x) g)"
  by (cases m) auto

definition py_assert :: "bool \<Rightarrow> unit res" where
  "py_assert b = (if b then Inr () else Inl AssertionError)"

lemma py_assert_Inr [simp]: "py_assert b = Inr u \<longleftrightarrow> b"
  by (simp add: py_assert_def)

lemma py_assert_True [simp]: "py_assert True = Inr ()"
  by (simp add: py_assert_def)

text \<open>Running an operation over a list of inputs stops at the first error.\<close>

fun rfold :: "('a \<Rightarrow> 's \<Rightarrow> 's res) \<Rightarrow> 'a list \<Rightarrow> 's \<Rightarrow> 's res" where
  "rfold f [] s = Inr s"
| "rfold f (x # xs) s = rbind (f x s) (rfold f xs)"

lemma rfold_append: "rfold f (xs @ ys) s = rbind (rfold f xs s) (rfold f ys)"
proof (induction xs arbitrary: s)
  case Nil
  then show ?case by simp
next
  case (Cons x xs)
  then show ?case by (cases "f x s") auto
qed

lemma rfold_invariant:
  assumes "rfold f xs s = Inr t" and "P s"
    and "\<And>x u v. x \<in> set xs \<Longrightarrow> P u \<Longrightarrow> f x u = Inr v \<Longrightarrow> P v"
  shows "P t"
  using assms by (induction xs arbitrary: s) auto

lemma rfold_total:
  assumes "P s"
    and "\<And>x u. x \<in> set xs \<Longrightarrow> P u \<Longrightarrow> \<exists>v. f x u = Inr v \<and> P v"
  shows "\<exists>t. rfold f xs s = Inr t \<and> P t"
  using assms
proof (induction xs arbitrary: s)
  case Nil
  then show ?case by simp
next
  case (Cons x xs)
  obtain v where "f x s = Inr v" "P v"
    using Cons.prems(1) Cons.prems(2) [of x s] by auto
  moreover obtain t where "rfold f xs v = Inr t \<and> P t"
    using Cons.IH [OF \<open>P v\<close>] Cons.prems(2) by auto
  ultimately show ?case by auto
qed

lemma rfold_noop: "\<forall>x \<in> set xs. f x s = Inr s \<Longrightarrow> rfold f xs s = Inr s"
  by (induction xs) auto

text \<open>\<open>keeps P f\<close>: a successful run of \<open>f\<close> preserves \<open>P\<close>. The rules follow the
  structure of a routine.\<close>

definition keeps :: "('s \<Rightarrow> bool) \<Rightarrow> ('s \<Rightarrow> 's res) \<Rightarrow> bool" where
  "keeps P f \<longleftrightarrow> (\<forall>s t. P s \<longrightarrow> f s = Inr t \<longrightarrow> P t)"

named_theorems keeps_rules "rules that reduce the preservation of a predicate to the parts of a routine"

lemma keepsD: "keeps P f \<Longrightarrow> P s \<Longrightarrow> f s = Inr t \<Longrightarrow> P t"
  by (simp add: keeps_def)

lemma keeps_rfold [keeps_rules]: "(\<And>x. keeps P (f x)) \<Longrightarrow> keeps P (rfold f xs)"
  unfolding keeps_def using rfold_invariant [of f xs _ _ P] by blast

lemma keeps_bind [keeps_rules]:
  "keeps P f \<Longrightarrow> keeps P g \<Longrightarrow> keeps P (\<lambda>s. rbind (f s) g)"
  unfolding keeps_def rbind_Inr_iff by blast

lemma keeps_read [keeps_rules]:
  "(\<And>x. keeps P (f x)) \<Longrightarrow> keeps P (\<lambda>s. rbind m (\<lambda>x. f x s))"
  unfolding keeps_def rbind_Inr_iff by blast

lemma keeps_if [keeps_rules]:
  "(b \<Longrightarrow> keeps P f) \<Longrightarrow> (\<not> b \<Longrightarrow> keeps P g) \<Longrightarrow> keeps P (\<lambda>s. if b then f s else g s)"
  by (auto simp: keeps_def)

lemma keeps_split [keeps_rules]:
  "(\<And>x y. keeps P (f x y)) \<Longrightarrow> keeps P (\<lambda>s. case p of (x, y) \<Rightarrow> f x y s)"
  by (auto simp: keeps_def split: prod.splits)

section \<open>Python lists and dictionaries\<close>

text \<open>\<open>xs[i]\<close>: a negative index counts from the end, anything else out of range raises.\<close>

definition py_nth :: "'a list \<Rightarrow> int \<Rightarrow> 'a res" where
  "py_nth xs i =
     (if 0 \<le> i \<and> i < int (length xs) then Inr (xs ! nat i)
      else if i < 0 \<and> 0 \<le> int (length xs) + i then Inr (xs ! nat (int (length xs) + i))
      else Inl IndexError)"

lemma py_nth_nat [simp]: "i < length xs \<Longrightarrow> py_nth xs (int i) = Inr (xs ! i)"
  by (simp add: py_nth_def)

text \<open>\<open>xs[i] = v\<close> replaces an element, with the same treatment of the index.\<close>

definition py_set :: "'a list \<Rightarrow> int \<Rightarrow> 'a \<Rightarrow> 'a list res" where
  "py_set xs i v =
     (if 0 \<le> i \<and> i < int (length xs) then Inr (xs[nat i := v])
      else if i < 0 \<and> 0 \<le> int (length xs) + i then Inr (xs[nat (int (length xs) + i) := v])
      else Inl IndexError)"

lemma py_set_nat [simp]: "i < length xs \<Longrightarrow> py_set xs (int i) v = Inr (xs[i := v])"
  by (simp add: py_set_def)

lemma py_nth_set:
  assumes "py_nth xs i = Inr x"
  obtains j where "j < length xs" and "x = xs ! j" and "\<And>v. py_set xs i v = Inr (xs[j := v])"
proof -
  let ?j = "nat (if i < 0 then int (length xs) + i else i)"
  have "?j < length xs" "x = xs ! ?j" "\<And>v. py_set xs i v = Inr (xs[?j := v])"
    using assms by (auto simp: py_nth_def py_set_def Let_def split: if_splits)
  then show ?thesis by (rule that)
qed

text \<open>\<open>d[k]\<close> on a dictionary.\<close>

definition py_lookup :: "('k \<rightharpoonup> 'v) \<Rightarrow> 'k \<Rightarrow> 'v res" where
  "py_lookup m k = (case m k of None \<Rightarrow> Inl KeyError | Some v \<Rightarrow> Inr v)"

lemma py_lookup_Inr [simp]: "py_lookup m k = Inr v \<longleftrightarrow> m k = Some v"
  by (simp add: py_lookup_def split: option.split)

text \<open>\<open>xs.pop(i)\<close> with a non-negative index: the list without its element \<open>i\<close>.\<close>

definition remove_nth :: "nat \<Rightarrow> 'a list \<Rightarrow> 'a list" where
  "remove_nth i xs = take i xs @ drop (Suc i) xs"

lemma mset_remove_nth:
  "i < length xs \<Longrightarrow> mset xs = add_mset (xs ! i) (mset (remove_nth i xs))"
  unfolding remove_nth_def
  by (metis id_take_nth_drop mset.simps(2) mset_append union_mset_add_mset_right)

lemma length_remove_nth [simp]: "i < length xs \<Longrightarrow> length (remove_nth i xs) = length xs - 1"
  by (simp add: remove_nth_def)

lemma set_remove_nth_subset: "set (remove_nth i xs) \<subseteq> set xs"
  unfolding remove_nth_def using set_take_subset set_drop_subset by fastforce

lemma distinct_remove_nth: "distinct xs \<Longrightarrow> distinct (remove_nth i xs)"
proof -
  assume d: "distinct xs"
  have "set (take i xs) \<inter> set (drop (Suc i) xs) = {}"
    using d by (simp add: set_take_disj_set_drop_if_distinct)
  with d show ?thesis by (simp add: remove_nth_def)
qed

lemma set_remove_nth:
  "distinct xs \<Longrightarrow> i < length xs \<Longrightarrow> set (remove_nth i xs) = set xs - {xs ! i}"
proof -
  assume d: "distinct xs" and i: "i < length xs"
  from mset_remove_nth [OF i] have s: "set xs = insert (xs ! i) (set (remove_nth i xs))"
    by (metis set_mset_add_mset_insert set_mset_mset)
  have "xs ! i \<notin> set (remove_nth i xs)"
    using d i by (auto simp: remove_nth_def in_set_conv_nth nth_eq_iff_index_eq)
  with s show ?thesis by auto
qed

lemma mset_list_update:
  "i < length xs \<Longrightarrow> mset (xs[i := y]) = add_mset y (mset (remove_nth i xs))"
  by (simp add: upd_conv_take_nth_drop remove_nth_def)

text \<open>Counting the elements with a property, as the simulators do over their process tables.\<close>

lemma length_filter_update:
  "i < length xs \<Longrightarrow> length (filter P (xs[i := y])) + (if P (xs ! i) then 1 else 0) =
   length (filter P xs) + (if P y then 1 else 0)"
proof (induction xs arbitrary: i)
  case (Cons x xs)
  then show ?case by (cases i) auto
qed simp

lemma length_filter_one:
  assumes "i < length xs" and "P (xs ! i)"
  shows "length (filter P xs) = 1 \<longleftrightarrow> (\<forall>j < length xs. j \<noteq> i \<longrightarrow> \<not> P (xs ! j))"
proof -
  let ?A = "{j. j < length xs \<and> P (xs ! j)}"
  have "i \<in> ?A" using assms by simp
  then have "card ?A = 1 \<longleftrightarrow> ?A = {i}"
    by (metis (lifting) One_nat_def card_1_singleton_iff singletonD)
  also have "\<dots> \<longleftrightarrow> (\<forall>j < length xs. j \<noteq> i \<longrightarrow> \<not> P (xs ! j))" using \<open>i \<in> ?A\<close> by auto
  finally show ?thesis by (simp add: length_filter_conv_card)
qed

lemma length_filter_ge1: "i < length xs \<Longrightarrow> P (xs ! i) \<Longrightarrow> 1 \<le> length (filter P xs)"
  by (metis Suc_leI One_nat_def filter_empty_conv length_greater_0_conv nth_mem)

text \<open>\<open>xs.pop(i)\<close> in general: the element and the shortened list.\<close>

definition py_pop :: "'a list \<Rightarrow> int \<Rightarrow> ('a \<times> 'a list) res" where
  "py_pop xs i =
     (if 0 \<le> i \<and> i < int (length xs) then Inr (xs ! nat i, remove_nth (nat i) xs)
      else if i < 0 \<and> 0 \<le> int (length xs) + i
        then (let j = nat (int (length xs) + i) in Inr (xs ! j, remove_nth j xs))
      else Inl IndexError)"

lemma py_pop_nat [simp]: "i < length xs \<Longrightarrow> py_pop xs (int i) = Inr (xs ! i, remove_nth i xs)"
  by (simp add: py_pop_def)

lemma py_pop_in_range:
  assumes "- int (length xs) \<le> i" and "i < int (length xs)"
  obtains x ys where "py_pop xs i = Inr (x, ys)" and "mset xs = add_mset x (mset ys)"
proof -
  let ?j = "nat (if i < 0 then int (length xs) + i else i)"
  have "?j < length xs" using assms by auto
  moreover have "py_pop xs i = Inr (xs ! ?j, remove_nth ?j xs)"
    using assms by (auto simp: py_pop_def Let_def)
  ultimately show ?thesis using that mset_remove_nth by blast
qed

section \<open>Random numbers\<close>

text \<open>
  \<open>random.random()\<close> returns a number of \<open>[0, 1)\<close>. Each program takes the numbers it
  draws from a list; \<open>draw\<close> hands out the next one. \<open>int(x)\<close> of a float truncates
  towards zero. The numbers are rationals: every finite double is one, and rounding of the
  products the programs form is not modelled.
\<close>

type_synonym draws = "rat list"

fun draw :: "draws \<Rightarrow> (rat \<times> draws) res" where
  "draw [] = Inl OutOfDraws"
| "draw (r # rs) = Inr (r, rs)"

definition draws_ok :: "draws \<Rightarrow> bool" where
  "draws_ok rs = (\<forall>r \<in> set rs. 0 \<le> r \<and> r < 1)"

definition py_trunc :: "rat \<Rightarrow> int" where
  "py_trunc x = (if x < 0 then - \<lfloor>- x\<rfloor> else \<lfloor>x\<rfloor>)"

definition rand_below :: "rat \<Rightarrow> int \<Rightarrow> int" where
  "rand_below r n = py_trunc (r * of_int n)"

lemma rand_below_bounds:
  assumes "0 \<le> r" and "r < 1" and "0 < n"
  shows "0 \<le> rand_below r n" and "rand_below r n < n"
proof -
  have nonneg: "0 \<le> r * of_int n" using assms by simp
  then show "0 \<le> rand_below r n" by (simp add: rand_below_def py_trunc_def)
  have "r * of_int n < of_int n" using assms by simp
  then show "rand_below r n < n"
    using nonneg by (simp add: rand_below_def py_trunc_def floor_less_iff)
qed

lemma draws_ok_draw: "draws_ok rs \<Longrightarrow> draw rs = Inr (r, rs') \<Longrightarrow> 0 \<le> r \<and> r < 1 \<and> draws_ok rs'"
  by (cases rs) (auto simp: draws_ok_def)

text \<open>A computation that draws: it may run out of draws, but otherwise succeeds with a result of which
  \<open>P\<close> holds.\<close>

definition unless_dry :: "'a res \<Rightarrow> ('a \<Rightarrow> bool) \<Rightarrow> bool" where
  "unless_dry m P \<longleftrightarrow> m = Inl OutOfDraws \<or> (\<exists>x. m = Inr x \<and> P x)"

lemma unless_dry_bind:
  "unless_dry m P \<Longrightarrow> (\<And>x. P x \<Longrightarrow> unless_dry (f x) Q) \<Longrightarrow> unless_dry (rbind m f) Q"
  unfolding unless_dry_def by (elim disjE exE conjE) auto

lemma unless_dry_Inr [simp]: "unless_dry (Inr x) P \<longleftrightarrow> P x"
  by (simp add: unless_dry_def)

lemma unless_dry_mono: "unless_dry m P \<Longrightarrow> (\<And>x. P x \<Longrightarrow> Q x) \<Longrightarrow> unless_dry m Q"
  by (auto simp: unless_dry_def)

lemma unless_dry_case:
  "unless_dry m P \<Longrightarrow> (\<And>x. P x \<Longrightarrow> Q x) \<Longrightarrow> case m of Inl e \<Rightarrow> e = OutOfDraws | Inr x \<Rightarrow> Q x"
  unfolding unless_dry_def by (elim disjE exE conjE) simp_all

lemma unless_dry_rfold:
  assumes "P s" and "\<And>x u. x \<in> set xs \<Longrightarrow> P u \<Longrightarrow> unless_dry (f x u) P"
  shows "unless_dry (rfold f xs s) P"
  using assms
proof (induction xs arbitrary: s)
  case (Cons x xs)
  show ?case
    unfolding rfold.simps by (rule unless_dry_bind [of _ P]) (use Cons in auto)
qed simp

text \<open>The same rules for results that are tuples, with the components named in the new goal.\<close>

lemma unless_dry_bind2:
  "unless_dry m (\<lambda>(a, b). P a b) \<Longrightarrow> (\<And>a b. P a b \<Longrightarrow> unless_dry (f a b) Q) \<Longrightarrow>
   unless_dry (rbind m (\<lambda>(a, b). f a b)) Q"
  by (erule unless_dry_bind) auto

lemma unless_dry_bind3:
  "unless_dry m (\<lambda>(a, b, c). P a b c) \<Longrightarrow> (\<And>a b c. P a b c \<Longrightarrow> unless_dry (f a b c) Q) \<Longrightarrow>
   unless_dry (rbind m (\<lambda>(a, b, c). f a b c)) Q"
  by (erule unless_dry_bind) auto

lemma unless_dry_mono2:
  "unless_dry m (\<lambda>(a, b). P a b) \<Longrightarrow> (\<And>a b. P a b \<Longrightarrow> Q a b) \<Longrightarrow> unless_dry m (\<lambda>(a, b). Q a b)"
  by (erule unless_dry_mono) auto

section \<open>Loops that repeat one step\<close>

text \<open>
  A \<open>while\<close> loop over a state with a fallible body, cut off after a number of rounds:
  \<open>None\<close> is "has not finished yet".
\<close>

fun loop :: "nat \<Rightarrow> ('s \<Rightarrow> bool) \<Rightarrow> ('s \<Rightarrow> 's res) \<Rightarrow> 's \<Rightarrow> 's res option" where
  "loop 0 b f s = None"
| "loop (Suc n) b f s =
     (if b s then (case f s of Inl e \<Rightarrow> Some (Inl e) | Inr t \<Rightarrow> loop n b f t) else Some (Inr s))"

lemma loop_mono: "loop n b f s = Some r \<Longrightarrow> n \<le> m \<Longrightarrow> loop m b f s = Some r"
proof (induction n arbitrary: s m)
  case 0
  then show ?case by simp
next
  case (Suc n)
  from Suc.prems(2) obtain k where m: "m = Suc k" "n \<le> k"
    by (cases m) auto
  show ?case
    using Suc.prems(1) Suc.IH [OF _ m(2)] by (auto simp: m(1) split: sum.splits if_splits)
qed

text \<open>From the evaluated outcome of a computation to its result.\<close>

lemma returned_case: "(case m of Some (Inr x) \<Rightarrow> P x | _ \<Rightarrow> False) \<Longrightarrow> \<exists>x. m = Some (Inr x) \<and> P x"
  by (auto split: option.split_asm sum.split_asm)

lemma result_case: "(case m of Inr x \<Rightarrow> P x | _ \<Rightarrow> False) \<Longrightarrow> \<exists>x. m = Inr x \<and> P x"
  by (auto split: sum.split_asm)

text \<open>The contract of such a loop: an invariant the body keeps and a measure it lowers.\<close>

locale guarded_loop =
  fixes guard :: "'s \<Rightarrow> bool" and body :: "'s \<Rightarrow> 's res"
    and invar :: "'s \<Rightarrow> bool" and variant :: "'s \<Rightarrow> nat"
  assumes body_ok: "invar s \<Longrightarrow> guard s \<Longrightarrow> \<exists>t. body s = Inr t \<and> invar t"
    and body_decreases: "invar s \<Longrightarrow> guard s \<Longrightarrow> body s = Inr t \<Longrightarrow> variant t < variant s"
begin

lemma loop_returns:
  "invar s \<Longrightarrow> variant s < n \<Longrightarrow>
   \<exists>t. loop n guard body s = Some (Inr t) \<and> invar t \<and> \<not> guard t"
proof (induction n arbitrary: s)
  case 0
  then show ?case by simp
next
  case (Suc n)
  show ?case
  proof (cases "guard s")
    case True
    obtain t where t: "body s = Inr t" "invar t"
      using body_ok [OF Suc.prems(1) True] by auto
    have "variant t < n"
      using body_decreases [OF Suc.prems(1) True t(1)] Suc.prems(2) by simp
    with Suc.IH [OF t(2)] t True show ?thesis by simp
  next
    case False
    with Suc.prems show ?thesis by simp
  qed
qed

end

text \<open>The contract of a loop whose body can fail with one known error: it ends, at the latest with that error.\<close>

locale failing_loop =
  fixes guard :: "'s \<Rightarrow> bool" and body :: "'s \<Rightarrow> 's res"
    and invar :: "'s \<Rightarrow> bool" and variant :: "'s \<Rightarrow> nat" and err :: py_error
  assumes body_fails: "invar s \<Longrightarrow> guard s \<Longrightarrow> body s = Inl err \<or> (\<exists>t. body s = Inr t \<and> invar t \<and> variant t < variant s)"
begin

lemma loop_stops:
  "invar s \<Longrightarrow> variant s < n \<Longrightarrow>
   loop n guard body s = Some (Inl err) \<or> (\<exists>t. loop n guard body s = Some (Inr t) \<and> invar t \<and> \<not> guard t)"
proof (induction n arbitrary: s)
  case (Suc n)
  show ?case
  proof (cases "guard s")
    case True
    from body_fails [OF Suc.prems(1) True] show ?thesis
    proof
      assume "\<exists>t. body s = Inr t \<and> invar t \<and> variant t < variant s"
      then obtain t where "body s = Inr t" "invar t" "variant t < n" using Suc.prems(2) by auto
      then show ?thesis using Suc.IH [of t] True by simp
    qed (use True in simp)
  next
    case False
    with Suc.prems show ?thesis by simp
  qed
qed simp

end

text \<open>A body that draws random numbers may run dry.\<close>

locale drawing_loop =
  fixes guard :: "'s \<Rightarrow> bool" and body :: "'s \<Rightarrow> 's res"
    and invar :: "'s \<Rightarrow> bool" and variant :: "'s \<Rightarrow> nat"
  assumes body_draws: "invar s \<Longrightarrow> guard s \<Longrightarrow> unless_dry (body s) (\<lambda>t. invar t \<and> variant t < variant s)"

sublocale drawing_loop \<subseteq> failing_loop guard body invar variant OutOfDraws
  using body_draws by unfold_locales (simp add: unless_dry_def)

context drawing_loop begin

lemma loop_ends:
  "invar s \<Longrightarrow> variant s < n \<Longrightarrow>
   \<exists>r. loop n guard body s = Some r \<and> unless_dry r (\<lambda>t. invar t \<and> \<not> guard t)"
  using loop_stops [of s n] by (auto simp: unless_dry_def)

end

end
