(* ===== verification/Malloc.thy ===== *)
theory Malloc
  imports Prelude "HOL-Library.AList"
begin

text \<open>
  The free-space manager of \<open>src/Sem3/BSYS/17_Freespace/malloc.py\<close>: class \<open>malloc\<close> with
  its constructor, \<open>addToMap\<close>, \<open>malloc\<close> and \<open>free\<close>, and the two drivers of the main
  program (operation list and random operations). The free list is the Python list of
  (address, size) pairs in the order the code keeps it; \<open>sizemap\<close> is the dictionary.
\<close>

section \<open>State\<close>

type_synonym chunk = "int \<times> int"

datatype policy = BEST | WORST | FIRST

datatype list_order = ADDRSORT | SIZESORT_UP | SIZESORT_DOWN | INSERT_FRONT | INSERT_BACK

record malloc_state =
  heap_size :: int
  headerSize :: int
  freelist :: "chunk list"
  sizemap :: "int \<rightharpoonup> int"
  policy :: policy
  returnPolicy :: list_order
  coalesce :: bool
  align :: int

fun parse_policy :: "string \<Rightarrow> policy res" where
  "parse_policy p =
     (if p = ''FIRST'' then Inr FIRST else if p = ''BEST'' then Inr BEST
      else if p = ''WORST'' then Inr WORST else Inl AssertionError)"

fun parse_order :: "string \<Rightarrow> list_order res" where
  "parse_order q =
     (if q = ''ADDRSORT'' then Inr ADDRSORT else if q = ''SIZESORT+'' then Inr SIZESORT_UP
      else if q = ''SIZESORT-'' then Inr SIZESORT_DOWN
      else if q = ''INSERT-FRONT'' then Inr INSERT_FRONT
      else if q = ''INSERT-BACK'' then Inr INSERT_BACK else Inl AssertionError)"

definition malloc_init ::
  "int \<Rightarrow> int \<Rightarrow> int \<Rightarrow> string \<Rightarrow> string \<Rightarrow> bool \<Rightarrow> int \<Rightarrow> malloc_state res" where
  "malloc_init sz start hdr pol ord coal al =
     rbind (parse_policy pol) (\<lambda>p.
     rbind (parse_order ord) (\<lambda>q.
     rbind (py_assert (al = -1 \<or> al > 0)) (\<lambda>_.
       Inr \<lparr>heap_size = sz, headerSize = hdr, freelist = [(start, sz)],
            sizemap = Map.empty, policy = p, returnPolicy = q, coalesce = coal, align = al\<rparr>)))"

section \<open>Allocation\<close>

definition addToMap :: "malloc_state \<Rightarrow> int \<Rightarrow> int \<Rightarrow> malloc_state res" where
  "addToMap s addr sz =
     (if sizemap s addr = None then Inr (s\<lparr>sizemap := (sizemap s)(addr \<mapsto> sz)\<rparr>)
      else Inl AssertionError)"

text \<open>The request rounded up to the alignment, with the header added.\<close>

definition request_size :: "malloc_state \<Rightarrow> int \<Rightarrow> int" where
  "request_size s sz =
     (let diff = (if align s \<noteq> -1
                  then (let left = sz mod align s in if left \<noteq> 0 then align s - left else 0)
                  else 0)
      in sz + diff + headerSize s)"

text \<open>
  The search loop. The best entry so far is its index and address, with \<open>bestSize\<close> beside
  it as in the code; \<open>cnt\<close> counts the visited entries. FIRST breaks at the first fit.
\<close>

fun search :: "policy \<Rightarrow> int \<Rightarrow> chunk list \<Rightarrow> nat \<Rightarrow> (nat \<times> int) option \<Rightarrow> int \<Rightarrow> nat \<Rightarrow>
    (nat \<times> int) option \<times> int \<times> nat" where
  "search p sz [] i best bestSize cnt = (best, bestSize, cnt)"
| "search p sz ((eaddr, esize) # fl) i best bestSize cnt =
     (if esize \<ge> sz \<and> (p = BEST \<and> esize < bestSize \<or> p = WORST \<and> esize > bestSize \<or> p = FIRST)
      then (if p = FIRST then (Some (i, eaddr), esize, Suc cnt)
            else search p sz fl (Suc i) (Some (i, eaddr)) esize (Suc cnt))
      else search p sz fl (Suc i) best bestSize (Suc cnt))"

definition initial_best :: "malloc_state \<Rightarrow> int" where
  "initial_best s = (if policy s = BEST then heap_size s + 1 else -1)"

definition malloc :: "malloc_state \<Rightarrow> int \<Rightarrow> (malloc_state \<times> int \<times> nat) res" where
  "malloc s sz =
     (let n = request_size s sz in
      case search (policy s) n (freelist s) 0 None (initial_best s) 0 of
        (None, _, cnt) \<Rightarrow> Inr (s, -1, cnt)
      | (Some (bestIdx, bestAddr), bestSize, cnt) \<Rightarrow>
          if bestSize > n then
            rbind (addToMap
                     (s\<lparr>freelist := (freelist s)[bestIdx := (bestAddr + n, bestSize - n)]\<rparr>)
                     bestAddr n)
              (\<lambda>t. Inr (t, bestAddr, cnt))
          else if bestSize = n then
            rbind (addToMap (s\<lparr>freelist := remove_nth bestIdx (freelist s)\<rparr>) bestAddr n)
              (\<lambda>t. Inr (t, bestAddr, cnt))
          else Inl NameError)"

section \<open>Release\<close>

definition insert_free :: "list_order \<Rightarrow> chunk \<Rightarrow> chunk list \<Rightarrow> chunk list" where
  "insert_free q c fl =
     (case q of
        INSERT_BACK \<Rightarrow> fl @ [c]
      | INSERT_FRONT \<Rightarrow> c # fl
      | ADDRSORT \<Rightarrow> sort_key fst (fl @ [c])
      | SIZESORT_UP \<Rightarrow> sort_key snd (fl @ [c])
      | SIZESORT_DOWN \<Rightarrow> sort_key (\<lambda>e. - snd e) (fl @ [c]))"

text \<open>The coalescing pass: \<open>cur\<close> absorbs the next entry when that starts where it ends.\<close>

fun coalesce_from :: "chunk \<Rightarrow> chunk list \<Rightarrow> chunk list" where
  "coalesce_from cur [] = [cur]"
| "coalesce_from cur ((eaddr, esize) # fl) =
     (if eaddr = fst cur + snd cur then coalesce_from (fst cur, snd cur + esize) fl
      else cur # coalesce_from (eaddr, esize) fl)"

fun coalesce_list :: "chunk list \<Rightarrow> chunk list res" where
  "coalesce_list [] = Inl IndexError"
| "coalesce_list (c # fl) = Inr (coalesce_from c fl)"

definition free :: "malloc_state \<Rightarrow> int \<Rightarrow> (malloc_state \<times> int) res" where
  "free s addr =
     (case sizemap s addr of
        None \<Rightarrow> Inr (s, -1)
      | Some sz \<Rightarrow>
          (let fl = insert_free (returnPolicy s) (addr, sz) (freelist s) in
           rbind (if coalesce s then coalesce_list fl else Inr fl)
             (\<lambda>fl'. Inr (s\<lparr>freelist := fl', sizemap := (sizemap s)(addr := None)\<rparr>, 0))))"

section \<open>The main program\<close>

text \<open>
  The operation list \<open>-A +10,-0,...\<close>, already split: \<open>Alloc n\<close> for \<open>+n\<close>, \<open>Free i\<close>
  for \<open>-i\<close>. \<open>p\<close> is the dictionary of returned pointers and \<open>c\<close> the counter. The bound
  test before a free is the source's \<open>index >= len(p)\<close>.
\<close>

datatype heap_op = Alloc int | Free int

record driver =
  heap :: malloc_state
  ptrs :: "(int \<times> int) list"
  next_ptr :: int

definition run_op :: "heap_op \<Rightarrow> driver \<Rightarrow> driver res" where
  "run_op op d =
     (case op of
        Alloc n \<Rightarrow>
          rbind (malloc (heap d) n) (\<lambda>(m, ptr, cnt).
            Inr (d\<lparr>heap := m,
                   ptrs := (if ptr \<noteq> -1 then AList.update (next_ptr d) ptr (ptrs d) else ptrs d),
                   next_ptr := next_ptr d + 1\<rparr>))
      | Free index \<Rightarrow>
          if index \<ge> int (length (ptrs d)) then Inr d
          else rbind (py_lookup (map_of (ptrs d)) index) (\<lambda>addr.
               rbind (free (heap d) addr) (\<lambda>(m, rc). Inr (d\<lparr>heap := m\<rparr>))))"

definition run_ops :: "heap_op list \<Rightarrow> malloc_state \<Rightarrow> driver res" where
  "run_ops ops m = rfold run_op ops \<lparr>heap = m, ptrs = [], next_ptr = 0\<rparr>"






section \<open>Which chunk is chosen\<close>

text \<open>
  The search as a choice function on the free list, and what every policy promises: the
  chosen entry is in the list and large enough, and nothing is chosen only if nothing fits.
\<close>

definition choose_chunk :: "policy \<Rightarrow> int \<Rightarrow> chunk list \<Rightarrow> int \<Rightarrow> (nat \<times> int \<times> int) option" where
  "choose_chunk p bs fl n =
     (case search p n fl 0 None bs 0 of
        (None, _, _) \<Rightarrow> None
      | (Some (i, a), z, _) \<Rightarrow> Some (i, a, z))"

definition carve :: "chunk list \<Rightarrow> nat \<Rightarrow> int \<Rightarrow> int \<Rightarrow> int \<Rightarrow> chunk list" where
  "carve fl i a z n = (if z > n then fl[i := (a + n, z - n)] else remove_nth i fl)"

definition covers :: "chunk \<Rightarrow> int \<Rightarrow> bool" where
  "covers c x = (fst c \<le> x \<and> x < fst c + snd c)"

definition fcover :: "chunk list \<Rightarrow> int \<Rightarrow> nat" where
  "fcover fl x = size (filter_mset (\<lambda>c. covers c x) (mset fl))"

lemma fcover_simps [simp]:
  "fcover [] x = 0"
  "fcover (c # fl) x = (if covers c x then Suc (fcover fl x) else fcover fl x)"
  by (simp_all add: fcover_def)

lemma fcover_append [simp]: "fcover (xs @ ys) x = fcover xs x + fcover ys x"
  by (simp add: fcover_def)

lemma fcover_mset_cong: "mset xs = mset ys \<Longrightarrow> fcover xs x = fcover ys x"
  by (simp add: fcover_def)

lemma fcover_remove_nth:
  "i < length fl \<Longrightarrow>
   fcover fl x = fcover (remove_nth i fl) x + (if covers (fl ! i) x then 1 else 0)"
  by (simp add: fcover_def mset_remove_nth [of i fl])

lemma fcover_update:
  "i < length fl \<Longrightarrow>
   fcover (fl[i := c]) x = fcover (remove_nth i fl) x + (if covers c x then 1 else 0)"
  by (simp add: fcover_def mset_list_update)

lemma fcover_pos: "c \<in> set fl \<Longrightarrow> covers c x \<Longrightarrow> 0 < fcover fl x"
  by (induction fl) auto

lemma set_carve:
  "c \<in> set (carve fl i a z n) \<Longrightarrow> c \<in> set fl \<or> n < z \<and> c = (a + n, z - n)"
  using set_remove_nth_subset [of i fl] set_update_subset_insert [of fl i "(a + n, z - n)"]
  by (auto simp: carve_def split: if_splits)

locale chunk_choice =
  fixes pick :: "chunk list \<Rightarrow> int \<Rightarrow> (nat \<times> int \<times> int) option"
    and admissible :: "chunk list \<Rightarrow> bool"
  assumes pick_fits: "pick fl n = Some (i, a, z) \<Longrightarrow> i < length fl \<and> fl ! i = (a, z) \<and> n \<le> z"
    and pick_complete:
      "admissible fl \<Longrightarrow> 0 \<le> n \<Longrightarrow> pick fl n = None \<Longrightarrow> (a, z) \<in> set fl \<Longrightarrow> z < n"
begin

lemma pick_mem: "pick fl n = Some (i, a, z) \<Longrightarrow> (a, z) \<in> set fl"
  using pick_fits by (metis nth_mem)

lemma carve_cover:
  assumes "pick fl n = Some (i, a, z)" and "0 < n"
  shows "fcover (carve fl i a z n) x + (if covers (a, n) x then 1 else 0) = fcover fl x"
  using pick_fits [OF assms(1)] assms(2) fcover_remove_nth [of i fl x]
  by (auto simp: carve_def fcover_update covers_def)

lemma carve_positive:
  assumes "pick fl n = Some (i, a, z)" and "\<forall>(b, y) \<in> set fl. 0 < y"
  shows "\<forall>(b, y) \<in> set (carve fl i a z n). 0 < y"
  using assms(2) set_carve [of _ fl i a z n] by fastforce

lemma carve_bounded:
  assumes "pick fl n = Some (i, a, z)" and "0 < n" and "\<forall>(b, y) \<in> set fl. y \<le> h"
  shows "\<forall>(b, y) \<in> set (carve fl i a z n). y \<le> h"
proof -
  have "z \<le> h" using pick_mem [OF assms(1)] assms(3) by blast
  with assms(2,3) show ?thesis using set_carve [of _ fl i a z n] by fastforce
qed

end

text \<open>The loop invariant of the search, from any intermediate state.\<close>

lemma search_result:
  assumes "search p n fl i best bs c = (b', bs', c')"
  shows "b' = best \<and> bs' = bs \<or>
    (\<exists>j a. b' = Some (i + j, a) \<and> j < length fl \<and> fl ! j = (a, bs') \<and> n \<le> bs')"
  using assms
proof (induction p n fl i best bs c rule: search.induct)
  case (1 p n i best bs c)
  then show ?case by simp
next
  case (2 p n ea es fl i best bs c)
  let ?take = "n \<le> es \<and> (p = BEST \<and> es < bs \<or> p = WORST \<and> bs < es \<or> p = FIRST)"
  have lift: "\<exists>j a. b' = Some (i + j, a) \<and> j < length ((ea, es) # fl) \<and>
      ((ea, es) # fl) ! j = (a, bs') \<and> n \<le> bs'"
    if "\<exists>j a. b' = Some (Suc i + j, a) \<and> j < length fl \<and> fl ! j = (a, bs') \<and> n \<le> bs'"
    using that by (metis Suc_less_eq add_Suc add_Suc_right length_Cons nth_Cons_Suc)
  have here: "\<exists>j a. b' = Some (i + j, a) \<and> j < length ((ea, es) # fl) \<and>
      ((ea, es) # fl) ! j = (a, bs') \<and> n \<le> bs'"
    if "b' = Some (i, ea)" "bs' = es" ?take
    using that by (auto intro!: exI [of _ 0])
  show ?case
  proof (cases ?take)
    case True
    show ?thesis
    proof (cases "p = FIRST")
      case True
      with "2.prems" \<open>?take\<close> here show ?thesis by simp
    next
      case False
      from "2.IH"(1) [OF \<open>?take\<close> False] "2.prems" \<open>?take\<close> False here lift show ?thesis by auto
    qed
  next
    case False
    from "2.IH"(2) [OF False] "2.prems" False lift show ?thesis by auto
  qed
qed

lemma search_best:
  "search BEST n fl i best bs c = (b', bs', c') \<Longrightarrow>
   bs' \<le> bs \<and> (\<forall>(a, z) \<in> set fl. n \<le> z \<longrightarrow> bs' \<le> z)"
proof (induction BEST n fl i best bs c rule: search.induct)
  case (2 n ea es fl i best bs c)
  then show ?case by (cases "n \<le> es \<and> es < bs") fastforce+
qed simp

lemma search_worst:
  "search WORST n fl i best bs c = (b', bs', c') \<Longrightarrow>
   bs \<le> bs' \<and> (\<forall>(a, z) \<in> set fl. n \<le> z \<longrightarrow> z \<le> bs')"
proof (induction WORST n fl i best bs c rule: search.induct)
  case (2 n ea es fl i best bs c)
  then show ?case by (cases "n \<le> es \<and> bs < es") fastforce+
qed simp

lemma search_first:
  "search FIRST n fl i None bs c = (b', bs', c') \<Longrightarrow>
   (case b' of None \<Rightarrow> \<forall>(a, z) \<in> set fl. z < n
    | Some (k, a) \<Rightarrow> i \<le> k \<and> (\<forall>m < k - i. snd (fl ! m) < n))"
proof (induction FIRST n fl i "None :: (nat \<times> int) option" bs c rule: search.induct)
  case (2 n ea es fl i bs c)
  show ?case
  proof (cases "n \<le> es")
    case True
    with 2 show ?thesis by auto
  next
    case False
    with 2 show ?thesis
      by (auto split: option.splits simp: nth_Cons less_diff_conv split: nat.splits)
  qed
qed simp

lemma search_counts:
  "search p n fl i best bs c = (b', bs', c') \<Longrightarrow> c' \<le> c + length fl"
  by (induction p n fl i best bs c rule: search.induct) (auto split: if_splits)

lemma choose_chunk_Some:
  assumes "choose_chunk p bs fl n = Some (i, a, z)"
  obtains c where "search p n fl 0 None bs 0 = (Some (i, a), z, c)"
  using assms by (auto simp: choose_chunk_def split: prod.splits option.splits)

lemma choose_chunk_None:
  assumes "choose_chunk p bs fl n = None"
  obtains z c where "search p n fl 0 None bs 0 = (None, z, c)" and "z = bs"
  using assms search_result [of p n fl 0 None bs 0]
  by (auto simp: choose_chunk_def split: prod.splits option.splits)

interpretation scan: chunk_choice
  "choose_chunk p (if p = BEST then h + 1 else -1)" "\<lambda>fl. \<forall>(a, z) \<in> set fl. z \<le> h"
  for p :: policy and h :: int
proof
  fix fl n i a z
  assume "choose_chunk p (if p = BEST then h + 1 else - 1) fl n = Some (i, a, z)"
  then obtain c where "search p n fl 0 None (if p = BEST then h + 1 else - 1) 0 = (Some (i, a), z, c)"
    by (rule choose_chunk_Some)
  from search_result [OF this] show "i < length fl \<and> fl ! i = (a, z) \<and> n \<le> z" by auto
next
  fix fl and n :: int and a z
  assume small: "\<forall>(a, z) \<in> set fl. z \<le> h" and n: "0 \<le> n" and mem: "(a, z) \<in> set fl"
    and "choose_chunk p (if p = BEST then h + 1 else - 1) fl n = None"
  then obtain c where
    "search p n fl 0 None (if p = BEST then h + 1 else - 1) 0 =
       (None, (if p = BEST then h + 1 else - 1), c)"
    by (metis choose_chunk_None)
  then show "z < n"
    using search_best [of n fl 0 None "h + 1" 0] search_worst [of n fl 0 None "-1" 0]
      search_first [of n fl 0 "-1" 0] small n mem
    by (cases p) fastforce+
qed

lemma malloc_choose:
  "malloc s sz =
     (let n = request_size s sz;
          c = snd (snd (search (policy s) n (freelist s) 0 None (initial_best s) 0))
      in case choose_chunk (policy s) (initial_best s) (freelist s) n of
           None \<Rightarrow> Inr (s, -1, c)
         | Some (i, a, z) \<Rightarrow>
             rbind (addToMap (s\<lparr>freelist := carve (freelist s) i a z n\<rparr>) a n)
               (\<lambda>t. Inr (t, a, c)))"
proof -
  obtain b z c where sr: "search (policy s) (request_size s sz) (freelist s) 0 None
      (initial_best s) 0 = (b, z, c)"
    by (metis prod_cases3)
  show ?thesis
    using search_result [OF sr]
    by (auto simp: malloc_def choose_chunk_def carve_def sr Let_def split: option.split)
qed

section \<open>The heap is partitioned\<close>

text \<open>
  \<open>acover\<close> counts the allocated chunks over an address. The invariant says that every
  address of the heap \<open>[lo, lo + heap_size)\<close> lies in exactly one chunk, free or allocated, and
  that no chunk reaches outside: nothing overlaps, nothing is lost. The heap starts at a
  non-negative address, so that \<open>-1\<close> is never one.
\<close>

definition acover :: "(int \<rightharpoonup> int) \<Rightarrow> int \<Rightarrow> nat" where
  "acover sm x = card {a \<in> dom sm. covers (a, the (sm a)) x}"

definition heap_inv :: "int \<Rightarrow> malloc_state \<Rightarrow> bool" where
  "heap_inv lo s \<longleftrightarrow>
     0 \<le> lo \<and> (\<forall>(a, z) \<in> set (freelist s). 0 < z) \<and>
     finite (dom (sizemap s)) \<and> (\<forall>a z. sizemap s a = Some z \<longrightarrow> 0 < z) \<and>
     (\<forall>x. fcover (freelist s) x + acover (sizemap s) x =
        (if lo \<le> x \<and> x < lo + heap_size s then 1 else 0))"

lemma acover_upd:
  assumes "finite (dom sm)" and "sm a = None"
  shows "acover (sm(a \<mapsto> z)) x = acover sm x + (if covers (a, z) x then 1 else 0)"
proof -
  let ?old = "{b \<in> dom sm. covers (b, the (sm b)) x}"
  have "{b \<in> dom (sm(a \<mapsto> z)). covers (b, the ((sm(a \<mapsto> z)) b)) x} =
      (if covers (a, z) x then insert a ?old else ?old)"
    using assms(2) by auto
  moreover have "finite ?old" "a \<notin> ?old" using assms by auto
  ultimately show ?thesis by (simp add: acover_def)
qed

lemma acover_del:
  assumes "finite (dom sm)" and "sm a = Some z"
  shows "acover sm x = acover (sm(a := None)) x + (if covers (a, z) x then 1 else 0)"
proof -
  have "sm = (sm(a := None))(a \<mapsto> z)" using assms(2) by auto
  moreover have "finite (dom (sm(a := None)))" using assms(1) by simp
  ultimately show ?thesis using acover_upd [of "sm(a := None)" a z x] by simp
qed

lemma acover_pos: "finite (dom sm) \<Longrightarrow> sm a = Some z \<Longrightarrow> covers (a, z) x \<Longrightarrow> 0 < acover sm x"
  using acover_del [of sm a z x] by simp

lemma heap_inv_free_chunk:
  assumes "heap_inv lo s" and "(a, z) \<in> set (freelist s)"
  shows "lo \<le> a" and "a + z \<le> lo + heap_size s" and "0 < z" and "sizemap s a = None"
proof -
  show z: "0 < z" using assms by (auto simp: heap_inv_def)
  have cov: "0 < fcover (freelist s) x" if "a \<le> x" "x < a + z" for x
    using fcover_pos [OF assms(2), of x] that by (simp add: covers_def)
  have inside: "lo \<le> x \<and> x < lo + heap_size s \<and> acover (sizemap s) x = 0"
    if "a \<le> x" "x < a + z" for x
  proof -
    have "fcover (freelist s) x + acover (sizemap s) x =
        (if lo \<le> x \<and> x < lo + heap_size s then 1 else 0)"
      using assms(1) by (simp add: heap_inv_def)
    with cov [OF that] show ?thesis by (auto split: if_splits)
  qed
  show "lo \<le> a" using inside [of a] z by simp
  show "a + z \<le> lo + heap_size s" using inside [of "a + z - 1"] z by simp
  show "sizemap s a = None"
  proof (rule ccontr)
    assume "sizemap s a \<noteq> None"
    then obtain y where y: "sizemap s a = Some y" "0 < y" "finite (dom (sizemap s))"
      using assms(1) by (auto simp: heap_inv_def)
    with acover_pos [of "sizemap s" a y a] inside [of a] z show False by (simp add: covers_def)
  qed
qed

lemma heap_inv_chunk_le: "heap_inv lo s \<Longrightarrow> \<forall>(a, z) \<in> set (freelist s). z \<le> heap_size s"
  using heap_inv_free_chunk by fastforce

lemma heap_inv_init:
  assumes "malloc_init sz start hdr p q coal al = Inr s" and "0 \<le> start" and "0 < sz"
  shows "heap_inv start s"
  using assms by (auto simp: malloc_init_def heap_inv_def acover_def covers_def split: if_splits)

lemma malloc_ok:
  assumes inv: "heap_inv lo s" and n: "n = request_size s sz" "0 < n"
  shows "(\<exists>c. malloc s sz = Inr (s, -1, c) \<and> (\<forall>(a, z) \<in> set (freelist s). z < n)) \<or>
    (\<exists>i a z c t. choose_chunk (policy s) (initial_best s) (freelist s) n = Some (i, a, z) \<and>
       malloc s sz = Inr (t, a, c) \<and> (a, z) \<in> set (freelist s) \<and> n \<le> z \<and> 0 \<le> a \<and>
       t = s\<lparr>freelist := carve (freelist s) i a z n, sizemap := (sizemap s)(a \<mapsto> n)\<rparr> \<and>
       heap_inv lo t)"
proof (cases "choose_chunk (policy s) (initial_best s) (freelist s) n")
  case None
  then have "\<forall>(a, z) \<in> set (freelist s). z < n"
    using scan.pick_complete [of "freelist s" "heap_size s" n "policy s"] heap_inv_chunk_le [OF inv] n
    by (fastforce simp: initial_best_def)
  with None show ?thesis by (auto simp: malloc_choose n(1) [symmetric] Let_def)
next
  case (Some r)
  obtain i a z where r: "r = (i, a, z)" by (cases r)
  note pick = Some [unfolded r initial_best_def]
  have mem: "(a, z) \<in> set (freelist s)" and nz: "n \<le> z"
    using scan.pick_mem [OF pick] scan.pick_fits [OF pick] by auto
  note fc = heap_inv_free_chunk [OF inv mem]
  let ?t = "s\<lparr>freelist := carve (freelist s) i a z n, sizemap := (sizemap s)(a \<mapsto> n)\<rparr>"
  have fin: "finite (dom (sizemap s))" using inv by (simp add: heap_inv_def)
  have "fcover (carve (freelist s) i a z n) x + acover ((sizemap s)(a \<mapsto> n)) x =
      fcover (freelist s) x + acover (sizemap s) x" for x
    using scan.carve_cover [OF pick n(2), of x] acover_upd [OF fin fc(4), of n x] by simp
  then have "heap_inv lo ?t"
    using inv n(2) scan.carve_positive [OF pick] by (simp add: heap_inv_def)
  moreover have "malloc s sz = Inr (?t, a, snd (snd (search (policy s) n (freelist s) 0 None
      (initial_best s) 0)))"
    using Some fc(4) by (simp add: malloc_choose n(1) [symmetric] Let_def r addToMap_def)
  moreover have "0 \<le> a" using fc(1) inv by (simp add: heap_inv_def)
  ultimately show ?thesis using Some r mem nz by blast
qed

lemma mset_insert_free: "mset (insert_free q c fl) = add_mset c (mset fl)"
  by (cases q) (simp_all add: insert_free_def)

lemma coalesce_from_cover:
  "0 < snd cur \<Longrightarrow> \<forall>(a, z) \<in> set fl. 0 < z \<Longrightarrow>
   fcover (coalesce_from cur fl) x = (if covers cur x then 1 else 0) + fcover fl x"
  by (induction cur fl rule: coalesce_from.induct) (auto simp: covers_def)

lemma coalesce_from_positive:
  "0 < snd cur \<Longrightarrow> \<forall>(a, z) \<in> set fl. 0 < z \<Longrightarrow> \<forall>(a, z) \<in> set (coalesce_from cur fl). 0 < z"
  by (induction cur fl rule: coalesce_from.induct) auto

lemma coalesce_list_ok:
  assumes "fl \<noteq> []" and "\<forall>(a, z) \<in> set fl. 0 < z"
  shows "\<exists>fl'. coalesce_list fl = Inr fl' \<and> (\<forall>x. fcover fl' x = fcover fl x) \<and>
    (\<forall>(a, z) \<in> set fl'. 0 < z)"
proof (cases fl)
  case (Cons c fl0)
  then have pos: "0 < snd c" "\<forall>(a, z) \<in> set fl0. 0 < z" using assms(2) by auto
  have "\<forall>x. fcover (coalesce_from c fl0) x = fcover fl x"
    using coalesce_from_cover [OF pos] Cons by simp
  moreover have "\<forall>(a, z) \<in> set (coalesce_from c fl0). 0 < z"
    using pos by (rule coalesce_from_positive)
  ultimately show ?thesis using Cons by auto
qed (use assms in simp)

lemma free_ok:
  assumes inv: "heap_inv lo s"
  shows "\<exists>t rc. free s addr = Inr (t, rc) \<and> heap_inv lo t \<and> rc = (if addr \<in> dom (sizemap s) then 0 else -1) \<and>
    sizemap t = (sizemap s)(addr := None) \<and> policy t = policy s \<and> heap_size t = heap_size s"
proof (cases "sizemap s addr")
  case None
  then have "(sizemap s)(addr := None) = sizemap s" by auto
  with None inv show ?thesis by (simp add: free_def domIff)
next
  case (Some z)
  let ?fl = "insert_free (returnPolicy s) (addr, z) (freelist s)"
  have fin: "finite (dom (sizemap s))" and z: "0 < z" using inv Some by (auto simp: heap_inv_def)
  have m: "mset ?fl = mset ((addr, z) # freelist s)" by (simp add: mset_insert_free)
  have pos: "\<forall>(a, z) \<in> set ?fl. 0 < z"
    using inv z mset_eq_setD [OF m] by (simp add: heap_inv_def)
  have "?fl \<noteq> []" using m by (metis mset_zero_iff list.distinct(1))
  with pos obtain fl' where fl': "(if coalesce s then coalesce_list ?fl else Inr ?fl) = Inr fl'"
      "\<forall>x. fcover fl' x = fcover ?fl x" "\<forall>(a, z) \<in> set fl'. 0 < z"
    by (cases "coalesce s") (auto dest!: coalesce_list_ok)
  have "fcover fl' x + acover ((sizemap s)(addr := None)) x =
      fcover (freelist s) x + acover (sizemap s) x" for x
    using fl'(2) fcover_mset_cong [OF m] acover_del [OF fin Some, of x] by simp
  then have "heap_inv lo (s\<lparr>freelist := fl', sizemap := (sizemap s)(addr := None)\<rparr>)"
    using inv fl'(3) by (auto simp: heap_inv_def)
  with Some fl'(1) show ?thesis by (auto simp: free_def)
qed

section \<open>Address order and coalescing\<close>

text \<open>
  A canonical free list is in address order with a gap after every entry: no two entries
  could be merged. Such a list is determined by the addresses it covers.
\<close>

definition canonical :: "chunk list \<Rightarrow> bool" where
  "canonical fl = (sorted_wrt (\<lambda>c d. fst c + snd c < fst d) fl \<and> (\<forall>(a, z) \<in> set fl. 0 < z))"

lemma sorted_disjoint:
  assumes "sorted (map fst fl)" and "\<forall>(a, z) \<in> set fl. 0 < z" and "\<And>x. fcover fl x \<le> 1"
  shows "sorted_wrt (\<lambda>c d. fst c + snd c \<le> fst d) fl"
  using assms
proof (induction fl)
  case (Cons c fl)
  have "fst c + snd c \<le> fst d" if d: "d \<in> set fl" for d
  proof (rule ccontr)
    assume "\<not> fst c + snd c \<le> fst d"
    moreover have "fst c \<le> fst d" "0 < snd d" using Cons.prems(1,2) d by auto
    ultimately have "covers c (fst d)" "covers d (fst d)" by (auto simp: covers_def)
    with fcover_pos [OF d, of "fst d"] Cons.prems(3) [of "fst d"] show False by simp
  qed
  moreover have "fcover fl x \<le> 1" for x
    using Cons.prems(3) [of x] by (simp split: if_splits)
  ultimately show ?case using Cons by simp
qed simp

lemma coalesce_from_canonical:
  assumes "sorted_wrt (\<lambda>c d. fst c + snd c \<le> fst d) (cur # fl)"
    and "0 < snd cur" and "\<forall>(a, z) \<in> set fl. 0 < z"
  shows "canonical (coalesce_from cur fl) \<and> (\<forall>c \<in> set (coalesce_from cur fl). fst cur \<le> fst c)"
  using assms
proof (induction cur fl rule: coalesce_from.induct)
  case (1 cur)
  then show ?case by (auto simp: canonical_def)
next
  case (2 cur ea es fl)
  show ?case
  proof (cases "ea = fst cur + snd cur")
    case True
    with 2 show ?thesis by (auto simp: add.assoc)
  next
    case False
    with 2 have IH: "canonical (coalesce_from (ea, es) fl)"
      "\<forall>c \<in> set (coalesce_from (ea, es) fl). ea \<le> fst c" by auto
    have gap: "fst cur + snd cur < ea" using False "2.prems"(1) by auto
    with IH "2.prems"(2) False show ?thesis
      by (fastforce simp: canonical_def)
  qed
qed

lemma canonical_Nil_iff: "canonical fl \<Longrightarrow> (\<And>x. fcover fl x = 0) \<Longrightarrow> fl = []"
proof (cases fl)
  case (Cons c fl0)
  assume "canonical fl" "\<And>x. fcover fl x = 0"
  moreover from this Cons have "covers c (fst c)" by (auto simp: canonical_def covers_def)
  ultimately show ?thesis using Cons by (metis fcover_simps(2) nat.distinct(1))
qed simp

lemma canonical_not_below:
  assumes "canonical (c # fl)" and "x < fst c"
  shows "fcover (c # fl) x = 0"
proof -
  have "\<not> covers d x" if "d \<in> set (c # fl)" for d
    using assms that by (fastforce simp: canonical_def covers_def)
  then show ?thesis by (auto simp: fcover_def filter_mset_eq_conv)
qed

lemma canonical_gap:
  assumes "canonical (c # fl)"
  shows "fcover (c # fl) (fst c + snd c) = 0"
proof -
  have "\<not> covers d (fst c + snd c)" if "d \<in> set (c # fl)" for d
    using assms that by (fastforce simp: canonical_def covers_def)
  then show ?thesis by (auto simp: fcover_def filter_mset_eq_conv)
qed

lemma canonical_head_covered:
  "canonical (c # fl) \<Longrightarrow> fst c \<le> x \<Longrightarrow> x < fst c + snd c \<Longrightarrow> fcover (c # fl) x \<noteq> 0"
  by (simp add: covers_def)

lemma canonical_unique:
  "canonical xs \<Longrightarrow> canonical ys \<Longrightarrow> (\<And>x. fcover xs x = fcover ys x) \<Longrightarrow> xs = ys"
proof (induction xs arbitrary: ys)
  case Nil
  then show ?case using canonical_Nil_iff [of ys] by simp
next
  case (Cons c xs)
  then obtain d ys0 where ys: "ys = d # ys0"
    using canonical_Nil_iff [of "c # xs"] by (cases ys) auto
  note cx = Cons.prems(1) and cd = Cons.prems(2) [unfolded ys]
  note eq = Cons.prems(3) [unfolded ys]
  have pos: "0 < snd c" "0 < snd d" using cx cd by (auto simp: canonical_def)
  have "fst c = fst d"
    using canonical_not_below [OF cx, of "fst d"] canonical_not_below [OF cd, of "fst c"]
      canonical_head_covered [OF cx, of "fst c"] canonical_head_covered [OF cd, of "fst d"]
      eq [of "fst c"] eq [of "fst d"] pos by linarith
  moreover from this have "snd c = snd d"
    using canonical_gap [OF cx] canonical_gap [OF cd]
      canonical_head_covered [OF cx, of "fst d + snd d"]
      canonical_head_covered [OF cd, of "fst c + snd c"]
      eq [of "fst c + snd c"] eq [of "fst d + snd d"] pos by linarith
  ultimately have "c = d" by (simp add: prod_eq_iff)
  moreover have "xs = ys0"
  proof (rule Cons.IH)
    show "canonical xs" "canonical ys0" using cx cd by (auto simp: canonical_def)
    show "fcover xs x = fcover ys0 x" for x
      using eq [of x] \<open>c = d\<close> by (simp split: if_splits)
  qed
  ultimately show ?case by (simp add: ys)
qed

lemma carve_canonical:
  assumes "canonical fl" and "i < length fl" and "fl ! i = (a, z)" and "0 < n" and "n \<le> z"
  shows "canonical (carve fl i a z n)"
proof -
  let ?R = "\<lambda>c d :: chunk. fst c + snd c < fst d"
  have sw: "sorted_wrt ?R fl" and pos: "\<forall>(a, z) \<in> set fl. 0 < z"
    using assms(1) by (auto simp: canonical_def)
  have fl: "fl = take i fl @ (a, z) # drop (Suc i) fl"
    using id_take_nth_drop [OF assms(2)] assms(3) by simp
  have parts: "sorted_wrt ?R (take i fl)" "sorted_wrt ?R (drop (Suc i) fl)"
      "\<forall>c \<in> set (take i fl). \<forall>d \<in> set ((a, z) # drop (Suc i) fl). ?R c d"
      "\<forall>d \<in> set (drop (Suc i) fl). ?R (a, z) d"
    using sw by (subst (asm) fl, simp add: sorted_wrt_append)+
  have pos': "\<forall>(a, z) \<in> set (take i fl) \<union> set (drop (Suc i) fl). 0 < z"
    using pos set_take_subset set_drop_subset by fastforce
  show ?thesis
  proof (cases "n < z")
    case True
    with parts pos' assms(2,4) show ?thesis
      by (force simp: canonical_def carve_def upd_conv_take_nth_drop sorted_wrt_append)
  next
    case False
    with parts pos' show ?thesis
      by (force simp: canonical_def carve_def remove_nth_def sorted_wrt_append)
  qed
qed

section \<open>Frame and driver lemmas\<close>

definition heap_ok :: "int \<Rightarrow> malloc_state \<Rightarrow> bool" where
  "heap_ok lo s \<longleftrightarrow> heap_inv lo s \<and> 0 \<le> headerSize s \<and> (align s = -1 \<or> 0 < align s)"







lemma heap_ok_init:
  assumes "malloc_init sz start hdr p q coal al = Inr m" and "0 \<le> start" and "0 < sz" and "0 \<le> hdr"
  shows "heap_ok start m"
  using assms heap_inv_init [OF assms(1-3)]
  by (auto simp: heap_ok_def malloc_init_def split: if_splits)



section \<open>Properties\<close>

definition example_heap :: malloc_state where
  "example_heap = \<lparr>heap_size = 100, headerSize = 4, freelist = [(1000, 100)], sizemap = Map.empty,
     policy = BEST, returnPolicy = ADDRSORT, coalesce = True, align = 4\<rparr>"

lemma example_heap_init:
  "malloc_init 100 1000 4 ''BEST'' ''ADDRSORT'' True 4 = Inr example_heap"
  by (simp add: malloc_init_def example_heap_def)

lemma example_heap_ok: "heap_ok 1000 example_heap"
  using heap_ok_init [OF example_heap_init] by simp

text \<open>
  C1: \<open>malloc\<close> on a partitioned heap never raises, keeps every address in exactly one
  chunk, fails (returns -1, state unchanged) only if no free chunk is large enough, and
  otherwise records one new allocation of the requested (aligned, headed) size.
\<close>

theorem malloc_keeps_partition:
  assumes "heap_inv lo s" and "0 < request_size s sz"
  shows "\<exists>t p c. malloc s sz = Inr (t, p, c) \<and> heap_inv lo t \<and> c \<le> length (freelist s) \<and>
    (if p = -1 then t = s \<and> (\<forall>(a, z) \<in> set (freelist s). z < request_size s sz)
     else sizemap s p = None \<and> sizemap t = (sizemap s)(p \<mapsto> request_size s sz))"
proof -
  have cnt: "c \<le> length (freelist s)" if "malloc s sz = Inr (t, p, c)" for t p c
    using that search_counts [of "policy s" "request_size s sz" "freelist s" 0 None "initial_best s" 0]
    by (auto simp: malloc_choose Let_def split: option.splits prod.splits)
       (metis add_0 prod.collapse)+
  from malloc_ok [OF assms(1) refl assms(2)] show ?thesis
  proof (elim disjE exE conjE)
    fix c assume "malloc s sz = Inr (s, -1, c)" "\<forall>(a, z) \<in> set (freelist s). z < request_size s sz"
    with assms(1) cnt show ?thesis by auto
  next
    fix i a z c t
    assume m: "malloc s sz = Inr (t, a, c)" "(a, z) \<in> set (freelist s)" "0 \<le> a" "heap_inv lo t"
      and t: "t = s\<lparr>freelist := carve (freelist s) i a z (request_size s sz),
        sizemap := (sizemap s)(a \<mapsto> request_size s sz)\<rparr>"
    have "sizemap s a = None" by (rule heap_inv_free_chunk(4) [OF assms(1) m(2)])
    with m cnt [OF m(1)] show ?thesis
      by (intro exI [of _ t] exI [of _ a] exI [of _ c]) (simp add: t)
  qed
qed

theorem malloc_keeps_partition_witness:
  "\<exists>t p c. malloc example_heap 10 = Inr (t, p, c) \<and> heap_inv 1000 t \<and>
     c \<le> length (freelist example_heap) \<and>
     (if p = -1 then t = example_heap \<and>
        (\<forall>(a, z) \<in> set (freelist example_heap). z < request_size example_heap 10)
      else sizemap example_heap p = None \<and>
        sizemap t = (sizemap example_heap)(p \<mapsto> request_size example_heap 10))"
  by (rule malloc_keeps_partition)
     (use example_heap_ok in \<open>auto simp: heap_ok_def request_size_def example_heap_def\<close>)

text \<open>
  C2: \<open>free\<close> on a partitioned heap never raises and keeps the partition, whatever the list
  order and with or without coalescing; it returns 0 exactly for an allocated address and
  then forgets that address alone.
\<close>

theorem free_keeps_partition:
  assumes "heap_inv lo s"
  shows "\<exists>t rc. free s addr = Inr (t, rc) \<and> heap_inv lo t \<and>
    rc = (if addr \<in> dom (sizemap s) then 0 else -1) \<and> sizemap t = (sizemap s)(addr := None)"
  using free_ok [OF assms] by blast

theorem free_keeps_partition_witness:
  "\<exists>t rc. free example_heap 1000 = Inr (t, rc) \<and> heap_inv 1000 t \<and>
    rc = (if 1000 \<in> dom (sizemap example_heap) then 0 else -1) \<and>
    sizemap t = (sizemap example_heap)(1000 := None)"
  by (rule free_keeps_partition) (use example_heap_ok in \<open>simp add: heap_ok_def\<close>)

text \<open>
  the search policies. A successful \<open>malloc\<close> carves its chunk from the front of a free
  chunk that is large enough and that is a smallest such one under BEST, a largest one under
  WORST and the first one in list order under FIRST.
\<close>

theorem malloc_policy:
  assumes inv: "heap_inv lo s" and n: "n = request_size s sz" "0 < n"
    and ok: "malloc s sz = Inr (t, p, c)" "p \<noteq> -1"
  shows "\<exists>i z. i < length (freelist s) \<and> freelist s ! i = (p, z) \<and> n \<le> z \<and>
    (policy s = BEST \<longrightarrow> (\<forall>(a, y) \<in> set (freelist s). n \<le> y \<longrightarrow> z \<le> y)) \<and>
    (policy s = WORST \<longrightarrow> (\<forall>(a, y) \<in> set (freelist s). n \<le> y \<longrightarrow> y \<le> z)) \<and>
    (policy s = FIRST \<longrightarrow> (\<forall>j < i. snd (freelist s ! j) < n))"
proof -
  obtain i z c where pick: "choose_chunk (policy s) (initial_best s) (freelist s) n = Some (i, p, z)"
    using malloc_ok [OF inv n] ok by auto
  then obtain c where sr: "search (policy s) n (freelist s) 0 None (initial_best s) 0 = (Some (i, p), z, c)"
    by (rule choose_chunk_Some)
  have "i < length (freelist s) \<and> freelist s ! i = (p, z) \<and> n \<le> z"
    by (rule scan.pick_fits [OF pick [unfolded initial_best_def]])
  moreover have "\<forall>(a, y) \<in> set (freelist s). n \<le> y \<longrightarrow> z \<le> y" if "policy s = BEST"
    using search_best sr that by metis
  moreover have "\<forall>(a, y) \<in> set (freelist s). n \<le> y \<longrightarrow> y \<le> z" if "policy s = WORST"
    using search_worst sr that by metis
  moreover have "\<forall>j < i. snd (freelist s ! j) < n" if "policy s = FIRST"
    using search_first [of n "freelist s" 0 "initial_best s" 0] sr that by simp
  ultimately show ?thesis by blast
qed

definition example_heap2 :: malloc_state where
  "example_heap2 = example_heap\<lparr>freelist := [(1016, 84)], sizemap := [1000 \<mapsto> 16]\<rparr>"

lemma example_malloc: "malloc example_heap 10 = Inr (example_heap2, 1000, 1)"
  by (simp add: malloc_def example_heap_def example_heap2_def request_size_def initial_best_def
      addToMap_def)

theorem malloc_policy_witness:
  "\<exists>i z. i < length (freelist example_heap) \<and> freelist example_heap ! i = (1000, z) \<and> 16 \<le> z \<and>
    (policy example_heap = BEST \<longrightarrow> (\<forall>(a, y) \<in> set (freelist example_heap). 16 \<le> y \<longrightarrow> z \<le> y)) \<and>
    (policy example_heap = WORST \<longrightarrow> (\<forall>(a, y) \<in> set (freelist example_heap). 16 \<le> y \<longrightarrow> y \<le> z)) \<and>
    (policy example_heap = FIRST \<longrightarrow> (\<forall>j < i. snd (freelist example_heap ! j) < 16))"
  by (rule malloc_policy [OF _ _ _ example_malloc])
     (use example_heap_ok in \<open>simp_all add: heap_ok_def request_size_def example_heap_def\<close>)

lemma free_canonical:
  assumes inv: "heap_inv lo s" and q: "returnPolicy s = ADDRSORT" "coalesce s"
    and a: "sizemap s addr = Some z" and f: "free s addr = Inr (t, rc)"
  shows "canonical (freelist t)"
proof -
  let ?fl = "sort_key fst (freelist s @ [(addr, z)])"
  have m: "mset ?fl = mset ((addr, z) # freelist s)" by simp
  have fin: "finite (dom (sizemap s))" and z: "0 < z" using inv a by (auto simp: heap_inv_def)
  have pos: "\<forall>(a, z) \<in> set ?fl. 0 < z" using inv z by (simp add: heap_inv_def)
  have "fcover ?fl x \<le> 1" for x
  proof -
    have "fcover ?fl x + acover ((sizemap s)(addr := None)) x =
        fcover (freelist s) x + acover (sizemap s) x"
      using fcover_mset_cong [OF m] acover_del [OF fin a, of x] by simp
    also have "\<dots> \<le> 1" using inv by (simp add: heap_inv_def)
    finally show ?thesis by simp
  qed
  then have "sorted_wrt (\<lambda>c d. fst c + snd c \<le> fst d) ?fl"
    using sorted_disjoint [of ?fl] pos by simp
  moreover obtain c fl0 where cons: "?fl = c # fl0"
    by (cases ?fl) (metis m mset_zero_iff list.distinct(1), blast)
  ultimately have "canonical (coalesce_from c fl0)"
    using coalesce_from_canonical [of c fl0] pos by (auto simp del: sort_key_simps)
  moreover have "freelist t = coalesce_from c fl0"
    using f a q cons by (auto simp: free_def insert_free_def)
  ultimately show ?thesis by simp
qed

text \<open>
  C9: with address order and coalescing, the free list stays in address order with no two
  adjacent chunks left unmerged, through every \<open>malloc\<close> and \<open>free\<close>; and freeing what was just
  allocated restores the free list exactly.
\<close>

theorem addrsort_coalesce_roundtrip:
  assumes inv: "heap_inv lo s" and can: "canonical (freelist s)"
    and q: "returnPolicy s = ADDRSORT" "coalesce s" and n: "0 < request_size s sz"
    and ok: "malloc s sz = Inr (t, p, c)" "p \<noteq> -1"
  shows "canonical (freelist t) \<and> (\<exists>u. free t p = Inr (u, 0) \<and> u = s)"
proof -
  obtain i z where pick: "choose_chunk (policy s) (initial_best s) (freelist s) (request_size s sz) = Some (i, p, z)"
      and t: "t = s\<lparr>freelist := carve (freelist s) i p z (request_size s sz),
        sizemap := (sizemap s)(p \<mapsto> request_size s sz)\<rparr>"
      and tinv: "heap_inv lo t" and mem: "(p, z) \<in> set (freelist s)"
    using malloc_ok [OF inv refl n] ok by auto
  have fit: "i < length (freelist s)" "freelist s ! i = (p, z)" "request_size s sz \<le> z"
    using scan.pick_fits [OF pick [unfolded initial_best_def]] by auto
  have ct: "canonical (freelist t)" using carve_canonical [OF can fit(1,2) n fit(3)] t by simp
  have at: "sizemap t p = Some (request_size s sz)" by (simp add: t)
  obtain u rc where u: "free t p = Inr (u, rc)" "heap_inv lo u" "rc = 0" "sizemap u = (sizemap t)(p := None)"
    using free_ok [OF tinv, of p] domI [of "sizemap t" p, OF at] by auto
  have "canonical (freelist u)"
    using free_canonical [OF tinv _ _ at u(1)] q by (simp add: t)
  moreover have smap: "sizemap u = sizemap s"
    using u(4) heap_inv_free_chunk(4) [OF inv mem] by (auto simp: t)
  moreover have hs: "heap_size u = heap_size s" "u = s\<lparr>freelist := freelist u\<rparr>"
    using u(1) at smap by (auto simp: free_def t Let_def split: option.splits)
  moreover have "fcover (freelist u) x = fcover (freelist s) x" for x
    using u(2) inv smap hs(1) unfolding heap_inv_def by (metis add_right_cancel)
  ultimately have "freelist u = freelist s" using canonical_unique [OF _ can] by blast
  with hs(2) u ct show ?thesis by simp
qed

theorem addrsort_coalesce_roundtrip_witness:
  "canonical (freelist example_heap2) \<and> (\<exists>u. free example_heap2 1000 = Inr (u, 0) \<and> u = example_heap)"
  by (rule addrsort_coalesce_roundtrip [OF _ _ _ _ _ example_malloc])
     (use example_heap_ok in
       \<open>simp_all add: heap_ok_def request_size_def example_heap_def canonical_def\<close>)



text \<open>
  the operation list loses releases. The bound test compares the pointer number with the
  number of successful allocations, so after one failed allocation the release of a live
  pointer is skipped: \<open>-A +200,+10,-1\<close> on a heap of 100 leaves the chunk of pointer 1 allocated.
\<close>

theorem opslist_skips_live_pointer:
  "\<exists>m d. malloc_init 100 1000 0 ''BEST'' ''ADDRSORT'' True (-1) = Inr m \<and>
     run_ops [Alloc 200, Alloc 10] m = Inr d \<and> map_of (ptrs d) 1 = Some 1000 \<and>
     sizemap (heap d) 1000 = Some 10 \<and> run_ops [Alloc 200, Alloc 10, Free 1] m = Inr d"
  by (simp add: malloc_init_def run_ops_def run_op_def malloc_def request_size_def
      initial_best_def addToMap_def)

end
