(* ===== verification/PyString.thy ===== *)
theory PyString
  imports Prelude "HOL-Library.Char_ord"
begin

text \<open>
  The string operations of Python the programs parse their arguments with: \<open>split\<close> on a
  character and on white space, \<open>strip\<close>, \<open>isdigit\<close>, \<open>int(...)\<close> and \<open>str(...)\<close>, and the
  size parser \<open>convert\<close> that five of the simulators share. Strings are lists of characters.
\<close>

section \<open>White space, strip, split\<close>

definition is_space :: "char \<Rightarrow> bool" where
  "is_space c = (of_char c \<in> {32, 9, 10, 11, 12, 13 :: nat})"

definition py_rstrip :: "string \<Rightarrow> string" where
  "py_rstrip s = rev (dropWhile is_space (rev s))"

definition py_strip :: "string \<Rightarrow> string" where
  "py_strip s = py_rstrip (dropWhile is_space s)"

fun split_on :: "char \<Rightarrow> string \<Rightarrow> string list" where
  "split_on c [] = [[]]"
| "split_on c (x # xs) =
     (if x = c then [] # split_on c xs
      else (case split_on c xs of [] \<Rightarrow> [[x]] | y # ys \<Rightarrow> (x # y) # ys))"

lemma length_dropWhile_less: "t \<noteq> [] \<Longrightarrow> P (hd t) \<Longrightarrow> length (dropWhile P t) < length t"
  using length_dropWhile_le [of P "tl t"] by (cases t) (auto simp: le_less_trans)

text \<open>\<open>s.split()\<close>: the maximal runs of other characters.\<close>

function split_ws :: "string \<Rightarrow> string list" where
  "split_ws s =
     (let t = dropWhile is_space s in
      if t = [] then []
      else takeWhile (\<lambda>c. \<not> is_space c) t # split_ws (dropWhile (\<lambda>c. \<not> is_space c) t))"
  by pat_completeness auto
termination
proof (relation "measure length")
  fix s t :: string
  assume t: "t = dropWhile is_space s" and ne: "t \<noteq> []"
  have "\<not> is_space (hd t)" using hd_dropWhile [of is_space s] t ne by simp
  then have "length (dropWhile (\<lambda>c. \<not> is_space c) t) < length t"
    using length_dropWhile_less [OF ne] by simp
  also have "\<dots> \<le> length s" using t length_dropWhile_le by auto
  finally show "(dropWhile (\<lambda>c. \<not> is_space c) t, s) \<in> measure length" by simp
qed simp

declare split_ws.simps [simp del]

text \<open>\<open>s.split(None, 1)\<close>: the first word and the rest of the line.\<close>

definition split_word :: "string \<Rightarrow> string list" where
  "split_word s =
     (let t = dropWhile is_space s in
      if t = [] then []
      else let rest = dropWhile is_space (dropWhile (\<lambda>c. \<not> is_space c) t) in
        takeWhile (\<lambda>c. \<not> is_space c) t # (if rest = [] then [] else [rest]))"

text \<open>\<open>s.split(c, 1)\<close>.\<close>

definition split_once :: "char \<Rightarrow> string \<Rightarrow> string list" where
  "split_once c s =
     (if c \<in> set s then [takeWhile (\<lambda>x. x \<noteq> c) s, tl (dropWhile (\<lambda>x. x \<noteq> c) s)] else [s])"

text \<open>\<open>s.split(sep)\<close> for a separator of any length, and \<open>s.replace(sep, new)\<close>.\<close>

function split_str :: "string \<Rightarrow> string \<Rightarrow> string list" where
  "split_str sep s =
     (if s = [] \<or> sep = [] then [s]
      else if take (length sep) s = sep then [] # split_str sep (drop (length sep) s)
      else (case split_str sep (tl s) of [] \<Rightarrow> [[hd s]] | y # ys \<Rightarrow> (hd s # y) # ys))"
  by pat_completeness auto
termination by (relation "measure (length \<circ> snd)") auto

declare split_str.simps [simp del]

fun join_str :: "string \<Rightarrow> string list \<Rightarrow> string" where
  "join_str sep [] = []"
| "join_str sep [s] = s"
| "join_str sep (s # t # ts) = s @ sep @ join_str sep (t # ts)"

definition py_replace :: "string \<Rightarrow> string \<Rightarrow> string \<Rightarrow> string" where
  "py_replace old new s = join_str new (split_str old s)"

fun join_with :: "char \<Rightarrow> string list \<Rightarrow> string" where
  "join_with c [] = []"
| "join_with c [s] = s"
| "join_with c (s # t # ts) = s @ c # join_with c (t # ts)"

lemma split_on_nonempty [simp]: "split_on c s \<noteq> []"
  by (induction s) (auto split: list.splits)

lemma join_split: "join_with c (split_on c s) = s"
proof (induction s)
  case (Cons x xs)
  obtain y ys where "split_on c xs = y # ys" by (cases "split_on c xs") auto
  with Cons show ?case by (cases ys) auto
qed simp

lemma split_on_no_sep: "c \<notin> set s \<Longrightarrow> split_on c s = [s]"
  by (induction s) auto

lemma split_on_append:
  "c \<notin> set s \<Longrightarrow> split_on c (s @ c # t) = s # split_on c t"
  by (induction s) auto

lemma split_join:
  "ss \<noteq> [] \<Longrightarrow> \<forall>s \<in> set ss. c \<notin> set s \<Longrightarrow> split_on c (join_with c ss) = ss"
  by (induction c ss rule: join_with.induct) (auto simp: split_on_no_sep split_on_append)

section \<open>Numbers\<close>

definition is_digit :: "char \<Rightarrow> bool" where
  "is_digit c = (48 \<le> (of_char c :: nat) \<and> (of_char c :: nat) \<le> 57)"

definition digit_val :: "char \<Rightarrow> nat" where
  "digit_val c = of_char c - 48"

definition is_alpha :: "char \<Rightarrow> bool" where
  "is_alpha c = (let n = (of_char c :: nat) in (65 \<le> n \<and> n \<le> 90) \<or> (97 \<le> n \<and> n \<le> 122))"

definition py_isdigit :: "string \<Rightarrow> bool" where
  "py_isdigit s = (s \<noteq> [] \<and> list_all is_digit s)"

definition digits_val :: "string \<Rightarrow> nat" where
  "digits_val s = foldl (\<lambda>n c. 10 * n + digit_val c) 0 s"

text \<open>\<open>int(s)\<close>: surrounding white space, an optional sign, at least one digit.\<close>

definition py_int :: "string \<Rightarrow> int res" where
  "py_int s =
     (let t = py_strip s in
      case t of
        [] \<Rightarrow> Inl ValueError
      | c # u \<Rightarrow>
          if c = CHR ''-'' then (if py_isdigit u then Inr (- int (digits_val u)) else Inl ValueError)
          else if c = CHR ''+'' then (if py_isdigit u then Inr (int (digits_val u)) else Inl ValueError)
          else if py_isdigit t then Inr (int (digits_val t)) else Inl ValueError)"

text \<open>\<open>float(s)\<close> for decimal notation with an optional fraction; the exponent forms and the
  names of the special values are left out.\<close>

definition py_ufloat :: "string \<Rightarrow> rat res" where
  "py_ufloat s =
     (case split_on CHR ''.'' s of
        [a] \<Rightarrow> if py_isdigit a then Inr (of_nat (digits_val a)) else Inl ValueError
      | [a, b] \<Rightarrow> if py_isdigit (a @ b) then Inr (of_nat (digits_val (a @ b)) / 10 ^ length b)
                  else Inl ValueError
      | _ \<Rightarrow> Inl ValueError)"

definition py_float :: "string \<Rightarrow> rat res" where
  "py_float s =
     (case py_strip s of
        [] \<Rightarrow> Inl ValueError
      | c # u \<Rightarrow> if c = CHR ''-'' then rbind (py_ufloat u) (\<lambda>x. Inr (- x))
                 else if c = CHR ''+'' then py_ufloat u else py_ufloat (c # u))"

fun show_nat :: "nat \<Rightarrow> string" where
  "show_nat n = (if n < 10 then [char_of (n + 48)] else show_nat (n div 10) @ [char_of (n mod 10 + 48)])"

declare show_nat.simps [simp del]

definition py_str :: "int \<Rightarrow> string" where
  "py_str n = (if n < 0 then CHR ''-'' # show_nat (nat (- n)) else show_nat (nat n))"

lemma of_char_digit: "d < 10 \<Longrightarrow> (of_char (char_of (d + 48) :: char) :: nat) = d + 48"
  by (simp add: of_char_of)

lemma digit_char: "d < 10 \<Longrightarrow> is_digit (char_of (d + 48)) \<and> digit_val (char_of (d + 48)) = d"
  by (simp add: is_digit_def digit_val_def of_char_of)

lemma show_nat_digits: "py_isdigit (show_nat n)"
proof (induction n rule: show_nat.induct)
  case (1 n)
  then show ?case
    by (subst show_nat.simps) (auto simp: py_isdigit_def digit_char)
qed

lemma digits_val_snoc: "digits_val (s @ [c]) = 10 * digits_val s + digit_val c"
  by (simp add: digits_val_def)

lemma digits_val_show: "digits_val (show_nat n) = n"
proof (induction n rule: show_nat.induct)
  case (1 n)
  show ?case
  proof (cases "n < 10")
    case True
    then show ?thesis by (subst show_nat.simps) (simp add: digits_val_def digit_char)
  next
    case False
    then have "digits_val (show_nat n) = 10 * digits_val (show_nat (n div 10)) + n mod 10"
      by (subst show_nat.simps) (simp add: digits_val_snoc digit_char)
    with 1 False show ?thesis by simp
  qed
qed

lemma digit_not_space: "is_digit c \<Longrightarrow> \<not> is_space c"
  by (auto simp: is_digit_def is_space_def)

lemma strip_id:
  assumes "s \<noteq> []" and "\<not> is_space (hd s)" and "\<not> is_space (last s)"
  shows "py_strip s = s"
proof -
  have "dropWhile is_space s = s" using assms(1,2) by (cases s) auto
  moreover have "dropWhile is_space (rev s) = rev s"
    using assms(1,3) by (cases s rule: rev_cases) auto
  ultimately show ?thesis by (simp add: py_strip_def py_rstrip_def)
qed

lemma isdigit_hd_last: "py_isdigit s \<Longrightarrow> s \<noteq> [] \<and> is_digit (hd s) \<and> is_digit (last s)"
  by (auto simp: py_isdigit_def list_all_iff)

lemma py_int_digits: "py_isdigit s \<Longrightarrow> py_int s = Inr (int (digits_val s))"
proof -
  assume d: "py_isdigit s"
  then have "py_strip s = s"
    using strip_id [of s] isdigit_hd_last [OF d] digit_not_space by blast
  moreover obtain c u where "s = c # u" "is_digit c"
    using isdigit_hd_last [OF d] by (cases s) auto
  moreover from this have "c \<noteq> CHR ''-''" "c \<noteq> CHR ''+''" by (auto simp: is_digit_def)
  ultimately show ?thesis using d by (simp add: py_int_def)
qed

lemma py_int_neg: "py_isdigit s \<Longrightarrow> py_int (CHR ''-'' # s) = Inr (- int (digits_val s))"
proof -
  assume d: "py_isdigit s"
  have "py_strip (CHR ''-'' # s) = CHR ''-'' # s"
    using isdigit_hd_last [OF d] digit_not_space by (intro strip_id) (auto simp: is_space_def)
  with d show ?thesis by (simp add: py_int_def)
qed

lemma py_int_str: "py_int (py_str n) = Inr n"
  using show_nat_digits digits_val_show by (simp add: py_str_def py_int_digits py_int_neg)

lemma py_str_nonempty [simp]: "py_str n \<noteq> []"
  using isdigit_hd_last [OF show_nat_digits] by (auto simp: py_str_def)

section \<open>Sizes with a unit suffix\<close>

definition convert :: "string \<Rightarrow> int res" where
  "convert s =
     (if s = [] then Inl IndexError
      else let lastchar = last s; front = butlast s in
        if lastchar = CHR ''k'' \<or> lastchar = CHR ''K'' then
          rbind (py_int front) (\<lambda>n. Inr (n * 1024))
        else if lastchar = CHR ''m'' \<or> lastchar = CHR ''M'' then
          rbind (py_int front) (\<lambda>n. Inr (n * (1024 * 1024)))
        else if lastchar = CHR ''g'' \<or> lastchar = CHR ''G'' then
          rbind (py_int front) (\<lambda>n. Inr (n * (1024 * 1024 * 1024)))
        else py_int s)"

definition unit_factor :: "string \<Rightarrow> int" where
  "unit_factor u =
     (if u \<in> {''k'', ''K''} then 2 ^ 10 else if u \<in> {''m'', ''M''} then 2 ^ 20
      else if u \<in> {''g'', ''G''} then 2 ^ 30 else 1)"

lemma py_str_last: "last (py_str n) \<notin> set ''kKmMgG''"
proof -
  have "is_digit (last (py_str n))"
    using isdigit_hd_last [OF show_nat_digits] by (auto simp: py_str_def)
  then show ?thesis by (auto simp: is_digit_def)
qed

text \<open>
  \<open>convert\<close> reads back every printed size: a number followed by nothing or by one of
  the unit letters k, m, g in either case gives the number times the power of 1024.
\<close>

theorem convert_reads_sizes:
  assumes "u \<in> {'''', ''k'', ''K'', ''m'', ''M'', ''g'', ''G''}"
  shows "convert (py_str n @ u) = Inr (n * unit_factor u)"
proof (cases "u = ''''")
  case True
  with py_str_last [of n] show ?thesis
    by (auto simp: convert_def unit_factor_def py_int_str Let_def)
next
  case False
  with assms show ?thesis
    by (auto simp: convert_def unit_factor_def py_int_str Let_def)
qed

theorem convert_reads_sizes_witness: "convert (py_str 4 @ ''k'') = Inr (4 * unit_factor ''k'')"
  by (rule convert_reads_sizes) simp

end
