(* ===== verification/Raid.thy ===== *)
theory Raid
  imports PyString
begin

text \<open>
  The RAID simulator of \<open>src/Sem3/BSYS/38_RAID/raid.py\<close>: class \<open>disk\<close> (request accounting),
  class \<open>raid\<close> with the block maps of levels 0, 1, 4 and 5, the parity write routine and the
  request loop of the main program. Division of integers is Python 2's floor division. The
  printed physical operations are kept as the list \<open>ops\<close>: one entry for each call of
  \<open>disks[d].enqueue(off)\<close>, in order. Times are rationals.
\<close>

section \<open>Disks\<close>

record disk =
  seekTime :: rat
  xferTime :: rat
  currAddr :: int
  countIO :: int
  countSeq :: int
  countNseq :: int
  countRand :: int
  utilTime :: rat

definition new_disk :: disk where
  "new_disk = \<lparr>seekTime = 10, xferTime = 1 / 10, currAddr = -10000, countIO = 0, countSeq = 0,
     countNseq = 0, countRand = 0, utilTime = 0\<rparr>"

definition numTracks :: int where "numTracks = 100"
definition blocksPerTrack :: int where "blocksPerTrack = 100"
definition blocksPerDisk :: int where "blocksPerDisk = numTracks * blocksPerTrack"

definition disk_enqueue :: "disk \<Rightarrow> int \<Rightarrow> disk res" where
  "disk_enqueue d addr =
     rbind (py_assert (addr < blocksPerDisk)) (\<lambda>_.
       (let d1 = d\<lparr>countIO := countIO d + 1\<rparr>;
            currTrack = currAddr d div numTracks;
            newTrack = addr div numTracks;
            diff = (if addr - currAddr d < 0 then - (addr - currAddr d) else addr - currAddr d);
            d2 = (if currTrack = newTrack \<or> diff < blocksPerTrack
                  then (if diff = 1 then d1\<lparr>countSeq := countSeq d + 1\<rparr>
                        else d1\<lparr>countNseq := countNseq d + 1\<rparr>)
                         \<lparr>utilTime := utilTime d + of_int diff * xferTime d\<rparr>
                  else d1\<lparr>countRand := countRand d + 1,
                          utilTime := utilTime d + (seekTime d + xferTime d)\<rparr>)
        in Inr (d2\<lparr>currAddr := addr\<rparr>)))"

section \<open>The array\<close>

datatype raid5_layout = LA | LS | OtherLayout

datatype phys_op = Read int int | Write int int

record raid =
  chunkSize :: int
  numDisks :: int
  raidLevel :: int
  raid5type :: raid5_layout
  blocksInStripe :: int
  pdisk :: int
  disks :: "disk list"
  ops :: "phys_op list"

definition BLOCKSIZE :: int where "BLOCKSIZE = 4096"

definition raid_init :: "string \<Rightarrow> int \<Rightarrow> int \<Rightarrow> raid5_layout \<Rightarrow> raid res" where
  "raid_init chunk nd level layout =
     rbind (convert chunk) (\<lambda>cs.
       if cs mod BLOCKSIZE \<noteq> 0 then Inl SystemExit
       else if level = 1 \<and> nd mod 2 \<noteq> 0 then Inl SystemExit
       else let c = cs div BLOCKSIZE in
         Inr \<lparr>chunkSize = c, numDisks = nd, raidLevel = level, raid5type = layout,
              blocksInStripe = (if level = 4 \<or> level = 5 then (nd - 1) * c else 0),
              pdisk = (if level = 4 then nd - 1 else -1),
              disks = replicate (nat nd) new_disk, ops = []\<rparr>)"

definition raid_go :: "raid \<Rightarrow> rat" where
  "raid_go r = foldl (\<lambda>tmax d. if utilTime d > tmax then utilTime d else tmax) 0 (disks r)"

definition do_op :: "phys_op \<Rightarrow> raid \<Rightarrow> raid res" where
  "do_op op r =
     (let (dk, off) = (case op of Read d k \<Rightarrow> (d, k) | Write d k \<Rightarrow> (d, k)) in
      rbind (py_nth (disks r) dk) (\<lambda>d.
      rbind (disk_enqueue d off) (\<lambda>d'.
      rbind (py_set (disks r) dk d') (\<lambda>ds.
        Inr (r\<lparr>disks := ds, ops := ops r @ [op]\<rparr>)))))"

definition doSingleRead :: "int \<Rightarrow> int \<Rightarrow> raid \<Rightarrow> raid res" where
  "doSingleRead dk off = do_op (Read dk off)"

definition doSingleWrite :: "int \<Rightarrow> int \<Rightarrow> raid \<Rightarrow> raid res" where
  "doSingleWrite dk off = do_op (Write dk off)"

section \<open>Block maps\<close>

definition bmap0 :: "raid \<Rightarrow> int \<Rightarrow> (int \<times> int) res" where
  "bmap0 r bnum =
     (if chunkSize r = 0 \<or> numDisks r = 0 then Inl ZeroDivisionError
      else let cnum = bnum div chunkSize r; coff = bnum mod chunkSize r in
        Inr (cnum mod numDisks r, (cnum div numDisks r) * chunkSize r + coff))"

definition bmap1 :: "raid \<Rightarrow> int \<Rightarrow> (int \<times> int \<times> int) res" where
  "bmap1 r bnum =
     (if chunkSize r = 0 \<or> numDisks r div 2 = 0 then Inl ZeroDivisionError
      else let cnum = bnum div chunkSize r; coff = bnum mod chunkSize r;
               dk = 2 * (cnum mod (numDisks r div 2)) in
        Inr (dk, dk + 1, (cnum div (numDisks r div 2)) * chunkSize r + coff))"

definition bmap4 :: "raid \<Rightarrow> int \<Rightarrow> (int \<times> int) res" where
  "bmap4 r bnum =
     (if chunkSize r = 0 \<or> numDisks r - 1 = 0 then Inl ZeroDivisionError
      else let cnum = bnum div chunkSize r; coff = bnum mod chunkSize r in
        Inr (cnum mod (numDisks r - 1), (cnum div (numDisks r - 1)) * chunkSize r + coff))"

definition pmap4 :: "raid \<Rightarrow> int \<Rightarrow> int res" where
  "pmap4 r snum = Inr (pdisk r)"

definition bmap5_full :: "raid \<Rightarrow> int \<Rightarrow> (int \<times> int \<times> int) res" where
  "bmap5_full r bnum =
     (if chunkSize r = 0 \<or> numDisks r - 1 = 0 \<or> numDisks r = 0 then Inl ZeroDivisionError
      else let cnum = bnum div chunkSize r; coff = bnum mod chunkSize r;
               ddsk = cnum div (numDisks r - 1);
               doff = ddsk * chunkSize r + coff;
               dk = cnum mod (numDisks r - 1);
               col = ddsk mod numDisks r;
               pd = (numDisks r - 1) - col
           in rbind (case raid5type r of
                       LA \<Rightarrow> Inr (if dk \<ge> pd then dk + 1 else dk)
                     | LS \<Rightarrow> Inr ((dk - col) mod numDisks r)
                     | OtherLayout \<Rightarrow> Inl SystemExit) (\<lambda>dk'.
              rbind (py_assert (dk' \<noteq> pd)) (\<lambda>_. Inr (dk', pd, doff))))"

definition bmap5 :: "raid \<Rightarrow> int \<Rightarrow> (int \<times> int) res" where
  "bmap5 r bnum = rbind (bmap5_full r bnum) (\<lambda>(dk, pd, off). Inr (dk, off))"

definition pmap5 :: "raid \<Rightarrow> int \<Rightarrow> int res" where
  "pmap5 r snum = rbind (bmap5_full r (snum * blocksInStripe r)) (\<lambda>(dk, pd, off). Inr pd)"

section \<open>Requests\<close>

definition enqueue0 :: "raid \<Rightarrow> int \<Rightarrow> int \<Rightarrow> bool \<Rightarrow> raid res" where
  "enqueue0 r addr sz isWrite =
     rfold (\<lambda>b s. rbind (bmap0 r b) (\<lambda>(dk, off).
              if isWrite then doSingleWrite dk off s else doSingleRead dk off s))
       [addr..addr + sz - 1] r"

definition enqueue1 :: "raid \<Rightarrow> int \<Rightarrow> int \<Rightarrow> bool \<Rightarrow> raid res" where
  "enqueue1 r addr sz isWrite =
     rfold (\<lambda>b s. rbind (bmap1 r b) (\<lambda>(disk1, disk2, off).
              if isWrite then rbind (doSingleWrite disk1 off s) (doSingleWrite disk2 off)
              else if off mod 2 = 0 then doSingleRead disk1 off s else doSingleRead disk2 off s))
       [addr..addr + sz - 1] r"

text \<open>
  \<open>doPartialWrite\<close>: reads for the old data (subtractive parity) or for the rest of the
  stripe (additive parity), then the data writes and one parity write for each offset.
\<close>

definition note_off :: "int \<Rightarrow> int list \<Rightarrow> int list" where
  "note_off off offList = (if off \<in> set offList then offList else offList @ [off])"

definition access_range ::
  "(int \<Rightarrow> (int \<times> int) res) \<Rightarrow> (int \<Rightarrow> int \<Rightarrow> raid \<Rightarrow> raid res) \<Rightarrow> int list \<Rightarrow> raid \<Rightarrow>
   (raid \<times> int list) res" where
  "access_range bmap act vs r =
     rfold (\<lambda>v (s, offList). rbind (bmap v) (\<lambda>(dk, off).
              rbind (act dk off s) (\<lambda>s'. Inr (s', note_off off offList)))) vs (r, [])"

definition doPartialWrite ::
  "int \<Rightarrow> int \<Rightarrow> int \<Rightarrow> (int \<Rightarrow> (int \<times> int) res) \<Rightarrow> (int \<Rightarrow> int res) \<Rightarrow> raid \<Rightarrow> raid res" where
  "doPartialWrite stripe begin end bmap pmap r =
     (let numWrites = end - begin; bis = blocksInStripe r in
      rbind (pmap stripe) (\<lambda>pd.
      rbind (if numWrites + 1 \<le> bis - numWrites then
               rbind (access_range bmap doSingleRead [begin..end - 1] r) (\<lambda>(s, offList).
                 rfold (\<lambda>off t. doSingleRead pd off t) offList s)
             else
               (let stripeBegin = stripe * bis; stripeEnd = stripeBegin + bis;
                    rd = (\<lambda>v t. rbind (bmap v) (\<lambda>(dk, off). doSingleRead dk off t)) in
                rbind (rfold rd [stripeBegin..begin - 1] r) (\<lambda>s.
                  rfold rd [end..stripeEnd - 1] s))) (\<lambda>s.
      rbind (access_range bmap doSingleWrite [begin..end - 1] s) (\<lambda>(t, offList).
        rfold (\<lambda>off u. doSingleWrite pd off u) offList t))))"

text \<open>The stripe loop of a write request, over the stripe numbers still to do.\<close>

fun write_stripes ::
  "(int \<Rightarrow> (int \<times> int) res) \<Rightarrow> (int \<Rightarrow> int res) \<Rightarrow> int list \<Rightarrow> int \<Rightarrow> int \<Rightarrow> raid \<Rightarrow> raid res" where
  "write_stripes bmap pmap [] left begin r = Inr r"
| "write_stripes bmap pmap (stripe # stripes) left begin r =
     (let bis = blocksInStripe r;
          endOfStripe = stripe * bis + bis;
          end0 = (if left \<ge> bis then begin + bis else begin + left);
          end = (if end0 \<ge> endOfStripe then endOfStripe else end0)
      in rbind (doPartialWrite stripe begin end bmap pmap r) (\<lambda>s.
           write_stripes bmap pmap stripes (left - (end - begin)) end s))"

definition enqueue45 :: "raid \<Rightarrow> int \<Rightarrow> int \<Rightarrow> bool \<Rightarrow> raid res" where
  "enqueue45 r addr sz isWrite =
     (let (bmap, pmap) = (if raidLevel r = 4 then (bmap4 r, pmap4 r) else (bmap5 r, pmap5 r)) in
      if \<not> isWrite then
        rfold (\<lambda>b s. rbind (bmap b) (\<lambda>(dk, off). doSingleRead dk off s)) [addr..addr + sz - 1] r
      else if blocksInStripe r = 0 then Inl ZeroDivisionError
      else write_stripes bmap pmap
             [addr div blocksInStripe r..(addr + sz - 1) div blocksInStripe r] sz addr r)"

definition enqueue :: "int \<Rightarrow> int \<Rightarrow> bool \<Rightarrow> raid \<Rightarrow> raid res" where
  "enqueue addr sz isWrite r =
     (if raidLevel r = 0 then enqueue0 r addr sz isWrite
      else if raidLevel r = 1 then enqueue1 r addr sz isWrite
      else if raidLevel r = 4 \<or> raidLevel r = 5 then enqueue45 r addr sz isWrite
      else Inr r)"

section \<open>The main program\<close>

definition check_args :: "string \<Rightarrow> string \<Rightarrow> int \<Rightarrow> int \<Rightarrow> int \<Rightarrow> raid5_layout \<Rightarrow> (int \<times> bool) res" where
  "check_args reqSize workload writeFrac level nd layout =
     rbind (py_assert (0 \<le> writeFrac \<and> writeFrac \<le> 100)) (\<lambda>_.
     rbind (convert reqSize) (\<lambda>sz.
     if sz mod BLOCKSIZE \<noteq> 0 then Inl SystemExit
     else rbind (if workload \<in> {''seq'', ''s'', ''sequential''} then Inr True
                 else if workload \<in> {''rand'', ''r'', ''random''} then Inr False
                 else Inl SystemExit) (\<lambda>seq.
     rbind (py_assert (level = 0 \<or> level = 1 \<or> level = 4 \<or> level = 5)) (\<lambda>_.
     if level \<noteq> 0 \<and> nd < 2 then Inl SystemExit
     else if level = 5 \<and> layout = OtherLayout then Inl SystemExit
     else Inr (sz div BLOCKSIZE, seq)))))"

fun run_requests ::
  "nat \<Rightarrow> bool \<Rightarrow> int \<Rightarrow> int \<Rightarrow> rat \<Rightarrow> int \<Rightarrow> draws \<Rightarrow> raid \<Rightarrow> raid res" where
  "run_requests 0 seq sz rng wfrac off rs r = Inr r"
| "run_requests (Suc n) seq sz rng wfrac off rs r =
     rbind (if seq then Inr (off, rs)
            else rbind (draw rs) (\<lambda>(x, rs'). Inr (rand_below x rng, rs'))) (\<lambda>(blk, rs1).
     rbind (draw rs1) (\<lambda>(y, rs2).
     rbind (enqueue blk sz (y < wfrac) r) (\<lambda>r'.
       run_requests n seq sz rng wfrac (if seq then off + sz else off) rs2 r')))"

section \<open>Layouts\<close>

text \<open>
  A layout places logical blocks on the array: every block has a place, and the place
  determines the block. A parity layout also reserves, at every offset, one disk for parity
  that no block is placed on.
\<close>

locale block_layout =
  fixes valid :: bool and place :: "int \<Rightarrow> int \<times> int" and block_at :: "int \<times> int \<Rightarrow> int" and width :: int
  assumes place_range:
      "valid \<Longrightarrow> 0 \<le> b \<Longrightarrow> 0 \<le> fst (place b) \<and> fst (place b) < width \<and> 0 \<le> snd (place b)"
    and block_at_place: "valid \<Longrightarrow> 0 \<le> b \<Longrightarrow> block_at (place b) = b"
begin

lemma place_inj: "valid \<Longrightarrow> inj_on place {0..}"
  by (rule inj_on_inverseI [of _ block_at]) (simp add: block_at_place)

lemma place_distinct: "valid \<Longrightarrow> 0 \<le> a \<Longrightarrow> distinct (map place [a..b])"
  using inj_on_subset [OF place_inj, of "{a..b}"] by (auto simp: distinct_map)

end

locale parity_layout = block_layout +
  fixes parity :: "int \<Rightarrow> int"
  assumes parity_range: "valid \<Longrightarrow> 0 \<le> parity off \<and> parity off < width"
    and data_not_parity: "valid \<Longrightarrow> 0 \<le> b \<Longrightarrow> fst (place b) \<noteq> parity (snd (place b))"
begin

lemma place_not_parity: "valid \<Longrightarrow> 0 \<le> b \<Longrightarrow> place b \<noteq> (parity off, off)"
  using data_not_parity by (metis fst_conv snd_conv)

end

definition place_striped :: "int \<Rightarrow> int \<Rightarrow> int \<Rightarrow> int \<times> int" where
  "place_striped c m b = ((b div c) mod m, ((b div c) div m) * c + b mod c)"

definition block_striped :: "int \<Rightarrow> int \<Rightarrow> int \<times> int \<Rightarrow> int" where
  "block_striped c m = (\<lambda>(dk, off). ((off div c) * m + dk) * c + off mod c)"

definition row_parity :: "int \<Rightarrow> int \<Rightarrow> int \<Rightarrow> int" where
  "row_parity c n off = (n - 1) - (off div c) mod n"

definition rotate_data :: "raid5_layout \<Rightarrow> int \<Rightarrow> int \<Rightarrow> int \<Rightarrow> int" where
  "rotate_data l n row dk =
     (if l = LA then (if dk \<ge> (n - 1) - row mod n then dk + 1 else dk) else (dk - row mod n) mod n)"

definition unrotate_data :: "raid5_layout \<Rightarrow> int \<Rightarrow> int \<Rightarrow> int \<Rightarrow> int" where
  "unrotate_data l n row dk =
     (if l = LA then (if dk > (n - 1) - row mod n then dk - 1 else dk) else (dk + row mod n) mod n)"

definition place5 :: "raid5_layout \<Rightarrow> int \<Rightarrow> int \<Rightarrow> int \<Rightarrow> int \<times> int" where
  "place5 l c n b =
     (let (dk, off) = place_striped c (n - 1) b in (rotate_data l n (off div c) dk, off))"

definition block5 :: "raid5_layout \<Rightarrow> int \<Rightarrow> int \<Rightarrow> int \<times> int \<Rightarrow> int" where
  "block5 l c n = (\<lambda>(dk, off). block_striped c (n - 1) (unrotate_data l n (off div c) dk, off))"

lemma offset_div_mod:
  fixes c :: int
  assumes "0 < c" shows "(q * c + b mod c) div c = q" and "(q * c + b mod c) mod c = b mod c"
  using assms by auto

lemma rotate_data_props:
  assumes "2 \<le> n" and "0 \<le> dk" and "dk < n - 1"
  shows "0 \<le> rotate_data l n row dk" and "rotate_data l n row dk < n"
    and "rotate_data l n row dk \<noteq> (n - 1) - row mod n"
    and "unrotate_data l n row (rotate_data l n row dk) = dk"
proof -
  have col: "0 \<le> row mod n" "row mod n < n" using assms by auto
  show "0 \<le> rotate_data l n row dk" "rotate_data l n row dk < n"
    using assms col by (auto simp: rotate_data_def)
  have undo: "((dk - row mod n) mod n + row mod n) mod n = dk"
    using assms by (simp add: mod_simps)
  show "rotate_data l n row dk \<noteq> (n - 1) - row mod n"
  proof (cases "l = LA")
    case False
    show ?thesis
    proof
      assume "rotate_data l n row dk = (n - 1) - row mod n"
      with False have "(dk - row mod n) mod n + row mod n = n - 1" by (simp add: rotate_data_def)
      with undo have "dk = (n - 1) mod n" by simp
      moreover have "(n - 1) mod n = n - 1" by (rule mod_pos_pos_trivial) (use assms in auto)
      ultimately show False using assms by simp
    qed
  qed (use assms in \<open>auto simp: rotate_data_def\<close>)
  show "unrotate_data l n row (rotate_data l n row dk) = dk"
    using assms undo by (auto simp: rotate_data_def unrotate_data_def)
qed

interpretation striped: block_layout "0 < c \<and> 0 < m" "place_striped c m" "block_striped c m" m
  for c m :: int
proof
  fix b :: int
  assume that: "0 < c \<and> 0 < m" and b: "0 \<le> b"
  show "0 \<le> fst (place_striped c m b) \<and> fst (place_striped c m b) < m \<and> 0 \<le> snd (place_striped c m b)"
    using that b by (simp add: place_striped_def pos_imp_zdiv_nonneg_iff)
  show "block_striped c m (place_striped c m b) = b"
    using that by (simp add: place_striped_def block_striped_def offset_div_mod)
qed

interpretation raid4: parity_layout "0 < c \<and> 2 \<le> n" "place_striped c (n - 1)"
  "block_striped c (n - 1)" n "\<lambda>off. n - 1" for c n :: int
proof
  fix b :: int
  assume v: "0 < c \<and> 2 \<le> n" and b: "0 \<le> b"
  show "0 \<le> fst (place_striped c (n - 1) b) \<and> fst (place_striped c (n - 1) b) < n \<and>
      0 \<le> snd (place_striped c (n - 1) b)"
    using striped.place_range [of c "n - 1" b] v b by auto
  show "block_striped c (n - 1) (place_striped c (n - 1) b) = b"
    using striped.block_at_place [of c "n - 1" b] v b by auto
  show "fst (place_striped c (n - 1) b) \<noteq> n - 1"
    using striped.place_range [of c "n - 1" b] v b by auto
qed auto

interpretation raid5: parity_layout "0 < c \<and> 2 \<le> n" "place5 l c n" "block5 l c n" n
  "row_parity c n" for l :: raid5_layout and c n :: int
proof
  fix b :: int
  assume v: "0 < c \<and> 2 \<le> n" and b: "0 \<le> b"
  obtain dk off where p: "place_striped c (n - 1) b = (dk, off)" by fastforce
  have dk: "0 \<le> dk" "dk < n - 1" "0 \<le> off" "block_striped c (n - 1) (dk, off) = b"
    using striped.place_range [of c "n - 1" b] striped.block_at_place [of c "n - 1" b] v b p by auto
  note rot = rotate_data_props [OF conjunct2 [OF v] dk(1,2), of l "off div c"]
  show "0 \<le> fst (place5 l c n b) \<and> fst (place5 l c n b) < n \<and> 0 \<le> snd (place5 l c n b)"
    using rot dk(3) by (simp add: place5_def p)
  show "block5 l c n (place5 l c n b) = b"
    using rot dk(4) by (simp add: place5_def block5_def p)
  show "fst (place5 l c n b) \<noteq> row_parity c n (snd (place5 l c n b))"
    using rot by (simp add: place5_def row_parity_def p)
next
  fix off :: int
  assume v: "0 < c \<and> 2 \<le> n"
  then have "0 \<le> (off div c) mod n" "(off div c) mod n < n" by auto
  then show "0 \<le> row_parity c n off \<and> row_parity c n off < n" by (simp add: row_parity_def)
qed

text \<open>The code's block maps are these placements.\<close>

definition raid_ok :: "raid \<Rightarrow> bool" where
  "raid_ok r \<longleftrightarrow> 0 < chunkSize r \<and> 0 < numDisks r \<and> length (disks r) = nat (numDisks r) \<and>
     (raidLevel r \<noteq> 0 \<longrightarrow> 2 \<le> numDisks r) \<and> (raidLevel r = 1 \<longrightarrow> numDisks r mod 2 = 0) \<and>
     (raidLevel r = 4 \<longrightarrow> pdisk r = numDisks r - 1) \<and>
     (raidLevel r = 4 \<or> raidLevel r = 5 \<longrightarrow> blocksInStripe r = (numDisks r - 1) * chunkSize r) \<and>
     (raidLevel r = 5 \<longrightarrow> raid5type r \<noteq> OtherLayout)"

definition data_place :: "raid \<Rightarrow> int \<Rightarrow> int \<times> int" where
  "data_place r b =
     (if raidLevel r = 4 then place_striped (chunkSize r) (numDisks r - 1) b
      else place5 (raid5type r) (chunkSize r) (numDisks r) b)"

definition parity_of :: "raid \<Rightarrow> int \<Rightarrow> int" where
  "parity_of r off =
     (if raidLevel r = 4 then numDisks r - 1 else row_parity (chunkSize r) (numDisks r) off)"

lemma bmap0_place:
  "raid_ok r \<Longrightarrow> bmap0 r b = Inr (place_striped (chunkSize r) (numDisks r) b)"
  by (auto simp: raid_ok_def bmap0_def place_striped_def Let_def)

lemma bmap4_place:
  "raid_ok r \<Longrightarrow> raidLevel r = 4 \<Longrightarrow> bmap4 r b = Inr (data_place r b)"
  by (auto simp: raid_ok_def bmap4_def data_place_def place_striped_def Let_def)

lemma bmap5_full_place:
  assumes "raid_ok r" and "raidLevel r = 5"
  shows "bmap5_full r b =
    Inr (fst (data_place r b), parity_of r (snd (data_place r b)), snd (data_place r b))"
proof -
  let ?c = "chunkSize r" and ?n = "numDisks r"
  have g: "0 < ?c" "2 \<le> ?n" "raid5type r \<noteq> OtherLayout" using assms by (auto simp: raid_ok_def)
  let ?cn = "b div ?c"
  have dk: "0 \<le> ?cn mod (?n - 1)" "?cn mod (?n - 1) < ?n - 1" using g by auto
  note rot = rotate_data_props [OF g(2) dk, of "raid5type r" "?cn div (?n - 1)"]
  show ?thesis
    using g rot assms(2)
    by (cases "raid5type r")
       (simp_all add: bmap5_full_def data_place_def place5_def place_striped_def parity_of_def
          row_parity_def rotate_data_def Let_def offset_div_mod py_assert_def)
qed

lemma bmap5_place: "raid_ok r \<Longrightarrow> raidLevel r = 5 \<Longrightarrow> bmap5 r b = Inr (data_place r b)"
  by (simp add: bmap5_def bmap5_full_place)

lemma pmap5_place:
  assumes "raid_ok r" and "raidLevel r = 5"
  shows "pmap5 r s = Inr ((numDisks r - 1) - s mod numDisks r)"
proof -
  have g: "0 < chunkSize r" "2 \<le> numDisks r" "blocksInStripe r = (numDisks r - 1) * chunkSize r"
    using assms by (auto simp: raid_ok_def)
  have "snd (data_place r (s * blocksInStripe r)) = s * chunkSize r"
    using g assms(2)
    by (simp add: data_place_def place5_def place_striped_def mult.assoc [symmetric])
  then show ?thesis
    using g assms by (simp add: pmap5_def bmap5_full_place parity_of_def row_parity_def)
qed

section \<open>Requests as lists of physical operations\<close>

text \<open>
  Every request is a fixed list of physical operations, found from the geometry alone;
  \<open>emits k f os\<close> says so of a routine on an array with \<open>k\<close> blocks in a stripe.
\<close>

definition emits :: "int \<Rightarrow> (raid \<Rightarrow> raid res) \<Rightarrow> phys_op list \<Rightarrow> bool" where
  "emits k f os = (\<forall>r. blocksInStripe r = k \<longrightarrow> f r = rfold do_op os r)"

lemma do_op_config:
  assumes "do_op op r = Inr s"
  shows "blocksInStripe s = blocksInStripe r \<and> chunkSize s = chunkSize r \<and> numDisks s = numDisks r \<and>
    raidLevel s = raidLevel r \<and> raid5type s = raid5type r \<and> pdisk s = pdisk r \<and>
    length (disks s) = length (disks r) \<and> ops s = ops r @ [op]"
  using assms by (auto simp: do_op_def Let_def py_set_def split: phys_op.splits prod.splits if_splits)

lemma rfold_do_op_config:
  "rfold do_op os r = Inr s \<Longrightarrow>
   blocksInStripe s = blocksInStripe r \<and> chunkSize s = chunkSize r \<and> numDisks s = numDisks r \<and>
    raidLevel s = raidLevel r \<and> raid5type s = raid5type r \<and> pdisk s = pdisk r \<and>
    length (disks s) = length (disks r) \<and> ops s = ops r @ os"
proof (induction os arbitrary: r)
  case (Cons op os)
  then obtain t where "do_op op r = Inr t" "rfold do_op os t = Inr s" by auto
  with do_op_config [of op r t] Cons.IH [of t] show ?case by simp
qed simp

lemma emits_comp:
  assumes "emits k f xs" and "emits k g ys"
  shows "emits k (\<lambda>r. rbind (f r) g) (xs @ ys)"
  unfolding emits_def
proof (intro allI impI)
  fix r :: raid
  assume k: "blocksInStripe r = k"
  show "rbind (f r) g = rfold do_op (xs @ ys) r"
  proof (cases "rfold do_op xs r")
    case (Inr s)
    then have "blocksInStripe s = k" using rfold_do_op_config k by blast
    with assms k Inr show ?thesis by (simp add: emits_def rfold_append)
  qed (use assms k in \<open>simp add: emits_def rfold_append\<close>)
qed

lemma emits_rfold_map:
  assumes "\<And>v r. v \<in> set vs \<Longrightarrow> f v r = do_op (mk v) r"
  shows "emits k (rfold f vs) (map mk vs)"
proof -
  have "rfold f vs r = rfold do_op (map mk vs) r" for r
    using assms
  proof (induction vs arbitrary: r)
    case (Cons v vs)
    then show ?case by (cases "do_op (mk v) r") auto
  qed simp
  then show ?thesis by (simp add: emits_def)
qed

definition offs :: "(int \<Rightarrow> int \<times> int) \<Rightarrow> int list \<Rightarrow> int list" where
  "offs pl vs = foldl (\<lambda>acc v. note_off (snd (pl v)) acc) [] vs"

lemma set_foldl_note:
  "set (foldl (\<lambda>acc v. note_off (snd (pl v)) acc) xs vs) = set xs \<union> (snd \<circ> pl) ` set vs"
  by (induction vs arbitrary: xs) (auto simp: note_off_def)

lemma set_offs [simp]: "set (offs pl vs) = (snd \<circ> pl) ` set vs"
  by (simp add: offs_def set_foldl_note)

lemma access_range_emits:
  assumes "\<And>v. v \<in> set vs \<Longrightarrow> bmap v = Inr (pl v)"
    and "\<And>v r. act (fst (pl v)) (snd (pl v)) r = do_op (mk v) r"
  shows "access_range bmap act vs r = rbind (rfold do_op (map mk vs) r) (\<lambda>s. Inr (s, offs pl vs))"
proof -
  let ?step = "\<lambda>v (s, offList). rbind (bmap v) (\<lambda>(dk, off).
              rbind (act dk off s) (\<lambda>s'. Inr (s', note_off off offList)))"
  have "rfold ?step vs (r, xs) = rbind (rfold do_op (map mk vs) r)
      (\<lambda>s. Inr (s, foldl (\<lambda>acc v. note_off (snd (pl v)) acc) xs vs))" for xs
    using assms(1)
  proof (induction vs arbitrary: r xs)
    case (Cons v vs)
    obtain dk off where pl: "pl v = (dk, off)" by fastforce
    show ?case
      using Cons.IH Cons.prems assms(2) [of v r] pl by (cases "do_op (mk v) r") auto
  qed simp
  then show ?thesis by (simp add: access_range_def offs_def)
qed

definition rd :: "(int \<Rightarrow> int \<times> int) \<Rightarrow> int \<Rightarrow> phys_op" where
  "rd pl v = Read (fst (pl v)) (snd (pl v))"

definition wr :: "(int \<Rightarrow> int \<times> int) \<Rightarrow> int \<Rightarrow> phys_op" where
  "wr pl v = Write (fst (pl v)) (snd (pl v))"

definition plan_partial ::
  "int \<Rightarrow> (int \<Rightarrow> int \<times> int) \<Rightarrow> int \<Rightarrow> int \<Rightarrow> int \<Rightarrow> int \<Rightarrow> phys_op list" where
  "plan_partial k pl pd stripe b e =
     (if (e - b) + 1 \<le> k - (e - b)
      then map (rd pl) [b..e - 1] @ map (Read pd) (offs pl [b..e - 1])
      else map (rd pl) [stripe * k..b - 1] @ map (rd pl) [e..stripe * k + k - 1])
     @ map (wr pl) [b..e - 1] @ map (Write pd) (offs pl [b..e - 1])"

lemma doPartialWrite_emits:
  assumes bm: "\<And>v. bmap v = Inr (pl v)" and pm: "pmap stripe = Inr pd"
  shows "emits k (doPartialWrite stripe b e bmap pmap) (plan_partial k pl pd stripe b e)"
proof -
  have reads: "emits k (rfold (\<lambda>v t. rbind (bmap v) (\<lambda>(dk, off). doSingleRead dk off t)) vs) (map (rd pl) vs)"
    for vs
    by (rule emits_rfold_map) (simp add: bm rd_def doSingleRead_def split: prod.split)
  have par: "emits k (\<lambda>r. rbind (access_range bmap act vs r) (\<lambda>(s, offList). rfold (\<lambda>off t. act pd off t) offList s))
      (map (mk pl) vs @ map (\<lambda>off. mk (\<lambda>_. (pd, off)) 0) (offs pl vs))"
    if "\<And>dk off r. act dk off r = do_op (mk (\<lambda>_. (dk, off)) 0) r" "\<And>v. mk pl v = mk (\<lambda>_. pl v) 0"
    for act vs mk
  proof -
    have "rbind (access_range bmap act vs r) (\<lambda>(s, offList). rfold (\<lambda>off t. act pd off t) offList s) =
        rbind (rfold do_op (map (mk pl) vs) r) (\<lambda>s. rfold (\<lambda>off t. act pd off t) (offs pl vs) s)" for r
      using access_range_emits [of vs bmap pl act "mk pl" r] that bm
      by (cases "rfold do_op (map (mk pl) vs) r") auto
    moreover have "emits k (\<lambda>r. rbind (rfold do_op (map (mk pl) vs) r)
        (rfold (\<lambda>off t. act pd off t) (offs pl vs)))
        (map (mk pl) vs @ map (\<lambda>off. mk (\<lambda>_. (pd, off)) 0) (offs pl vs))"
      by (rule emits_comp) (simp add: emits_def, rule emits_rfold_map, simp add: that)
    ultimately show ?thesis by (simp add: emits_def)
  qed
  have parR: "emits k (\<lambda>r. rbind (access_range bmap doSingleRead vs r)
      (\<lambda>(s, offList). rfold (\<lambda>off t. doSingleRead pd off t) offList s))
      (map (rd pl) vs @ map (Read pd) (offs pl vs))" for vs
    using par [of doSingleRead rd vs] by (simp add: doSingleRead_def rd_def)
  have parW: "emits k (\<lambda>r. rbind (access_range bmap doSingleWrite vs r)
      (\<lambda>(s, offList). rfold (\<lambda>off t. doSingleWrite pd off t) offList s))
      (map (wr pl) vs @ map (Write pd) (offs pl vs))" for vs
    using par [of doSingleWrite wr vs] by (simp add: doSingleWrite_def wr_def)
  show ?thesis
    using emits_comp [OF parR parW] emits_comp [OF emits_comp [OF reads reads] parW]
    by (auto simp: emits_def doPartialWrite_def plan_partial_def pm Let_def rbind_assoc)
qed

fun plan_stripes ::
  "int \<Rightarrow> (int \<Rightarrow> int \<times> int) \<Rightarrow> (int \<Rightarrow> int) \<Rightarrow> int list \<Rightarrow> int \<Rightarrow> int \<Rightarrow> phys_op list" where
  "plan_stripes k pl pm [] left b = []"
| "plan_stripes k pl pm (s # ss) left b =
     (let e = min (min (b + k) (b + left)) (s * k + k)
      in plan_partial k pl (pm s) s b e @ plan_stripes k pl pm ss (left - (e - b)) e)"

lemma write_stripes_emits:
  assumes "\<And>v. bmap v = Inr (pl v)" and "\<And>s. pmap s = Inr (pm s)"
  shows "emits k (write_stripes bmap pmap ss left b) (plan_stripes k pl pm ss left b)"
proof (induction ss arbitrary: left b)
  case Nil
  then show ?case by (simp add: emits_def)
next
  case (Cons s ss)
  define e where "e = min (min (b + k) (b + left)) (s * k + k)"
  have ee: "(if (if k \<le> left then b + k else b + left) \<ge> s * k + k then s * k + k
      else (if k \<le> left then b + k else b + left)) = e"
    by (auto simp: e_def)
  have "emits k (\<lambda>r. rbind (doPartialWrite s b e bmap pmap r)
      (write_stripes bmap pmap ss (left - (e - b)) e))
      (plan_partial k pl (pm s) s b e @ plan_stripes k pl pm ss (left - (e - b)) e)"
    by (rule emits_comp [OF doPartialWrite_emits Cons.IH]) (simp_all add: assms)
  moreover have "write_stripes bmap pmap (s # ss) left b r =
      rbind (doPartialWrite s b e bmap pmap r) (write_stripes bmap pmap ss (left - (e - b)) e)"
    if "blocksInStripe r = k" for r
    by (simp only: write_stripes.simps Let_def that ee)
  moreover have "plan_stripes k pl pm (s # ss) left b =
      plan_partial k pl (pm s) s b e @ plan_stripes k pl pm ss (left - (e - b)) e"
    by (simp only: plan_stripes.simps Let_def e_def)
  ultimately show ?case unfolding emits_def by metis
qed

text \<open>A write request meets each stripe in turn and covers its range exactly.\<close>

definition is_data_write :: "(int \<Rightarrow> int) \<Rightarrow> phys_op \<Rightarrow> bool" where
  "is_data_write par op = (case op of Write d k \<Rightarrow> d \<noteq> par k | Read d k \<Rightarrow> False)"

lemma upto_join: "a \<le> m \<Longrightarrow> m \<le> b \<Longrightarrow> [a..m - 1] @ [m..b - 1] = [a..b - 1]" for a m b :: int
proof -
  assume am: "a \<le> m" and mb: "m \<le> b"
  show "[a..m - 1] @ [m..b - 1] = [a..b - 1]"
  proof (cases "m = b")
    case False
    with am mb show ?thesis using upto_split1 [of a m "b - 1"] by simp
  qed simp
qed

locale stripe_layout = parity_layout +
  fixes stripe_len :: int and stripe_parity :: "int \<Rightarrow> int"
  assumes stripe_len_pos: "valid \<Longrightarrow> 0 < stripe_len"
    and parity_of_stripe:
      "valid \<Longrightarrow> 0 \<le> b \<Longrightarrow> parity (snd (place b)) = stripe_parity (b div stripe_len)"
begin

lemma in_stripe:
  "valid \<Longrightarrow> s * stripe_len \<le> b \<Longrightarrow> b < s * stripe_len + stripe_len \<Longrightarrow> b div stripe_len = s"
  by (rule int_div_pos_eq [of b stripe_len s "b - s * stripe_len"]) (auto simp: mult.commute)

lemma partial_data_writes:
  assumes "valid" and "0 \<le> b" and "s * stripe_len \<le> b" and "e \<le> s * stripe_len + stripe_len"
  shows "filter (is_data_write parity) (plan_partial stripe_len place (stripe_parity s) s b e) =
    map (wr place) [b..e - 1]"
proof -
  have "\<forall>v \<in> set [b..e - 1]. parity (snd (place v)) = stripe_parity s \<and>
      fst (place v) \<noteq> parity (snd (place v))"
  proof
    fix v assume "v \<in> set [b..e - 1]"
    then have "0 \<le> v" "v div stripe_len = s" using assms in_stripe [of s v] by auto
    then show "parity (snd (place v)) = stripe_parity s \<and> fst (place v) \<noteq> parity (snd (place v))"
      using parity_of_stripe [OF assms(1), of v] data_not_parity [OF assms(1), of v] by simp
  qed
  then have dw: "filter (is_data_write parity) (map (wr place) [b..e - 1]) = map (wr place) [b..e - 1]"
      and pw: "filter (is_data_write parity) (map (Write (stripe_parity s)) (offs place [b..e - 1])) = []"
    by (auto simp: filter_id_conv filter_empty_conv is_data_write_def wr_def)
  have "filter (is_data_write parity) (map (rd place) vs) = []"
      "filter (is_data_write parity) (map (Read d) ws) = []" for vs ws d
    by (auto simp: filter_empty_conv is_data_write_def rd_def)
  then show ?thesis using dw pw by (simp add: plan_partial_def)
qed

lemma partial_parity_writes:
  assumes "valid" and "0 \<le> b" and "s * stripe_len \<le> b" and "e \<le> s * stripe_len + stripe_len"
    and "v \<in> {b..<e}"
  shows "Write (parity (snd (place v))) (snd (place v)) \<in>
    set (plan_partial stripe_len place (stripe_parity s) s b e)"
proof -
  have "parity (snd (place v)) = stripe_parity s"
    using assms parity_of_stripe [of v] in_stripe [of s v] by simp
  moreover have "v \<in> set [b..e - 1]" using assms(5) by simp
  ultimately show ?thesis by (auto simp: plan_partial_def)
qed

lemma partial_ops_in_stripe:
  assumes "valid" and "0 \<le> b" and "s * stripe_len \<le> b" and "b \<le> e" and "e \<le> s * stripe_len + stripe_len"
    and "op \<in> set (plan_partial stripe_len place (stripe_parity s) s b e)" and "0 \<le> s"
  shows "\<exists>v d. 0 \<le> v \<and> v div stripe_len = s \<and> 0 \<le> d \<and> d < width \<and>
    (op = Read d (snd (place v)) \<or> op = Write d (snd (place v)))"
proof -
  have st: "0 \<le> s * stripe_len" using assms(7) stripe_len_pos [OF assms(1)] by simp
  have blk: "\<exists>v d. 0 \<le> v \<and> v div stripe_len = s \<and> 0 \<le> d \<and> d < width \<and>
      (op = Read d (snd (place v)) \<or> op = Write d (snd (place v)))"
    if "s * stripe_len \<le> v" "v < s * stripe_len + stripe_len"
      "op = rd place v \<or> op = wr place v \<or> op = Read (stripe_parity s) (snd (place v)) \<or>
       op = Write (stripe_parity s) (snd (place v))" for v
  proof -
    have v: "0 \<le> v" "v div stripe_len = s" using that(1,2) st in_stripe [OF assms(1)] by auto
    have "0 \<le> stripe_parity s \<and> stripe_parity s < width"
      using parity_of_stripe [OF assms(1) v(1)] v(2) parity_range [OF assms(1)] by metis
    with v that(3) place_range [OF assms(1) v(1)] show ?thesis
      unfolding rd_def wr_def by blast
  qed
  let ?U = "\<Union>v \<in> {s * stripe_len..<s * stripe_len + stripe_len}. {rd place v, wr place v,
      Read (stripe_parity s) (snd (place v)), Write (stripe_parity s) (snd (place v))}"
  have sub: "rd place ` A \<subseteq> ?U" "wr place ` A \<subseteq> ?U" "Read (stripe_parity s) ` (\<lambda>x. snd (place x)) ` A \<subseteq> ?U"
      "Write (stripe_parity s) ` (\<lambda>x. snd (place x)) ` A \<subseteq> ?U"
    if "A \<subseteq> {s * stripe_len..<s * stripe_len + stripe_len}" for A
    using that by force+
  have "set (plan_partial stripe_len place (stripe_parity s) s b e) \<subseteq> ?U"
    unfolding plan_partial_def using assms(3,4,5)
    by (simp del: image_subset_iff UN_extend_simps) (intro conjI impI sub; auto)
  then have "op \<in> ?U" using assms(6) by (rule subsetD)
  then obtain v where "s * stripe_len \<le> v" "v < s * stripe_len + stripe_len"
      "op = rd place v \<or> op = wr place v \<or> op = Read (stripe_parity s) (snd (place v)) \<or>
       op = Write (stripe_parity s) (snd (place v))" by auto
  then show ?thesis by (rule blk)
qed

text \<open>The stripe loop as a whole: exactly the range is written, parity is written for it.\<close>

definition in_stripes :: "int \<Rightarrow> int \<Rightarrow> phys_op \<Rightarrow> bool" where
  "in_stripes lo hi op \<longleftrightarrow> (\<exists>v d. 0 \<le> v \<and> lo \<le> v div stripe_len \<and> v div stripe_len \<le> hi \<and>
     0 \<le> d \<and> d < width \<and> (op = Read d (snd (place v)) \<or> op = Write d (snd (place v))))"

definition covers :: "int \<Rightarrow> int \<Rightarrow> phys_op list \<Rightarrow> bool" where
  "covers b e os \<longleftrightarrow> filter (is_data_write parity) os = map (wr place) [b..e - 1] \<and>
     (\<forall>v \<in> {b..<e}. Write (parity (snd (place v))) (snd (place v)) \<in> set os)"

lemma covers_append:
  "a \<le> m \<Longrightarrow> m \<le> b \<Longrightarrow> covers a m xs \<Longrightarrow> covers m b ys \<Longrightarrow> covers a b (xs @ ys)"
  by (auto simp: covers_def map_append [symmetric] upto_join simp del: map_append)

lemma plan_stripes_covers:
  assumes "valid" and "0 \<le> s" and "s * stripe_len \<le> b" and "b < s * stripe_len + stripe_len"
    and "0 < left" and "t = (b + left - 1) div stripe_len"
  shows "covers b (b + left) (plan_stripes stripe_len place stripe_parity [s..t] left b) \<and>
    (\<forall>op \<in> set (plan_stripes stripe_len place stripe_parity [s..t] left b). in_stripes s t op)"
  using assms(2-6)
proof (induction "nat (t - s)" arbitrary: s b left)
  case (0 s b left)
  note st = 0 and k = stripe_len_pos [OF assms(1)]
  have "s = b div stripe_len" using in_stripe [OF assms(1) st(3,4)] by simp
  also have "\<dots> \<le> t" using st(5,6) k by (auto intro: zdiv_mono1)
  finally have ts: "t = s" using st(1) by simp
  then have e: "b + left \<le> s * stripe_len + stripe_len"
    using st(6) k by (metis add.commute add_le_imp_le_diff diff_add_cancel distrib_right
        div_mult_mod_eq mult_1 pos_mod_bound zle_add1_eq_le add_strict_left_mono)
  have b0: "0 \<le> b" using st(2,3) k by (smt (verit) mult_nonneg_nonneg)
  have m: "min (min (b + stripe_len) (b + left)) (s * stripe_len + stripe_len) = b + left"
    using e st(3) by simp
  have "set (plan_partial stripe_len place (stripe_parity s) s b (b + left)) \<subseteq> {op. in_stripes s s op}"
    unfolding in_stripes_def
    using partial_ops_in_stripe [OF assms(1) b0 st(3) _ e _ st(2)] st(5) by (fastforce)
  then show ?case
    using partial_data_writes [OF assms(1) b0 st(3) e]
      partial_parity_writes [OF assms(1) b0 st(3) e]
    by (auto simp: ts m Let_def covers_def)
next
  case (Suc j s b left)
  note st = Suc.prems and k = stripe_len_pos [OF assms(1)]
  let ?e = "s * stripe_len + stripe_len"
  have lt: "s + 1 \<le> t" using Suc.hyps(2) by simp
  have "(s + 1) * stripe_len \<le> t * stripe_len" using lt k by (simp add: mult_right_mono)
  also have "\<dots> \<le> b + left - 1" using st(5) k by (metis div_mult_mod_eq le_add_same_cancel1 pos_mod_sign)
  finally have e: "?e \<le> b + left - 1" by (simp add: distrib_right)
  have b0: "0 \<le> b" using st(1,2) k by (smt (verit) mult_nonneg_nonneg)
  have m: "min (min (b + stripe_len) (b + left)) ?e = ?e" using e st(2) by simp
  have l: "[s..t] = s # [s + 1..t]" using lt by (simp add: upto_rec1)
  let ?p1 = "plan_partial stripe_len place (stripe_parity s) s b ?e"
  let ?p2 = "plan_stripes stripe_len place stripe_parity [s + 1..t] (left - (?e - b)) ?e"
  have plan: "plan_stripes stripe_len place stripe_parity [s..t] left b = ?p1 @ ?p2"
    by (simp only: l plan_stripes.simps Let_def m)
  have c1: "covers b ?e ?p1"
    unfolding covers_def
    using partial_data_writes [OF assms(1) b0 st(2) order_refl]
      partial_parity_writes [OF assms(1) b0 st(2) order_refl] by blast
  have rest: "covers ?e (?e + (left - (?e - b))) ?p2 \<and> (\<forall>op \<in> set ?p2. in_stripes (s + 1) t op)"
  proof (rule Suc.hyps(1))
    show "j = nat (t - (s + 1))" using Suc.hyps(2) by simp
    show "(s + 1) * stripe_len \<le> ?e" "?e < (s + 1) * stripe_len + stripe_len"
      using k by (simp_all add: distrib_right)
    show "0 < left - (?e - b)" using e by simp
    show "t = (?e + (left - (?e - b)) - 1) div stripe_len" using st(5) by (simp add: algebra_simps)
  qed (use st(1) in simp)
  moreover have "?e + (left - (?e - b)) = b + left" by simp
  ultimately have c2: "covers ?e (b + left) ?p2" by metis
  have "\<forall>op \<in> set ?p1. in_stripes s t op"
    unfolding in_stripes_def
    using partial_ops_in_stripe [OF assms(1) b0 st(2) _ order_refl _ st(1)] st(3) lt
    by (metis le_add_same_cancel1 less_imp_le order_refl order_trans zero_le_one)
  moreover have "\<forall>op \<in> set ?p2. in_stripes s t op"
    using rest by (fastforce simp: in_stripes_def)
  ultimately show ?case
    using covers_append [OF _ _ c1 c2] st(3) e unfolding plan by auto
qed

end

lemma stripe_div: "1 \<le> n \<Longrightarrow> b div ((n - 1) * c) = b div c div (n - 1)" for b c n :: int
  by (simp add: zdiv_zmult2_eq mult.commute)

interpretation raid4: stripe_layout "0 < c \<and> 2 \<le> n" "place_striped c (n - 1)"
  "block_striped c (n - 1)" n "\<lambda>off. n - 1" "(n - 1) * c" "\<lambda>s. n - 1" for c n :: int
  by unfold_locales auto

interpretation raid5: stripe_layout "0 < c \<and> 2 \<le> n" "place5 l c n" "block5 l c n" n
  "row_parity c n" "(n - 1) * c" "\<lambda>s. (n - 1) - s mod n" for l :: raid5_layout and c n :: int
  by unfold_locales
    (auto simp: row_parity_def place5_def place_striped_def stripe_div offset_div_mod zdiv_zmult2_eq mult.commute)

lemma place_offset_bound:
  assumes "0 < c" and "2 \<le> n" and "0 \<le> v" and "v div ((n - 1) * c) \<le> t"
  shows "0 \<le> snd (place_striped c (n - 1) v)" and "snd (place_striped c (n - 1) v) < (t + 1) * c"
proof -
  show "0 \<le> snd (place_striped c (n - 1) v)" using striped.place_range [of c "n - 1" v] assms by auto
  have "v div c div (n - 1) * c \<le> t * c"
    using assms by (simp add: stripe_div [symmetric] mult_right_mono)
  moreover have "v mod c < c" using assms(1) by simp
  ultimately show "snd (place_striped c (n - 1) v) < (t + 1) * c"
    by (simp add: place_striped_def distrib_right)
qed

section \<open>Accounting\<close>

text \<open>
  Every physical operation adds one I/O to one disk and is counted once as sequential, nearly
  sequential or random.
\<close>

definition op_disk :: "phys_op \<Rightarrow> int" where
  "op_disk op = (case op of Read d k \<Rightarrow> d | Write d k \<Rightarrow> d)"

definition op_off :: "phys_op \<Rightarrow> int" where
  "op_off op = (case op of Read d k \<Rightarrow> k | Write d k \<Rightarrow> k)"

definition disk_ok :: "disk \<Rightarrow> bool" where
  "disk_ok d \<longleftrightarrow> countIO d = countSeq d + countNseq d + countRand d \<and> 0 \<le> countIO d \<and>
     0 \<le> utilTime d \<and> 0 \<le> xferTime d \<and> 0 \<le> seekTime d"

definition op_fits :: "int \<Rightarrow> phys_op \<Rightarrow> bool" where
  "op_fits n op \<longleftrightarrow> 0 \<le> op_disk op \<and> op_disk op < n \<and> 0 \<le> op_off op \<and> op_off op < blocksPerDisk"

definition accounted :: "raid \<Rightarrow> bool" where
  "accounted r \<longleftrightarrow> (\<forall>d \<in> set (disks r). disk_ok d) \<and>
     (\<Sum>d\<leftarrow>disks r. countIO d) = int (length (ops r))"

lemma disk_enqueue_ok:
  assumes "disk_ok d" and "disk_enqueue d a = Inr d'"
  shows "disk_ok d' \<and> countIO d' = countIO d + 1"
  using assms by (auto simp: disk_enqueue_def disk_ok_def Let_def split: if_splits)

lemma sum_list_update_count:
  "i < length ds \<Longrightarrow> countIO d' = countIO (ds ! i) + 1 \<Longrightarrow>
   (\<Sum>d\<leftarrow>ds[i := d']. countIO d) = (\<Sum>d\<leftarrow>ds. countIO d) + 1"
proof (induction ds arbitrary: i)
  case (Cons d ds)
  then show ?case by (cases i) auto
qed simp

lemma do_op_keeps:
  assumes "accounted r" and "do_op op r = Inr s"
  shows "accounted s"
proof -
  obtain d d' where d: "py_nth (disks r) (op_disk op) = Inr d" "disk_enqueue d (op_off op) = Inr d'"
      "rbind (py_set (disks r) (op_disk op) d') (\<lambda>ds. Inr (r\<lparr>disks := ds, ops := ops r @ [op]\<rparr>)) = Inr s"
    using assms(2) by (cases op) (auto simp: do_op_def op_disk_def op_off_def)
  from d(1) obtain i where "i < length (disks r)" "d = disks r ! i"
      "\<And>v. py_set (disks r) (op_disk op) v = Inr ((disks r)[i := v])"
    by (rule py_nth_set) blast
  with d have i: "i < length (disks r)" "disk_enqueue (disks r ! i) (op_off op) = Inr d'"
      and s: "s = r\<lparr>disks := (disks r)[i := d'], ops := ops r @ [op]\<rparr>" by auto
  note new = disk_enqueue_ok [OF _ i(2)]
  show ?thesis
    using assms(1) i(1) new sum_list_update_count [OF i(1)]
    by (auto simp: accounted_def s dest: set_update_subset_insert [THEN subsetD])
qed

lemma do_op_total:
  assumes "raid_ok r" and "op_fits (numDisks r) op"
  shows "\<exists>s. do_op op r = Inr s \<and> raid_ok s \<and> numDisks s = numDisks r"
proof -
  have "0 \<le> op_disk op" "op_disk op < int (length (disks r))"
    using assms by (auto simp: raid_ok_def op_fits_def)
  then obtain i where i: "i < length (disks r)" "op_disk op = int i"
    using nonneg_int_cases [of "op_disk op"] by auto
  obtain d' where d': "disk_enqueue (disks r ! i) (op_off op) = Inr d'"
    using assms(2) by (simp add: disk_enqueue_def op_fits_def Let_def)
  have "do_op op r = rbind (py_nth (disks r) (int i)) (\<lambda>d. rbind (disk_enqueue d (op_off op)) (\<lambda>d'.
      rbind (py_set (disks r) (int i) d') (\<lambda>ds. Inr (r\<lparr>disks := ds, ops := ops r @ [op]\<rparr>))))"
    unfolding i(2) [symmetric] by (simp add: do_op_def op_disk_def op_off_def split: phys_op.split)
  then have "do_op op r = Inr (r\<lparr>disks := (disks r)[i := d'], ops := ops r @ [op]\<rparr>)"
    using i(1) d' by (simp del: rbind_Inr_iff)
  then show ?thesis using assms(1) by (simp add: raid_ok_def)
qed

lemma rfold_do_op_total:
  assumes "raid_ok r" and "\<forall>op \<in> set os. op_fits (numDisks r) op"
  shows "\<exists>s. rfold do_op os r = Inr s \<and> ops s = ops r @ os"
proof -
  obtain s where "rfold do_op os r = Inr s"
    using rfold_total [of "\<lambda>s. raid_ok s \<and> numDisks s = numDisks r" r os do_op] assms
      do_op_total by metis
  with rfold_do_op_config show ?thesis by blast
qed

section \<open>Properties\<close>

lemma enqueue45_write_plan:
  assumes "raid_ok r" and "raidLevel r = 4 \<or> raidLevel r = 5"
  shows "enqueue addr sz True r = rfold do_op
    (plan_stripes (blocksInStripe r) (data_place r)
       (\<lambda>s. if raidLevel r = 4 then numDisks r - 1 else (numDisks r - 1) - s mod numDisks r)
       [addr div blocksInStripe r..(addr + sz - 1) div blocksInStripe r] sz addr) r"
proof -
  have b: "blocksInStripe r \<noteq> 0" using assms by (auto simp: raid_ok_def)
  show ?thesis
  proof (cases "raidLevel r = 4")
    case True
    have "pmap4 r s = Inr (numDisks r - 1)" for s using assms True by (simp add: pmap4_def raid_ok_def)
    from write_stripes_emits [of "bmap4 r" _ "pmap4 r", OF bmap4_place [OF assms(1) True] this]
    show ?thesis using b True by (simp add: enqueue_def enqueue45_def emits_def)
  next
    case False
    with assms have l: "raidLevel r = 5" by simp
    from write_stripes_emits [of "bmap5 r" _ "pmap5 r", OF bmap5_place [OF assms(1) l] pmap5_place [OF assms(1) l]]
    show ?thesis using b l by (simp add: enqueue_def enqueue45_def emits_def)
  qed
qed

text \<open>
  C3: On a RAID 4 or RAID 5 array a write request whose last stripe lies on the disks never
  raises. The physical operations it issues contain, apart from parity, exactly one write for
  each requested block, at the block's place and in order, and for each of these blocks a
  write of the parity block of its row; no parity block holds data.
\<close>

theorem raid45_write_covers:
  assumes "raid_ok r" and "raidLevel r = 4 \<or> raidLevel r = 5" and "0 \<le> addr" and "0 < sz"
    and "((addr + sz - 1) div blocksInStripe r + 1) * chunkSize r \<le> blocksPerDisk"
  shows "\<exists>s os. enqueue addr sz True r = Inr s \<and> ops s = ops r @ os \<and>
    filter (is_data_write (parity_of r)) os = map (wr (data_place r)) [addr..addr + sz - 1] \<and>
    (\<forall>b \<in> {addr..<addr + sz}. fst (data_place r b) \<noteq> parity_of r (snd (data_place r b)) \<and>
       Write (parity_of r (snd (data_place r b))) (snd (data_place r b)) \<in> set os)"
proof -
  let ?c = "chunkSize r" and ?n = "numDisks r" and ?k = "blocksInStripe r"
  let ?sp = "\<lambda>s. if raidLevel r = 4 then ?n - 1 else (?n - 1) - s mod ?n"
  let ?t = "(addr + sz - 1) div ?k"
  define os where "os = plan_stripes ?k (data_place r) ?sp [addr div ?k..?t] sz addr"
  have v: "0 < ?c \<and> 2 \<le> ?n" and k: "?k = (?n - 1) * ?c" "0 < ?k"
    using assms(1,2) by (auto simp: raid_ok_def)
  have st: "0 \<le> addr div ?k" "addr div ?k * ?k \<le> addr" "addr < addr div ?k * ?k + ?k"
    using assms(3) k(2) by (auto simp: pos_imp_zdiv_nonneg_iff)
      (metis div_mult_mod_eq le_add_same_cancel1 pos_mod_sign,
       metis add_strict_left_mono div_mult_mod_eq pos_mod_bound)
  have both: "filter (is_data_write (parity_of r)) os = map (wr (data_place r)) [addr..addr + sz - 1] \<and>
    (\<forall>b \<in> {addr..<addr + sz}. fst (data_place r b) \<noteq> parity_of r (snd (data_place r b)) \<and>
       Write (parity_of r (snd (data_place r b))) (snd (data_place r b)) \<in> set os) \<and>
    (\<forall>op \<in> set os. \<exists>v d. 0 \<le> v \<and> v div ?k \<le> ?t \<and> 0 \<le> d \<and> d < ?n \<and>
      (op = Read d (snd (data_place r v)) \<or> op = Write d (snd (data_place r v))))"
  proof (cases "raidLevel r = 4")
    case True
    then have "data_place r = place_striped ?c (?n - 1)" "parity_of r = (\<lambda>off. ?n - 1)"
      by (auto simp: data_place_def parity_of_def fun_eq_iff)
    then show ?thesis
      using raid4.plan_stripes_covers [OF v st [unfolded k(1)] assms(4) refl]
        raid4.data_not_parity [OF v] assms(3) True
      unfolding raid4.covers_def raid4.in_stripes_def os_def k(1) by simp metis
  next
    case False
    then have "data_place r = place5 (raid5type r) ?c ?n" "parity_of r = row_parity ?c ?n"
      by (auto simp: data_place_def parity_of_def fun_eq_iff)
    then show ?thesis
      using raid5.plan_stripes_covers [OF v st [unfolded k(1)] assms(4) refl, of "raid5type r"]
        raid5.data_not_parity [OF v, of _ "raid5type r"] assms(3) False
      unfolding raid5.covers_def raid5.in_stripes_def os_def k(1) by simp metis
  qed
  have off: "snd (data_place r w) = snd (place_striped ?c (?n - 1) w)" for w
    by (simp add: data_place_def place5_def split: prod.split)
  have "\<forall>op \<in> set os. op_fits ?n op"
  proof
    fix op assume "op \<in> set os"
    with both obtain w d where w: "0 \<le> w" "w div ?k \<le> ?t" "0 \<le> d" "d < ?n"
        "op = Read d (snd (data_place r w)) \<or> op = Write d (snd (data_place r w))" by blast
    from place_offset_bound [of ?c ?n w ?t] v w k(1) assms(5)
    show "op_fits ?n op" by (auto simp: op_fits_def op_disk_def op_off_def off)
  qed
  from rfold_do_op_total [OF assms(1) this] both show ?thesis
    unfolding enqueue45_write_plan [OF assms(1,2)] os_def by blast
qed

theorem raid45_write_covers_witness:
  "\<exists>r. raid_init ''8k'' 4 5 LS = Inr r \<and>
     (\<exists>s os. enqueue 3 7 True r = Inr s \<and> ops s = ops r @ os \<and>
       filter (is_data_write (parity_of r)) os = map (wr (data_place r)) [3..9])"
proof -
  have i: "raid_init ''8k'' 4 5 LS = Inr \<lparr>chunkSize = 2, numDisks = 4, raidLevel = 5, raid5type = LS,
      blocksInStripe = 6, pdisk = -1, disks = replicate 4 new_disk, ops = []\<rparr>" (is "_ = Inr ?r")
    by code_simp
  have "raid_ok ?r" "((3 + 7 - 1) div blocksInStripe ?r + 1) * chunkSize ?r \<le> blocksPerDisk"
    by (simp_all add: raid_ok_def blocksPerDisk_def numTracks_def blocksPerTrack_def)
  from raid45_write_covers [OF this(1) _ _ _ this(2)] i show ?thesis by auto
qed

text \<open>
  C12: The block maps never raise on a well-formed array and place every logical block on an
  existing disk; the block is recovered from its place, so two blocks never share a place.
  RAID 1 places it on a pair of neighbouring disks. In RAID 4 and 5 the place is never on the
  parity disk of its row: the assertion of the RAID 5 map cannot fail.
\<close>

theorem block_maps_invertible:
  assumes "raid_ok r" and "0 \<le> b"
  shows "(raidLevel r = 0 \<longrightarrow> (\<exists>d k. bmap0 r b = Inr (d, k) \<and> 0 \<le> d \<and> d < numDisks r \<and> 0 \<le> k \<and>
        block_striped (chunkSize r) (numDisks r) (d, k) = b)) \<and>
    (raidLevel r = 1 \<longrightarrow> (\<exists>d k. bmap1 r b = Inr (2 * d, 2 * d + 1, k) \<and> 0 \<le> d \<and>
        2 * d + 1 < numDisks r \<and> 0 \<le> k \<and>
        block_striped (chunkSize r) (numDisks r div 2) (d, k) = b)) \<and>
    (raidLevel r = 4 \<longrightarrow> (\<exists>d k. bmap4 r b = Inr (d, k) \<and> 0 \<le> d \<and> d < numDisks r \<and> 0 \<le> k \<and>
        d \<noteq> pdisk r \<and> block_striped (chunkSize r) (numDisks r - 1) (d, k) = b)) \<and>
    (raidLevel r = 5 \<longrightarrow> (\<exists>d p k. bmap5_full r b = Inr (d, p, k) \<and> 0 \<le> d \<and> d < numDisks r \<and>
        0 \<le> p \<and> p < numDisks r \<and> d \<noteq> p \<and> 0 \<le> k \<and>
        pmap5 r (b div blocksInStripe r) = Inr p \<and>
        block5 (raid5type r) (chunkSize r) (numDisks r) (d, k) = b))"
proof -
  let ?c = "chunkSize r" and ?n = "numDisks r" and ?l = "raid5type r"
  have c: "0 < ?c" "0 < ?n" using assms(1) by (auto simp: raid_ok_def)
  have n: "2 \<le> ?n" if "raidLevel r \<noteq> 0" using assms(1) that by (auto simp: raid_ok_def)
  have "bmap1 r b = Inr (2 * fst (place_striped ?c (?n div 2) b),
      2 * fst (place_striped ?c (?n div 2) b) + 1, snd (place_striped ?c (?n div 2) b))"
    if "raidLevel r = 1" using c n that by (simp add: bmap1_def place_striped_def Let_def)
  moreover have "2 * d + 1 < ?n" if "d < ?n div 2" for d using that by simp
  moreover have "0 < ?n div 2" if "raidLevel r = 1" using n that by simp
  ultimately have l1: "raidLevel r = 1 \<longrightarrow> (\<exists>d k. bmap1 r b = Inr (2 * d, 2 * d + 1, k) \<and> 0 \<le> d \<and>
        2 * d + 1 < ?n \<and> 0 \<le> k \<and> block_striped ?c (?n div 2) (d, k) = b)"
    using striped.place_range [of ?c "?n div 2" b] striped.block_at_place [of ?c "?n div 2" b] c assms(2)
    by (metis prod.collapse)
  have l4: "raidLevel r = 4 \<longrightarrow> (\<exists>d k. bmap4 r b = Inr (d, k) \<and> 0 \<le> d \<and> d < ?n \<and> 0 \<le> k \<and>
        d \<noteq> pdisk r \<and> block_striped ?c (?n - 1) (d, k) = b)"
  proof
    assume l: "raidLevel r = 4"
    then have v: "0 < ?c \<and> 2 \<le> ?n" "pdisk r = ?n - 1" using c n assms(1) by (auto simp: raid_ok_def)
    show "\<exists>d k. bmap4 r b = Inr (d, k) \<and> 0 \<le> d \<and> d < ?n \<and> 0 \<le> k \<and>
        d \<noteq> pdisk r \<and> block_striped ?c (?n - 1) (d, k) = b"
      using raid4.place_range [OF v(1) assms(2)] raid4.block_at_place [OF v(1) assms(2)]
        raid4.data_not_parity [OF v(1) assms(2)] bmap4_place [OF assms(1) l] v(2)
      by (simp add: data_place_def l) (metis prod.collapse)
  qed
  have l5: "raidLevel r = 5 \<longrightarrow> (\<exists>d p k. bmap5_full r b = Inr (d, p, k) \<and> 0 \<le> d \<and> d < ?n \<and>
        0 \<le> p \<and> p < ?n \<and> d \<noteq> p \<and> 0 \<le> k \<and> pmap5 r (b div blocksInStripe r) = Inr p \<and>
        block5 ?l ?c ?n (d, k) = b)"
  proof
    assume l: "raidLevel r = 5"
    then have v: "0 < ?c \<and> 2 \<le> ?n" "blocksInStripe r = (?n - 1) * ?c"
      using c n assms(1) by (auto simp: raid_ok_def)
    show "\<exists>d p k. bmap5_full r b = Inr (d, p, k) \<and> 0 \<le> d \<and> d < ?n \<and>
        0 \<le> p \<and> p < ?n \<and> d \<noteq> p \<and> 0 \<le> k \<and> pmap5 r (b div blocksInStripe r) = Inr p \<and>
        block5 ?l ?c ?n (d, k) = b"
      using raid5.place_range [OF v(1) assms(2), of ?l] raid5.block_at_place [OF v(1) assms(2), of ?l]
        raid5.data_not_parity [OF v(1) assms(2), of ?l] raid5.parity_range [OF v(1), of "snd (place5 ?l ?c ?n b)"]
        raid5.parity_of_stripe [OF v(1) assms(2), of ?l] v(2)
      by (simp add: data_place_def l bmap5_full_place [OF assms(1) l] pmap5_place [OF assms(1) l]
          parity_of_def)
  qed
  show ?thesis
    using l1 l4 l5 bmap0_place [OF assms(1), of b] striped.place_range [of ?c ?n b] c assms(2)
      striped.block_at_place [of ?c ?n b] by (metis prod.collapse)
qed

theorem block_maps_invertible_witness:
  "\<exists>r. raid_init ''8k'' 4 5 LA = Inr r \<and>
     (\<exists>d p k. bmap5_full r 9 = Inr (d, p, k) \<and> d \<noteq> p \<and> block5 LA 2 4 (d, k) = 9)"
proof -
  have i: "raid_init ''8k'' 4 5 LA = Inr \<lparr>chunkSize = 2, numDisks = 4, raidLevel = 5, raid5type = LA,
      blocksInStripe = 6, pdisk = -1, disks = replicate 4 new_disk, ops = []\<rparr>" (is "_ = Inr ?r")
    by code_simp
  have "raid_ok ?r" by (simp add: raid_ok_def)
  from block_maps_invertible [OF this, of 9] i show ?thesis by auto
qed

text \<open>Every routine that issues operations keeps the accounts.\<close>

lemma single_keeps [keeps_rules]:
  "keeps accounted (doSingleRead d k)" "keeps accounted (doSingleWrite d k)"
  using do_op_keeps by (auto simp: keeps_def doSingleRead_def doSingleWrite_def)

lemma access_range_keeps:
  assumes "access_range bmap act vs r = Inr (s, offl)" and "accounted r"
    and "\<And>d k. keeps accounted (act d k)"
  shows "accounted s"
  using rfold_invariant [OF assms(1) [unfolded access_range_def], of "\<lambda>p. accounted (fst p)"] assms(2)
    keepsD [OF assms(3)] by fastforce

lemma access_parity_keeps [keeps_rules]:
  assumes "\<And>d k. keeps accounted (act d k)"
  shows "keeps accounted (\<lambda>r. rbind (access_range bmap act vs r)
    (\<lambda>(s, offList). rfold (\<lambda>off t. act pd off t) offList s))"
  unfolding keeps_def
  using access_range_keeps [of bmap act vs] keepsD [OF keeps_rfold] assms by fastforce

lemma doPartialWrite_keeps [keeps_rules]: "keeps accounted (doPartialWrite stripe b e bmap pmap)"
proof -
  have "keeps accounted (\<lambda>r. rbind (pmap stripe) (\<lambda>pd.
      rbind (if (e - b) + 1 \<le> bis - (e - b) then
               rbind (access_range bmap doSingleRead [b..e - 1] r) (\<lambda>(s, offList).
                 rfold (\<lambda>off t. doSingleRead pd off t) offList s)
             else
               rbind (rfold (\<lambda>v t. rbind (bmap v) (\<lambda>(dk, off). doSingleRead dk off t)) [stripe * bis..b - 1] r)
                 (rfold (\<lambda>v t. rbind (bmap v) (\<lambda>(dk, off). doSingleRead dk off t)) [e..stripe * bis + bis - 1]))
        (\<lambda>s. rbind (access_range bmap doSingleWrite [b..e - 1] s) (\<lambda>(t, offList).
        rfold (\<lambda>off u. doSingleWrite pd off u) offList t))))" for bis
    by (intro keeps_rules)
  then have "accounted s \<Longrightarrow> doPartialWrite stripe b e bmap pmap s = Inr t \<Longrightarrow> accounted t" for s t
    by (auto simp only: keeps_def doPartialWrite_def Let_def)
  then show ?thesis by (simp add: keeps_def)
qed

lemma write_stripes_keeps [keeps_rules]: "keeps accounted (write_stripes bmap pmap ss left b)"
proof -
  have "write_stripes bmap pmap ss left b r = Inr s \<Longrightarrow> accounted r \<Longrightarrow> accounted s" for r s
    by (induction ss arbitrary: left b r) (auto simp: Let_def dest: keepsD [OF doPartialWrite_keeps])
  then show ?thesis by (auto simp: keeps_def)
qed

lemma enqueue_keeps:
  assumes "enqueue addr sz w r = Inr s" and "accounted r"
  shows "accounted s"
proof -
  have k0: "keeps accounted (rfold (\<lambda>b s. rbind (bmap0 r b) (\<lambda>(dk, off).
              if w then doSingleWrite dk off s else doSingleRead dk off s)) vs)" for vs
    by (intro keeps_rules)
  have k1: "keeps accounted (rfold (\<lambda>b s. rbind (bmap1 r b) (\<lambda>(disk1, disk2, off).
              if w then rbind (doSingleWrite disk1 off s) (doSingleWrite disk2 off)
              else if off mod 2 = 0 then doSingleRead disk1 off s else doSingleRead disk2 off s)) vs)" for vs
    by (intro keeps_rules)
  have k4: "keeps accounted (rfold (\<lambda>b s. rbind (bmap b) (\<lambda>(dk, off). doSingleRead dk off s)) vs)"
    for bmap :: "int \<Rightarrow> (int \<times> int) res" and vs
    by (intro keeps_rules)
  have "accounted s" if e45: "enqueue45 r addr sz w = Inr s"
  proof (cases w)
    case True
    then obtain bm pm ss where "write_stripes bm pm ss sz addr r = Inr s"
      using e45 by (cases "raidLevel r = 4") (auto simp: enqueue45_def split: if_splits)
    then show ?thesis using keepsD [OF write_stripes_keeps assms(2)] by blast
  next
    case False
    then obtain bm where "rfold (\<lambda>b s. rbind (bm b) (\<lambda>(dk, off). doSingleRead dk off s)) [addr..addr + sz - 1] r = Inr s"
      using e45 by (cases "raidLevel r = 4") (auto simp: enqueue45_def)
    then show ?thesis using keepsD [OF k4 assms(2)] by blast
  qed
  then show ?thesis
    using assms keepsD [OF k0 assms(2), of "[addr..addr + sz - 1]" s]
      keepsD [OF k1 assms(2), of "[addr..addr + sz - 1]" s]
    by (simp only: enqueue_def enqueue0_def enqueue1_def split: if_splits) auto
qed

lemma run_requests_keeps:
  "run_requests n seq sz rng wfrac off rs r = Inr s \<Longrightarrow> accounted r \<Longrightarrow> accounted s"
  by (induction n arbitrary: off rs r) (auto dest: enqueue_keeps)

lemma raid_go_max: "d \<in> set (disks r) \<Longrightarrow> utilTime d \<le> raid_go r"
proof -
  have "x \<le> foldl (\<lambda>tmax d. if utilTime d > tmax then utilTime d else tmax) x ds \<and>
      (\<forall>d \<in> set ds. utilTime d \<le> foldl (\<lambda>tmax d. if utilTime d > tmax then utilTime d else tmax) x ds)"
    for x and ds :: "disk list"
  proof (induction ds arbitrary: x)
    case (Cons a ds)
    from Cons [of "if utilTime a > x then utilTime a else x"] show ?case by (auto split: if_splits)
  qed simp
  then show "d \<in> set (disks r) \<Longrightarrow> utilTime d \<le> raid_go r" by (simp add: raid_go_def)
qed

text \<open>
  Whatever the workload, when a run of the main program over a new array ends without an
  error, every disk has counted each of its I/Os exactly once as sequential, nearly sequential
  or random, the I/O counts of the disks add up to the number of physical operations issued,
  and the reported completion time is at least the busy time of every disk.
\<close>

theorem raid_run_accounts:
  assumes "raid_init chunk nd level layout = Inr r"
    and "run_requests n seq sz rng wfrac 0 rs r = Inr s"
  shows "(\<forall>d \<in> set (disks s). countIO d = countSeq d + countNseq d + countRand d \<and>
      0 \<le> utilTime d \<and> utilTime d \<le> raid_go s) \<and>
    (\<Sum>d\<leftarrow>disks s. countIO d) = int (length (ops s))"
proof -
  have "accounted r"
    using assms(1)
    by (auto simp: raid_init_def accounted_def disk_ok_def new_disk_def Let_def sum_list_replicate split: if_splits)
  with run_requests_keeps [OF assms(2)] have "accounted s" by simp
  then show ?thesis using raid_go_max [of _ s] by (auto simp: accounted_def disk_ok_def)
qed

theorem raid_run_accounts_witness:
  "\<exists>r s. raid_init ''4k'' 4 4 LS = Inr r \<and>
     run_requests 2 False 2 100 (1 / 2) 0 [1 / 4, 0, 3 / 4, 1 / 8] r = Inr s \<and>
     (\<Sum>d\<leftarrow>disks s. countIO d) = int (length (ops s))"
proof -
  have "\<not> isl (rbind (raid_init ''4k'' 4 4 LS) (run_requests 2 False 2 100 (1 / 2) 0 [1 / 4, 0, 3 / 4, 1 / 8]))"
    by code_simp
  then obtain s where "rbind (raid_init ''4k'' 4 4 LS)
      (run_requests 2 False 2 100 (1 / 2) 0 [1 / 4, 0, 3 / 4, 1 / 8]) = Inr s"
    by (metis isl_def old.sum.exhaust)
  then obtain r where "raid_init ''4k'' 4 4 LS = Inr r"
      "run_requests 2 False 2 100 (1 / 2) 0 [1 / 4, 0, 3 / 4, 1 / 8] r = Inr s" by auto
  with raid_run_accounts [OF this] show ?thesis by blast
qed

end
