(* ===== verification/PagePolicy.thy ===== *)
theory PagePolicy
  imports PyString
begin

text \<open>
  The page replacement simulator of \<open>src/Sem3/BSYS/22_Policy/paging-policy.py\<close>: the page
  cache with the policies FIFO, LRU, MRU, RAND, OPT, UNOPT and CLOCK, driven by a list of page
  numbers. The code converts an entry of \<open>addrList\<close> to a number when it reaches it; here the
  list is converted before the loop, so only the moment of the \<open>ValueError\<close> for a malformed
  entry differs. \<open>victim\<close> is the replaced page or \<open>-1\<close>, as in the code.
\<close>

section \<open>The cache and its policies\<close>

datatype repl_policy = FIFO | LRU | MRU | RAND | OPT | UNOPT | CLOCK

record cache =
  memory :: "int list"
  cnt :: int
  hits :: int
  miss :: int
  ref :: "int \<rightharpoonup> int"
  rnd :: draws

definition empty_cache :: "draws \<Rightarrow> cache" where
  "empty_cache rs = \<lparr>memory = [], cnt = 0, hits = 0, miss = 0, ref = Map.empty, rnd = rs\<rparr>"

definition read_policy :: "string \<Rightarrow> repl_policy res" where
  "read_policy s =
     (if s = ''FIFO'' then Inr FIFO else if s = ''LRU'' then Inr LRU
      else if s = ''MRU'' then Inr MRU else if s = ''OPT'' then Inr OPT
      else if s = ''RAND'' then Inr RAND else if s = ''UNOPT'' then Inr UNOPT
      else if s = ''CLOCK'' then Inr CLOCK else Inl SystemExit)"

fun random_addrs :: "nat \<Rightarrow> int \<Rightarrow> draws \<Rightarrow> (int list \<times> draws) res" where
  "random_addrs 0 maxpage rs = Inr ([], rs)"
| "random_addrs (Suc k) maxpage rs =
     rbind (draw rs) (\<lambda>(x, rs1).
     rbind (random_addrs k maxpage rs1) (\<lambda>(ns, rs2). Inr (rand_below x maxpage # ns, rs2)))"

fun read_ints :: "string list \<Rightarrow> int list res" where
  "read_ints [] = Inr []"
| "read_ints (w # ws) = rbind (py_int w) (\<lambda>n. rbind (read_ints ws) (\<lambda>ns. Inr (n # ns)))"

definition addr_list :: "string \<Rightarrow> nat \<Rightarrow> int \<Rightarrow> draws \<Rightarrow> (int list \<times> draws) res" where
  "addr_list addresses numaddrs maxpage rs =
     (if addresses = ''-1'' then random_addrs numaddrs maxpage rs
      else rbind (read_ints (split_on CHR '','' addresses)) (\<lambda>ns. Inr (ns, rs)))"

text \<open>\<open>whenReferenced\<close>: the index of the next access to a page, or the length of the list.\<close>

fun scan_future :: "int \<Rightarrow> int list \<Rightarrow> int \<Rightarrow> int \<Rightarrow> int" where
  "scan_future page [] i len = len"
| "scan_future page (f # fs) i len = (if page = f then i else scan_future page fs (i + 1) len)"

definition whenReferenced :: "int list \<Rightarrow> nat \<Rightarrow> int \<Rightarrow> int" where
  "whenReferenced addrs k page =
     scan_future page (drop (Suc k) addrs) (int k + 1) (int (length addrs))"

definition opt_index :: "int list \<Rightarrow> nat \<Rightarrow> cache \<Rightarrow> (int \<times> int) res" where
  "opt_index addrs k s =
     rfold (\<lambda>i (maxReplace, replaceIdx). rbind (py_nth (memory s) i) (\<lambda>page.
              let w = whenReferenced addrs k page
              in Inr (if w \<ge> maxReplace then (w, i) else (maxReplace, replaceIdx))))
       [0..cnt s - 1] (-1, -1)"

definition unopt_index :: "int list \<Rightarrow> nat \<Rightarrow> cache \<Rightarrow> (int \<times> int) res" where
  "unopt_index addrs k s =
     rfold (\<lambda>i (minReplace, replaceIdx). rbind (py_nth (memory s) i) (\<lambda>page.
              let w = whenReferenced addrs k page
              in Inr (if w < minReplace then (w, i) else (minReplace, replaceIdx))))
       [0..cnt s - 1] (int (length addrs) + 1, -1)"

text \<open>
  The CLOCK loop looks at randomly chosen pages, one draw for each round, until it meets one
  whose counter is used up.
\<close>

fun clock_scan :: "draws \<Rightarrow> cache \<Rightarrow> (int \<times> cache) res" where
  "clock_scan [] s = Inl OutOfDraws"
| "clock_scan (x # rs) s =
     rbind (py_nth (memory s) (rand_below x (cnt s))) (\<lambda>page.
     rbind (py_lookup (ref s) page) (\<lambda>b.
       if b \<ge> 1 then clock_scan rs (s\<lparr>ref := (ref s)(page \<mapsto> b - 1), rnd := rs\<rparr>)
       else Inr (page, s\<lparr>memory := remove1 page (memory s), ref := (ref s)(page := None), rnd := rs\<rparr>)))"

definition pop_page :: "int \<Rightarrow> cache \<Rightarrow> (int \<times> cache) res" where
  "pop_page i s = rbind (py_pop (memory s) i) (\<lambda>(v, m). Inr (v, s\<lparr>memory := m\<rparr>))"

definition evict :: "repl_policy \<Rightarrow> int list \<Rightarrow> nat \<Rightarrow> cache \<Rightarrow> (int \<times> cache) res" where
  "evict pol addrs k s =
     (case pol of
        FIFO \<Rightarrow> pop_page 0 s
      | LRU \<Rightarrow> pop_page 0 s
      | MRU \<Rightarrow> pop_page (cnt s - 1) s
      | RAND \<Rightarrow> rbind (draw (rnd s)) (\<lambda>(x, rs). pop_page (rand_below x (cnt s)) (s\<lparr>rnd := rs\<rparr>))
      | CLOCK \<Rightarrow> clock_scan (rnd s) s
      | OPT \<Rightarrow> rbind (opt_index addrs k s) (\<lambda>(m, i). pop_page i s)
      | UNOPT \<Rightarrow> rbind (unopt_index addrs k s) (\<lambda>(m, i). pop_page i s))"

text \<open>Miss processing, for a given way to choose the victim.\<close>

definition fetch :: "(cache \<Rightarrow> (int \<times> cache) res) \<Rightarrow> int \<Rightarrow> int \<Rightarrow> cache \<Rightarrow> cache res" where
  "fetch ev cachesize n s =
     rbind (if cnt s = cachesize then ev s else Inr (-1, s\<lparr>cnt := cnt s + 1\<rparr>)) (\<lambda>(victim, t).
       let m = memory t @ [n]
       in rbind (py_assert (victim = -1 \<or> victim \<notin> set m)) (\<lambda>_. Inr (t\<lparr>memory := m\<rparr>)))"

definition touch :: "int \<Rightarrow> int \<Rightarrow> cache \<Rightarrow> cache" where
  "touch clockbits n s =
     (case ref s n of
        None \<Rightarrow> s\<lparr>ref := (ref s)(n \<mapsto> 1)\<rparr>
      | Some b \<Rightarrow> s\<lparr>ref := (ref s)(n \<mapsto> (if b + 1 > clockbits then clockbits else b + 1))\<rparr>)"

definition access ::
  "repl_policy \<Rightarrow> int \<Rightarrow> int \<Rightarrow> int list \<Rightarrow> nat \<Rightarrow> int \<Rightarrow> cache \<Rightarrow> cache res" where
  "access pol cachesize clockbits addrs k n s =
     rbind (if n \<in> set (memory s) then
              Inr (s\<lparr>hits := hits s + 1,
                     memory := (if pol = LRU \<or> pol = MRU then remove1 n (memory s) @ [n] else memory s)\<rparr>)
            else fetch (evict pol addrs k) cachesize n (s\<lparr>miss := miss s + 1\<rparr>))
       (\<lambda>t. Inr (touch clockbits n t))"

fun accesses ::
  "repl_policy \<Rightarrow> int \<Rightarrow> int \<Rightarrow> int list \<Rightarrow> nat \<Rightarrow> int list \<Rightarrow> cache \<Rightarrow> cache res" where
  "accesses pol cachesize clockbits addrs k [] s = Inr s"
| "accesses pol cachesize clockbits addrs k (n # ns) s =
     rbind (access pol cachesize clockbits addrs k n s)
       (accesses pol cachesize clockbits addrs (Suc k) ns)"

definition simulate :: "repl_policy \<Rightarrow> int \<Rightarrow> int \<Rightarrow> draws \<Rightarrow> int list \<Rightarrow> cache res" where
  "simulate pol cachesize clockbits rs addrs =
     accesses pol cachesize clockbits addrs 0 addrs (empty_cache rs)"

text \<open>The hit rate of the final report.\<close>

definition hitrate :: "cache \<Rightarrow> rat res" where
  "hitrate s = (if hits s + miss s = 0 then Inl ZeroDivisionError
     else Inr (100 * of_int (hits s) / (of_int (hits s) + of_int (miss s))))"

section \<open>What a policy has to do\<close>

text \<open>
  The cache relies on one thing: on a non-empty cache the policy removes one resident page and
  touches nothing else. A policy that draws random numbers may also run out of them.
\<close>

definition resident :: "cache \<Rightarrow> bool" where
  "resident s \<longleftrightarrow> distinct (memory s) \<and> cnt s = int (length (memory s)) \<and>
     set (memory s) \<subseteq> dom (ref s) \<and> draws_ok (rnd s)"

definition removes_page :: "cache \<Rightarrow> int \<Rightarrow> cache \<Rightarrow> bool" where
  "removes_page s v t \<longleftrightarrow> mset (memory s) = add_mset v (mset (memory t)) \<and> cnt t = cnt s \<and>
     hits t = hits s \<and> miss t = miss s \<and> set (memory t) \<subseteq> dom (ref t) \<and> draws_ok (rnd t)"

locale replacement =
  fixes ev :: "cache \<Rightarrow> (int \<times> cache) res" and needs_draws :: bool
  assumes evicts: "resident s \<Longrightarrow> memory s \<noteq> [] \<Longrightarrow>
    (needs_draws \<and> ev s = Inl OutOfDraws) \<or> (\<exists>v t. ev s = Inr (v, t) \<and> removes_page s v t)"
begin

lemma fetch_result:
  assumes "resident s" and "n \<notin> set (memory s)" and "cachesize \<noteq> 0"
  shows "(needs_draws \<and> fetch ev cachesize n s = Inl OutOfDraws) \<or>
    (\<exists>t v. fetch ev cachesize n s = Inr t \<and> distinct (memory t) \<and> cnt t = int (length (memory t)) \<and>
       n \<in> set (memory t) \<and> set (memory t) \<subseteq> insert n (dom (ref t)) \<and> draws_ok (rnd t) \<and>
       hits t = hits s \<and> miss t = miss s \<and>
       (if cnt s = cachesize then insert v (set (memory t)) = insert n (set (memory s)) \<and> v \<in> set (memory s) \<and>
          v \<notin> set (memory t) \<and> cnt t = cnt s
        else set (memory t) = insert n (set (memory s)) \<and> cnt t = cnt s + 1))"
proof (cases "cnt s = cachesize")
  case False
  then show ?thesis using assms by (auto simp: fetch_def resident_def Let_def)
next
  case True
  then have ne: "memory s \<noteq> []" using assms(1,3) by (auto simp: resident_def)
  from evicts [OF assms(1) ne] show ?thesis
  proof
    assume "needs_draws \<and> ev s = Inl OutOfDraws"
    then show ?thesis using True by (simp add: fetch_def)
  next
    assume "\<exists>v t. ev s = Inr (v, t) \<and> removes_page s v t"
    then obtain v t where ev: "ev s = Inr (v, t)" and m: "mset (memory s) = add_mset v (mset (memory t))"
        and t: "cnt t = cnt s" "hits t = hits s" "miss t = miss s" "set (memory t) \<subseteq> dom (ref t)" "draws_ok (rnd t)"
      by (auto simp: removes_page_def)
    from m have set: "set (memory s) = insert v (set (memory t))"
      by (metis set_mset_add_mset_insert set_mset_mset)
    from m have len: "length (memory s) = Suc (length (memory t))"
      by (metis size_add_mset size_mset)
    have "distinct (v # memory t)"
      using assms(1) m unfolding resident_def by (metis mset.simps(2) mset_eq_imp_distinct_iff)
    then have d: "v \<notin> set (memory t)" "distinct (memory t)" by auto
    have "v \<noteq> n" using assms(2) set by auto
    then have "fetch ev cachesize n s = Inr (t\<lparr>memory := memory t @ [n]\<rparr>)"
      using True ev d by (simp add: fetch_def)
    then show ?thesis
      using assms(1,2) set len d t True \<open>v \<noteq> n\<close>
      by (intro disjI2, rule_tac exI, rule_tac exI [of _ v]) (auto simp: resident_def)
  qed
qed

end

section \<open>The policies meet the contract\<close>

lemma pop_page_removes:
  assumes "resident s" and "- int (length (memory s)) \<le> i" and "i < int (length (memory s))"
  shows "\<exists>v t. pop_page i s = Inr (v, t) \<and> removes_page s v t"
proof -
  obtain v m where "py_pop (memory s) i = Inr (v, m)" and m: "mset (memory s) = add_mset v (mset m)"
    by (rule py_pop_in_range [OF assms(2,3)])
  moreover have "set m \<subseteq> set (memory s)" using m by (metis set_mset_add_mset_insert set_mset_mset subset_insertI)
  ultimately show ?thesis using assms(1) by (auto simp: pop_page_def removes_page_def resident_def)
qed

lemma scan_future_bounds:
  "i + int (length fs) \<le> len \<Longrightarrow> 0 \<le> i \<Longrightarrow> 0 \<le> scan_future page fs i len \<and> scan_future page fs i len \<le> len"
  by (induction fs arbitrary: i) auto

lemma whenReferenced_bounds:
  "0 \<le> whenReferenced addrs k page \<and> whenReferenced addrs k page \<le> int (length addrs)"
proof (cases "k < length addrs")
  case True
  then show ?thesis unfolding whenReferenced_def by (intro scan_future_bounds) auto
qed (simp add: whenReferenced_def)

lemma upto_Suc: "[0..int (Suc n) - 1] = [0..int n - 1] @ [int n]"
  by (simp add: upto_rec2)

text \<open>OPT finds a page whose next access is farthest away, UNOPT one that is needed soonest.\<close>

lemma opt_scan:
  fixes w :: "int \<Rightarrow> int"
  assumes "n \<le> length mem" and "\<And>page. 0 \<le> w page"
  shows "\<exists>m i. rfold (\<lambda>i (maxReplace, replaceIdx). rbind (py_nth mem i) (\<lambda>page.
      let x = w page in Inr (if x \<ge> maxReplace then (x, i) else (maxReplace, replaceIdx))))
      [0..int n - 1] (-1, -1) = Inr (m, i) \<and> (\<forall>j < n. w (mem ! j) \<le> m) \<and>
      (if n = 0 then m = -1 \<and> i = -1 else 0 \<le> i \<and> i < int n \<and> m = w (mem ! nat i))"
  using assms(1)
proof (induction n)
  case (Suc n)
  then obtain m i where IH: "rfold (\<lambda>i (maxReplace, replaceIdx). rbind (py_nth mem i) (\<lambda>page.
      let x = w page in Inr (if x \<ge> maxReplace then (x, i) else (maxReplace, replaceIdx))))
      [0..int n - 1] (-1, -1) = Inr (m, i)" "\<forall>j < n. w (mem ! j) \<le> m"
      "if n = 0 then m = -1 \<and> i = -1 else 0 \<le> i \<and> i < int n \<and> m = w (mem ! nat i)" by auto
  have "n < length mem" using Suc.prems by simp
  then show ?case
    unfolding upto_Suc rfold_append IH(1)
    using IH(2,3) assms(2) [of "mem ! n"] by (auto simp: Let_def less_Suc_eq split: if_splits)
qed simp

lemma unopt_scan:
  fixes w :: "int \<Rightarrow> int"
  assumes "n \<le> length mem" and "\<And>page. w page < limit"
  shows "\<exists>m i. rfold (\<lambda>i (minReplace, replaceIdx). rbind (py_nth mem i) (\<lambda>page.
      let x = w page in Inr (if x < minReplace then (x, i) else (minReplace, replaceIdx))))
      [0..int n - 1] (limit, -1) = Inr (m, i) \<and> (\<forall>j < n. m \<le> w (mem ! j)) \<and>
      (if n = 0 then m = limit \<and> i = -1 else 0 \<le> i \<and> i < int n \<and> m = w (mem ! nat i))"
  using assms(1)
proof (induction n)
  case (Suc n)
  then obtain m i where IH: "rfold (\<lambda>i (minReplace, replaceIdx). rbind (py_nth mem i) (\<lambda>page.
      let x = w page in Inr (if x < minReplace then (x, i) else (minReplace, replaceIdx))))
      [0..int n - 1] (limit, -1) = Inr (m, i)" "\<forall>j < n. m \<le> w (mem ! j)"
      "if n = 0 then m = limit \<and> i = -1 else 0 \<le> i \<and> i < int n \<and> m = w (mem ! nat i)" by auto
  have "n < length mem" using Suc.prems by simp
  then show ?case
    unfolding upto_Suc rfold_append IH(1)
    using IH(2,3) assms(2) [of "mem ! n"] by (auto simp: Let_def less_Suc_eq split: if_splits)
qed simp

lemma opt_index_farthest:
  assumes "resident s" and "memory s \<noteq> []"
  shows "\<exists>m i. opt_index addrs k s = Inr (m, i) \<and> 0 \<le> i \<and> i < int (length (memory s)) \<and>
    (\<forall>p \<in> set (memory s). whenReferenced addrs k p \<le> whenReferenced addrs k (memory s ! nat i))"
proof -
  have c: "cnt s = int (length (memory s))" using assms(1) by (simp add: resident_def)
  from opt_scan [OF order_refl, of "whenReferenced addrs k" "memory s"] whenReferenced_bounds assms(2)
  show ?thesis unfolding opt_index_def c by (fastforce simp: in_set_conv_nth)
qed

lemma unopt_index_nearest:
  assumes "resident s" and "memory s \<noteq> []"
  shows "\<exists>m i. unopt_index addrs k s = Inr (m, i) \<and> 0 \<le> i \<and> i < int (length (memory s)) \<and>
    (\<forall>p \<in> set (memory s). whenReferenced addrs k (memory s ! nat i) \<le> whenReferenced addrs k p)"
proof -
  have c: "cnt s = int (length (memory s))" using assms(1) by (simp add: resident_def)
  have "whenReferenced addrs k p < int (length addrs) + 1" for p
    using whenReferenced_bounds [of addrs k p] by simp
  from unopt_scan [OF order_refl this, of "memory s"] assms(2)
  show ?thesis unfolding unopt_index_def c by (fastforce simp: in_set_conv_nth)
qed

lemma clock_scan_removes:
  assumes "resident s" and "memory s \<noteq> []" and "draws_ok rs"
  shows "clock_scan rs s = Inl OutOfDraws \<or> (\<exists>v t. clock_scan rs s = Inr (v, t) \<and> removes_page s v t)"
  using assms
proof (induction rs arbitrary: s)
  case (Cons x rs)
  let ?i = "rand_below x (cnt s)"
  have x: "0 \<le> x" "x < 1" "draws_ok rs" using Cons.prems(3) by (auto simp: draws_ok_def)
  have "0 \<le> ?i" "?i < int (length (memory s))"
    using rand_below_bounds [OF x(1,2), of "cnt s"] Cons.prems(1,2) by (auto simp: resident_def)
  then obtain j where j: "?i = int j" "j < length (memory s)" using nonneg_int_cases by (metis of_nat_less_iff)
  let ?p = "memory s ! j"
  have p: "?p \<in> set (memory s)" using j by simp
  then obtain b where b: "ref s ?p = Some b" using Cons.prems(1) by (auto simp: resident_def)
  show ?case
  proof (cases "b \<ge> 1")
    case True
    let ?s = "s\<lparr>ref := (ref s)(?p \<mapsto> b - 1), rnd := rs\<rparr>"
    have "resident ?s" using Cons.prems(1) x(3) by (auto simp: resident_def)
    from Cons.IH [OF this _ x(3)] Cons.prems(2) True j b show ?thesis
      by (auto simp: removes_page_def py_lookup_def)
  next
    case False
    have "mset (memory s) = add_mset ?p (mset (remove1 ?p (memory s)))" using p by simp
    moreover have "set (remove1 ?p (memory s)) \<subseteq> dom ((ref s)(?p := None))"
      using Cons.prems(1) by (auto simp: resident_def)
    ultimately show ?thesis using False j b x(3) by (auto simp: removes_page_def py_lookup_def)
  qed
qed simp

interpretation repl: replacement "evict pol addrs k" "pol = RAND \<or> pol = CLOCK" for pol addrs k
proof
  fix s
  assume r: "resident s" and ne: "memory s \<noteq> []"
  let ?n = "int (length (memory s))"
  have n: "0 < ?n" "cnt s = ?n" using r ne by (auto simp: resident_def)
  show "(pol = RAND \<or> pol = CLOCK) \<and> evict pol addrs k s = Inl OutOfDraws \<or>
      (\<exists>v t. evict pol addrs k s = Inr (v, t) \<and> removes_page s v t)"
  proof (cases pol)
    case RAND
    show ?thesis
    proof (cases "rnd s")
      case (Cons x rs)
      with r have x: "0 \<le> x" "x < 1" "resident (s\<lparr>rnd := rs\<rparr>)" by (auto simp: resident_def draws_ok_def)
      with pop_page_removes [OF x(3), of "rand_below x ?n"] rand_below_bounds [OF x(1,2) n(1)] n
      show ?thesis using RAND Cons by (auto simp: evict_def removes_page_def)
    qed (simp add: evict_def RAND)
  next
    case CLOCK
    with clock_scan_removes [OF r ne, of "rnd s"] r show ?thesis
      by (simp add: evict_def resident_def)
  next
    case OPT
    obtain m i where i: "opt_index addrs k s = Inr (m, i)" "0 \<le> i" "i < ?n"
      using opt_index_farthest [OF r ne] by blast
    then show ?thesis using OPT pop_page_removes [OF r, of i] by (simp add: evict_def)
  next
    case UNOPT
    obtain m i where i: "unopt_index addrs k s = Inr (m, i)" "0 \<le> i" "i < ?n"
      using unopt_index_nearest [OF r ne] by blast
    then show ?thesis using UNOPT pop_page_removes [OF r, of i] by (simp add: evict_def)
  qed (use pop_page_removes [OF r] n in \<open>auto simp: evict_def\<close>)
qed

section \<open>Runs\<close>

definition cache_ok :: "int \<Rightarrow> int list \<Rightarrow> cache \<Rightarrow> bool" where
  "cache_ok cachesize seen s \<longleftrightarrow> resident s \<and> (0 \<le> cachesize \<longrightarrow> cnt s \<le> cachesize) \<and>
     set (memory s) \<subseteq> set seen \<and> (seen \<noteq> [] \<longrightarrow> last seen \<in> set (memory s)) \<and>
     0 \<le> hits s \<and> 0 \<le> miss s \<and> hits s + miss s = int (length seen)"

lemma access_ok:
  assumes "cache_ok cs seen s" and "cs \<noteq> 0"
  shows "((pol = RAND \<or> pol = CLOCK) \<and> access pol cs cb addrs k n s = Inl OutOfDraws) \<or>
    (\<exists>t. access pol cs cb addrs k n s = Inr t \<and> cache_ok cs (seen @ [n]) t)"
proof (cases "n \<in> set (memory s)")
  case True
  then show ?thesis
    using assms length_pos_if_in_set [OF True]
    by (cases "ref s n")
       (auto simp: access_def cache_ok_def resident_def touch_def length_remove1 split: if_splits)
next
  case False
  let ?s = "s\<lparr>miss := miss s + 1\<rparr>"
  have r: "resident ?s" using assms(1) by (simp add: cache_ok_def resident_def)
  have nm: "n \<notin> set (memory ?s)" using False by simp
  consider "(pol = RAND \<or> pol = CLOCK) \<and> fetch (evict pol addrs k) cs n ?s = Inl OutOfDraws"
    | t where "fetch (evict pol addrs k) cs n ?s = Inr t" "distinct (memory t)"
        "cnt t = int (length (memory t))" "n \<in> set (memory t)" "set (memory t) \<subseteq> insert n (dom (ref t))"
        "draws_ok (rnd t)" "hits t = hits s" "miss t = miss s + 1"
        "set (memory t) \<subseteq> insert n (set (memory s))" "cnt t = (if cnt s = cs then cnt s else cnt s + 1)"
    using repl.fetch_result [OF r nm assms(2), of pol addrs k] by (auto split: if_splits) blast
  then show ?thesis
  proof cases
    case (2 t)
    have "resident (touch cb n t)" "memory (touch cb n t) = memory t" "cnt (touch cb n t) = cnt t"
        "hits (touch cb n t) = hits t" "miss (touch cb n t) = miss t"
      using 2 by (auto simp: touch_def resident_def split: option.split)
    then show ?thesis using 2 assms(1) False by (auto simp: access_def cache_ok_def split: if_splits)
  qed (use False in \<open>auto simp: access_def\<close>)
qed

lemma accesses_ok:
  "cache_ok cs seen s \<Longrightarrow> cs \<noteq> 0 \<Longrightarrow>
   ((pol = RAND \<or> pol = CLOCK) \<and> accesses pol cs cb addrs k ns s = Inl OutOfDraws) \<or>
    (\<exists>t. accesses pol cs cb addrs k ns s = Inr t \<and> cache_ok cs (seen @ ns) t)"
proof (induction ns arbitrary: seen s k)
  case (Cons n ns)
  from access_ok [OF Cons.prems, of pol cb addrs k n] show ?case
  proof (elim disjE)
    assume "\<exists>t. access pol cs cb addrs k n s = Inr t \<and> cache_ok cs (seen @ [n]) t"
    then obtain t where "access pol cs cb addrs k n s = Inr t" "cache_ok cs (seen @ [n]) t" by auto
    with Cons.IH [of "seen @ [n]" t "Suc k"] Cons.prems(2) show ?thesis by simp
  qed auto
qed simp

text \<open>
  C15: For every policy and every sequence of page references, a cache with room for at least
  one page never holds a page twice, never holds more pages than it has room for or pages that
  were not referenced, always holds the page referenced last, and counts every reference
  exactly once, as a hit or as a miss. No policy raises an exception: a run can only end early
  for lack of random numbers, and only under RAND and CLOCK.
\<close>

theorem page_cache_invariant:
  assumes "draws_ok rs" and "0 < cachesize"
  shows "((pol = RAND \<or> pol = CLOCK) \<and> simulate pol cachesize clockbits rs addrs = Inl OutOfDraws) \<or>
    (\<exists>t. simulate pol cachesize clockbits rs addrs = Inr t \<and> distinct (memory t) \<and>
       int (length (memory t)) \<le> cachesize \<and> set (memory t) \<subseteq> set addrs \<and>
       (addrs \<noteq> [] \<longrightarrow> last addrs \<in> set (memory t)) \<and>
       0 \<le> hits t \<and> 0 \<le> miss t \<and> hits t + miss t = int (length addrs))"
proof -
  have "cache_ok cachesize [] (empty_cache rs)"
    using assms by (auto simp: cache_ok_def resident_def empty_cache_def)
  from accesses_ok [OF this, of pol clockbits addrs 0 addrs] assms(2) show ?thesis
    unfolding simulate_def by (auto simp: cache_ok_def resident_def)
qed

theorem page_cache_invariant_witness:
  "\<exists>t. simulate CLOCK 2 2 [0, 1 / 2, 0, 1 / 2] [1, 2, 3] = Inr t \<and> distinct (memory t) \<and>
     hits t + miss t = 3"
proof -
  have "\<not> isl (simulate CLOCK 2 2 [0, 1 / 2, 0, 1 / 2] [1, 2, 3])" by code_simp
  then have "simulate CLOCK 2 2 [0, 1 / 2, 0, 1 / 2] [1, 2, 3] \<noteq> Inl OutOfDraws" by auto
  with page_cache_invariant [of "[0, 1 / 2, 0, 1 / 2]" 2 CLOCK 2 "[1, 2, 3]"] show ?thesis
    by (auto simp: draws_ok_def)
qed

section \<open>LRU\<close>

text \<open>
  The specification of LRU: the cache is the last \<open>k\<close> distinct pages of the reference string, in
  the order of their last use. (\<open>remdups\<close> keeps the last occurrence of each element.)
\<close>

definition recency :: "nat \<Rightarrow> int list \<Rightarrow> int list" where
  "recency k xs = drop (length (remdups xs) - k) (remdups xs)"

definition lru_step :: "nat \<Rightarrow> int \<Rightarrow> int list \<Rightarrow> int list" where
  "lru_step k n m = (if n \<in> set m then remove1 n m @ [n] else (if length m = k then tl m else m) @ [n])"

lemma remdups_snoc: "remdups (xs @ [n]) = remove1 n (remdups xs) @ [n]"
  by (induction xs) (auto simp: remove1_idem)

lemma lru_step_recency:
  assumes "0 < k"
  shows "lru_step k n (recency k xs) = recency k (xs @ [n])"
proof -
  define d where "d = remdups xs"
  define j where "j = length d - k"
  have split: "d = take j d @ drop j d" and dd: "distinct (take j d @ drop j d)" by (auto simp: d_def)
  have rem: "remove1 n d = remove1 n (take j d) @ drop j d" if "n \<in> set (take j d)"
    using that remove1_append [of n "take j d" "drop j d"] by simp
  have rem': "remove1 n d = take j d @ remove1 n (drop j d)" if "n \<in> set (drop j d)"
  proof -
    have "n \<notin> set (take j d)" using dd that unfolding distinct_append by blast
    then show ?thesis using remove1_append [of n "take j d" "drop j d"] by simp
  qed
  have jl: "length d - k = j" "j \<le> length d" by (auto simp: j_def)
  have tl: "tl (drop j d) = drop (Suc j) d" by (simp add: drop_Suc tl_drop)
  consider "n \<in> set (drop j d)" | "n \<in> set (take j d)" "n \<notin> set (drop j d)" | "n \<notin> set d"
    using split by (metis Un_iff set_append)
  then show ?thesis
  proof cases
    case 1
    then have "n \<in> set d" by (meson in_set_dropD)
    then have "length (remove1 n d) + 1 = length d" using length_pos_if_in_set [of n d] by (simp add: length_remove1)
    then show ?thesis
      using 1 rem' jl assms by (simp add: lru_step_def recency_def remdups_snoc flip: d_def)
  next
    case 2
    then have nd: "n \<in> set d" and jp: "0 < j" by (auto dest: in_set_takeD intro: gr0I)
    then have len: "length (remove1 n d) + 1 = length d" using length_pos_if_in_set [of n d] by (simp add: length_remove1)
    have "length (remove1 n (take j d)) = j - 1" using 2 jl by (simp add: length_remove1)
    with 2 rem jl jp len nd tl assms show ?thesis
      by (simp add: lru_step_def recency_def remdups_snoc flip: d_def)
  next
    case 3
    then have "remove1 n d = d" "n \<notin> set (drop j d)" by (auto simp: remove1_idem dest: in_set_dropD)
    with assms tl show ?thesis
      by (auto simp: lru_step_def recency_def remdups_snoc j_def Suc_diff_le simp flip: d_def)
  qed
qed

lemma lru_access:
  assumes "cache_ok cs seen s" and "0 < cs" and "memory s = recency (nat cs) seen"
  shows "\<exists>t. access LRU cs cb addrs k n s = Inr t \<and> cache_ok cs (seen @ [n]) t \<and>
    memory t = recency (nat cs) (seen @ [n]) \<and>
    miss t = miss s + (if n \<in> set (recency (nat cs) seen) then 0 else 1)"
proof -
  obtain t where t: "access LRU cs cb addrs k n s = Inr t" "cache_ok cs (seen @ [n]) t"
    using access_ok [OF assms(1), of LRU cb addrs k n] assms(2) by auto
  have c: "cnt s = int (length (memory s))" using assms(1) by (simp add: cache_ok_def resident_def)
  have "memory t = lru_step (nat cs) n (memory s) \<and> miss t = miss s + (if n \<in> set (memory s) then 0 else 1)"
    using t(1) c assms(2)
    by (cases "memory s")
      (auto simp: access_def fetch_def evict_def pop_page_def py_pop_def remove_nth_def lru_step_def
         touch_def Let_def nat_eq_iff split: if_splits option.splits)
  then show ?thesis using t assms lru_step_recency [of "nat cs" n seen] by auto
qed

lemma lru_accesses:
  assumes "0 < cs"
  shows "cache_ok cs seen s \<Longrightarrow> memory s = recency (nat cs) seen \<Longrightarrow>
    \<exists>t. accesses LRU cs cb addrs k ns s = Inr t \<and> memory t = recency (nat cs) (seen @ ns)"
proof (induction ns arbitrary: seen s k)
  case (Cons n ns)
  obtain t where "access LRU cs cb addrs k n s = Inr t" "cache_ok cs (seen @ [n]) t"
      "memory t = recency (nat cs) (seen @ [n])"
    using lru_access [OF Cons.prems(1) assms Cons.prems(2)] by blast
  with Cons.IH [of "seen @ [n]" t "Suc k"] show ?case by simp
qed simp

lemma empty_cache_ok: "0 < cs \<Longrightarrow> draws_ok rs \<Longrightarrow> cache_ok cs [] (empty_cache rs)"
  by (simp add: cache_ok_def resident_def empty_cache_def)

lemma recency_mono: "k \<le> l \<Longrightarrow> set (recency k xs) \<subseteq> set (recency l xs)"
  unfolding recency_def by (rule set_drop_subset_set_drop) simp

lemma lru_misses_mono:
  assumes "0 < c1" and "c1 \<le> c2"
  shows "cache_ok c1 seen s1 \<Longrightarrow> memory s1 = recency (nat c1) seen \<Longrightarrow>
    cache_ok c2 seen s2 \<Longrightarrow> memory s2 = recency (nat c2) seen \<Longrightarrow> miss s2 \<le> miss s1 \<Longrightarrow>
    \<exists>t1 t2. accesses LRU c1 b1 addrs k ns s1 = Inr t1 \<and> accesses LRU c2 b2 addrs k ns s2 = Inr t2 \<and>
      miss t2 \<le> miss t1"
proof (induction ns arbitrary: seen s1 s2 k)
  case (Cons n ns)
  obtain t1 where t1: "access LRU c1 b1 addrs k n s1 = Inr t1" "cache_ok c1 (seen @ [n]) t1"
      "memory t1 = recency (nat c1) (seen @ [n])"
      "miss t1 = miss s1 + (if n \<in> set (recency (nat c1) seen) then 0 else 1)"
    using lru_access [OF Cons.prems(1) assms(1) Cons.prems(2)] by blast
  have c2: "0 < c2" using assms by simp
  obtain t2 where t2: "access LRU c2 b2 addrs k n s2 = Inr t2" "cache_ok c2 (seen @ [n]) t2"
      "memory t2 = recency (nat c2) (seen @ [n])"
      "miss t2 = miss s2 + (if n \<in> set (recency (nat c2) seen) then 0 else 1)"
    using lru_access [OF Cons.prems(3) c2 Cons.prems(4)] by blast
  have "set (recency (nat c1) seen) \<subseteq> set (recency (nat c2) seen)"
    by (rule recency_mono) (use assms in simp)
  then have "miss t2 \<le> miss t1"
    using t1(4) t2(4) Cons.prems(5) by (auto split: if_splits)
  with Cons.IH [OF t1(2,3) t2(2,3)] t1(1) t2(1) show ?case by simp
qed auto

text \<open>
  C6: Under LRU the cache always holds exactly the most recently used distinct pages, in the
  order of their last use, and a larger cache never has more misses on the same reference
  string (LRU has no Belady anomaly).
\<close>

theorem lru_recency_and_inclusion:
  assumes "0 < c1" and "c1 \<le> c2"
  shows "\<exists>t1 t2. simulate LRU c1 b1 [] addrs = Inr t1 \<and> simulate LRU c2 b2 [] addrs = Inr t2 \<and>
    memory t1 = recency (nat c1) addrs \<and> set (memory t1) \<subseteq> set (memory t2) \<and> miss t2 \<le> miss t1"
proof -
  have r: "memory (empty_cache []) = recency k []" for k by (simp add: empty_cache_def recency_def)
  have c2: "0 < c2" using assms by simp
  have d: "draws_ok []" by (simp add: draws_ok_def)
  note ok = empty_cache_ok [OF assms(1) d] empty_cache_ok [OF c2 d]
  obtain t1 where t1: "simulate LRU c1 b1 [] addrs = Inr t1" "memory t1 = recency (nat c1) addrs"
    using lru_accesses [OF assms(1) ok(1) r, of b1 addrs 0 addrs] by (auto simp: simulate_def)
  obtain t2 where t2: "simulate LRU c2 b2 [] addrs = Inr t2" "memory t2 = recency (nat c2) addrs"
    using lru_accesses [OF c2 ok(2) r, of b2 addrs 0 addrs] by (auto simp: simulate_def)
  have "miss t2 \<le> miss t1"
    using lru_misses_mono [OF assms ok(1) r ok(2) r, of b1 addrs 0 addrs b2] t1(1) t2(1)
    by (simp add: simulate_def)
  with t1 t2 recency_mono [of "nat c1" "nat c2" addrs] assms show ?thesis by auto
qed

theorem lru_recency_and_inclusion_witness:
  "\<exists>t1 t2. simulate LRU 2 1 [] [1, 2, 3, 1, 2] = Inr t1 \<and> simulate LRU 3 1 [] [1, 2, 3, 1, 2] = Inr t2 \<and>
     memory t1 = [1, 2] \<and> miss t2 \<le> miss t1"
proof -
  have "recency (nat 2) [1, 2, 3, 1, 2] = [1, 2]" by (simp add: recency_def)
  with lru_recency_and_inclusion [of 2 3 1 "[1, 2, 3, 1, 2]" 1] show ?thesis by auto
qed

text \<open>
  FIFO does have the Belady anomaly: on a reference string of twelve accesses a cache of
  four pages misses more often than a cache of three.
\<close>

theorem fifo_belady_anomaly:
  "\<exists>addrs t3 t4. simulate FIFO 3 2 [] addrs = Inr t3 \<and> simulate FIFO 4 2 [] addrs = Inr t4 \<and>
     miss t3 < miss t4"
proof -
  let ?a = "[1, 2, 3, 4, 1, 2, 5, 1, 2, 3, 4, 5]"
  have e: "case (simulate FIFO 3 2 [] ?a, simulate FIFO 4 2 [] ?a) of
      (Inr t3, Inr t4) \<Rightarrow> miss t3 < miss t4 | _ \<Rightarrow> False" by code_simp
  then obtain t3 t4 where "simulate FIFO 3 2 [] ?a = Inr t3" "simulate FIFO 4 2 [] ?a = Inr t4" "miss t3 < miss t4"
    by (auto split: sum.splits)
  then show ?thesis by blast
qed

end
