(* ===== verification/ProcessRun.thy ===== *)
theory ProcessRun
  imports PyString
begin

text \<open>
  The process state simulator of \<open>src/Sem3/BSYS/04_Process/process-run.py\<close>: class
  \<open>scheduler\<close> with its process table, the state changes with their assertions, the choice of
  the next process, and the clock loop of \<open>run\<close> with both switching behaviours and both
  behaviours at the end of an I/O. The dictionary \<open>proc_info\<close> has the keys \<open>0, 1, ...\<close> in the
  order of creation and is a list here; a missing key raises \<open>KeyError\<close>.
\<close>

section \<open>State\<close>

datatype switch_behavior = SCHED_SWITCH_ON_IO | SCHED_SWITCH_ON_END
datatype io_behavior = IO_RUN_LATER | IO_RUN_IMMEDIATE
datatype proc_state = STATE_RUNNING | STATE_READY | STATE_DONE | STATE_WAIT
datatype proc_instr = DO_COMPUTE | DO_IO

record proc =
  PROC_CODE :: "proc_instr list"
  PROC_PC :: int
  PROC_ID :: nat
  PROC_STATE :: proc_state

record psched =
  proc_info :: "proc list"
  process_switch_behavior :: switch_behavior
  io_done_behavior :: io_behavior
  io_length :: int
  curr_proc :: nat
  io_finish_times :: "int list list"
  clock_tick :: int
  cpu_busy :: int
  io_busy :: int

definition scheduler_init :: "switch_behavior \<Rightarrow> io_behavior \<Rightarrow> int \<Rightarrow> psched" where
  "scheduler_init sw io len =
     \<lparr>proc_info = [], process_switch_behavior = sw, io_done_behavior = io, io_length = len,
      curr_proc = 0, io_finish_times = [], clock_tick = 0, cpu_busy = 0, io_busy = 0\<rparr>"

definition new_process :: "psched \<Rightarrow> nat \<times> psched" where
  "new_process s =
     (length (proc_info s),
      s\<lparr>proc_info := proc_info s @
         [\<lparr>PROC_CODE = [], PROC_PC = 0, PROC_ID = length (proc_info s), PROC_STATE = STATE_READY\<rparr>]\<rparr>)"

definition get_proc :: "nat \<Rightarrow> psched \<Rightarrow> proc res" where
  "get_proc pid s = (if pid < length (proc_info s) then Inr (proc_info s ! pid) else Inl KeyError)"

definition put_proc :: "nat \<Rightarrow> proc \<Rightarrow> psched \<Rightarrow> psched" where
  "put_proc pid p s = s\<lparr>proc_info := (proc_info s)[pid := p]\<rparr>"

definition append_code :: "nat \<Rightarrow> proc_instr list \<Rightarrow> psched \<Rightarrow> psched res" where
  "append_code pid is s =
     rbind (get_proc pid s) (\<lambda>p. Inr (put_proc pid (p\<lparr>PROC_CODE := PROC_CODE p @ is\<rparr>) s))"

section \<open>Loading\<close>

text \<open>\<open>load_file\<close>, on the lines of the file.\<close>

definition load_line :: "nat \<Rightarrow> string \<Rightarrow> psched \<Rightarrow> psched res" where
  "load_line pid line s =
     (case split_ws line of
        [] \<Rightarrow> Inr s
      | opcode # rest \<Rightarrow>
          if opcode = ''compute'' then
            rbind (py_assert (length rest = 1)) (\<lambda>_.
            rbind (py_int (hd rest)) (\<lambda>k. append_code pid (replicate (nat k) DO_COMPUTE) s))
          else if opcode = ''io'' then
            rbind (py_assert (rest = [])) (\<lambda>_. append_code pid [DO_IO] s)
          else Inr s)"

definition load_file :: "string list \<Rightarrow> psched \<Rightarrow> psched res" where
  "load_file lines s = (let (pid, t) = new_process s in rfold (load_line pid) lines t)"

text \<open>\<open>load\<close>: a description \<open>x:y\<close>, \<open>x\<close> instructions of which \<open>y\<close> percent use the CPU.\<close>

fun draw_code :: "nat \<Rightarrow> rat \<Rightarrow> draws \<Rightarrow> (proc_instr list \<times> draws) res" where
  "draw_code 0 chance rs = Inr ([], rs)"
| "draw_code (Suc k) chance rs =
     rbind (draw rs) (\<lambda>(x, rs1).
     rbind (draw_code k chance rs1) (\<lambda>(is, rs2).
       Inr ((if x < chance then DO_COMPUTE else DO_IO) # is, rs2)))"

definition load :: "string \<Rightarrow> draws \<Rightarrow> psched \<Rightarrow> (psched \<times> draws) res" where
  "load descr rs s =
     (let (pid, t) = new_process s; tmp = split_on CHR '':'' descr in
      if length tmp \<noteq> 2 then Inl SystemExit
      else rbind (py_int (tmp ! 0)) (\<lambda>num.
           rbind (py_float (tmp ! 1)) (\<lambda>y.
           rbind (draw_code (nat num) (y / 100) rs) (\<lambda>(is, rs').
           rbind (append_code pid is t) (\<lambda>u. Inr (u, rs'))))))"

fun load_all :: "string list \<Rightarrow> draws \<Rightarrow> psched \<Rightarrow> (psched \<times> draws) res" where
  "load_all [] rs s = Inr (s, rs)"
| "load_all (d # ds) rs s = rbind (load d rs s) (\<lambda>(t, rs'). load_all ds rs' t)"

section \<open>State changes\<close>

definition move_to :: "proc_state \<Rightarrow> proc_state \<Rightarrow> nat \<Rightarrow> psched \<Rightarrow> psched res" where
  "move_to target expected pid s =
     rbind (get_proc pid s) (\<lambda>p.
     rbind (py_assert (PROC_STATE p = expected)) (\<lambda>_.
       Inr (put_proc pid (p\<lparr>PROC_STATE := target\<rparr>) s)))"

definition move_to_ready :: "proc_state \<Rightarrow> nat option \<Rightarrow> psched \<Rightarrow> psched res" where
  "move_to_ready expected pid s =
     move_to STATE_READY expected (case pid of None \<Rightarrow> curr_proc s | Some p \<Rightarrow> p) s"

definition move_to_wait :: "proc_state \<Rightarrow> psched \<Rightarrow> psched res" where
  "move_to_wait expected s = move_to STATE_WAIT expected (curr_proc s) s"

definition move_to_running :: "proc_state \<Rightarrow> psched \<Rightarrow> psched res" where
  "move_to_running expected s = move_to STATE_RUNNING expected (curr_proc s) s"

definition move_to_done :: "proc_state \<Rightarrow> psched \<Rightarrow> psched res" where
  "move_to_done expected s = move_to STATE_DONE expected (curr_proc s) s"

fun find_ready :: "nat list \<Rightarrow> psched \<Rightarrow> nat option res" where
  "find_ready [] s = Inr None"
| "find_ready (pid # pids) s =
     rbind (get_proc pid s) (\<lambda>p. if PROC_STATE p = STATE_READY then Inr (Some pid) else find_ready pids s)"

definition next_proc :: "nat option \<Rightarrow> psched \<Rightarrow> psched res" where
  "next_proc arg s =
     (case arg of
        Some pid \<Rightarrow> move_to_running STATE_READY (s\<lparr>curr_proc := pid\<rparr>)
      | None \<Rightarrow>
          rbind (find_ready ([curr_proc s + 1..<length (proc_info s)] @ [0..<curr_proc s + 1]) s) (\<lambda>found.
            case found of
              None \<Rightarrow> Inr s
            | Some pid \<Rightarrow> move_to_running STATE_READY (s\<lparr>curr_proc := pid\<rparr>)))"

definition get_num_active :: "psched \<Rightarrow> nat" where
  "get_num_active s = length (filter (\<lambda>p. PROC_STATE p \<noteq> STATE_DONE) (proc_info s))"

definition get_num_runnable :: "psched \<Rightarrow> nat" where
  "get_num_runnable s =
     length (filter (\<lambda>p. PROC_STATE p = STATE_READY \<or> PROC_STATE p = STATE_RUNNING) (proc_info s))"

definition get_ios_in_flight :: "psched \<Rightarrow> nat" where
  "get_ios_in_flight s = sum_list (map (\<lambda>ts. length (filter (\<lambda>t. t > clock_tick s) ts)) (io_finish_times s))"

definition check_if_done :: "psched \<Rightarrow> psched res" where
  "check_if_done s =
     rbind (get_proc (curr_proc s) s) (\<lambda>p.
       if PROC_CODE p = [] \<and> PROC_STATE p = STATE_RUNNING
       then rbind (move_to_done STATE_RUNNING s) (next_proc None)
       else Inr s)"

section \<open>The clock loop\<close>

definition io_times :: "nat \<Rightarrow> psched \<Rightarrow> int list res" where
  "io_times pid s =
     (if pid < length (io_finish_times s) then Inr (io_finish_times s ! pid) else Inl KeyError)"

definition finish_io :: "nat \<Rightarrow> psched \<Rightarrow> psched res" where
  "finish_io pid s =
     rbind (move_to_ready STATE_WAIT (Some pid) s) (\<lambda>s1.
     rbind (if io_done_behavior s1 = IO_RUN_IMMEDIATE then
              rbind (get_proc (curr_proc s1) s1) (\<lambda>c.
              rbind (if curr_proc s1 \<noteq> pid \<and> PROC_STATE c = STATE_RUNNING
                     then move_to_ready STATE_RUNNING None s1 else Inr s1) (next_proc (Some pid)))
            else
              rbind (if process_switch_behavior s1 = SCHED_SWITCH_ON_END \<and> get_num_runnable s1 > 1
                     then next_proc (Some pid) s1 else Inr s1) (\<lambda>s2.
                if get_num_runnable s2 = 1 then next_proc (Some pid) s2 else Inr s2))
       check_if_done)"

definition poll_io :: "nat \<Rightarrow> psched \<Rightarrow> psched res" where
  "poll_io pid s =
     rbind (io_times pid s) (\<lambda>ts. if clock_tick s \<in> set ts then finish_io pid s else Inr s)"

definition exec_instr :: "psched \<Rightarrow> (proc_instr option \<times> psched) res" where
  "exec_instr s =
     rbind (get_proc (curr_proc s) s) (\<lambda>p.
       if PROC_STATE p = STATE_RUNNING \<and> PROC_CODE p \<noteq> []
       then Inr (Some (hd (PROC_CODE p)),
                 put_proc (curr_proc s) (p\<lparr>PROC_CODE := tl (PROC_CODE p)\<rparr>) (s\<lparr>cpu_busy := cpu_busy s + 1\<rparr>))
       else Inr (None, s))"

definition start_io :: "psched \<Rightarrow> psched res" where
  "start_io s =
     rbind (move_to_wait STATE_RUNNING s) (\<lambda>s1.
     rbind (io_times (curr_proc s1) s1) (\<lambda>ts.
       let s2 = s1\<lparr>io_finish_times :=
                  (io_finish_times s1)[curr_proc s1 := ts @ [clock_tick s1 + io_length s1]]\<rparr>
       in if process_switch_behavior s2 = SCHED_SWITCH_ON_IO then next_proc None s2 else Inr s2))"

definition tick :: "psched \<Rightarrow> psched res" where
  "tick s =
     rbind (rfold poll_io [0..<length (proc_info s)] (s\<lparr>clock_tick := clock_tick s + 1\<rparr>)) (\<lambda>s1.
     rbind (exec_instr s1) (\<lambda>(instr, s2).
       let s3 = (if get_ios_in_flight s2 > 0 then s2\<lparr>io_busy := io_busy s2 + 1\<rparr> else s2)
       in rbind (if instr = Some DO_IO then start_io s3 else Inr s3) check_if_done))"

definition run_start :: "psched \<Rightarrow> psched res" where
  "run_start s =
     move_to_running STATE_READY
       (s\<lparr>clock_tick := 0, io_finish_times := replicate (length (proc_info s)) [], curr_proc := 0,
          io_busy := 0, cpu_busy := 0\<rparr>)"

text \<open>\<open>run\<close> for a bounded number of ticks; no processes: it returns at once.\<close>

definition run_sched :: "nat \<Rightarrow> psched \<Rightarrow> psched res option" where
  "run_sched fuel s =
     (if proc_info s = [] then Some (Inr s)
      else case run_start s of
             Inl e \<Rightarrow> Some (Inl e)
           | Inr t \<Rightarrow> loop fuel (\<lambda>u. get_num_active u > 0) tick t)"

section \<open>Invariant\<close>

text \<open>
  At time \<open>T\<close> only the current process can be running; a process waits exactly while it has an
  I/O that ends after \<open>T\<close>, of which it has at most one; no two I/Os end at the same time; a
  finished process has no code left. When the scheduler switches on I/O, the CPU is idle only
  if no process is ready. When it does not, only the current process can wait.
\<close>

abbreviation st :: "psched \<Rightarrow> nat \<Rightarrow> proc_state" where
  "st s p \<equiv> PROC_STATE (proc_info s ! p)"

abbreviation nprocs :: "psched \<Rightarrow> nat" where
  "nprocs s \<equiv> length (proc_info s)"

definition sched_ok :: "psched \<Rightarrow> bool" where
  "sched_ok s \<longleftrightarrow> curr_proc s < nprocs s \<and> length (io_finish_times s) = nprocs s \<and>
     (\<forall>p < nprocs s. p \<noteq> curr_proc s \<longrightarrow> st s p \<noteq> STATE_RUNNING) \<and> st s (curr_proc s) \<noteq> STATE_READY \<and>
     (\<forall>p < nprocs s. st s p = STATE_DONE \<longrightarrow> PROC_CODE (proc_info s ! p) = []) \<and>
     (process_switch_behavior s = SCHED_SWITCH_ON_IO \<longrightarrow> st s (curr_proc s) \<noteq> STATE_RUNNING \<longrightarrow>
        (\<forall>p < nprocs s. st s p \<noteq> STATE_READY)) \<and>
     (process_switch_behavior s = SCHED_SWITCH_ON_END \<longrightarrow>
        (\<forall>p < nprocs s. p \<noteq> curr_proc s \<longrightarrow> st s p \<noteq> STATE_WAIT) \<and>
        (st s (curr_proc s) = STATE_DONE \<longrightarrow> (\<forall>p < nprocs s. st s p \<noteq> STATE_READY)))"

definition io_ok :: "int \<Rightarrow> psched \<Rightarrow> bool" where
  "io_ok T s \<longleftrightarrow>
     (\<forall>p < nprocs s. st s p = STATE_WAIT \<longleftrightarrow> (\<exists>t \<in> set (io_finish_times s ! p). T < t)) \<and>
     (\<forall>p < nprocs s. \<forall>q < nprocs s. \<forall>t \<in> set (io_finish_times s ! p). \<forall>u \<in> set (io_finish_times s ! q).
        T < t \<longrightarrow> T < u \<longrightarrow> (p = q \<longleftrightarrow> t = u))"

definition io_bound :: "int \<Rightarrow> psched \<Rightarrow> bool" where
  "io_bound B s \<longleftrightarrow> (\<forall>p < length (io_finish_times s). \<forall>t \<in> set (io_finish_times s ! p). t \<le> B)"

text \<open>What the state changes leave alone.\<close>

definition same_frame :: "psched \<Rightarrow> psched \<Rightarrow> bool" where
  "same_frame s t \<longleftrightarrow> map PROC_CODE (proc_info t) = map PROC_CODE (proc_info s) \<and>
     io_finish_times t = io_finish_times s \<and> process_switch_behavior t = process_switch_behavior s \<and>
     io_done_behavior t = io_done_behavior s \<and> io_length t = io_length s \<and>
     clock_tick t = clock_tick s \<and> cpu_busy t = cpu_busy s \<and> io_busy t = io_busy s"

lemma same_frame_trans: "same_frame s t \<Longrightarrow> same_frame t u \<Longrightarrow> same_frame s u"
  by (simp add: same_frame_def)

lemma same_frame_nprocs: "same_frame s t \<Longrightarrow> nprocs t = nprocs s"
  unfolding same_frame_def by (metis length_map)

lemma same_frame_refl [simp]: "same_frame s s"
  by (simp add: same_frame_def)

lemma map_update_same: "f y = f (xs ! i) \<Longrightarrow> map f (xs[i := y]) = map f xs"
  by (metis list_update_beyond list_update_id map_update not_le_imp_less nth_map)

lemma move_to_eq:
  "pid < nprocs s \<Longrightarrow> st s pid = expected \<Longrightarrow>
   move_to target expected pid s = Inr (put_proc pid ((proc_info s ! pid)\<lparr>PROC_STATE := target\<rparr>) s)"
  by (simp add: move_to_def get_proc_def)

lemma put_state_frame: "same_frame s (put_proc pid ((proc_info s ! pid)\<lparr>PROC_STATE := x\<rparr>) s)"
  by (simp add: same_frame_def put_proc_def map_update_same)

lemma put_state_st:
  "pid < nprocs s \<Longrightarrow> p < nprocs s \<Longrightarrow>
   st (put_proc pid ((proc_info s ! pid)\<lparr>PROC_STATE := x\<rparr>) s) p = (if p = pid then x else st s p)"
  by (simp add: put_proc_def nth_list_update)

lemma find_ready_result:
  "\<forall>p \<in> set pids. p < nprocs s \<Longrightarrow> \<exists>r. find_ready pids s = Inr r \<and>
   (case r of None \<Rightarrow> \<forall>p \<in> set pids. st s p \<noteq> STATE_READY | Some p \<Rightarrow> p \<in> set pids \<and> st s p = STATE_READY)"
  by (induction pids) (auto simp: get_proc_def split: option.splits)

text \<open>The process table after a switch: the new current process runs.\<close>

definition run_proc :: "nat \<Rightarrow> psched \<Rightarrow> psched" where
  "run_proc pid s = put_proc pid ((proc_info s ! pid)\<lparr>PROC_STATE := STATE_RUNNING\<rparr>) (s\<lparr>curr_proc := pid\<rparr>)"

lemma run_proc_simps [simp]:
  "curr_proc (run_proc pid s) = pid" "nprocs (run_proc pid s) = nprocs s"
  "io_finish_times (run_proc pid s) = io_finish_times s"
  "process_switch_behavior (run_proc pid s) = process_switch_behavior s"
  by (simp_all add: run_proc_def put_proc_def)

lemma run_proc_st:
  "pid < nprocs s \<Longrightarrow> p < nprocs s \<Longrightarrow> st (run_proc pid s) p = (if p = pid then STATE_RUNNING else st s p)"
  by (simp add: run_proc_def put_proc_def nth_list_update)

lemma run_proc_code [simp]:
  "p < nprocs s \<Longrightarrow> PROC_CODE (proc_info (run_proc pid s) ! p) = PROC_CODE (proc_info s ! p)"
  by (cases "p = pid") (simp_all add: run_proc_def put_proc_def)

lemma run_proc_frame: "same_frame s (run_proc pid s)"
  by (simp add: same_frame_def run_proc_def put_proc_def map_update_same)

lemma run_proc_active:
  "pid < nprocs s \<Longrightarrow> st s pid = STATE_READY \<Longrightarrow> get_num_active (run_proc pid s) = get_num_active s"
  using length_filter_update [of pid "proc_info s" "\<lambda>p. PROC_STATE p \<noteq> STATE_DONE"
      "(proc_info s ! pid)\<lparr>PROC_STATE := STATE_RUNNING\<rparr>"]
  by (simp add: get_num_active_def run_proc_def put_proc_def)

lemma next_proc_Some:
  "pid < nprocs s \<Longrightarrow> st s pid = STATE_READY \<Longrightarrow> next_proc (Some pid) s = Inr (run_proc pid s)"
  by (simp add: next_proc_def move_to_running_def move_to_eq run_proc_def)

lemma next_proc_None:
  assumes "curr_proc s < nprocs s"
  shows "(next_proc None s = Inr s \<and> (\<forall>p < nprocs s. st s p \<noteq> STATE_READY)) \<or>
    (\<exists>pid < nprocs s. st s pid = STATE_READY \<and> next_proc None s = Inr (run_proc pid s))"
proof -
  let ?ps = "[curr_proc s + 1..<nprocs s] @ [0..<curr_proc s + 1]"
  have ps: "set ?ps = {..<nprocs s}" using assms by auto
  have "\<forall>p \<in> set ?ps. p < nprocs s" unfolding ps by simp
  from find_ready_result [OF this] obtain r where r: "find_ready ?ps s = Inr r"
      "case r of None \<Rightarrow> \<forall>p \<in> set ?ps. st s p \<noteq> STATE_READY | Some p \<Rightarrow> p \<in> set ?ps \<and> st s p = STATE_READY"
    by blast
  then show ?thesis
  proof (cases r)
    case None
    then have "\<forall>p < nprocs s. st s p \<noteq> STATE_READY" using r(2) unfolding ps by simp
    then show ?thesis using r(1) None by (simp add: next_proc_def)
  next
    case (Some pid)
    then have "pid < nprocs s" "st s pid = STATE_READY" using r(2) unfolding ps by simp_all
    moreover have "next_proc None s = next_proc (Some pid) s"
      using r(1) Some by (simp add: next_proc_def del: upt_Suc)
    ultimately show ?thesis using next_proc_Some by metis
  qed
qed

text \<open>When no process runs, the next one is chosen and the invariant is restored.\<close>

lemma next_proc_idle:
  assumes "curr_proc s < nprocs s" and "length (io_finish_times s) = nprocs s"
    and idle: "\<forall>p < nprocs s. st s p \<noteq> STATE_RUNNING"
    and "\<forall>p < nprocs s. st s p = STATE_DONE \<longrightarrow> PROC_CODE (proc_info s ! p) = []"
    and on_end: "process_switch_behavior s = SCHED_SWITCH_ON_END \<Longrightarrow> \<forall>p < nprocs s. st s p \<noteq> STATE_WAIT"
    and io: "io_ok T s"
  shows "\<exists>t. next_proc None s = Inr t \<and> sched_ok t \<and> io_ok T t \<and> same_frame s t \<and>
    get_num_active t = get_num_active s"
  using next_proc_None [OF assms(1)]
proof (elim disjE conjE exE)
  assume "next_proc None s = Inr s" "\<forall>p < nprocs s. st s p \<noteq> STATE_READY"
  then show ?thesis using assms by (auto simp: sched_ok_def)
next
  fix pid
  assume pid: "pid < nprocs s" "st s pid = STATE_READY" "next_proc None s = Inr (run_proc pid s)"
  have "sched_ok (run_proc pid s)"
    using assms pid by (auto simp: sched_ok_def run_proc_st)
  moreover have "io_ok T (run_proc pid s)"
    using io pid by (auto simp: io_ok_def run_proc_st)
  ultimately show ?thesis using pid run_proc_frame run_proc_active by blast
qed

lemma put_state_active:
  assumes "pid < nprocs s"
  shows "get_num_active (put_proc pid ((proc_info s ! pid)\<lparr>PROC_STATE := x\<rparr>) s) +
    (if st s pid \<noteq> STATE_DONE then 1 else 0) = get_num_active s + (if x \<noteq> STATE_DONE then 1 else 0)"
  using length_filter_update [OF assms, of "\<lambda>p. PROC_STATE p \<noteq> STATE_DONE"
      "(proc_info s ! pid)\<lparr>PROC_STATE := x\<rparr>"]
  by (simp add: get_num_active_def put_proc_def)

lemma check_if_done_ok:
  assumes "sched_ok s" and "io_ok T s"
  shows "\<exists>t. check_if_done s = Inr t \<and> sched_ok t \<and> io_ok T t \<and> same_frame s t \<and>
    get_num_active t + (if st s (curr_proc s) = STATE_RUNNING \<and> PROC_CODE (proc_info s ! curr_proc s) = []
      then 1 else 0) = get_num_active s"
proof (cases "st s (curr_proc s) = STATE_RUNNING \<and> PROC_CODE (proc_info s ! curr_proc s) = []")
  case False
  then show ?thesis using assms by (auto simp: check_if_done_def get_proc_def sched_ok_def)
next
  case True
  let ?c = "curr_proc s"
  let ?d = "put_proc ?c ((proc_info s ! ?c)\<lparr>PROC_STATE := STATE_DONE\<rparr>) s"
  have c: "?c < nprocs s" using assms(1) by (simp add: sched_ok_def)
  have n: "nprocs ?d = nprocs s" "curr_proc ?d = ?c" "io_finish_times ?d = io_finish_times s"
      "process_switch_behavior ?d = process_switch_behavior s" by (simp_all add: put_proc_def)
  have st: "st ?d p = (if p = ?c then STATE_DONE else st s p)" if "p < nprocs s" for p
    using put_state_st [OF c that] .
  have code: "PROC_CODE (proc_info ?d ! p) = PROC_CODE (proc_info s ! p)" for p
    using put_state_frame [of s ?c STATE_DONE] unfolding same_frame_def
    by (cases "p = ?c") (use c in \<open>auto simp: put_proc_def\<close>)
  have io: "io_ok T ?d" using assms(2) True c by (auto simp: io_ok_def n st)
  have "\<exists>t. next_proc None ?d = Inr t \<and> sched_ok t \<and> io_ok T t \<and> same_frame ?d t \<and>
      get_num_active t = get_num_active ?d"
    by (rule next_proc_idle) (use assms(1) True c io in \<open>auto simp: sched_ok_def n st code\<close>)
  then obtain t where t: "next_proc None ?d = Inr t" "sched_ok t" "io_ok T t" "same_frame ?d t"
      "get_num_active t = get_num_active ?d" by blast
  have "check_if_done s = next_proc None ?d"
    using True c by (simp add: check_if_done_def get_proc_def move_to_done_def move_to_eq)
  moreover have "get_num_active ?d + 1 = get_num_active s"
    using put_state_active [OF c, of STATE_DONE] True by simp
  ultimately show ?thesis
    using t True same_frame_trans [OF put_state_frame t(4)] by auto
qed

section \<open>The end of an I/O\<close>

lemma frame_code:
  "same_frame s t \<Longrightarrow> p < nprocs s \<Longrightarrow> PROC_CODE (proc_info t ! p) = PROC_CODE (proc_info s ! p)"
  unfolding same_frame_def by (metis length_map nth_map)

lemma frame_io:
  "same_frame s t \<Longrightarrow> io_finish_times t = io_finish_times s \<and>
   process_switch_behavior t = process_switch_behavior s \<and> io_done_behavior t = io_done_behavior s"
  by (simp add: same_frame_def)

lemma io_ok_advance:
  assumes "io_ok T s" and "same_frame s u"
    and "\<forall>p < nprocs s. st u p = STATE_WAIT \<longleftrightarrow> st s p = STATE_WAIT \<and> T + 1 \<notin> set (io_finish_times s ! p)"
  shows "io_ok (T + 1) u"
proof -
  note f = frame_io [OF assms(2)] same_frame_nprocs [OF assms(2)]
  have wait: "st u p = STATE_WAIT \<longleftrightarrow> (\<exists>t \<in> set (io_finish_times s ! p). T + 1 < t)" if p: "p < nprocs s" for p
  proof -
    have one: "t = T + 1" if "T + 1 \<in> set (io_finish_times s ! p)" "t \<in> set (io_finish_times s ! p)" "T < t" for t
      using assms(1) p that unfolding io_ok_def by (metis less_add_one)
    have "st s p = STATE_WAIT \<longleftrightarrow> (\<exists>t \<in> set (io_finish_times s ! p). T < t)"
      using assms(1) p by (simp add: io_ok_def)
    moreover have "T + 1 < t \<longleftrightarrow> T < t \<and> t \<noteq> T + 1" for t by auto
    ultimately show ?thesis using assms(3) p one by metis
  qed
  with assms(1) show ?thesis by (simp add: io_ok_def f)
qed

lemma run_waiter_ok:
  assumes ok: "sched_ok s" "io_ok T s" and q: "q < nprocs s" "T + 1 \<in> set (io_finish_times s ! q)"
    and r: "same_frame s r" "st r q = STATE_READY"
      "\<forall>p < nprocs s. p \<noteq> q \<longrightarrow> st r p \<noteq> STATE_RUNNING \<and>
         (st r p = STATE_WAIT \<longleftrightarrow> st s p = STATE_WAIT) \<and> (st r p = STATE_DONE \<longleftrightarrow> st s p = STATE_DONE)"
  shows "sched_ok (run_proc q r) \<and> io_ok (T + 1) (run_proc q r) \<and> same_frame s (run_proc q r) \<and>
    get_num_active (run_proc q r) = get_num_active r"
proof -
  note f = frame_io [OF r(1)] same_frame_nprocs [OF r(1)]
  have qr: "q < nprocs r" using q f by simp
  have w: "st s q = STATE_WAIT" using ok(2) q unfolding io_ok_def by (metis less_add_one)
  have other: "T + 1 \<notin> set (io_finish_times s ! p)" if "p < nprocs s" "p \<noteq> q" for p
    using ok(2) q that unfolding io_ok_def by (metis less_add_one)
  have fr: "same_frame s (run_proc q r)" by (rule same_frame_trans [OF r(1) run_proc_frame])
  have "st (run_proc q r) p = STATE_WAIT \<longleftrightarrow> st s p = STATE_WAIT \<and> T + 1 \<notin> set (io_finish_times s ! p)"
    if "p < nprocs s" for p
    using that r(3) other q qr f by (cases "p = q") (auto simp: run_proc_st)
  then have "io_ok (T + 1) (run_proc q r)" using io_ok_advance [OF ok(2) fr] by blast
  moreover have "q = curr_proc s" if "process_switch_behavior s = SCHED_SWITCH_ON_END"
    using ok(1) q(1) w that by (auto simp: sched_ok_def)
  then have "sched_ok (run_proc q r)"
    using ok(1) r(3) q(1) qr f frame_code [OF r(1)] by (auto simp: sched_ok_def run_proc_st)
  ultimately show ?thesis using fr run_proc_active [OF qr r(2)] by blast
qed

lemma finish_io_ok:
  assumes ok: "sched_ok s" "io_ok T s" and q: "q < nprocs s" "T + 1 \<in> set (io_finish_times s ! q)"
  shows "\<exists>t. finish_io q s = Inr t \<and> sched_ok t \<and> io_ok (T + 1) t \<and> same_frame s t \<and>
    get_num_active t \<le> get_num_active s"
proof -
  let ?c = "curr_proc s" and ?r = "put_proc q ((proc_info s ! q)\<lparr>PROC_STATE := STATE_READY\<rparr>) s"
  have w: "st s q = STATE_WAIT" using ok(2) q unfolding io_ok_def by (metis less_add_one)
  have c: "?c < nprocs s" using ok(1) by (simp add: sched_ok_def)
  have fr: "same_frame s ?r" by (rule put_state_frame)
  note f = frame_io [OF fr] same_frame_nprocs [OF fr]
  have cr: "curr_proc ?r = ?c" by (simp add: put_proc_def)
  have st: "st ?r p = (if p = q then STATE_READY else st s p)" if "p < nprocs s" for p
    by (rule put_state_st [OF q(1) that])
  have act: "get_num_active ?r = get_num_active s" using put_state_active [OF q(1), of STATE_READY] w by simp
  define mid where "mid = (if io_done_behavior ?r = IO_RUN_IMMEDIATE then
              rbind (get_proc (curr_proc ?r) ?r) (\<lambda>c.
              rbind (if curr_proc ?r \<noteq> q \<and> PROC_STATE c = STATE_RUNNING
                     then move_to_ready STATE_RUNNING None ?r else Inr ?r) (next_proc (Some q)))
            else
              rbind (if process_switch_behavior ?r = SCHED_SWITCH_ON_END \<and> get_num_runnable ?r > 1
                     then next_proc (Some q) ?r else Inr ?r) (\<lambda>s2.
                if get_num_runnable s2 = 1 then next_proc (Some q) s2 else Inr s2))"
  have fin: "finish_io q s = rbind mid check_if_done"
    using q(1) w by (simp add: finish_io_def move_to_ready_def move_to_eq mid_def)
  have "\<exists>u. mid = Inr u \<and> sched_ok u \<and> io_ok (T + 1) u \<and> same_frame s u \<and>
      get_num_active u = get_num_active s"
  proof (cases "io_done_behavior s = IO_RUN_IMMEDIATE")
    case imm: True
    show ?thesis
    proof (cases "?c \<noteq> q \<and> st s ?c = STATE_RUNNING")
      case True
      let ?r2 = "put_proc ?c ((proc_info ?r ! ?c)\<lparr>PROC_STATE := STATE_READY\<rparr>) ?r"
      have st2: "st ?r2 p = (if p = ?c then STATE_READY else st ?r p)" if "p < nprocs s" for p
        using put_state_st [of ?c ?r p] c that f by simp
      have fr2: "same_frame s ?r2" by (rule same_frame_trans [OF fr put_state_frame])
      have a2: "get_num_active ?r2 = get_num_active s"
        using put_state_active [of ?c ?r STATE_READY] True c f act st [OF c] by simp
      have "next_proc (Some q) ?r2 = Inr (run_proc q ?r2)"
        by (rule next_proc_Some) (use q True st st2 same_frame_nprocs [OF fr2] in auto)
      then have "mid = Inr (run_proc q ?r2)"
        using imm True c f cr st [OF c] move_to_eq [of ?c ?r STATE_RUNNING STATE_READY]
        by (simp add: mid_def get_proc_def move_to_ready_def)
      moreover have "\<forall>p < nprocs s. p \<noteq> q \<longrightarrow> st ?r2 p \<noteq> STATE_RUNNING \<and>
         (st ?r2 p = STATE_WAIT \<longleftrightarrow> st s p = STATE_WAIT) \<and> (st ?r2 p = STATE_DONE \<longleftrightarrow> st s p = STATE_DONE)"
        using ok(1) True st st2 by (auto simp: sched_ok_def)
      moreover have "st ?r2 q = STATE_READY" using q(1) True st st2 by simp
      ultimately show ?thesis using run_waiter_ok [OF ok q fr2] a2 by auto
    next
      case False
      have "next_proc (Some q) ?r = Inr (run_proc q ?r)"
        by (rule next_proc_Some) (use q st f in auto)
      then have "mid = Inr (run_proc q ?r)"
        using imm False c f cr st [OF c] by (auto simp: mid_def get_proc_def)
      moreover have "\<forall>p < nprocs s. p \<noteq> q \<longrightarrow> st ?r p \<noteq> STATE_RUNNING \<and>
         (st ?r p = STATE_WAIT \<longleftrightarrow> st s p = STATE_WAIT) \<and> (st ?r p = STATE_DONE \<longleftrightarrow> st s p = STATE_DONE)"
        using ok(1) False st by (auto simp: sched_ok_def)
      ultimately show ?thesis using run_waiter_ok [OF ok q fr] st [OF q(1)] act by auto
    qed
  next
    case later: False
    let ?P = "\<lambda>p. PROC_STATE p = STATE_READY \<or> PROC_STATE p = STATE_RUNNING"
    have qr: "q < nprocs ?r" "st ?r q = STATE_READY" using q st f by auto
    have one: "get_num_runnable ?r = 1 \<longleftrightarrow>
        (\<forall>p < nprocs s. p \<noteq> q \<longrightarrow> st s p \<noteq> STATE_READY \<and> st s p \<noteq> STATE_RUNNING)"
      using length_filter_one [OF qr(1), of ?P] qr st f by (auto simp: get_num_runnable_def)
    have ge: "1 \<le> get_num_runnable ?r"
      using length_filter_ge1 [OF qr(1), of ?P] qr(2) unfolding get_num_runnable_def by blast
    have nx: "next_proc (Some q) ?r = Inr (run_proc q ?r)" by (rule next_proc_Some [OF qr])
    have keep: "get_num_runnable (run_proc q ?r) = get_num_runnable ?r"
      using length_filter_update [OF qr(1), of ?P "(proc_info ?r ! q)\<lparr>PROC_STATE := STATE_RUNNING\<rparr>"] qr(2)
      by (simp add: get_num_runnable_def run_proc_def put_proc_def)
    show ?thesis
    proof (cases "get_num_runnable ?r = 1 \<or> process_switch_behavior s = SCHED_SWITCH_ON_END")
      case True
      then have "mid = Inr (run_proc q ?r)"
        using later f nx ge keep unfolding mid_def by auto
      moreover have "st ?r p \<noteq> STATE_RUNNING" if "p < nprocs s" "p \<noteq> q" for p
        using True one ok(1) that w q(1) st [OF that(1)] by (auto simp: sched_ok_def)
      ultimately show ?thesis using run_waiter_ok [OF ok q fr qr(2)] st act by auto
    next
      case False
      then have sw: "process_switch_behavior s = SCHED_SWITCH_ON_IO"
        by (cases "process_switch_behavior s") auto
      have "mid = Inr ?r" using later f False unfolding mid_def by auto
      moreover have run: "st s ?c = STATE_RUNNING"
        using False one ok(1) sw by (auto simp: sched_ok_def)
      have other: "T + 1 \<notin> set (io_finish_times s ! p)" if "p < nprocs s" "p \<noteq> q" for p
        using ok(2) q that unfolding io_ok_def by (metis less_add_one)
      have "io_ok (T + 1) ?r"
        by (rule io_ok_advance [OF ok(2) fr]) (use st other q in auto)
      moreover have "sched_ok ?r"
        using ok(1) run sw st f cr frame_code [OF fr] w by (auto simp: sched_ok_def)
      ultimately show ?thesis using fr act by auto
    qed
  qed
  then obtain u where u: "mid = Inr u" "sched_ok u" "io_ok (T + 1) u" "same_frame s u"
      "get_num_active u = get_num_active s" by blast
  obtain t where t: "check_if_done u = Inr t" "sched_ok t" "io_ok (T + 1) t" "same_frame u t"
      "get_num_active t \<le> get_num_active u"
    using check_if_done_ok [OF u(2,3)] by (metis le_add1)
  then show ?thesis using u fin same_frame_trans [OF u(4) t(4)] by auto
qed

section \<open>One tick\<close>

lemma poll_all:
  assumes ok: "sched_ok s" "io_ok T s" and clk: "clock_tick s = T + 1"
  shows "\<exists>t. rfold poll_io [0..<nprocs s] s = Inr t \<and> sched_ok t \<and> io_ok (T + 1) t \<and> same_frame s t \<and>
    get_num_active t \<le> get_num_active s"
proof -
  have len: "length (io_finish_times s) = nprocs s" using ok(1) by (simp add: sched_ok_def)
  have noop: "poll_io p u = Inr u"
    if "same_frame s u" "p < nprocs s" "T + 1 \<notin> set (io_finish_times s ! p)" for p u
    using that len clk by (simp add: poll_io_def io_times_def same_frame_def)
  show ?thesis
  proof (cases "\<exists>q < nprocs s. T + 1 \<in> set (io_finish_times s ! q)")
    case False
    then have "rfold poll_io [0..<nprocs s] s = Inr s" by (intro rfold_noop) (auto intro: noop)
    moreover have "io_ok (T + 1) s" by (rule io_ok_advance [OF ok(2)]) (use False in auto)
    ultimately show ?thesis using ok(1) by auto
  next
    case True
    then obtain q where q: "q < nprocs s" "T + 1 \<in> set (io_finish_times s ! q)" by blast
    have other: "T + 1 \<notin> set (io_finish_times s ! p)" if "p < nprocs s" "p \<noteq> q" for p
      using ok(2) q that unfolding io_ok_def by (metis less_add_one)
    obtain t where t: "finish_io q s = Inr t" "sched_ok t" "io_ok (T + 1) t" "same_frame s t"
        "get_num_active t \<le> get_num_active s" using finish_io_ok [OF ok q] by blast
    have split: "[0..<nprocs s] = [0..<q] @ q # [Suc q..<nprocs s]"
      using q(1) upt_add_eq_append [of 0 q "nprocs s - q"] upt_conv_Cons [of q "nprocs s"] by simp
    have "rfold poll_io [0..<q] s = Inr s" by (intro rfold_noop) (use q other noop in auto)
    moreover have "poll_io q s = Inr t"
      using q len clk t(1) by (simp add: poll_io_def io_times_def)
    moreover have "rfold poll_io [Suc q..<nprocs s] t = Inr t"
      by (intro rfold_noop) (use t(4) other noop in auto)
    ultimately have "rfold poll_io [0..<nprocs s] s = Inr t" by (simp add: split rfold_append)
    then show ?thesis using t by blast
  qed
qed

text \<open>The work left: instructions, each with the time an I/O may take, processes, waiting time.\<close>

definition code_left :: "psched \<Rightarrow> nat" where
  "code_left s = sum_list (map length (map PROC_CODE (proc_info s)))"

definition waiting_time :: "psched \<Rightarrow> nat" where
  "waiting_time s = sum_list (map (\<lambda>ts. sum_list (map (\<lambda>t. nat (t - clock_tick s)) ts)) (io_finish_times s))"

definition work_left :: "psched \<Rightarrow> nat" where
  "work_left s = (nat (io_length s) + 1) * code_left s + get_num_active s + waiting_time s"

lemma frame_work:
  "same_frame s t \<Longrightarrow> code_left t = code_left s \<and> waiting_time t = waiting_time s \<and> io_length t = io_length s"
  unfolding same_frame_def code_left_def waiting_time_def by simp

text \<open>The second half of a tick, after the finished I/Os have been handled.\<close>

definition second_half :: "psched \<Rightarrow> psched res" where
  "second_half s = rbind (exec_instr s) (\<lambda>(instr, s2).
       let s3 = (if get_ios_in_flight s2 > 0 then s2\<lparr>io_busy := io_busy s2 + 1\<rparr> else s2)
       in rbind (if instr = Some DO_IO then start_io s3 else Inr s3) check_if_done)"

definition half_ok :: "psched \<Rightarrow> psched \<Rightarrow> bool" where
  "half_ok s t \<longleftrightarrow> sched_ok t \<and> io_ok (clock_tick s) t \<and> io_bound (clock_tick s + io_length s) t \<and>
     clock_tick t = clock_tick s \<and> io_length t = io_length s \<and>
     process_switch_behavior t = process_switch_behavior s \<and> io_done_behavior t = io_done_behavior s \<and>
     nprocs t = nprocs s \<and> cpu_busy t + int (code_left t) = cpu_busy s + int (code_left s) \<and>
     cpu_busy s \<le> cpu_busy t"

text \<open>After the current instruction has been taken off.\<close>

definition popped :: "int \<Rightarrow> psched \<Rightarrow> psched" where
  "popped b s = put_proc (curr_proc s)
     ((proc_info s ! curr_proc s)\<lparr>PROC_CODE := tl (PROC_CODE (proc_info s ! curr_proc s))\<rparr>)
     (s\<lparr>cpu_busy := cpu_busy s + 1, io_busy := b\<rparr>)"

lemma popped_ok:
  assumes "sched_ok s" and "PROC_CODE (proc_info s ! curr_proc s) \<noteq> []"
  shows "sched_ok (popped b s)" and "io_ok T (popped b s) = io_ok T s" and "Suc (code_left (popped b s)) = code_left s"
    and "get_num_active (popped b s) = get_num_active s" and "st (popped b s) p = st s p"
proof -
  let ?c = "curr_proc s"
  have c: "?c < nprocs s" using assms(1) by (simp add: sched_ok_def)
  show st: "st (popped b s) p = st s p" for p
    by (cases "p = ?c") (use c in \<open>simp_all add: popped_def put_proc_def\<close>)
  have n: "nprocs (popped b s) = nprocs s" "curr_proc (popped b s) = ?c"
      "io_finish_times (popped b s) = io_finish_times s"
      "process_switch_behavior (popped b s) = process_switch_behavior s"
    by (simp_all add: popped_def put_proc_def)
  have code: "PROC_CODE (proc_info (popped b s) ! p) =
      (if p = ?c then tl (PROC_CODE (proc_info s ! ?c)) else PROC_CODE (proc_info s ! p))" if "p < nprocs s" for p
    using c by (simp add: popped_def put_proc_def)
  show "sched_ok (popped b s)" using assms(1) by (auto simp: sched_ok_def n st code)
  show "io_ok T (popped b s) = io_ok T s" by (simp add: io_ok_def n st)
  have "length (PROC_CODE (proc_info s ! ?c)) \<le> code_left s"
    unfolding code_left_def using c by (intro member_le_sum_list) auto
  moreover obtain x xs where "PROC_CODE (proc_info s ! ?c) = x # xs"
    using assms(2) by (cases "PROC_CODE (proc_info s ! ?c)") auto
  ultimately show "Suc (code_left (popped b s)) = code_left s"
    using c by (simp add: code_left_def popped_def put_proc_def map_update sum_list_update)
  show "get_num_active (popped b s) = get_num_active s"
    using length_filter_update [OF c, of "\<lambda>p. PROC_STATE p \<noteq> STATE_DONE"
      "(proc_info s ! ?c)\<lparr>PROC_CODE := tl (PROC_CODE (proc_info s ! ?c))\<rparr>"]
    by (simp add: get_num_active_def popped_def put_proc_def split: if_splits)
qed

text \<open>The current process starts an I/O.\<close>

lemma start_io_ok:
  assumes ok: "sched_ok s" "io_ok (clock_tick s) s" and bound: "io_bound (clock_tick s + io_length s - 1) s"
    and len: "1 \<le> io_length s" and run: "st s (curr_proc s) = STATE_RUNNING"
  shows "\<exists>t u. start_io s = Inr t \<and> sched_ok t \<and> io_ok (clock_tick s) t \<and> same_frame u t \<and>
    get_num_active t = get_num_active s \<and> map PROC_CODE (proc_info u) = map PROC_CODE (proc_info s) \<and>
    cpu_busy u = cpu_busy s \<and> clock_tick u = clock_tick s \<and>
    io_length u = io_length s \<and> process_switch_behavior u = process_switch_behavior s \<and>
    io_done_behavior u = io_done_behavior s \<and> io_bound (clock_tick s + io_length s) u \<and>
    waiting_time u = waiting_time s + nat (io_length s)"
proof -
  let ?c = "curr_proc s" and ?t = "clock_tick s + io_length s"
  let ?w = "put_proc ?c ((proc_info s ! ?c)\<lparr>PROC_STATE := STATE_WAIT\<rparr>) s"
  define u where "u = ?w\<lparr>io_finish_times := (io_finish_times s)[?c := io_finish_times s ! ?c @ [?t]]\<rparr>"
  have c: "?c < nprocs s" and l: "length (io_finish_times s) = nprocs s"
    using ok(1) by (auto simp: sched_ok_def)
  have lu: "length (io_finish_times u) = nprocs s" using l by (simp add: u_def)
  have st: "st u p = (if p = ?c then STATE_WAIT else st s p)" if "p < nprocs s" for p
    using put_state_st [OF c that, of STATE_WAIT] by (simp add: u_def)
  have code: "PROC_CODE (proc_info u ! p) = PROC_CODE (proc_info s ! p)" if "p < nprocs s" for p
    using frame_code [OF put_state_frame that, of ?c STATE_WAIT] by (simp add: u_def)
  have n: "nprocs u = nprocs s" "curr_proc u = ?c" "process_switch_behavior u = process_switch_behavior s"
    by (simp_all add: u_def put_proc_def)
  have iof: "io_finish_times u ! p = (if p = ?c then io_finish_times s ! ?c @ [?t] else io_finish_times s ! p)"
    for p using c l by (simp add: u_def)
  have no: "t \<le> clock_tick s" if "t \<in> set (io_finish_times s ! ?c)" for t
    using ok(2) c run that by (force simp: io_ok_def)
  have small: "t < ?t" if "p < nprocs s" "t \<in> set (io_finish_times s ! p)" for p t
    using bound that l by (fastforce simp: io_bound_def)
  have io: "io_ok (clock_tick s) u"
    unfolding io_ok_def n
  proof (intro conjI allI impI ballI)
    fix p assume p: "p < nprocs s"
    show "st u p = STATE_WAIT \<longleftrightarrow> (\<exists>t \<in> set (io_finish_times u ! p). clock_tick s < t)"
      using ok(2) p len unfolding st [OF p] iof io_ok_def by (auto intro!: bexI [of _ ?t])
  next
    fix p q t v
    assume a: "p < nprocs s" "q < nprocs s" "t \<in> set (io_finish_times u ! p)"
      "v \<in> set (io_finish_times u ! q)" "clock_tick s < t" "clock_tick s < v"
    have new: "if r = ?c then v = ?t else v \<in> set (io_finish_times s ! r) \<and> v < ?t"
      if "r < nprocs s" "v \<in> set (io_finish_times u ! r)" "clock_tick s < v" for r v
      using that(2,3) no [of v] small [OF that(1), of v] unfolding iof by (auto split: if_splits)
    have "(p = q) = (t = v)" if "p \<noteq> ?c" "q \<noteq> ?c"
      using ok(2) a(1,2,5,6) new [OF a(1,3,5)] new [OF a(2,4,6)] that by (auto simp: io_ok_def)
    then show "(p = q) = (t = v)"
      using new [OF a(1,3,5)] new [OF a(2,4,6)] by (auto split: if_splits)
  qed
  have "\<exists>t. (if process_switch_behavior u = SCHED_SWITCH_ON_IO then next_proc None u else Inr u) = Inr t \<and>
      sched_ok t \<and> io_ok (clock_tick s) t \<and> same_frame u t \<and> get_num_active t = get_num_active u"
  proof (cases "process_switch_behavior s = SCHED_SWITCH_ON_IO")
    case True
    have "\<exists>t. next_proc None u = Inr t \<and> sched_ok t \<and> io_ok (clock_tick s) t \<and> same_frame u t \<and>
        get_num_active t = get_num_active u"
      by (rule next_proc_idle [OF _ _ _ _ _ io]) (use ok(1) True c l in \<open>auto simp: sched_ok_def n st code lu\<close>)
    then show ?thesis using True n by simp
  next
    case False
    then have "process_switch_behavior s = SCHED_SWITCH_ON_END" by (cases "process_switch_behavior s") auto
    then have "sched_ok u" using ok(1) c l by (auto simp: sched_ok_def n st code lu)
    then show ?thesis using False io n by auto
  qed
  then obtain t where t: "(if process_switch_behavior u = SCHED_SWITCH_ON_IO then next_proc None u else Inr u) = Inr t"
      "sched_ok t" "io_ok (clock_tick s) t" "same_frame u t" "get_num_active t = get_num_active u" by blast
  have "start_io s = (if process_switch_behavior s = SCHED_SWITCH_ON_IO then next_proc None u else Inr u)"
    using c l run move_to_eq [OF c run, of STATE_WAIT]
    by (simp add: start_io_def move_to_wait_def io_times_def Let_def u_def put_proc_def)
  with t(1) have "start_io s = Inr t" by (simp add: n)
  moreover have "get_num_active u = get_num_active s"
    using put_state_active [OF c, of STATE_WAIT] run by (simp add: get_num_active_def u_def)
  moreover have "waiting_time u = waiting_time s + nat (io_length s)"
    using c l by (simp add: waiting_time_def u_def put_proc_def map_update sum_list_update)
  moreover have "x \<le> ?t" if "p < nprocs s" "x \<in> set (io_finish_times u ! p)" for p x
    using that(2) small [OF that(1), of x] unfolding iof by (auto split: if_splits)
  then have "io_bound ?t u" by (simp add: io_bound_def lu)
  ultimately show ?thesis
    using t put_state_frame [of s ?c STATE_WAIT]
    by (intro exI [of _ t] exI [of _ u]) (simp add: same_frame_def u_def)
qed

lemma same_frame_busy [simp]: "same_frame (s\<lparr>io_busy := b\<rparr>) t \<Longrightarrow> same_frame s (t\<lparr>io_busy := io_busy s\<rparr>)"
  by (simp add: same_frame_def)

lemma busy_simps [simp]:
  "sched_ok (s\<lparr>io_busy := b\<rparr>) = sched_ok s" "io_ok T (s\<lparr>io_busy := b\<rparr>) = io_ok T s"
  "get_num_active (s\<lparr>io_busy := b\<rparr>) = get_num_active s" "code_left (s\<lparr>io_busy := b\<rparr>) = code_left s"
  "waiting_time (s\<lparr>io_busy := b\<rparr>) = waiting_time s"
  by (simp_all add: sched_ok_def io_ok_def get_num_active_def code_left_def waiting_time_def)

lemma popped_busy [simp]: "(popped b s)\<lparr>io_busy := x\<rparr> = popped x s" "io_busy (popped b s) = b"
  by (simp_all add: popped_def put_proc_def)

lemma second_half_ok:
  assumes ok: "sched_ok s" "io_ok (clock_tick s) s" and bound: "io_bound (clock_tick s + io_length s - 1) s"
    and len: "1 \<le> io_length s"
  shows "\<exists>t. second_half s = Inr t \<and> half_ok s t \<and>
    (if st s (curr_proc s) = STATE_RUNNING then work_left t < work_left s else work_left t = work_left s)"
proof -
  let ?c = "curr_proc s" and ?code = "PROC_CODE (proc_info s ! curr_proc s)"
  have c: "?c < nprocs s" using ok(1) by (simp add: sched_ok_def)
  show ?thesis
  proof (cases "st s ?c = STATE_RUNNING \<and> ?code \<noteq> []")
    case False
    obtain b where b: "(if get_ios_in_flight s > 0 then s\<lparr>io_busy := io_busy s + 1\<rparr> else s) = s\<lparr>io_busy := b\<rparr>"
      by (cases "get_ios_in_flight s > 0") (auto intro: that [of "io_busy s"])
    have h: "second_half s = check_if_done (s\<lparr>io_busy := b\<rparr>)"
      using False c b by (auto simp: second_half_def exec_instr_def get_proc_def)
    obtain t where t: "check_if_done (s\<lparr>io_busy := b\<rparr>) = Inr t" "sched_ok t" "io_ok (clock_tick s) t"
        "same_frame (s\<lparr>io_busy := b\<rparr>) t"
        "get_num_active t + (if st s ?c = STATE_RUNNING \<and> ?code = [] then 1 else 0) = get_num_active s"
      using check_if_done_ok [of "s\<lparr>io_busy := b\<rparr>" "clock_tick s"] ok by auto
    have "io_bound (clock_tick s + io_length s) t"
      using bound frame_io [OF t(4)] by (force simp: io_bound_def)
    then have "half_ok s t"
      using t frame_work [OF t(4)] same_frame_nprocs [OF t(4)] by (simp add: half_ok_def same_frame_def)
    then show ?thesis using h t False frame_work [OF t(4)] by (auto simp: work_left_def split: if_splits)
  next
    case True
    obtain b where b: "(if get_ios_in_flight (popped (io_busy s) s) > 0
        then (popped (io_busy s) s)\<lparr>io_busy := io_busy (popped (io_busy s) s) + 1\<rparr> else popped (io_busy s) s) = popped b s"
      by (cases "get_ios_in_flight (popped (io_busy s) s) > 0") auto
    let ?p = "popped b s"
    note pop = popped_ok [OF ok(1) conjunct2 [OF True]]
    have p: "curr_proc ?p = ?c" "clock_tick ?p = clock_tick s" "io_length ?p = io_length s"
        "io_finish_times ?p = io_finish_times s" "cpu_busy ?p = cpu_busy s + 1" "nprocs ?p = nprocs s"
        "process_switch_behavior ?p = process_switch_behavior s" "io_done_behavior ?p = io_done_behavior s"
      by (simp_all add: popped_def put_proc_def)
    have cs: "code_left s = Suc (code_left ?p)" using pop(3) [of b] by simp
    have wp: "waiting_time ?p = waiting_time s" using p by (simp add: waiting_time_def)
    have ex: "exec_instr s = Inr (Some (hd ?code), popped (io_busy s) s)"
      using True c by (simp add: exec_instr_def get_proc_def popped_def put_proc_def)
    then have h: "second_half s = rbind (if hd ?code = DO_IO then start_io ?p else Inr ?p) check_if_done"
      using b by (simp add: second_half_def Let_def)
    have "\<exists>u. (if hd ?code = DO_IO then start_io ?p else Inr ?p) = Inr u \<and> half_ok s u \<and> work_left u < work_left s"
    proof (cases "hd ?code = DO_IO")
      case True
      obtain t u where t: "start_io ?p = Inr t" "sched_ok t" "io_ok (clock_tick s) t" "same_frame u t"
          "get_num_active t = get_num_active ?p" "map PROC_CODE (proc_info u) = map PROC_CODE (proc_info ?p)"
          "cpu_busy u = cpu_busy ?p" "clock_tick u = clock_tick s" "io_length u = io_length s"
          "process_switch_behavior u = process_switch_behavior s" "io_done_behavior u = io_done_behavior s"
          "io_bound (clock_tick s + io_length s) u" "waiting_time u = waiting_time s + nat (io_length s)"
        using start_io_ok [of ?p] pop ok(2) bound len \<open>st s ?c = STATE_RUNNING \<and> ?code \<noteq> []\<close>
        by (auto simp: p io_bound_def wp)
      have cl: "code_left t = code_left ?p" using t(4,6) by (simp add: same_frame_def code_left_def)
      have "nprocs t = nprocs s" using t(4,6) p(6) unfolding same_frame_def by (metis length_map)
      then have "half_ok s t"
        using t cl pop(3) [of b] p by (auto simp: half_ok_def same_frame_def io_bound_def)
      moreover have "work_left t < work_left s"
        using frame_work [OF t(4)] t(5,9,13) cl pop(4) by (simp add: work_left_def cs)
      ultimately show ?thesis using True t(1) by auto
    next
      case False
      have "io_bound (clock_tick s + io_length s) s" using bound by (fastforce simp: io_bound_def)
      then have "half_ok s ?p" using pop(1,2) pop(3) [of b] ok(2) p by (auto simp: half_ok_def io_bound_def)
      moreover have "work_left ?p < work_left s"
        using pop(4) wp p by (simp add: work_left_def cs)
      ultimately show ?thesis using False by auto
    qed
    then obtain u where u: "(if hd ?code = DO_IO then start_io ?p else Inr ?p) = Inr u" "half_ok s u"
        "work_left u < work_left s" by blast
    obtain t where t: "check_if_done u = Inr t" "sched_ok t" "io_ok (clock_tick s) t" "same_frame u t"
        "get_num_active t \<le> get_num_active u"
      using check_if_done_ok [of u "clock_tick s"] u(2) unfolding half_ok_def by (metis le_add1)
    have "half_ok s t"
      using u(2) t frame_work [OF t(4)] same_frame_nprocs [OF t(4)]
      by (simp add: half_ok_def same_frame_def io_bound_def)
    moreover have "work_left t \<le> work_left u" using frame_work [OF t(4)] t(5) by (simp add: work_left_def)
    ultimately show ?thesis using h u t True by auto
  qed
qed

section \<open>The whole run\<close>

definition run_inv :: "int \<Rightarrow> psched \<Rightarrow> bool" where
  "run_inv tot s \<longleftrightarrow> sched_ok s \<and> io_ok (clock_tick s) s \<and> io_bound (clock_tick s + io_length s) s \<and>
     1 \<le> io_length s \<and> cpu_busy s + int (code_left s) = tot"

lemma idle_waiting:
  assumes "sched_ok s" and "st s (curr_proc s) \<noteq> STATE_RUNNING" and "get_num_active s > 0"
  shows "\<exists>p < nprocs s. st s p = STATE_WAIT"
proof -
  obtain p where p: "p < nprocs s" "st s p \<noteq> STATE_DONE"
    using assms(3) by (auto simp: get_num_active_def filter_empty_conv in_set_conv_nth)
  show ?thesis
  proof (cases "st s p = STATE_WAIT")
    case False
    with p have "st s p = STATE_READY \<or> st s p = STATE_RUNNING" by (cases "st s p") auto
    with assms p show ?thesis
      by (cases "process_switch_behavior s"; cases "st s (curr_proc s)") (auto simp: sched_ok_def)
  qed (use p in blast)
qed

lemma waiting_time_tick:
  "waiting_time (s\<lparr>clock_tick := clock_tick s + 1\<rparr>) \<le> waiting_time s"
  unfolding waiting_time_def by (auto intro!: sum_list_mono)

lemma sum_list_less:
  fixes f g :: "'a \<Rightarrow> nat"
  assumes "\<And>x. x \<in> set xs \<Longrightarrow> f x \<le> g x" and "y \<in> set xs" and "f y < g y"
  shows "sum_list (map f xs) < sum_list (map g xs)"
  using assms
proof (induction xs)
  case (Cons x xs)
  have le: "sum_list (map f xs) \<le> sum_list (map g xs)" using Cons.prems(1) by (intro sum_list_mono) auto
  show ?case
  proof (cases "x = y")
    case True
    then show ?thesis using le Cons.prems(3) by simp
  next
    case False
    then have "sum_list (map f xs) < sum_list (map g xs)" using Cons by auto
    moreover have "f x \<le> g x" using Cons.prems(1) by simp
    ultimately show ?thesis by simp
  qed
qed simp

lemma waiting_time_strict:
  assumes "p < length (io_finish_times s)" and "t \<in> set (io_finish_times s ! p)" and "clock_tick s < t"
  shows "waiting_time (s\<lparr>clock_tick := clock_tick s + 1\<rparr>) < waiting_time s"
proof -
  have "sum_list (map (\<lambda>t. nat (t - (clock_tick s + 1))) (io_finish_times s ! p)) <
      sum_list (map (\<lambda>t. nat (t - clock_tick s)) (io_finish_times s ! p))"
    by (rule sum_list_less [OF _ assms(2)]) (use assms(3) in auto)
  then show ?thesis
    unfolding waiting_time_def using assms(1)
    by (auto intro!: sum_list_less [of _ _ _ "io_finish_times s ! p"] sum_list_mono)
qed

lemma tick_ok:
  assumes "run_inv tot s" and "get_num_active s > 0"
  shows "\<exists>t. tick s = Inr t \<and> run_inv tot t \<and> work_left t < work_left s \<and>
    clock_tick t = clock_tick s + 1 \<and> nprocs t = nprocs s"
proof -
  let ?s = "s\<lparr>clock_tick := clock_tick s + 1\<rparr>"
  have ok: "sched_ok ?s" "io_ok (clock_tick s) ?s" and len: "1 \<le> io_length s"
    using assms(1) by (auto simp: run_inv_def sched_ok_def io_ok_def)
  obtain m where m: "rfold poll_io [0..<nprocs ?s] ?s = Inr m" "sched_ok m" "io_ok (clock_tick s + 1) m"
      "same_frame ?s m" "get_num_active m \<le> get_num_active ?s"
    using poll_all [OF ok] by auto
  have f: "clock_tick m = clock_tick s + 1" "io_length m = io_length s" "io_finish_times m = io_finish_times s"
      "cpu_busy m = cpu_busy s" "nprocs m = nprocs s" "code_left m = code_left s"
    using m(4) same_frame_nprocs [OF m(4)] frame_work [OF m(4)] by (auto simp: same_frame_def code_left_def)
  have "io_bound (clock_tick m + io_length m - 1) m"
    using assms(1) f by (simp add: run_inv_def io_bound_def)
  from second_half_ok [OF m(2) _ this] m(3) f len
  obtain t where t: "second_half m = Inr t" "half_ok m t"
      "if st m (curr_proc m) = STATE_RUNNING then work_left t < work_left m else work_left t = work_left m" by auto
  have eq: "tick s = Inr t" using m(1) t(1) by (simp add: tick_def second_half_def)
  have inv: "run_inv tot t" using assms(1) t(2) f by (auto simp: run_inv_def half_ok_def)
  have act: "get_num_active m \<le> get_num_active s" using m(5) by (simp add: get_num_active_def)
  have wm: "waiting_time m = waiting_time ?s" using f by (simp add: waiting_time_def)
  have le: "work_left m \<le> work_left s"
    using act waiting_time_tick [of s] f wm by (simp add: work_left_def)
  have "work_left t < work_left s"
  proof (cases "st m (curr_proc m) = STATE_RUNNING")
    case True
    then show ?thesis using t(3) le by simp
  next
    case idle: False
    have "work_left m < work_left s"
    proof (cases "get_num_active m = 0")
      case True
      then show ?thesis using assms(2) waiting_time_tick [of s] f wm by (simp add: work_left_def)
    next
      case False
      then obtain p where p: "p < nprocs m" "st m p = STATE_WAIT" using idle_waiting [OF m(2) idle] by auto
      then obtain x where "x \<in> set (io_finish_times s ! p)" "clock_tick s + 1 < x"
        using m(3) f by (auto simp: io_ok_def)
      moreover have "p < length (io_finish_times s)" using p m(2) f by (simp add: sched_ok_def)
      ultimately have "waiting_time ?s < waiting_time s" using waiting_time_strict [of p s x] by simp
      then show ?thesis using act f wm by (simp add: work_left_def)
    qed
    then show ?thesis using t(3) idle by simp
  qed
  then show ?thesis using eq inv t(2) f by (simp add: half_ok_def)
qed

interpretation clock_loop: guarded_loop "\<lambda>s. get_num_active s > 0" tick
  "\<lambda>s. run_inv tot s \<and> clock_tick s + int (work_left s) \<le> limit \<and> nprocs s = n" work_left for tot limit n
proof
  fix s
  assume "run_inv tot s \<and> clock_tick s + int (work_left s) \<le> limit \<and> nprocs s = n" "get_num_active s > 0"
  then show "\<exists>t. tick s = Inr t \<and> run_inv tot t \<and> clock_tick t + int (work_left t) \<le> limit \<and> nprocs t = n"
    using tick_ok [of tot s] by force
next
  fix s t
  assume "run_inv tot s \<and> clock_tick s + int (work_left s) \<le> limit \<and> nprocs s = n" "get_num_active s > 0" "tick s = Inr t"
  then show "work_left t < work_left s" using tick_ok [of tot s] by force
qed

text \<open>A process table as the loaders leave it.\<close>

definition loaded :: "psched \<Rightarrow> bool" where
  "loaded s \<longleftrightarrow> proc_info s \<noteq> [] \<and> (\<forall>p \<in> set (proc_info s). PROC_STATE p = STATE_READY) \<and> 1 \<le> io_length s"

lemma run_start_ok:
  assumes "loaded s"
  shows "\<exists>t. run_start s = Inr t \<and> run_inv (int (code_left s)) t \<and> clock_tick t = 0 \<and> nprocs t = nprocs s \<and>
    work_left t \<le> (nat (io_length s) + 1) * code_left s + nprocs s \<and> process_switch_behavior t = process_switch_behavior s"
proof -
  let ?s = "s\<lparr>clock_tick := 0, io_finish_times := replicate (nprocs s) [], curr_proc := 0, io_busy := 0, cpu_busy := 0\<rparr>"
  have n: "0 < nprocs s" and r: "\<And>p. p < nprocs s \<Longrightarrow> st s p = STATE_READY" using assms by (auto simp: loaded_def)
  let ?t = "run_proc 0 ?s"
  have "run_start s = Inr ?t"
    using n r [OF n] move_to_eq [of 0 ?s STATE_READY STATE_RUNNING]
    by (simp add: run_start_def move_to_running_def run_proc_def put_proc_def)
  moreover have fr: "same_frame ?s ?t" by (rule run_proc_frame)
  have "sched_ok ?t" using n r run_proc_st [of 0 ?s] by (auto simp: sched_ok_def)
  moreover have "io_ok (clock_tick ?t) ?t" using n r run_proc_st [of 0 ?s] by (auto simp: io_ok_def)
  moreover have "code_left ?t = code_left s" "clock_tick ?t = 0" "cpu_busy ?t = 0" "io_length ?t = io_length s"
      "process_switch_behavior ?t = process_switch_behavior s" "waiting_time ?t = 0"
    using fr by (auto simp: same_frame_def code_left_def waiting_time_def sum_list_replicate)
  moreover have "io_bound (clock_tick ?t + io_length ?t) ?t" by (simp add: io_bound_def)
  moreover have "get_num_active ?t \<le> nprocs s"
    using length_filter_le [of _ "proc_info ?t"] n by (auto simp: get_num_active_def)
  ultimately show ?thesis using assms by (auto simp: run_inv_def work_left_def loaded_def)
qed

text \<open>
  C10: When every I/O takes at least one tick, a run of loaded processes always ends, for both
  switching behaviours and both behaviours at the end of an I/O, and no assertion of the state
  changes fails. At the end every process is done and has executed all of its instructions:
  the CPU was busy for exactly the total number of instructions. The clock stops after at most
  one tick for each process and \<open>io_length + 1\<close> ticks for each instruction.
\<close>

theorem process_run_completes:
  assumes "loaded s" and "(nat (io_length s) + 1) * code_left s + length (proc_info s) < fuel"
  shows "\<exists>t. run_sched fuel s = Some (Inr t) \<and> length (proc_info t) = length (proc_info s) \<and>
    (\<forall>p \<in> set (proc_info t). PROC_STATE p = STATE_DONE \<and> PROC_CODE p = []) \<and>
    cpu_busy t = int (code_left s) \<and>
    clock_tick t \<le> int ((nat (io_length s) + 1) * code_left s + length (proc_info s))"
proof -
  define W where "W = (nat (io_length s) + 1) * code_left s + nprocs s"
  obtain u where u: "run_start s = Inr u" "run_inv (int (code_left s)) u" "clock_tick u = 0"
      "nprocs u = nprocs s" "work_left u \<le> W" using run_start_ok [OF assms(1)] unfolding W_def by blast
  have "run_inv (int (code_left s)) u \<and> clock_tick u + int (work_left u) \<le> int W \<and> nprocs u = nprocs s"
    using u by simp
  from clock_loop.loop_returns [OF this, of fuel] u(5) assms(2) [folded W_def]
  obtain t where t: "loop fuel (\<lambda>u. get_num_active u > 0) tick u = Some (Inr t)" "run_inv (int (code_left s)) t"
      "clock_tick t + int (work_left t) \<le> int W" "nprocs t = nprocs s" "get_num_active t = 0" by auto
  have fin: "\<forall>p \<in> set (proc_info t). PROC_STATE p = STATE_DONE"
    using t(5) by (simp add: get_num_active_def filter_empty_conv)
  have "\<forall>p < nprocs t. st t p = STATE_DONE \<longrightarrow> PROC_CODE (proc_info t ! p) = []"
    using t(2) by (simp add: run_inv_def sched_ok_def)
  with fin have code: "\<forall>p \<in> set (proc_info t). PROC_CODE p = []" by (metis in_set_conv_nth)
  then have "code_left t = 0" by (simp add: code_left_def)
  then show ?thesis unfolding W_def [symmetric]
    using assms(1) t u(1) fin code by (auto simp: run_sched_def loaded_def run_inv_def)
qed




definition demo_sched :: "int \<Rightarrow> psched" where
  "demo_sched len = (scheduler_init SCHED_SWITCH_ON_IO IO_RUN_LATER len)\<lparr>proc_info :=
     [\<lparr>PROC_CODE = [DO_IO], PROC_PC = 0, PROC_ID = 0, PROC_STATE = STATE_READY\<rparr>]\<rparr>"

lemma loaded_demo: "loaded (demo_sched 5)" "code_left (demo_sched 5) = 1" "proc_info (demo_sched len) \<noteq> []"
    "length (proc_info (demo_sched 5)) = 1" "io_length (demo_sched 5) = 5"
  by (simp_all add: loaded_def demo_sched_def scheduler_init_def code_left_def)

theorem process_run_completes_witness:
  "\<exists>t. run_sched 8 (demo_sched 5) = Some (Inr t) \<and> cpu_busy t = 1"
  using process_run_completes [of "demo_sched 5" 8] by (auto simp: loaded_demo)


text \<open>The stuck state of a process whose I/O ends in the tick in which it starts.\<close>

definition stuck_sched :: "int \<Rightarrow> psched" where
  "stuck_sched k = (demo_sched 0)\<lparr>proc_info :=
     [\<lparr>PROC_CODE = [], PROC_PC = 0, PROC_ID = 0, PROC_STATE = STATE_WAIT\<rparr>],
     io_finish_times := [[1]], clock_tick := k, cpu_busy := 1\<rparr>"

lemmas tick_eval = tick_def poll_io_def io_times_def exec_instr_def get_proc_def put_proc_def
  check_if_done_def get_ios_in_flight_def start_io_def move_to_wait_def move_to_eq next_proc_def
  demo_sched_def scheduler_init_def stuck_sched_def

lemma stuck_tick: "1 \<le> k \<Longrightarrow> tick (stuck_sched k) = Inr (stuck_sched (k + 1))"
  by (simp add: tick_eval)

lemma stuck_loop: "1 \<le> k \<Longrightarrow> loop fuel (\<lambda>u. get_num_active u > 0) tick (stuck_sched k) = None"
proof (induction fuel arbitrary: k)
  case (Suc fuel)
  have "get_num_active (stuck_sched k) > 0" by (simp add: get_num_active_def stuck_sched_def)
  then show ?case using stuck_tick [OF Suc.prems] Suc.IH [of "k + 1"] Suc.prems by simp
qed simp

text \<open>
  With an I/O length of zero the simulator does not terminate: a process that issues an I/O
  has its completion noted for a tick that is already being processed, and waits forever.
\<close>

theorem process_run_zero_io_never_ends: "run_sched fuel (demo_sched 0) = None"
proof (cases fuel)
  case 0
  then show ?thesis
    by (simp add: run_sched_def run_start_def move_to_running_def tick_eval)
next
  case (Suc n)
  obtain t where t: "run_start (demo_sched 0) = Inr t" "get_num_active t > 0" "tick t = Inr (stuck_sched 1)"
    by (simp add: run_start_def move_to_running_def get_num_active_def tick_eval)
  have "loop n (\<lambda>u. get_num_active u > 0) tick (stuck_sched 1) = None" by (rule stuck_loop) simp
  with t Suc show ?thesis by (simp add: run_sched_def loaded_demo)
qed

end
