(* ===== verification/X86.thy ===== *)
theory X86
  imports PyString
begin

text \<open>
  The machine of \<open>src/Sem3/BSYS/28_Locks/x86.py\<close>: class \<open>cpu\<close> with its instructions, class
  \<open>process\<close> (a thread's saved registers), class \<open>proclist\<close> (the scheduler) and the
  fetch-execute loop \<open>run\<close> with its interrupts.

  A memory cell holds a number or, where the loader has put one, an instruction; the code
  stores the text of a Python call there and evaluates it. Registers can hold either. The
  model has no arithmetic and no comparison on instruction texts, for which Python would
  concatenate or compare strings: it stops with \<open>TypeError\<close>. Register numbers only come from
  the name table of the machine and are a datatype here. Tracing is output and is left out,
  except that the loop prints the text of each executed instruction and raises \<open>KeyError\<close> when
  there is none.
\<close>

section \<open>State\<close>

datatype cond = COND_GT | COND_GTE | COND_LT | COND_LTE | COND_EQ | COND_NEQ

datatype reg = REG_ZERO | REG_AX | REG_BX | REG_CX | REG_DX | REG_EX | REG_FX | REG_SP | REG_BP

datatype instr =
    halt | iyield | nop | rdump | mdump string
  | move_i_to_r int reg | move_i_to_m int int reg reg int | move_m_to_r int reg reg int reg
  | move_r_to_m reg int reg reg int | move_r_to_r reg reg | lea_m_to_r int reg reg int reg
  | add_i_to_r int reg | add_r_to_r reg reg | mul_i_to_r int reg | mul_r_to_r reg reg
  | sub_i_to_r int reg | sub_r_to_r reg reg | neg_r reg
  | atomic_exchange reg int reg reg | fetchadd reg int reg reg
  | test_i_r int reg | test_r_i reg int | test_r_r reg reg
  | jump int | jump_notequal int | jump_equal int | jump_lessthan int | jump_lessthanorequal int
  | jump_greaterthan int | jump_greaterthanorequal int
  | call int | ret | push_r reg | push_m int reg reg int | pop | pop_r reg

datatype cell = Num int | Code instr

record cpu =
  PC :: cell
  registers :: "reg \<Rightarrow> cell"
  conditions :: "cond \<Rightarrow> bool"
  memory :: "int \<rightharpoonup> cell"
  pmemory :: "int \<rightharpoonup> string"

definition init_cpu :: "int \<Rightarrow> cpu" where
  "init_cpu memsize =
     \<lparr>PC = Num 0, registers = (\<lambda>_. Num 0), conditions = (\<lambda>_. False),
      memory = (\<lambda>a. if 0 \<le> a \<and> a < memsize * 1024 then Some (Num 0) else None), pmemory = Map.empty\<rparr>"

fun get_num :: "cell \<Rightarrow> int res" where
  "get_num (Num n) = Inr n"
| "get_num (Code i) = Inl TypeError"

definition set_reg :: "reg \<Rightarrow> cell \<Rightarrow> cpu \<Rightarrow> cpu" where
  "set_reg r v c = c\<lparr>registers := (registers c)(r := v)\<rparr>"

text \<open>A memory cell is addressed by a number; a text is no key of the memory dictionary.\<close>

definition read_mem :: "cell \<Rightarrow> cpu \<Rightarrow> cell res" where
  "read_mem a c = (case a of Num n \<Rightarrow> py_lookup (memory c) n | Code i \<Rightarrow> Inl KeyError)"

definition write_mem :: "int \<Rightarrow> cell \<Rightarrow> cpu \<Rightarrow> cpu" where
  "write_mem a v c = c\<lparr>memory := (memory c)(a \<mapsto> v)\<rparr>"

section \<open>Instructions\<close>

text \<open>What the interpreter loop needs to know of the returned value: -1, -2 or anything else.\<close>

datatype outcome = Halted | Yielded | Continue

definition address :: "int \<Rightarrow> reg \<Rightarrow> reg \<Rightarrow> int \<Rightarrow> cpu \<Rightarrow> int res" where
  "address value r1 r2 scale c =
     rbind (get_num (registers c r1)) (\<lambda>a.
     rbind (get_num (registers c r2)) (\<lambda>b. Inr (value + a + scale * b)))"

definition test_all :: "int \<Rightarrow> int \<Rightarrow> cpu \<Rightarrow> cpu" where
  "test_all src dst c =
     c\<lparr>conditions := (\<lambda>k. case k of COND_GT \<Rightarrow> dst > src | COND_GTE \<Rightarrow> dst \<ge> src | COND_LT \<Rightarrow> dst < src
        | COND_LTE \<Rightarrow> dst \<le> src | COND_EQ \<Rightarrow> dst = src | COND_NEQ \<Rightarrow> dst \<noteq> src)\<rparr>"

definition arith :: "(int \<Rightarrow> int \<Rightarrow> int) \<Rightarrow> cell \<Rightarrow> reg \<Rightarrow> cpu \<Rightarrow> cpu res" where
  "arith f src dst c =
     rbind (get_num (registers c dst)) (\<lambda>d.
     rbind (get_num src) (\<lambda>s. Inr (set_reg dst (Num (f d s)) c)))"

definition jump_if :: "cond \<Rightarrow> int \<Rightarrow> cpu \<Rightarrow> cpu" where
  "jump_if k targ c = (if conditions c k then c\<lparr>PC := Num targ\<rparr> else c)"

definition push_cell :: "(cpu \<Rightarrow> cell res) \<Rightarrow> cpu \<Rightarrow> cpu res" where
  "push_cell v c =
     rbind (get_num (registers c REG_SP)) (\<lambda>sp.
       let c1 = set_reg REG_SP (Num (sp - 4)) c
       in rbind (v c1) (\<lambda>x. Inr (write_mem (sp - 4) x c1)))"

definition bump_sp :: "cpu \<Rightarrow> cpu res" where
  "bump_sp c = rbind (get_num (registers c REG_SP)) (\<lambda>sp. Inr (set_reg REG_SP (Num (sp + 4)) c))"

definition cont :: "cpu res \<Rightarrow> (outcome \<times> cpu) res" where
  "cont m = rbind m (\<lambda>c. Inr (Continue, c))"

fun exec :: "instr \<Rightarrow> cpu \<Rightarrow> (outcome \<times> cpu) res" where
  "exec halt c = Inr (Halted, c)"
| "exec iyield c = Inr (Yielded, c)"
| "exec nop c = Inr (Continue, c)"
| "exec rdump c = Inr (Continue, c)"
| "exec (mdump text) c =
     (case py_int text of
        Inl e \<Rightarrow> Inl NameError
      | Inr a \<Rightarrow> rbind (read_mem (Num a) c) (\<lambda>v. Inr (Continue, c)))"
| "exec (move_i_to_r src dst) c = Inr (Continue, set_reg dst (Num src) c)"
| "exec (move_i_to_m src value r1 r2 scale) c =
     cont (rbind (address value r1 r2 scale c) (\<lambda>a. Inr (write_mem a (Num src) c)))"
| "exec (move_m_to_r value r1 r2 scale dst) c =
     cont (rbind (address value r1 r2 scale c) (\<lambda>a.
           rbind (read_mem (Num a) c) (\<lambda>v. Inr (set_reg dst v c))))"
| "exec (move_r_to_m src value r1 r2 scale) c =
     cont (rbind (address value r1 r2 scale c) (\<lambda>a. Inr (write_mem a (registers c src) c)))"
| "exec (move_r_to_r src dst) c = Inr (Continue, set_reg dst (registers c src) c)"
| "exec (lea_m_to_r value r1 r2 scale dst) c =
     cont (rbind (address value r1 r2 scale c) (\<lambda>a. Inr (set_reg dst (Num a) c)))"
| "exec (add_i_to_r src dst) c = cont (arith (+) (Num src) dst c)"
| "exec (add_r_to_r src dst) c = cont (arith (+) (registers c src) dst c)"
| "exec (mul_i_to_r src dst) c = cont (arith (*) (Num src) dst c)"
| "exec (mul_r_to_r src dst) c = cont (arith (*) (registers c src) dst c)"
| "exec (sub_i_to_r src dst) c = cont (arith (-) (Num src) dst c)"
| "exec (sub_r_to_r src dst) c = cont (arith (-) (registers c src) dst c)"
| "exec (neg_r src) c = cont (rbind (get_num (registers c src)) (\<lambda>n. Inr (set_reg src (Num (- n)) c)))"
| "exec (atomic_exchange src value r1 r2) c =
     cont (rbind (address value r1 r2 1 c) (\<lambda>a.
           rbind (read_mem (Num a) c) (\<lambda>old.
             Inr (set_reg src old (write_mem a (registers c src) c)))))"
| "exec (fetchadd src value r1 r2) c =
     cont (rbind (address value r1 r2 1 c) (\<lambda>a.
           rbind (read_mem (Num a) c) (\<lambda>old.
           rbind (get_num old) (\<lambda>m.
           rbind (get_num (registers c src)) (\<lambda>n.
             Inr (set_reg src old (write_mem a (Num (m + n)) c)))))))"
| "exec (test_i_r src dst) c =
     cont (rbind (get_num (registers c dst)) (\<lambda>d. Inr (test_all src d c)))"
| "exec (test_r_i src dst) c =
     cont (rbind (get_num (registers c src)) (\<lambda>s. Inr (test_all s dst c)))"
| "exec (test_r_r src dst) c =
     cont (rbind (get_num (registers c src)) (\<lambda>s.
           rbind (get_num (registers c dst)) (\<lambda>d. Inr (test_all s d c))))"
| "exec (jump targ) c = Inr (Continue, c\<lparr>PC := Num targ\<rparr>)"
| "exec (jump_notequal targ) c = Inr (Continue, jump_if COND_NEQ targ c)"
| "exec (jump_equal targ) c = Inr (Continue, jump_if COND_EQ targ c)"
| "exec (jump_lessthan targ) c = Inr (Continue, jump_if COND_LT targ c)"
| "exec (jump_lessthanorequal targ) c = Inr (Continue, jump_if COND_LTE targ c)"
| "exec (jump_greaterthan targ) c = Inr (Continue, jump_if COND_GT targ c)"
| "exec (jump_greaterthanorequal targ) c = Inr (Continue, jump_if COND_GTE targ c)"
| "exec (call targ) c =
     cont (rbind (push_cell (\<lambda>c1. Inr (PC c1)) c) (\<lambda>c2. Inr (c2\<lparr>PC := Num targ\<rparr>)))"
| "exec ret c =
     cont (rbind (read_mem (registers c REG_SP) c) (\<lambda>v. bump_sp (c\<lparr>PC := v\<rparr>)))"
| "exec (push_r r) c = cont (push_cell (\<lambda>c1. Inr (registers c1 r)) c)"
| "exec (push_m value r1 r2 scale) c =
     cont (push_cell (\<lambda>c1. rbind (address value r1 r2 scale c1) (\<lambda>a. Inr (Num a))) c)"
| "exec pop c = cont (bump_sp c)"
| "exec (pop_r dst) c =
     cont (rbind (read_mem (registers c REG_SP) c) (\<lambda>v. bump_sp (set_reg dst v c)))"

section \<open>Threads and the scheduler\<close>

record process =
  tid :: nat
  pc :: cell
  regs :: "reg \<Rightarrow> cell"
  cc :: "cond \<Rightarrow> bool"
  finished :: bool
  stack :: int

record proclist =
  plist :: "process list"
  active :: int
  manual :: bool
  procsched :: "int list"
  curr :: int

definition new_proclist :: proclist where
  "new_proclist = \<lparr>plist = [], active = 0, manual = False, procsched = [], curr = 0\<rparr>"

definition addproc :: "process \<Rightarrow> proclist \<Rightarrow> proclist" where
  "addproc p ps = ps\<lparr>active := active ps + 1, plist := plist ps @ [p]\<rparr>"

definition getnum :: "proclist \<Rightarrow> int" where "getnum ps = int (length (plist ps))"

definition numdone :: "proclist \<Rightarrow> int" where "numdone ps = int (length (plist ps)) - active ps"

definition getcurr :: "proclist \<Rightarrow> process res" where
  "getcurr ps = rbind (py_nth (procsched ps) (curr ps)) (\<lambda>p. py_nth (plist ps) p)"

definition putcurr :: "process \<Rightarrow> proclist \<Rightarrow> proclist res" where
  "putcurr q ps = rbind (py_nth (procsched ps) (curr ps)) (\<lambda>p.
     rbind (py_set (plist ps) p q) (\<lambda>l. Inr (ps\<lparr>plist := l\<rparr>)))"

definition proc_done :: "proclist \<Rightarrow> proclist res" where
  "proc_done ps = rbind (getcurr ps) (\<lambda>p.
     rbind (putcurr (p\<lparr>finished := True\<rparr>) ps) (\<lambda>qs. Inr (qs\<lparr>active := active qs - 1\<rparr>)))"

definition save :: "cpu \<Rightarrow> proclist \<Rightarrow> proclist res" where
  "save c ps = rbind (getcurr ps) (\<lambda>p.
     putcurr (p\<lparr>pc := PC c, cc := conditions c, regs := registers c\<rparr>) ps)"

definition restore :: "proclist \<Rightarrow> cpu \<Rightarrow> cpu res" where
  "restore ps c = rbind (getcurr ps) (\<lambda>p. Inr (c\<lparr>PC := pc p, conditions := cc p, registers := regs p\<rparr>))"

text \<open>The loop of \<open>next\<close>, cut off after a number of rounds.\<close>

fun proc_next :: "nat \<Rightarrow> proclist \<Rightarrow> proclist res option" where
  "proc_next 0 ps = None"
| "proc_next (Suc n) ps =
     (let k = (if curr ps + 1 = int (length (procsched ps)) then 0 else curr ps + 1);
          qs = ps\<lparr>curr := k\<rparr>
      in case getcurr qs of
           Inl e \<Rightarrow> Some (Inl e)
         | Inr p \<Rightarrow> if \<not> finished p then Some (Inr qs) else proc_next n qs)"

text \<open>\<open>finalize\<close>: round robin, or the schedule the user gives, one digit for each entry.\<close>

fun read_sched :: "string \<Rightarrow> int \<Rightarrow> int list res" where
  "read_sched [] num = Inr []"
| "read_sched (d # ds) num =
     rbind (py_int [d]) (\<lambda>p. if p \<ge> num then Inl SystemExit
       else rbind (read_sched ds num) (\<lambda>ps. Inr (p # ps)))"

definition finalize :: "string \<Rightarrow> proclist \<Rightarrow> cpu \<Rightarrow> (proclist \<times> cpu) res" where
  "finalize sched ps c =
     rbind (if sched = [] then Inr (ps\<lparr>procsched := procsched ps @ [0..int (length (plist ps)) - 1], curr := 0\<rparr>)
            else rbind (read_sched sched (getnum ps)) (\<lambda>l.
              let qs = ps\<lparr>manual := True, procsched := procsched ps @ l\<rparr>
              in if int (length (remdups (procsched qs))) \<noteq> active qs then Inl SystemExit
                 else Inr (qs\<lparr>curr := 0\<rparr>))) (\<lambda>qs.
     rbind (restore qs c) (\<lambda>c'. Inr (qs, c')))"

section \<open>The interpreter loop\<close>

record machine =
  core :: cpu
  procs :: proclist
  interrupt :: int
  icount :: int
  intdraws :: draws

definition setint :: "int \<Rightarrow> bool \<Rightarrow> draws \<Rightarrow> (int \<times> draws) res" where
  "setint intfreq intrand rs =
     (if \<not> intrand then Inr (intfreq, rs)
      else rbind (draw rs) (\<lambda>(x, rs'). Inr (rand_below x intfreq + 1, rs')))"

definition fetch_exec :: "cpu \<Rightarrow> (outcome \<times> cpu) res" where
  "fetch_exec c =
     rbind (read_mem (PC c) c) (\<lambda>v.
     rbind (get_num (PC c)) (\<lambda>a.
       case v of
         Num n \<Rightarrow> Inl TypeError
       | Code i \<Rightarrow> rbind (exec i (c\<lparr>PC := Num (a + 1)\<rparr>)) (\<lambda>(rc, c').
                   rbind (py_lookup (pmemory c') a) (\<lambda>_. Inr (rc, c')))))"

text \<open>A switch to the next thread, with or without saving the current one.\<close>

definition next_thread :: "machine \<Rightarrow> machine res option" where
  "next_thread m =
     (case proc_next (length (procsched (procs m))) (procs m) of
        None \<Rightarrow> None
      | Some (Inl e) \<Rightarrow> Some (Inl e)
      | Some (Inr ps) \<Rightarrow> Some (rbind (restore ps (core m)) (\<lambda>c. Inr (m\<lparr>procs := ps, core := c\<rparr>))))"

datatype 'a progress = Running 'a | Finished 'a

text \<open>
  One round of the loop. \<open>None\<close>: \<open>next\<close> looks for a thread that is not done and there is none,
  which it does forever.
\<close>

definition tick_interrupt :: "int \<Rightarrow> bool \<Rightarrow> outcome \<Rightarrow> machine \<Rightarrow> machine progress res option" where
  "tick_interrupt intfreq intrand rc m =
     (let i = interrupt m - 1 in
      if i = 0 \<or> rc = Yielded then
        (case setint intfreq intrand (intdraws m) of
           Inl e \<Rightarrow> Some (Inl e)
         | Inr (j, rs) \<Rightarrow>
             (case save (core m) (procs m) of
                Inl e \<Rightarrow> Some (Inl e)
              | Inr ps \<Rightarrow> map_option (map_sum id Running)
                            (next_thread (m\<lparr>interrupt := j, intdraws := rs, procs := ps\<rparr>))))
      else Some (Inr (Running (m\<lparr>interrupt := i\<rparr>))))"

definition round :: "int \<Rightarrow> bool \<Rightarrow> machine \<Rightarrow> machine progress res option" where
  "round intfreq intrand m =
     (case rbind (getcurr (procs m)) (\<lambda>p. fetch_exec (core m)) of
        Inl e \<Rightarrow> Some (Inl e)
      | Inr (rc, c) \<Rightarrow>
          (let m1 = m\<lparr>core := c, icount := icount m + 1\<rparr> in
           if rc = Halted then
             (case proc_done (procs m1) of
                Inl e \<Rightarrow> Some (Inl e)
              | Inr ps \<Rightarrow>
                  if numdone ps = getnum ps then Some (Inr (Finished (m1\<lparr>procs := ps\<rparr>)))
                  else (case next_thread (m1\<lparr>procs := ps\<rparr>) of
                          None \<Rightarrow> None
                        | Some (Inl e) \<Rightarrow> Some (Inl e)
                        | Some (Inr m2) \<Rightarrow> tick_interrupt intfreq intrand rc m2))
           else tick_interrupt intfreq intrand rc m1))"

fun rounds :: "nat \<Rightarrow> int \<Rightarrow> bool \<Rightarrow> machine \<Rightarrow> machine progress res option" where
  "rounds 0 intfreq intrand m = Some (Inr (Running m))"
| "rounds (Suc n) intfreq intrand m =
     (case round intfreq intrand m of
        Some (Inr (Running m')) \<Rightarrow> rounds n intfreq intrand m'
      | r \<Rightarrow> r)"

text \<open>\<open>run\<close>, for a number of instructions.\<close>

definition run :: "nat \<Rightarrow> int \<Rightarrow> bool \<Rightarrow> draws \<Rightarrow> cpu \<Rightarrow> proclist \<Rightarrow> machine progress res option" where
  "run n intfreq intrand rs c ps =
     (let freq = (if manual ps then 1 else intfreq); rnd = (if manual ps then False else intrand)
      in case setint freq rnd rs of
           Inl e \<Rightarrow> Some (Inl e)
         | Inr (i, rs') \<Rightarrow> rounds n freq rnd \<lparr>core = c, procs = ps, interrupt = i, icount = 0, intdraws = rs'\<rparr>)"

section \<open>Instructions do what their names say\<close>

text \<open>The state after an instruction that continues.\<close>

definition after :: "instr \<Rightarrow> cpu \<Rightarrow> cpu res" where
  "after i c = rbind (exec i c) (\<lambda>(rc, d). Inr d)"

lemmas exec_simps = after_def cont_def arith_def address_def push_cell_def bump_sp_def read_mem_def
  write_mem_def set_reg_def jump_if_def test_all_def py_lookup_def

text \<open>
  The stack works: a pushed register is popped again, into any register but the stack
  pointer, with the stack pointer back where it was and no memory cell touched but the one
  below it; and a routine entered by \<open>call\<close> that leaves the stack pointer and the cell with the
  return address as they were comes back by \<open>ret\<close> to the instruction after the call.
\<close>

theorem stack_roundtrip:
  assumes "registers c REG_SP = Num sp" and "q \<noteq> REG_SP" and "r \<noteq> REG_SP"
  shows "rbind (after (push_r r) c) (after (pop_r q)) =
      Inr (c\<lparr>registers := (registers c)(q := registers c r), memory := (memory c)(sp - 4 \<mapsto> registers c r)\<rparr>) \<and>
    (\<exists>d. after (call targ) c = Inr d \<and> PC d = Num targ \<and>
       (\<forall>e. registers e REG_SP = registers d REG_SP \<longrightarrow> memory e (sp - 4) = memory d (sp - 4) \<longrightarrow>
          after ret e = Inr (e\<lparr>PC := PC c, registers := (registers e)(REG_SP := Num sp)\<rparr>)))"
proof
  have "(registers c)(REG_SP := Num (sp - 4), q := registers c r, REG_SP := Num sp) = (registers c)(q := registers c r)"
    using assms by (auto simp: fun_eq_iff)
  then show "rbind (after (push_r r) c) (after (pop_r q)) =
      Inr (c\<lparr>registers := (registers c)(q := registers c r), memory := (memory c)(sp - 4 \<mapsto> registers c r)\<rparr>)"
    using assms by (simp add: exec_simps fun_upd_twist)
  show "\<exists>d. after (call targ) c = Inr d \<and> PC d = Num targ \<and>
       (\<forall>e. registers e REG_SP = registers d REG_SP \<longrightarrow> memory e (sp - 4) = memory d (sp - 4) \<longrightarrow>
          after ret e = Inr (e\<lparr>PC := PC c, registers := (registers e)(REG_SP := Num sp)\<rparr>))"
    using assms(1) by (simp add: exec_simps)
qed

theorem stack_roundtrip_witness:
  "rbind (after (push_r REG_AX) ((init_cpu 128)\<lparr>registers := (\<lambda>_. Num 5)\<rparr>)) (after (pop_r REG_BX)) =
     Inr ((init_cpu 128)\<lparr>registers := (\<lambda>_. Num 5), memory := (memory (init_cpu 128))(1 \<mapsto> Num 5)\<rparr>)"
proof -
  have "(\<lambda>_ :: reg. Num 5)(REG_BX := Num 5) = (\<lambda>_. Num 5)" by auto
  with stack_roundtrip [of "(init_cpu 128)\<lparr>registers := (\<lambda>_. Num 5)\<rparr>" 5 REG_BX REG_AX] show ?thesis by simp
qed

text \<open>
  A \<open>test\<close> followed by a conditional jump branches exactly when the relation in the name of
  the jump holds between the second and the first argument, for all three argument forms, and
  otherwise falls through.
\<close>

theorem test_and_branch:
  assumes "registers c r = Num d" and "registers c q = Num e"
  shows "\<forall>(t, x, y) \<in> {(test_i_r n r, n, d), (test_r_i q k, e, k), (test_r_r q r, e, d)}.
    \<forall>(j, taken) \<in> {(jump_equal a, y = x), (jump_notequal a, y \<noteq> x), (jump_lessthan a, y < x),
        (jump_lessthanorequal a, y \<le> x), (jump_greaterthan a, y > x), (jump_greaterthanorequal a, y \<ge> x)}.
      \<exists>c'. rbind (after t c) (after j) = Inr c' \<and> PC c' = (if taken then Num a else PC c) \<and>
        registers c' = registers c \<and> memory c' = memory c"
  using assms by (simp add: exec_simps)

lemma init_cpu_simps: "registers (init_cpu n) r = Num 0" "PC (init_cpu n) = Num 0"
  by (simp_all add: init_cpu_def)

theorem test_and_branch_witness:
  "\<exists>c'. rbind (after (test_i_r 3 REG_AX) (init_cpu 128)) (after (jump_lessthan 7)) = Inr c' \<and> PC c' = Num 7"
  using test_and_branch [OF init_cpu_simps(1) [of 128 REG_AX] init_cpu_simps(1) [of 128 REG_BX], of 3 0 7]
  by (auto simp del: rbind_Inr_iff)

end
