(* ===== verification/X86Threads.thy ===== *)
theory X86Threads
  imports X86
begin

text \<open>
  Threads of the x86 machine as an interleaving. The abstract machine has one context for each
  thread and a shared memory, and any thread may execute its next instruction at any time. The
  interpreter loop \<open>run\<close>, with its saved contexts, timer interrupts, yields, halts and either
  kind of schedule, is shown to perform only such steps. What holds under every interleaving
  therefore holds for every run.
\<close>

section \<open>The abstract machine\<close>

record context_of =
  c_pc :: cell
  c_regs :: "reg \<Rightarrow> cell"
  c_cc :: "cond \<Rightarrow> bool"

record interleaved =
  threads :: "nat \<Rightarrow> context_of"
  shared :: "int \<rightharpoonup> cell"
  texts :: "int \<rightharpoonup> string"
  halted :: "nat set"

definition ctx :: "cpu \<Rightarrow> context_of" where
  "ctx c = \<lparr>c_pc = PC c, c_regs = registers c, c_cc = conditions c\<rparr>"

definition on_cpu :: "interleaved \<Rightarrow> nat \<Rightarrow> cpu" where
  "on_cpu a i = \<lparr>PC = c_pc (threads a i), registers = c_regs (threads a i), conditions = c_cc (threads a i),
     memory = shared a, pmemory = texts a\<rparr>"

definition off_cpu :: "interleaved \<Rightarrow> nat \<Rightarrow> outcome \<Rightarrow> cpu \<Rightarrow> interleaved" where
  "off_cpu a i rc c = \<lparr>threads = (threads a)(i := ctx c), shared = memory c, texts = pmemory c,
     halted = (if rc = Halted then insert i (halted a) else halted a)\<rparr>"

inductive thread_step :: "nat \<Rightarrow> interleaved \<Rightarrow> interleaved \<Rightarrow> bool" for n where
  thread_exec: "i < n \<Longrightarrow> i \<notin> halted a \<Longrightarrow> fetch_exec (on_cpu a i) = Inr (rc, c) \<Longrightarrow>
     thread_step n a (off_cpu a i rc c)"

inductive_cases thread_stepE: "thread_step n a b"

section \<open>The interpreter loop only takes such steps\<close>

definition saved :: "process \<Rightarrow> context_of" where
  "saved p = \<lparr>c_pc = pc p, c_regs = regs p, c_cc = cc p\<rparr>"

definition cur_thread :: "proclist \<Rightarrow> nat" where
  "cur_thread ps = nat (procsched ps ! nat (curr ps))"

text \<open>A well-formed scheduler: the current position and the entries of the schedule exist.\<close>

definition sched_wf :: "proclist \<Rightarrow> bool" where
  "sched_wf ps \<longleftrightarrow> 0 \<le> curr ps \<and> curr ps < int (length (procsched ps)) \<and>
     (\<forall>p \<in> set (procsched ps). 0 \<le> p \<and> p < int (length (plist ps)))"

definition view :: "machine \<Rightarrow> nat \<Rightarrow> context_of" where
  "view m i = (if i = cur_thread (procs m) then ctx (core m) else saved (plist (procs m) ! i))"

definition simulates :: "machine \<Rightarrow> interleaved \<Rightarrow> bool" where
  "simulates m a \<longleftrightarrow> shared a = memory (core m) \<and> texts a = pmemory (core m) \<and>
     (\<forall>i < length (plist (procs m)). if finished (plist (procs m) ! i) then i \<in> halted a
        else i \<notin> halted a \<and> threads a i = view m i)"

definition active_ok :: "proclist \<Rightarrow> bool" where
  "active_ok ps \<longleftrightarrow> active ps = int (length (filter (\<lambda>p. \<not> finished p) (plist ps)))"

definition machine_ok :: "machine \<Rightarrow> bool" where
  "machine_ok m \<longleftrightarrow> sched_wf (procs m) \<and> active_ok (procs m) \<and> \<not> finished (plist (procs m) ! cur_thread (procs m))"

lemma sched_wf_cur:
  assumes "sched_wf ps"
  shows "cur_thread ps < length (plist ps)" and "getcurr ps = Inr (plist ps ! cur_thread ps)"
    and "putcurr q ps = Inr (ps\<lparr>plist := (plist ps)[cur_thread ps := q]\<rparr>)"
proof -
  obtain k where k: "curr ps = int k" "k < length (procsched ps)"
    using assms nonneg_int_cases [of "curr ps"] by (auto simp: sched_wf_def)
  have e: "procsched ps ! k \<in> set (procsched ps)" using k by simp
  have "0 \<le> procsched ps ! k" "procsched ps ! k < int (length (plist ps))"
    using assms e by (auto simp: sched_wf_def)
  then obtain j where j: "procsched ps ! k = int j" "j < length (plist ps)"
    using nonneg_int_cases [of "procsched ps ! k"] by auto
  have c: "cur_thread ps = j" using k j by (simp add: cur_thread_def)
  show "cur_thread ps < length (plist ps)" using c j by simp
  show "getcurr ps = Inr (plist ps ! cur_thread ps)"
    using k j c by (simp add: getcurr_def)
  show "putcurr q ps = Inr (ps\<lparr>plist := (plist ps)[cur_thread ps := q]\<rparr>)"
    using k j c by (simp add: putcurr_def)
qed

lemma proc_next_result:
  "sched_wf ps \<Longrightarrow> proc_next n ps = Some r \<Longrightarrow>
   \<exists>k. r = Inr (ps\<lparr>curr := k\<rparr>) \<and> sched_wf (ps\<lparr>curr := k\<rparr>) \<and>
     \<not> finished (plist ps ! cur_thread (ps\<lparr>curr := k\<rparr>))"
proof (induction n arbitrary: ps)
  case (Suc n)
  define k where "k = (if curr ps + 1 = int (length (procsched ps)) then 0 else curr ps + 1)"
  have wf: "sched_wf (ps\<lparr>curr := k\<rparr>)" using Suc.prems(1) by (auto simp: sched_wf_def k_def)
  show ?case
  proof (cases "finished (plist ps ! cur_thread (ps\<lparr>curr := k\<rparr>))")
    case True
    then have "proc_next n (ps\<lparr>curr := k\<rparr>) = Some r"
      using Suc.prems(2) sched_wf_cur(2) [OF wf] by (simp add: k_def Let_def)
    from Suc.IH [OF wf this] show ?thesis by auto
  next
    case False
    then show ?thesis
      using Suc.prems(2) sched_wf_cur(2) [OF wf] wf by (auto simp: k_def Let_def)
  qed
qed simp

lemma next_thread_keeps:
  assumes wf: "sched_wf (procs m)" and act: "active_ok (procs m)" and nt: "next_thread m = Some r"
    and up: "\<not> finished (plist (procs m) ! cur_thread (procs m)) \<Longrightarrow>
      saved (plist (procs m) ! cur_thread (procs m)) = ctx (core m)"
  shows "\<exists>m'. r = Inr m' \<and> machine_ok m' \<and> plist (procs m') = plist (procs m) \<and>
    interrupt m' = interrupt m \<and> (\<forall>a. simulates m a \<longrightarrow> simulates m' a)"
proof -
  obtain s where s: "proc_next (length (procsched (procs m))) (procs m) = Some s"
    using nt by (auto simp: next_thread_def split: option.splits)
  from proc_next_result [OF wf this] obtain k where k: "s = Inr ((procs m)\<lparr>curr := k\<rparr>)"
      "sched_wf ((procs m)\<lparr>curr := k\<rparr>)" "\<not> finished (plist (procs m) ! cur_thread ((procs m)\<lparr>curr := k\<rparr>))" by auto
  let ?ps = "(procs m)\<lparr>curr := k\<rparr>"
  let ?p = "plist (procs m) ! cur_thread ?ps"
  let ?m = "m\<lparr>procs := ?ps, core := (core m)\<lparr>PC := pc ?p, conditions := cc ?p, registers := regs ?p\<rparr>\<rparr>"
  have r: "r = Inr ?m"
    using nt s k(1) sched_wf_cur(2) [OF k(2)] by (simp add: next_thread_def restore_def)
  have "simulates ?m a" if "simulates m a" for a
    using that up by (auto simp: simulates_def view_def ctx_def saved_def split: if_splits)
  moreover have "active_ok ?ps" using act by (simp add: active_ok_def)
  ultimately show ?thesis using r k by (auto simp: machine_ok_def)
qed

lemma tick_interrupt_keeps:
  assumes ok: "machine_ok m" and t: "tick_interrupt f b rc m = Some (Inr p)"
  shows "\<exists>m'. p = Running m' \<and> machine_ok m' \<and> map finished (plist (procs m')) = map finished (plist (procs m)) \<and>
    (\<forall>a. simulates m a \<longrightarrow> simulates m' a)"
proof (cases "interrupt m - 1 = 0 \<or> rc = Yielded")
  case False
  then have "p = Running (m\<lparr>interrupt := interrupt m - 1\<rparr>)" using t by (simp add: tick_interrupt_def)
  then show ?thesis using ok by (auto simp: machine_ok_def simulates_def view_def)
next
  case True
  let ?j = "cur_thread (procs m)" and ?l = "plist (procs m)"
  let ?q = "(?l ! ?j)\<lparr>pc := PC (core m), cc := conditions (core m), regs := registers (core m)\<rparr>"
  let ?ps = "(procs m)\<lparr>plist := ?l[?j := ?q]\<rparr>"
  have wf: "sched_wf (procs m)" and nf: "\<not> finished (?l ! ?j)" using ok by (auto simp: machine_ok_def)
  have j: "?j < length ?l" by (rule sched_wf_cur(1) [OF wf])
  have sv: "save (core m) (procs m) = Inr ?ps"
    using sched_wf_cur(2,3) [OF wf] by (simp add: save_def)
  obtain i rs where i: "setint f b (intdraws m) = Inr (i, rs)"
    using t True by (auto simp: tick_interrupt_def split: sum.splits)
  let ?m = "m\<lparr>interrupt := i, intdraws := rs, procs := ?ps\<rparr>"
  have nt: "map_option (map_sum id Running) (next_thread ?m) = Some (Inr p)"
    using t True i sv by (simp add: tick_interrupt_def)
  then obtain r where r: "next_thread ?m = Some r" "map_sum id Running r = Inr p" by auto
  have cur: "cur_thread ?ps = ?j" by (simp add: cur_thread_def)
  have wf': "sched_wf (procs ?m)" using wf by (simp add: sched_wf_def)
  have fin: "map finished (?l[?j := ?q]) = map finished ?l"
    using j by (simp add: map_update list_update_same_conv)
  have "filter (\<lambda>b. \<not> b) (map finished (?l[?j := ?q])) = filter (\<lambda>b. \<not> b) (map finished ?l)" by (simp only: fin)
  then have act': "active_ok (procs ?m)"
    using ok by (simp add: machine_ok_def active_ok_def filter_map comp_def) (metis length_map)
  have up: "saved (plist (procs ?m) ! cur_thread (procs ?m)) = ctx (core ?m)"
    using j cur by (simp add: saved_def ctx_def)
  obtain m' where m': "r = Inr m'" "machine_ok m'" "plist (procs m') = ?l[?j := ?q]"
      "\<forall>a. simulates ?m a \<longrightarrow> simulates m' a"
    using next_thread_keeps [OF wf' act' r(1) up] by auto
  have "simulates ?m a" if "simulates m a" for a
    using that cur nf by (auto simp: simulates_def view_def nth_list_update split: if_splits)
  then show ?thesis using m' r(2) fin by auto
qed

lemma round_simulated:
  assumes ok: "machine_ok m" and sim: "simulates m a" and n: "n = length (plist (procs m))"
    and step: "round f b m = Some (Inr p)"
  shows "\<exists>a'. thread_step n a a' \<and>
    (case p of Running m' \<Rightarrow> machine_ok m' \<and> simulates m' a' \<and> length (plist (procs m')) = n
     | Finished m' \<Rightarrow> memory (core m') = shared a' \<and> {..<n} \<subseteq> halted a')"
proof -
  let ?j = "cur_thread (procs m)" and ?l = "plist (procs m)"
  have wf: "sched_wf (procs m)" and nf: "\<not> finished (?l ! ?j)" using ok by (auto simp: machine_ok_def)
  note cur = sched_wf_cur [OF wf]
  obtain rc c where ex: "fetch_exec (core m) = Inr (rc, c)"
    using step cur(2) by (cases "fetch_exec (core m)") (auto simp: round_def)
  define m1 where "m1 = m\<lparr>core := c, icount := icount m + 1\<rparr>"
  let ?a = "off_cpu a ?j rc c"
  have "on_cpu a ?j = core m"
    using sim cur(1) nf by (simp add: simulates_def on_cpu_def view_def ctx_def)
  then have ts: "thread_step n a ?a" using thread_exec [of ?j n a rc c] cur(1) ex n nf sim by (simp add: simulates_def)
  have sim1: "simulates m1 ?a" if "rc \<noteq> Halted"
    using sim that by (auto simp: simulates_def m1_def off_cpu_def view_def split: if_splits)
  have ok1: "machine_ok m1" and p1: "procs m1 = procs m" using ok by (simp_all add: machine_ok_def m1_def)
  show ?thesis
  proof (cases "rc = Halted")
    case False
    then have "tick_interrupt f b rc m1 = Some (Inr p)"
      using step cur(2) ex by (simp add: round_def m1_def)
    then obtain m' where "p = Running m'" "machine_ok m'" "simulates m' ?a"
        "map finished (plist (procs m')) = map finished ?l"
      using tick_interrupt_keeps [OF ok1] sim1 False p1 by metis
    then show ?thesis using ts n by (auto dest: map_eq_imp_length_eq intro!: exI [of _ ?a])
  next
    case True
    let ?ps = "(procs m)\<lparr>plist := ?l[?j := (?l ! ?j)\<lparr>finished := True\<rparr>], active := active (procs m) - 1\<rparr>"
    define m2 where "m2 = m1\<lparr>procs := ?ps\<rparr>"
    have pd: "proc_done (procs m1) = Inr ?ps"
      using cur(2,3) p1 by (simp add: proc_done_def)
    have c2: "cur_thread ?ps = ?j" by (simp add: cur_thread_def)
    have act2: "active_ok ?ps"
      using ok nf length_filter_update [OF cur(1), of "\<lambda>p. \<not> finished p" "(?l ! ?j)\<lparr>finished := True\<rparr>"]
      by (simp add: machine_ok_def active_ok_def)
    show ?thesis
    proof (cases "numdone ?ps = getnum ?ps")
      case fin: True
      then have "p = Finished m2"
        using step cur(2) ex True pd p1 by (simp add: round_def m1_def m2_def)
      moreover have "{..<n} \<subseteq> halted ?a"
      proof
        fix x assume "x \<in> {..<n}"
        then have x: "x < length (plist ?ps)" using n by simp
        have "filter (\<lambda>p. \<not> finished p) (plist ?ps) = []"
          using fin act2 by (simp add: numdone_def getnum_def active_ok_def)
        then have "finished (plist ?ps ! x)" using x by (metis (no_types, lifting) filter_empty_conv nth_mem)
        then show "x \<in> halted ?a"
          using sim True x by (cases "x = ?j") (auto simp: off_cpu_def simulates_def split: if_splits)
      qed
      moreover have "memory (core m2) = shared ?a" by (simp add: m2_def m1_def off_cpu_def)
      ultimately show ?thesis using ts by (auto intro!: exI [of _ ?a])
    next
      case False
      have wf2: "sched_wf (procs m2)" using wf by (simp add: sched_wf_def m2_def)
      have fj: "finished (plist (procs m2) ! cur_thread (procs m2))"
        using cur(1) c2 by (simp add: m2_def)
      have r: "(case next_thread m2 of None \<Rightarrow> None | Some (Inl e) \<Rightarrow> Some (Inl e)
          | Some (Inr m3) \<Rightarrow> tick_interrupt f b Halted m3) = Some (Inr p)"
        using step cur(2) ex True False pd p1 by (simp add: round_def m1_def m2_def)
      then obtain s where s: "next_thread m2 = Some s" by (auto split: option.splits)
      obtain m3 where m3: "s = Inr m3" "machine_ok m3" "plist (procs m3) = plist (procs m2)"
          "\<forall>a. simulates m2 a \<longrightarrow> simulates m3 a"
        using next_thread_keeps [OF wf2 _ s] fj act2 by (auto simp: m2_def)
      have "simulates m2 ?a"
        using sim True p1 cur(1) c2
        by (auto simp: simulates_def m2_def m1_def off_cpu_def view_def nth_list_update split: if_splits)
      then have sim3: "simulates m3 ?a" using m3(4) by blast
      have "tick_interrupt f b Halted m3 = Some (Inr p)" using r s m3(1) by simp
      then obtain m' where "p = Running m'" "machine_ok m'" "simulates m' ?a"
          "map finished (plist (procs m')) = map finished (plist (procs m3))"
        using tick_interrupt_keeps [OF m3(2)] sim3 by metis
      moreover have "length (plist (procs m3)) = n" using m3(3) n by (simp add: m2_def)
      ultimately show ?thesis using ts by (auto dest: map_eq_imp_length_eq intro!: exI [of _ ?a])
    qed
  qed
qed

lemma rounds_simulated:
  "machine_ok m \<Longrightarrow> simulates m a \<Longrightarrow> n = length (plist (procs m)) \<Longrightarrow> rounds k f b m = Some (Inr p) \<Longrightarrow>
   \<exists>a'. (thread_step n)\<^sup>*\<^sup>* a a' \<and>
    (case p of Running m' \<Rightarrow> machine_ok m' \<and> simulates m' a' \<and> length (plist (procs m')) = n
     | Finished m' \<Rightarrow> memory (core m') = shared a' \<and> {..<n} \<subseteq> halted a')"
proof (induction k arbitrary: m a)
  case (Suc k)
  obtain q where q: "round f b m = Some (Inr q)"
    using Suc.prems(4) by (auto split: option.splits sum.splits)
  obtain b1 where b1: "thread_step n a b1"
      "case q of Running m' \<Rightarrow> machine_ok m' \<and> simulates m' b1 \<and> length (plist (procs m')) = n
       | Finished m' \<Rightarrow> memory (core m') = shared b1 \<and> {..<n} \<subseteq> halted b1"
    using round_simulated [OF Suc.prems(1-3) q] by blast
  show ?case
  proof (cases q)
    case (Running m')
    then have "rounds k f b m' = Some (Inr p)" using Suc.prems(4) q by simp
    then obtain a' where "(thread_step n)\<^sup>*\<^sup>* b1 a'"
        "case p of Running m' \<Rightarrow> machine_ok m' \<and> simulates m' a' \<and> length (plist (procs m')) = n
         | Finished m' \<Rightarrow> memory (core m') = shared a' \<and> {..<n} \<subseteq> halted a'"
      using Suc.IH [of m' b1] b1(2) Running by auto
    then show ?thesis using b1(1) by (meson converse_rtranclp_into_rtranclp)
  next
    case (Finished m')
    then have "p = q" using Suc.prems(4) q by simp
    then show ?thesis using b1 by blast
  qed
qed auto

text \<open>A thread list as the main program sets it up, and the abstract state it starts from.\<close>

definition ready :: "proclist \<Rightarrow> bool" where
  "ready ps \<longleftrightarrow> sched_wf ps \<and> active_ok ps \<and> (\<forall>p \<in> set (plist ps). \<not> finished p)"

definition start_state :: "cpu \<Rightarrow> proclist \<Rightarrow> interleaved" where
  "start_state c ps = \<lparr>threads = (\<lambda>i. if i = cur_thread ps then ctx c else saved (plist ps ! i)),
     shared = memory c, texts = pmemory c, halted = {}\<rparr>"

text \<open>
  C7: Every run of the interpreter loop, for any interrupt frequency, random or not, and any
  schedule, is an interleaving of steps of the threads: each thread computes on its own
  registers, condition codes and program counter, and no context switch changes them. The run
  finishes only when every thread has executed \<open>halt\<close>.
\<close>

theorem run_is_interleaving:
  assumes "ready ps" and "run k f b rs c ps = Some (Inr p)"
  shows "\<exists>a'. (thread_step (length (plist ps)))\<^sup>*\<^sup>* (start_state c ps) a' \<and>
    (case p of
       Running m' \<Rightarrow> memory (core m') = shared a' \<and> (\<forall>i < length (plist ps).
         \<not> finished (plist (procs m') ! i) \<longrightarrow>
           threads a' i = (if i = cur_thread (procs m') then ctx (core m') else saved (plist (procs m') ! i)))
     | Finished m' \<Rightarrow> memory (core m') = shared a' \<and> {..<length (plist ps)} \<subseteq> halted a')"
proof -
  obtain i rs' f' b' where r: "rounds k f' b' \<lparr>core = c, procs = ps, interrupt = i, icount = 0, intdraws = rs'\<rparr> = Some (Inr p)"
    using assms(2) by (auto simp: run_def Let_def split: sum.splits)
  let ?m = "\<lparr>core = c, procs = ps, interrupt = i, icount = 0, intdraws = rs'\<rparr>"
  have ok: "machine_ok ?m"
    using assms(1) sched_wf_cur(1) [of ps] by (simp add: machine_ok_def ready_def)
  have sim: "simulates ?m (start_state c ps)"
    using assms(1) by (simp add: simulates_def view_def start_state_def ready_def)
  obtain a' where "(thread_step (length (plist ps)))\<^sup>*\<^sup>* (start_state c ps) a'"
      "case p of Running m' \<Rightarrow> machine_ok m' \<and> simulates m' a' \<and> length (plist (procs m')) = length (plist ps)
       | Finished m' \<Rightarrow> memory (core m') = shared a' \<and> {..<length (plist ps)} \<subseteq> halted a'"
    using rounds_simulated [OF ok sim _ r] by auto
  then show ?thesis
    by (intro exI [of _ a']) (auto simp: simulates_def view_def split: progress.splits if_splits)
qed

definition demo_cpu :: cpu where
  "demo_cpu = (init_cpu 1)\<lparr>memory := [0 \<mapsto> Code nop, 1 \<mapsto> Code halt], pmemory := [0 \<mapsto> ''nop'', 1 \<mapsto> ''halt'']\<rparr>"

definition demo_thread :: "nat \<Rightarrow> process" where
  "demo_thread i = \<lparr>tid = i, pc = Num 0, regs = (\<lambda>_. Num 0), cc = (\<lambda>_. False), finished = False, stack = 0\<rparr>"

definition demo_procs :: proclist where
  "demo_procs = \<lparr>plist = [demo_thread 0, demo_thread 1], active = 2, manual = False, procsched = [0, 1], curr = 0\<rparr>"

theorem run_is_interleaving_witness:
  "\<exists>m a'. run 4 1 False [] demo_cpu demo_procs = Some (Inr (Finished m)) \<and>
     (thread_step 2)\<^sup>*\<^sup>* (start_state demo_cpu demo_procs) a' \<and> {..<2} \<subseteq> halted a'"
proof -
  have "case run 4 1 False [] demo_cpu demo_procs of Some (Inr (Finished m)) \<Rightarrow> True | _ \<Rightarrow> False" by code_simp
  then obtain m where m: "run 4 1 False [] demo_cpu demo_procs = Some (Inr (Finished m))"
    by (auto split: option.splits sum.splits progress.splits)
  have "ready demo_procs"
    by (auto simp: ready_def sched_wf_def active_ok_def demo_procs_def demo_thread_def)
  moreover have "length (plist demo_procs) = 2" by (simp add: demo_procs_def)
  ultimately show ?thesis using run_is_interleaving [OF _ m] m by auto
qed

end
