(* ===== verification/X86Asm.thy ===== *)
theory X86Asm
  imports X86
begin

text \<open>
  The assembler of \<open>src/Sem3/BSYS/28_Locks/x86.py\<close>: the argument parser \<open>getarg\<close>, the two passes
  of \<open>load\<close> over the lines of the source file, the creation of the threads and the main program.
  \<open>zassert\<close> prints a message and leaves the program: \<open>SystemExit\<close>. The code writes a memory
  operand as the text \<open>value,reg1,reg2,scale\<close> and splits it again; here it is the constructor
  \<open>TYPE_MEMORY\<close>.
\<close>

section \<open>Arguments\<close>

definition zassert :: "bool \<Rightarrow> unit res" where
  "zassert b = (if b then Inr () else Inl SystemExit)"

lemma zassert_Inr [simp]: "zassert b = Inr u \<longleftrightarrow> b"
  by (simp add: zassert_def)

definition regnames :: "string \<rightharpoonup> reg" where
  "regnames = [''zero'' \<mapsto> REG_ZERO, ''ax'' \<mapsto> REG_AX, ''bx'' \<mapsto> REG_BX, ''cx'' \<mapsto> REG_CX, ''dx'' \<mapsto> REG_DX,
     ''ex'' \<mapsto> REG_EX, ''fx'' \<mapsto> REG_FX, ''sp'' \<mapsto> REG_SP, ''bp'' \<mapsto> REG_BP]"

definition register_translate :: "string \<Rightarrow> reg res" where
  "register_translate r = (case regnames r of Some n \<Rightarrow> Inr n | None \<Rightarrow> Inl SystemExit)"

definition getregname :: "string \<Rightarrow> string res" where
  "getregname r =
     (let t = py_strip r in
      if t = [] then Inr ''zero''
      else rbind (zassert (hd t = CHR ''%'')) (\<lambda>_.
           rbind (py_nth (split_on CHR ''%'' r) 1) (\<lambda>n. Inr (py_strip n))))"

datatype arg =
    TYPE_IMMEDIATE int
  | TYPE_REGISTER reg
  | TYPE_LABEL string
  | TYPE_MEMORY int reg reg int

type_synonym var_table = "string \<rightharpoonup> int"

definition getarg_immediate :: "string \<Rightarrow> arg res" where
  "getarg_immediate tmp =
     rbind (py_nth (split_on CHR ''$'' tmp) 1) (\<lambda>value.
     rbind (py_nth value 0) (\<lambda>c0.
       let neg = (c0 = CHR ''-''); v = (if neg then tl value else value)
       in rbind (zassert (py_isdigit v)) (\<lambda>_.
          rbind (py_int v) (\<lambda>n. Inr (TYPE_IMMEDIATE (if neg then - n else n))))))"

definition getarg_parens :: "int \<Rightarrow> string \<Rightarrow> arg res" where
  "getarg_parens value inside =
     (let t = split_str ''__BREAK__'' inside in
      case t of
        [a] \<Rightarrow> rbind (getregname a) (\<lambda>n1. rbind (register_translate n1) (\<lambda>r1.
                Inr (TYPE_MEMORY value r1 REG_ZERO 1)))
      | [a, b] \<Rightarrow> rbind (getregname a) (\<lambda>n1. rbind (getregname b) (\<lambda>n2.
                  rbind (register_translate n1) (\<lambda>r1. rbind (register_translate n2) (\<lambda>r2.
                  Inr (TYPE_MEMORY value r1 r2 1)))))
      | [a, b, k] \<Rightarrow> rbind (getregname a) (\<lambda>n1. rbind (getregname b) (\<lambda>n2. rbind (py_int k) (\<lambda>scale.
                     rbind (register_translate n1) (\<lambda>r1. rbind (register_translate n2) (\<lambda>r2.
                     Inr (TYPE_MEMORY value r1 r2 scale))))))
      | _ \<Rightarrow> Inl SystemExit)"

definition getarg_general :: "string \<Rightarrow> arg res" where
  "getarg_general tmp0 =
     (let isneg = (hd tmp0 = CHR ''-''); tmp = (if isneg then tl tmp0 else tmp0);
          s = split_on CHR ''('' tmp
      in case s of
           [a] \<Rightarrow> rbind (py_int a) (\<lambda>n. Inr (TYPE_MEMORY (if isneg then - n else n) REG_ZERO REG_ZERO 1))
         | [a, b] \<Rightarrow>
             rbind (if tmp \<noteq> [] \<and> hd tmp = CHR ''('' then Inr 0
                    else rbind (zassert (py_isdigit (py_strip a))) (\<lambda>_.
                         rbind (py_int a) (\<lambda>n. Inr (if isneg then - n else n)))) (\<lambda>value.
             getarg_parens value (hd (split_on CHR '')'' b)))
         | _ \<Rightarrow> Inl SystemExit)"

text \<open>
  The last two lines of the code, \<open>zassert(True, ...)\<close> and \<open>return\<close>, yield \<open>None\<close>, which the
  callers cannot unpack: \<open>TypeError\<close>.
\<close>

definition getarg :: "var_table \<Rightarrow> string \<Rightarrow> arg res" where
  "getarg vars arg =
     (let tmp = py_replace [CHR '' '', char_of (9 :: nat)] [] (py_replace '','' '' '' arg) in
      rbind (py_nth tmp 0) (\<lambda>c0.
        if c0 = CHR ''$'' then getarg_immediate tmp
        else if c0 = CHR ''%'' then
          rbind (py_nth (split_on CHR ''%'' tmp) 1) (\<lambda>n.
          rbind (register_translate n) (\<lambda>r. Inr (TYPE_REGISTER r)))
        else if c0 = CHR ''.'' then Inr (TYPE_LABEL tmp)
        else if is_alpha c0 \<and> \<not> is_digit c0 then
          (case vars tmp of Some a \<Rightarrow> Inr (TYPE_MEMORY a REG_ZERO REG_ZERO 1) | None \<Rightarrow> Inl SystemExit)
        else if is_digit c0 \<or> c0 = CHR ''-'' \<or> c0 = CHR ''('' then getarg_general tmp
        else Inl TypeError))"

fun removecommas_from :: "bool \<Rightarrow> string \<Rightarrow> string res" where
  "removecommas_from inparen [] = rbind (zassert (\<not> inparen)) (\<lambda>_. Inr [])"
| "removecommas_from inparen (x # xs) =
     rbind (if x = CHR ''('' then rbind (zassert (\<not> inparen)) (\<lambda>_. Inr True) else Inr inparen) (\<lambda>p1.
     rbind (if x = CHR '')'' then rbind (zassert p1) (\<lambda>_. Inr False) else Inr p1) (\<lambda>p2.
     rbind (removecommas_from p2 xs) (\<lambda>out.
       Inr ((if p2 \<and> x = CHR '','' then ''__BREAK__'' else [x]) @ out))))"

definition removecommas :: "string \<Rightarrow> string res" where
  "removecommas inargs = removecommas_from False inargs"

section \<open>Opcodes\<close>

text \<open>Two arguments separated by the first comma, as most opcodes take them.\<close>

definition two_args :: "var_table \<Rightarrow> string list \<Rightarrow> (arg \<times> arg) res" where
  "two_args vars tmp =
     rbind (py_nth tmp 1) (\<lambda>rest.
       let rtmp = split_once CHR '','' rest
       in rbind (zassert (length tmp = 2 \<and> length rtmp = 2)) (\<lambda>_.
          rbind (getarg vars (py_strip (rtmp ! 0))) (\<lambda>a.
          rbind (getarg vars (py_strip (rtmp ! 1))) (\<lambda>b. Inr (a, b)))))"

definition one_arg :: "var_table \<Rightarrow> string list \<Rightarrow> arg res" where
  "one_arg vars tmp = rbind (py_nth tmp 1) (\<lambda>rest. getarg vars (py_strip rest))"

definition assemble_mov :: "var_table \<Rightarrow> string list \<Rightarrow> instr res" where
  "assemble_mov vars tmp =
     rbind (py_nth tmp 1) (\<lambda>rest.
     rbind (removecommas rest) (\<lambda>outargs.
       let rtmp = split_on CHR '','' outargs
       in rbind (zassert (length rtmp = 2)) (\<lambda>_.
          rbind (getarg vars (py_strip (rtmp ! 0))) (\<lambda>src.
          rbind (getarg vars (py_strip (rtmp ! 1))) (\<lambda>dst.
            case (src, dst) of
              (TYPE_IMMEDIATE n, TYPE_REGISTER r) \<Rightarrow> Inr (move_i_to_r n r)
            | (TYPE_MEMORY v r1 r2 k, TYPE_REGISTER r) \<Rightarrow> Inr (move_m_to_r v r1 r2 k r)
            | (TYPE_REGISTER r, TYPE_MEMORY v r1 r2 k) \<Rightarrow> Inr (move_r_to_m r v r1 r2 k)
            | (TYPE_REGISTER r, TYPE_REGISTER q) \<Rightarrow> Inr (move_r_to_r r q)
            | (TYPE_IMMEDIATE n, TYPE_MEMORY v r1 r2 k) \<Rightarrow> Inr (move_i_to_m n v r1 r2 k)
            | _ \<Rightarrow> Inl SystemExit)))))"

definition assemble_arith ::
  "(int \<Rightarrow> reg \<Rightarrow> instr) \<Rightarrow> (reg \<Rightarrow> reg \<Rightarrow> instr) \<Rightarrow> var_table \<Rightarrow> string list \<Rightarrow> instr res" where
  "assemble_arith imm rr vars tmp =
     rbind (two_args vars tmp) (\<lambda>p. case p of
         (TYPE_IMMEDIATE n, TYPE_REGISTER r) \<Rightarrow> Inr (imm n r)
       | (TYPE_REGISTER q, TYPE_REGISTER r) \<Rightarrow> Inr (rr q r)
       | _ \<Rightarrow> Inl SystemExit)"

text \<open>\<open>fetchadd\<close> and \<open>xchg\<close> split the text of the second argument before they look at its type.\<close>

definition assemble_atomic ::
  "(reg \<Rightarrow> int \<Rightarrow> reg \<Rightarrow> reg \<Rightarrow> instr) \<Rightarrow> var_table \<Rightarrow> string list \<Rightarrow> instr res" where
  "assemble_atomic mk vars tmp =
     rbind (two_args vars tmp) (\<lambda>(src, dst). case dst of
         TYPE_MEMORY v r1 r2 k \<Rightarrow>
           (case src of TYPE_REGISTER r \<Rightarrow> Inr (mk r v r1 r2) | _ \<Rightarrow> Inl SystemExit)
       | TYPE_LABEL l \<Rightarrow>
           if length (split_on CHR '','' l) = 4 then Inl SystemExit else Inl AssertionError
       | _ \<Rightarrow> Inl AttributeError)"

definition assemble_test :: "var_table \<Rightarrow> string list \<Rightarrow> instr res" where
  "assemble_test vars tmp =
     rbind (two_args vars tmp) (\<lambda>p. case p of
         (TYPE_IMMEDIATE n, TYPE_REGISTER r) \<Rightarrow> Inr (test_i_r n r)
       | (TYPE_REGISTER q, TYPE_REGISTER r) \<Rightarrow> Inr (test_r_r q r)
       | (TYPE_REGISTER q, TYPE_IMMEDIATE n) \<Rightarrow> Inr (test_r_i q n)
       | _ \<Rightarrow> Inl SystemExit)"

definition assemble_jump ::
  "(int \<Rightarrow> instr) \<Rightarrow> (string \<rightharpoonup> int) \<Rightarrow> var_table \<Rightarrow> string list \<Rightarrow> instr res" where
  "assemble_jump mk labels vars tmp =
     rbind (one_arg vars tmp) (\<lambda>a. case a of
         TYPE_LABEL l \<Rightarrow> rbind (py_lookup labels l) (\<lambda>t. Inr (mk t))
       | _ \<Rightarrow> Inl SystemExit)"

definition assemble_lea :: "var_table \<Rightarrow> string list \<Rightarrow> instr res" where
  "assemble_lea vars tmp =
     rbind (two_args vars tmp) (\<lambda>p. case p of
         (TYPE_MEMORY v r1 r2 k, TYPE_REGISTER r) \<Rightarrow> Inr (lea_m_to_r v r1 r2 k r)
       | _ \<Rightarrow> Inl SystemExit)"

definition assemble_neg :: "var_table \<Rightarrow> string list \<Rightarrow> instr res" where
  "assemble_neg vars tmp =
     rbind (zassert (length tmp = 2)) (\<lambda>_. rbind (one_arg vars tmp) (\<lambda>a. case a of
         TYPE_REGISTER r \<Rightarrow> Inr (neg_r r) | _ \<Rightarrow> Inl SystemExit))"

definition assemble_pop :: "var_table \<Rightarrow> string list \<Rightarrow> instr res" where
  "assemble_pop vars tmp =
     (if length tmp = 1 then Inr pop
      else if length tmp = 2 then rbind (one_arg vars tmp) (\<lambda>a. case a of
         TYPE_REGISTER r \<Rightarrow> Inr (pop_r r) | _ \<Rightarrow> Inl SystemExit)
      else Inl SystemExit)"

definition assemble_push :: "var_table \<Rightarrow> string list \<Rightarrow> instr res" where
  "assemble_push vars tmp =
     rbind (one_arg vars tmp) (\<lambda>a. case a of
         TYPE_REGISTER r \<Rightarrow> Inr (push_r r)
       | TYPE_MEMORY v r1 r2 k \<Rightarrow> Inr (push_m v r1 r2 k)
       | _ \<Rightarrow> Inl SystemExit)"

definition assemble :: "(string \<rightharpoonup> int) \<Rightarrow> var_table \<Rightarrow> string list \<Rightarrow> instr res" where
  "assemble labels vars tmp =
     (let opcode = hd tmp in
      if opcode = ''mov'' then assemble_mov vars tmp
      else if opcode = ''lea'' then assemble_lea vars tmp
      else if opcode = ''neg'' then assemble_neg vars tmp
      else if opcode = ''pop'' then assemble_pop vars tmp
      else if opcode = ''push'' then assemble_push vars tmp
      else if opcode = ''call'' then assemble_jump call labels vars tmp
      else if opcode = ''ret'' then rbind (py_assert (length tmp = 1)) (\<lambda>_. Inr ret)
      else if opcode = ''mul'' then assemble_arith mul_i_to_r mul_r_to_r vars tmp
      else if opcode = ''add'' then assemble_arith add_i_to_r add_r_to_r vars tmp
      else if opcode = ''sub'' then assemble_arith sub_i_to_r sub_r_to_r vars tmp
      else if opcode = ''fetchadd'' then assemble_atomic fetchadd vars tmp
      else if opcode = ''xchg'' then assemble_atomic atomic_exchange vars tmp
      else if opcode = ''test'' then assemble_test vars tmp
      else if opcode = ''j'' then assemble_jump jump labels vars tmp
      else if opcode = ''jne'' then assemble_jump jump_notequal labels vars tmp
      else if opcode = ''je'' then assemble_jump jump_equal labels vars tmp
      else if opcode = ''jlt'' then assemble_jump jump_lessthan labels vars tmp
      else if opcode = ''jlte'' then assemble_jump jump_lessthanorequal labels vars tmp
      else if opcode = ''jgt'' then assemble_jump jump_greaterthan labels vars tmp
      else if opcode = ''jgte'' then assemble_jump jump_greaterthanorequal labels vars tmp
      else if opcode = ''nop'' then Inr nop
      else if opcode = ''halt'' then Inr halt
      else if opcode = ''yield'' then Inr iyield
      else if opcode = ''rdump'' then Inr rdump
      else if opcode = ''mdump'' then rbind (py_nth tmp 1) (\<lambda>text. Inr (mdump text))
      else Inl SystemExit)"

section \<open>The two passes\<close>

text \<open>A line without its comment.\<close>

definition code_part :: "string \<Rightarrow> string res" where
  "code_part line =
     (let cline = py_rstrip line; ctmp = split_on CHR ''#'' cline
      in rbind (py_assert (length ctmp = 1 \<or> length ctmp = 2)) (\<lambda>_.
           Inr (if length ctmp = 2 then hd ctmp else cline)))"

record symbols =
  vars :: var_table
  labels :: "string \<rightharpoonup> int"
  data :: int
  here :: int

definition scan_line :: "int \<Rightarrow> string \<Rightarrow> symbols \<Rightarrow> symbols res" where
  "scan_line bpc line s =
     rbind (code_part line) (\<lambda>cline.
       let tmp = split_ws cline in
       if tmp = [] then Inr s
       else if hd tmp = ''.var'' then
         rbind (py_assert (length tmp = 2 \<or> length tmp = 3)) (\<lambda>_.
         rbind (py_assert (vars s (hd tmp) = None)) (\<lambda>_.
         rbind (if length tmp = 3 then py_int (tmp ! 2) else Inr 1) (\<lambda>mul.
           let d = data s + 4 * mul
           in rbind (zassert (d < bpc)) (\<lambda>_. Inr (s\<lparr>vars := (vars s)(tmp ! 1 \<mapsto> data s), data := d\<rparr>)))))
       else if hd (hd tmp) = CHR ''.'' then
         rbind (py_assert (length tmp = 1)) (\<lambda>_. Inr (s\<lparr>labels := (labels s)(hd tmp \<mapsto> here s)\<rparr>))
       else Inr (s\<lparr>here := here s + 1\<rparr>))"

definition emit_line :: "symbols \<Rightarrow> string \<Rightarrow> int \<times> cpu \<Rightarrow> (int \<times> cpu) res" where
  "emit_line s line st =
     rbind (code_part line) (\<lambda>cline.
       if split_ws cline = [] \<or> hd cline = CHR ''.'' then Inr st
       else let (a, c) = st in
         rbind (assemble (labels s) (vars s) (split_word cline)) (\<lambda>i.
           Inr (a + 1, c\<lparr>memory := (memory c)(a \<mapsto> Code i), pmemory := (pmemory c)(a \<mapsto> py_strip cline)\<rparr>)))"

definition load_program :: "string list \<Rightarrow> int \<Rightarrow> cpu \<Rightarrow> cpu res" where
  "load_program lines loadaddr c =
     rbind (rfold (scan_line loadaddr) lines
              \<lparr>vars = Map.empty, labels = Map.empty, data = 100, here = loadaddr\<rparr>) (\<lambda>s.
     rbind (rfold (emit_line s) lines (loadaddr, c)) (\<lambda>(a, c'). Inr c'))"

section \<open>Threads and main program\<close>

fun init_regs :: "string list \<Rightarrow> (reg \<Rightarrow> cell) \<Rightarrow> (reg \<Rightarrow> cell) res" where
  "init_regs [] f = Inr f"
| "init_regs (r # rs) f =
     (let tmp = split_on CHR ''='' r in
      rbind (py_assert (length tmp = 2)) (\<lambda>_.
      rbind (py_int (tmp ! 1)) (\<lambda>n.
      rbind (py_assert (regnames (tmp ! 0) \<noteq> None)) (\<lambda>_. init_regs rs (f(the (regnames (tmp ! 0)) := Num n))))))"

definition new_thread :: "nat \<Rightarrow> int \<Rightarrow> int \<Rightarrow> string \<Rightarrow> process res" where
  "new_thread t a stackbottom reginit =
     rbind (if reginit = [] then Inr (\<lambda>_. Num 0) else init_regs (split_on CHR '':'' reginit) (\<lambda>_. Num 0)) (\<lambda>f.
       Inr \<lparr>tid = t, pc = Num a, regs = f(REG_SP := Num stackbottom), cc = (\<lambda>_. False),
            finished = False, stack = stackbottom\<rparr>)"

fun add_threads :: "nat \<Rightarrow> nat \<Rightarrow> string list \<Rightarrow> int \<Rightarrow> int \<Rightarrow> proclist \<Rightarrow> proclist res" where
  "add_threads 0 t argv a stackaddr ps = Inr ps"
| "add_threads (Suc n) t argv a stackaddr ps =
     rbind (if length argv > 1 then py_nth argv (int t) else py_nth argv 0) (\<lambda>r.
     rbind (new_thread t a stackaddr r) (\<lambda>p.
       add_threads n (Suc t) argv a (stackaddr - 1000) (addproc p ps)))"

text \<open>The main program up to the call of \<open>run\<close>.\<close>

definition boot ::
  "string list \<Rightarrow> nat \<Rightarrow> int \<Rightarrow> string \<Rightarrow> string \<Rightarrow> int \<Rightarrow> int \<Rightarrow> (proclist \<times> cpu) res" where
  "boot lines numthreads intfreq argv sched loadaddr memsize =
     rbind (zassert (intfreq > 0)) (\<lambda>_.
       let args = split_on CHR '','' argv
       in rbind (zassert (length args = numthreads \<or> length args = 1)) (\<lambda>_.
          rbind (load_program lines loadaddr (init_cpu memsize)) (\<lambda>c.
          rbind (add_threads numthreads 0 args loadaddr (memsize * 1000) new_proclist) (\<lambda>ps.
            finalize sched ps c))))"

end
