(* ===== verification/X86Locks.thy ===== *)
theory X86Locks
  imports X86Threads X86Asm
begin

text \<open>
  The spin lock of \<open>src/Sem3/BSYS/28_Locks/test-and-set.s\<close>, loaded and run by the simulator: the
  lock gives mutual exclusion and no increment of the shared counter is lost, for any number of
  threads and under every interleaving. The variant \<open>flag.s\<close>, which tests and sets the flag with
  two instructions, is shown to lose an update.
\<close>

section \<open>The program\<close>

text \<open>The lines of the source file, without the empty ones.\<close>

definition tas_source :: "string list" where
  "tas_source =
    [''.var mutex'', ''.var count'', ''.main'', ''.top'', ''.acquire'',
     ''mov  $1, %ax        '',
     ''xchg %ax, mutex     # atomic swap of 1 and mutex'',
     ''test $0, %ax        # if we get 0 back: lock is free!'',
     ''jne  .acquire       # if not, try again'',
     ''# critical section'',
     ''mov  count, %ax     # get the value at the address'',
     ''add  $1, %ax        # increment it'',
     ''mov  %ax, count     # store it back'',
     ''# release lock'',
     ''mov  $0, mutex'',
     ''sub  $1, %bx'', ''test $0, %bx'', ''jgt .top'', ''halt'']"

definition tas_code :: "instr list" where
  "tas_code =
    [move_i_to_r 1 REG_AX, atomic_exchange REG_AX 100 REG_ZERO REG_ZERO, test_i_r 0 REG_AX, jump_notequal 1000,
     move_m_to_r 104 REG_ZERO REG_ZERO 1 REG_AX, add_i_to_r 1 REG_AX, move_r_to_m REG_AX 104 REG_ZERO REG_ZERO 1,
     move_i_to_m 0 100 REG_ZERO REG_ZERO 1, sub_i_to_r 1 REG_BX, test_i_r 0 REG_BX, jump_greaterthan 1000, halt]"

section \<open>Assembling the source\<close>

definition tas_vars :: var_table where "tas_vars = [''mutex'' \<mapsto> 100, ''count'' \<mapsto> 104]"

definition tas_labels :: "string \<rightharpoonup> int" where
  "tas_labels = [''.main'' \<mapsto> 1000, ''.top'' \<mapsto> 1000, ''.acquire'' \<mapsto> 1000]"

lemma tas_code_parts:
  "code_part ''.var mutex'' = Inr ''.var mutex''"
  "code_part ''.var count'' = Inr ''.var count''"
  "code_part ''.main'' = Inr ''.main''"
  "code_part ''.top'' = Inr ''.top''"
  "code_part ''.acquire'' = Inr ''.acquire''"
  "code_part ''mov  $1, %ax        '' = Inr ''mov  $1, %ax''"
  "code_part ''xchg %ax, mutex     # atomic swap of 1 and mutex'' = Inr ''xchg %ax, mutex     ''"
  "code_part ''test $0, %ax        # if we get 0 back: lock is free!'' = Inr ''test $0, %ax        ''"
  "code_part ''jne  .acquire       # if not, try again'' = Inr ''jne  .acquire       ''"
  "code_part ''# critical section'' = Inr ''''"
  "code_part ''mov  count, %ax     # get the value at the address'' = Inr ''mov  count, %ax     ''"
  "code_part ''add  $1, %ax        # increment it'' = Inr ''add  $1, %ax        ''"
  "code_part ''mov  %ax, count     # store it back'' = Inr ''mov  %ax, count     ''"
  "code_part ''# release lock'' = Inr ''''"
  "code_part ''mov  $0, mutex'' = Inr ''mov  $0, mutex''"
  "code_part ''sub  $1, %bx'' = Inr ''sub  $1, %bx''"
  "code_part ''test $0, %bx'' = Inr ''test $0, %bx''"
  "code_part ''jgt .top'' = Inr ''jgt .top''"
  "code_part ''halt'' = Inr ''halt''"
  by code_simp+

lemma tas_words:
  "split_ws ''.var mutex'' = [''.var'', ''mutex'']"
  "split_ws ''.var count'' = [''.var'', ''count'']"
  "split_ws ''.main'' = [''.main'']"
  "split_ws ''.top'' = [''.top'']"
  "split_ws ''.acquire'' = [''.acquire'']"
  "split_ws ''mov  $1, %ax'' = [''mov'', ''$1,'', ''%ax'']"
  "split_ws ''xchg %ax, mutex     '' = [''xchg'', ''%ax,'', ''mutex'']"
  "split_ws ''test $0, %ax        '' = [''test'', ''$0,'', ''%ax'']"
  "split_ws ''jne  .acquire       '' = [''jne'', ''.acquire'']"
  "split_ws '''' = []"
  "split_ws ''mov  count, %ax     '' = [''mov'', ''count,'', ''%ax'']"
  "split_ws ''add  $1, %ax        '' = [''add'', ''$1,'', ''%ax'']"
  "split_ws ''mov  %ax, count     '' = [''mov'', ''%ax,'', ''count'']"
  "split_ws ''mov  $0, mutex'' = [''mov'', ''$0,'', ''mutex'']"
  "split_ws ''sub  $1, %bx'' = [''sub'', ''$1,'', ''%bx'']"
  "split_ws ''test $0, %bx'' = [''test'', ''$0,'', ''%bx'']"
  "split_ws ''jgt .top'' = [''jgt'', ''.top'']"
  "split_ws ''halt'' = [''halt'']"
  by code_simp+

lemma tas_opcodes:
  "split_word ''mov  $1, %ax'' = [''mov'', ''$1, %ax'']"
  "split_word ''xchg %ax, mutex     '' = [''xchg'', ''%ax, mutex     '']"
  "split_word ''test $0, %ax        '' = [''test'', ''$0, %ax        '']"
  "split_word ''jne  .acquire       '' = [''jne'', ''.acquire       '']"
  "split_word ''mov  count, %ax     '' = [''mov'', ''count, %ax     '']"
  "split_word ''add  $1, %ax        '' = [''add'', ''$1, %ax        '']"
  "split_word ''mov  %ax, count     '' = [''mov'', ''%ax, count     '']"
  "split_word ''mov  $0, mutex'' = [''mov'', ''$0, mutex'']"
  "split_word ''sub  $1, %bx'' = [''sub'', ''$1, %bx'']"
  "split_word ''test $0, %bx'' = [''test'', ''$0, %bx'']"
  "split_word ''jgt .top'' = [''jgt'', ''.top'']"
  "split_word ''halt'' = [''halt'']"
  by code_simp+

lemma tas_args:
  "getarg tas_vars ''$0'' = Inr (TYPE_IMMEDIATE 0)"
  "getarg tas_vars ''$1'' = Inr (TYPE_IMMEDIATE 1)"
  "getarg tas_vars ''%ax'' = Inr (TYPE_REGISTER REG_AX)"
  "getarg tas_vars ''%bx'' = Inr (TYPE_REGISTER REG_BX)"
  "getarg tas_vars ''mutex'' = Inr (TYPE_MEMORY 100 REG_ZERO REG_ZERO 1)"
  "getarg tas_vars ''count'' = Inr (TYPE_MEMORY 104 REG_ZERO REG_ZERO 1)"
  "getarg tas_vars ''.acquire'' = Inr (TYPE_LABEL ''.acquire'')"
  "getarg tas_vars ''.top'' = Inr (TYPE_LABEL ''.top'')"
  by code_simp+

lemma tas_strips:
  "py_strip '' %ax'' = ''%ax''"
  "py_strip '' %ax     '' = ''%ax''"
  "py_strip '' %ax        '' = ''%ax''"
  "py_strip '' %bx'' = ''%bx''"
  "py_strip '' count     '' = ''count''"
  "py_strip '' mutex'' = ''mutex''"
  "py_strip '' mutex     '' = ''mutex''"
  "py_strip ''$0'' = ''$0''"
  "py_strip ''$1'' = ''$1''"
  "py_strip ''%ax'' = ''%ax''"
  "py_strip ''.acquire       '' = ''.acquire''"
  "py_strip ''.top'' = ''.top''"
  "py_strip ''count'' = ''count''"
  by code_simp+

lemma tas_assembled:
  "assemble_mov tas_vars [''mov'', ''$1, %ax''] = Inr (move_i_to_r 1 REG_AX)"
  "assemble_atomic atomic_exchange tas_vars [''xchg'', ''%ax, mutex     ''] = Inr (atomic_exchange REG_AX 100 REG_ZERO REG_ZERO)"
  "assemble_test tas_vars [''test'', ''$0, %ax        ''] = Inr (test_i_r 0 REG_AX)"
  "assemble_jump jump_notequal tas_labels tas_vars [''jne'', ''.acquire       ''] = Inr (jump_notequal 1000)"
  "assemble_mov tas_vars [''mov'', ''count, %ax     ''] = Inr (move_m_to_r 104 REG_ZERO REG_ZERO 1 REG_AX)"
  "assemble_arith add_i_to_r add_r_to_r tas_vars [''add'', ''$1, %ax        ''] = Inr (add_i_to_r 1 REG_AX)"
  "assemble_mov tas_vars [''mov'', ''%ax, count     ''] = Inr (move_r_to_m REG_AX 104 REG_ZERO REG_ZERO 1)"
  "assemble_mov tas_vars [''mov'', ''$0, mutex''] = Inr (move_i_to_m 0 100 REG_ZERO REG_ZERO 1)"
  "assemble_arith sub_i_to_r sub_r_to_r tas_vars [''sub'', ''$1, %bx''] = Inr (sub_i_to_r 1 REG_BX)"
  "assemble_test tas_vars [''test'', ''$0, %bx''] = Inr (test_i_r 0 REG_BX)"
  "assemble_jump jump_greaterthan tas_labels tas_vars [''jgt'', ''.top''] = Inr (jump_greaterthan 1000)"
  by (simp_all add: assemble_mov_def removecommas_def zassert_def assemble_atomic_def assemble_test_def
      assemble_jump_def assemble_arith_def two_args_def one_arg_def split_once_def py_nth_def
      tas_strips tas_args py_lookup_def tas_labels_def)

lemma opcode_dispatch:
  "assemble ls vs (''mov'' # r) = assemble_mov vs (''mov'' # r)"
  "assemble ls vs (''xchg'' # r) = assemble_atomic atomic_exchange vs (''xchg'' # r)"
  "assemble ls vs (''test'' # r) = assemble_test vs (''test'' # r)"
  "assemble ls vs (''jne'' # r) = assemble_jump jump_notequal ls vs (''jne'' # r)"
  "assemble ls vs (''add'' # r) = assemble_arith add_i_to_r add_r_to_r vs (''add'' # r)"
  "assemble ls vs (''sub'' # r) = assemble_arith sub_i_to_r sub_r_to_r vs (''sub'' # r)"
  "assemble ls vs (''jgt'' # r) = assemble_jump jump_greaterthan ls vs (''jgt'' # r)"
  "assemble ls vs (''halt'' # r) = Inr halt"
  by (simp_all add: assemble_def)

lemma tas_scan:
  "rfold (scan_line 1000) tas_source \<lparr>vars = Map.empty, labels = Map.empty, data = 100, here = 1000\<rparr> =
   Inr \<lparr>vars = tas_vars, labels = tas_labels, data = 108, here = 1012\<rparr>"
  by (simp add: tas_source_def scan_line_def tas_code_parts tas_words tas_vars_def tas_labels_def)

lemma tas_emit:
  "\<exists>c. load_program tas_source 1000 c0 = Inr c \<and>
     list_all (\<lambda>k. memory c (1000 + int k) = Some (Code (tas_code ! k)) \<and> pmemory c (1000 + int k) \<noteq> None) [0..<12] \<and>
     memory c 1012 = memory c0 1012 \<and> memory c 100 = memory c0 100 \<and> memory c 104 = memory c0 104"
  unfolding load_program_def tas_scan
  by (simp add: tas_source_def emit_line_def tas_code_parts tas_words tas_opcodes tas_assembled opcode_dispatch tas_code_def)
    (simp add: upt_conv_Cons)

section \<open>The invariant\<close>

definition at_line :: "context_of \<Rightarrow> int \<Rightarrow> bool" where
  "at_line t k \<longleftrightarrow> c_pc t = Num (1000 + k)"

text \<open>A thread holds the lock from a successful exchange to the release.\<close>

definition holds :: "context_of \<Rightarrow> bool" where
  "holds t \<longleftrightarrow> (\<exists>k \<in> {4, 5, 6, 7}. at_line t k) \<or> ((at_line t 2 \<or> at_line t 3) \<and> c_regs t REG_AX = Num 0)"

definition bx :: "context_of \<Rightarrow> int" where
  "bx t = (case c_regs t REG_BX of Num b \<Rightarrow> b | Code i \<Rightarrow> 0)"

definition completed :: "int \<Rightarrow> context_of \<Rightarrow> int" where
  "completed b0 t = b0 - bx t + (if at_line t 7 \<or> at_line t 8 then 1 else 0)"

definition thread_ok :: "int \<Rightarrow> context_of \<Rightarrow> bool" where
  "thread_ok cnt t \<longleftrightarrow> (\<exists>k \<in> {0..12}. at_line t k) \<and> c_regs t REG_ZERO = Num 0 \<and> c_regs t REG_BX = Num (bx t) \<and>
     (at_line t 1 \<longrightarrow> c_regs t REG_AX = Num 1) \<and>
     (at_line t 2 \<or> at_line t 3 \<longrightarrow> c_regs t REG_AX = Num 0 \<or> c_regs t REG_AX = Num 1) \<and>
     (at_line t 3 \<longrightarrow> c_cc t COND_NEQ = (c_regs t REG_AX \<noteq> Num 0)) \<and>
     (at_line t 5 \<longrightarrow> c_regs t REG_AX = Num cnt) \<and> (at_line t 6 \<longrightarrow> c_regs t REG_AX = Num (cnt + 1)) \<and>
     (at_line t 10 \<longrightarrow> c_cc t COND_GT = (bx t > 0)) \<and> (at_line t 11 \<or> at_line t 12 \<longrightarrow> bx t \<le> 0) \<and>
     0 \<le> bx t \<and> (\<forall>k. at_line t k \<longrightarrow> k \<le> 8 \<longrightarrow> 1 \<le> bx t)"

definition code_loaded :: "(int \<rightharpoonup> cell) \<Rightarrow> (int \<rightharpoonup> string) \<Rightarrow> bool" where
  "code_loaded mem txt \<longleftrightarrow> (\<forall>k < 12. mem (1000 + int k) = Some (Code (tas_code ! k)) \<and> txt (1000 + int k) \<noteq> None) \<and>
     (\<forall>i. mem 1012 \<noteq> Some (Code i))"

definition tas_inv :: "nat \<Rightarrow> (nat \<Rightarrow> int) \<Rightarrow> interleaved \<Rightarrow> bool" where
  "tas_inv n b0 a \<longleftrightarrow> code_loaded (shared a) (texts a) \<and>
     (\<exists>cnt. shared a 104 = Some (Num cnt) \<and> cnt = (\<Sum>i<n. completed (b0 i) (threads a i)) \<and>
        (\<forall>i<n. thread_ok cnt (threads a i))) \<and>
     (\<forall>i<n. \<forall>j<n. holds (threads a i) \<longrightarrow> holds (threads a j) \<longrightarrow> i = j) \<and>
     shared a 100 = Some (Num (if \<exists>i<n. holds (threads a i) then 1 else 0)) \<and>
     (\<forall>i<n. i \<in> halted a \<longrightarrow> at_line (threads a i) 12)"

text \<open>The same with the position of the thread known.\<close>

lemma at_line_unique: "at_line t k \<Longrightarrow> at_line t j \<longleftrightarrow> j = k"
  by (auto simp: at_line_def)

lemma thread_ok_at:
  assumes "at_line t k"
  shows "thread_ok cnt t \<longleftrightarrow> 0 \<le> k \<and> k \<le> 12 \<and> c_regs t REG_ZERO = Num 0 \<and> c_regs t REG_BX = Num (bx t) \<and>
     (k = 1 \<longrightarrow> c_regs t REG_AX = Num 1) \<and>
     (k = 2 \<or> k = 3 \<longrightarrow> c_regs t REG_AX = Num 0 \<or> c_regs t REG_AX = Num 1) \<and>
     (k = 3 \<longrightarrow> c_cc t COND_NEQ = (c_regs t REG_AX \<noteq> Num 0)) \<and>
     (k = 5 \<longrightarrow> c_regs t REG_AX = Num cnt) \<and> (k = 6 \<longrightarrow> c_regs t REG_AX = Num (cnt + 1)) \<and>
     (k = 10 \<longrightarrow> c_cc t COND_GT = (bx t > 0)) \<and> (k = 11 \<or> k = 12 \<longrightarrow> bx t \<le> 0) \<and>
     0 \<le> bx t \<and> (k \<le> 8 \<longrightarrow> 1 \<le> bx t)"
  unfolding thread_ok_def at_line_unique [OF assms] by auto

lemma holds_at:
  "at_line t k \<Longrightarrow> holds t \<longleftrightarrow> k = 4 \<or> k = 5 \<or> k = 6 \<or> k = 7 \<or> (k = 2 \<or> k = 3) \<and> c_regs t REG_AX = Num 0"
  by (auto simp: holds_def at_line_unique)

lemma completed_at:
  "at_line t k \<Longrightarrow> completed b t = b - bx t + (if k = 7 \<or> k = 8 then 1 else 0)"
  by (auto simp: completed_def at_line_unique)

lemmas at_simps = thread_ok_at holds_at completed_at

text \<open>One thread moves: what has to be shown of its new context and of the shared cells.\<close>

lemma tas_inv_update:
  assumes inv: "tas_inv n b0 a" and i: "i < n" and cnt: "shared a 104 = Some (Num cnt)"
    and a': "threads a' = (threads a)(i := t')" "texts a' = texts a"
      "shared a' 104 = Some (Num cnt')" "\<And>x. x \<noteq> 100 \<Longrightarrow> x \<noteq> 104 \<Longrightarrow> shared a' x = shared a x"
      "shared a' 100 = (if holds t' then Some (Num 1) else if holds (threads a i) then Some (Num 0) else shared a 100)"
    and ok: "thread_ok cnt' t'" and acq: "holds t' \<Longrightarrow> holds (threads a i) \<or> shared a 100 = Some (Num 0)"
    and count: "cnt' - cnt = completed (b0 i) t' - completed (b0 i) (threads a i)"
    and excl: "cnt' = cnt \<or> holds (threads a i)"
    and halt: "halted a' = halted a \<and> i \<notin> halted a \<or> halted a' = insert i (halted a) \<and> at_line t' 12"
  shows "tas_inv n b0 a'"
proof -
  have inv': "code_loaded (shared a) (texts a)" "cnt = (\<Sum>i<n. completed (b0 i) (threads a i))"
      "\<And>j. j < n \<Longrightarrow> thread_ok cnt (threads a j)"
      "\<And>j k. j < n \<Longrightarrow> k < n \<Longrightarrow> holds (threads a j) \<Longrightarrow> holds (threads a k) \<Longrightarrow> j = k"
      "shared a 100 = Some (Num (if \<exists>i<n. holds (threads a i) then 1 else 0))"
    using inv cnt by (auto simp: tas_inv_def)
  have free: "\<not> holds (threads a j)" if "holds t'" "j < n" "j \<noteq> i" for j
    using acq [OF that(1)] inv'(4) [of i j] inv'(5) i that by (auto split: if_splits)
  have "code_loaded (shared a') (texts a')"
    using inv'(1) a'(2,4) by (auto simp: code_loaded_def)
  moreover have "(\<Sum>j<n. completed (b0 j) (threads a' j)) = cnt'"
    using i inv'(2) count by (simp add: a'(1) sum.remove [of "{..<n}" i])
  moreover have "thread_ok cnt' (threads a' j)" if "j < n" for j
  proof (cases "j = i")
    case False
    then have "cnt' = cnt \<or> \<not> at_line (threads a j) 5 \<and> \<not> at_line (threads a j) 6"
      using excl inv'(4) [OF i that] by (auto simp: holds_def)
    then show ?thesis using inv'(3) [OF that] False by (auto simp: a'(1) thread_ok_def)
  qed (simp add: a'(1) ok)
  moreover have "\<forall>j<n. \<forall>k<n. holds (threads a' j) \<longrightarrow> holds (threads a' k) \<longrightarrow> j = k"
    using free inv'(4) by (auto simp: a'(1))
  moreover have "shared a' 100 = Some (Num (if \<exists>j<n. holds (threads a' j) then 1 else 0))"
  proof (cases "holds t'")
    case True
    then show ?thesis using a'(5) i by (auto simp: a'(1))
  next
    case False
    then have "(\<exists>j<n. holds (threads a' j)) \<longleftrightarrow> (\<exists>j<n. j \<noteq> i \<and> holds (threads a j))" by (auto simp: a'(1))
    moreover have "holds (threads a i) \<Longrightarrow> \<not> (\<exists>j<n. j \<noteq> i \<and> holds (threads a j))"
      using inv'(4) [OF i] by blast
    moreover have "\<not> holds (threads a i) \<Longrightarrow>
        (\<exists>j<n. j \<noteq> i \<and> holds (threads a j)) \<longleftrightarrow> (\<exists>j<n. holds (threads a j))" by blast
    ultimately show ?thesis using False a'(5) inv'(5) by (cases "holds (threads a i)") simp_all
  qed
  moreover have "\<forall>j<n. j \<in> halted a' \<longrightarrow> at_line (threads a' j) 12"
    using inv halt by (auto simp: tas_inv_def a'(1))
  ultimately show ?thesis unfolding tas_inv_def using a'(3) by blast
qed

section \<open>Every step keeps it\<close>

lemma tas_fetch:
  assumes "code_loaded (shared a) (texts a)" and "at_line (threads a i) k" and "k \<in> {0..12}"
    and "fetch_exec (on_cpu a i) = Inr (rc, c)"
  shows "k \<noteq> 12 \<and> exec (tas_code ! nat k) ((on_cpu a i)\<lparr>PC := Num (1001 + k)\<rparr>) = Inr (rc, c)"
proof -
  have pc: "PC (on_cpu a i) = Num (1000 + k)" "memory (on_cpu a i) = shared a"
    using assms(2) by (auto simp: on_cpu_def at_line_def)
  have "k \<noteq> 12"
  proof
    assume "k = 12"
    moreover obtain v where v: "shared a 1012 = Some v"
      using assms(4) pc \<open>k = 12\<close> by (auto simp: fetch_exec_def read_mem_def)
    moreover from v assms(1) obtain x where "v = Num x" by (cases v) (auto simp: code_loaded_def)
    ultimately show False using assms(4) pc by (simp add: fetch_exec_def read_mem_def py_lookup_def)
  qed
  then obtain j where j: "k = int j" "j < 12" using assms(3) nonneg_int_cases [of k] by auto
  then have "shared a (1000 + k) = Some (Code (tas_code ! j))" using assms(1) by (simp add: code_loaded_def)
  with assms(4) pc j show ?thesis using \<open>k \<noteq> 12\<close>
    by (auto simp: fetch_exec_def read_mem_def py_lookup_def add.commute split: option.splits)
qed

lemmas tas_eval = tas_code_def exec_simps on_cpu_def off_cpu_def ctx_def

lemma tas_step:
  assumes inv: "tas_inv n b0 a" and step: "thread_step n a a'"
  shows "tas_inv n b0 a'"
proof -
  from step obtain i rc c where i: "i < n" and nh: "i \<notin> halted a" and ex: "fetch_exec (on_cpu a i) = Inr (rc, c)"
      and a': "a' = off_cpu a i rc c"
    by (rule thread_stepE) blast
  let ?t = "threads a i"
  have code: "code_loaded (shared a) (texts a)"
      and m: "shared a 100 = Some (Num (if \<exists>i<n. holds (threads a i) then 1 else 0))"
    using inv by (simp_all add: tas_inv_def)
  from inv obtain cnt where cnt: "shared a 104 = Some (Num cnt)" and "\<forall>i<n. thread_ok cnt (threads a i)"
    unfolding tas_inv_def by blast
  with i have tok: "thread_ok cnt ?t" by simp
  obtain k where k: "k \<in> {0..12}" "at_line ?t k"
    using conjunct1 [OF tok [unfolded thread_ok_def]] by blast
  have hm: "holds ?t \<longrightarrow> shared a 100 = Some (Num 1)" using m i by auto
  obtain y where y: "bx ?t = y" by blast
  note old = hm tok [unfolded thread_ok_at [OF k(2)] y] holds_at [OF k(2)] completed_at [OF k(2), unfolded y] cnt nh
  from tas_fetch [OF code k(2,1) ex] have k12: "k \<noteq> 12"
      and run: "exec (tas_code ! nat k) ((on_cpu a i)\<lparr>PC := Num (1001 + k)\<rparr>) = Inr (rc, c)" by auto
  note upd = tas_inv_update [OF inv i cnt, of a' "ctx c"]
  have "k = 0 \<or> k = 1 \<or> k = 2 \<or> k = 3 \<or> k = 4 \<or> k = 5 \<or> k = 6 \<or> k = 7 \<or> k = 8 \<or> k = 9 \<or> k = 10 \<or> k = 11"
    using k(1) k12 unfolding atLeastAtMost_iff by presburger
  then consider "k = 0" | "k = 1" | "k = 2" | "k = 3" | "k = 4" | "k = 5" | "k = 6" | "k = 7" | "k = 8" | "k = 9" | "k = 10" | "k = 11" by blast
  then show ?thesis
  proof cases
    case 1
    have c: "rc = Continue \<and> c = (on_cpu a i)\<lparr>PC := Num (1000 + 1), registers := (c_regs ?t)(REG_AX := Num 1)\<rparr>"
      using run old 1 by (simp add: tas_eval)
    then have al: "at_line (ctx c) 1" by (simp add: at_line_def ctx_def)
    show ?thesis
      by (rule upd [of "cnt"]) (use old al 1 in \<open>simp_all add: a' c tas_eval at_simps bx_def\<close>)
  next
    case 2
    obtain x where x: "shared a 100 = Some (Num x)" "x = 0 \<or> x = 1" "x \<noteq> 0 \<longrightarrow> x = 1"
      using m by (cases "\<exists>i<n. holds (threads a i)") auto
    have c: "rc = Continue \<and> c = (on_cpu a i)\<lparr>PC := Num (1000 + 2), registers := (c_regs ?t)(REG_AX := Num x), memory := (shared a)(100 \<mapsto> Num 1)\<rparr>"
      using run old 2 x by (simp add: tas_eval)
    then have al: "at_line (ctx c) 2" by (simp add: at_line_def ctx_def)
    show ?thesis
      by (rule upd [of "cnt"]) (use old al 2 x in \<open>simp_all add: a' c tas_eval at_simps bx_def\<close>)
  next
    case 3
    obtain x where x: "c_regs ?t REG_AX = Num x" "x = 0 \<or> x = 1" using old 3 by auto
    have c: "rc = Continue \<and> c = (on_cpu a i)\<lparr>PC := Num (1000 + 3), conditions := conditions (test_all 0 x (on_cpu a i))\<rparr>"
      using run old 3 x by (simp add: tas_eval)
    then have al: "at_line (ctx c) 3" by (simp add: at_line_def ctx_def)
    show ?thesis
      by (rule upd [of "cnt"]) (use old al 3 x in \<open>simp_all add: a' c tas_eval at_simps bx_def\<close>)
  next
    case 4
    obtain x where x: "c_regs ?t REG_AX = Num x" "x = 0 \<or> x = 1" "c_cc ?t COND_NEQ = (x \<noteq> 0)" using old 4 by auto
    have c: "rc = Continue \<and> c = (on_cpu a i)\<lparr>PC := Num (1000 + (if x \<noteq> 0 then 0 else 4))\<rparr>"
      using run old 4 x by (cases "x = 0") (simp_all add: tas_eval)
    then have al: "at_line (ctx c) (if x \<noteq> 0 then 0 else 4)" by (simp add: at_line_def ctx_def)
    show ?thesis
      by (rule upd [of "cnt"]) (use old al 4 x in \<open>simp_all add: a' c tas_eval at_simps bx_def split: if_splits\<close>)
  next
    case 5
    have c: "rc = Continue \<and> c = (on_cpu a i)\<lparr>PC := Num (1000 + 5), registers := (c_regs ?t)(REG_AX := Num cnt)\<rparr>"
      using run old 5 by (simp add: tas_eval)
    then have al: "at_line (ctx c) 5" by (simp add: at_line_def ctx_def)
    show ?thesis
      by (rule upd [of "cnt"]) (use old al 5 in \<open>simp_all add: a' c tas_eval at_simps bx_def\<close>)
  next
    case 6
    have c: "rc = Continue \<and> c = (on_cpu a i)\<lparr>PC := Num (1000 + 6), registers := (c_regs ?t)(REG_AX := Num (cnt + 1))\<rparr>"
      using run old 6 by (simp add: tas_eval)
    then have al: "at_line (ctx c) 6" by (simp add: at_line_def ctx_def)
    show ?thesis
      by (rule upd [of "cnt"]) (use old al 6 in \<open>simp_all add: a' c tas_eval at_simps bx_def\<close>)
  next
    case 7
    have c: "rc = Continue \<and> c = (on_cpu a i)\<lparr>PC := Num (1000 + 7), memory := (shared a)(104 \<mapsto> Num (cnt + 1))\<rparr>"
      using run old 7 by (simp add: tas_eval)
    then have al: "at_line (ctx c) 7" by (simp add: at_line_def ctx_def)
    show ?thesis
      by (rule upd [of "cnt + 1"]) (use old al 7 in \<open>simp_all add: a' c tas_eval at_simps bx_def\<close>)
  next
    case 8
    have c: "rc = Continue \<and> c = (on_cpu a i)\<lparr>PC := Num (1000 + 8), memory := (shared a)(100 \<mapsto> Num 0)\<rparr>"
      using run old 8 by (simp add: tas_eval)
    then have al: "at_line (ctx c) 8" by (simp add: at_line_def ctx_def)
    show ?thesis
      by (rule upd [of "cnt"]) (use old al 8 in \<open>simp_all add: a' c tas_eval at_simps bx_def\<close>)
  next
    case 9
    have c: "rc = Continue \<and> c = (on_cpu a i)\<lparr>PC := Num (1000 + 9), registers := (c_regs ?t)(REG_BX := Num (y - 1))\<rparr>"
      using run old 9 by (simp add: tas_eval)
    then have al: "at_line (ctx c) 9" by (simp add: at_line_def ctx_def)
    show ?thesis
      by (rule upd [of "cnt"]) (use old al 9 in \<open>simp_all add: a' c tas_eval at_simps bx_def\<close>)
  next
    case 10
    have c: "rc = Continue \<and> c = (on_cpu a i)\<lparr>PC := Num (1000 + 10), conditions := conditions (test_all 0 (y) (on_cpu a i))\<rparr>"
      using run old 10 by (simp add: tas_eval)
    then have al: "at_line (ctx c) 10" by (simp add: at_line_def ctx_def)
    show ?thesis
      by (rule upd [of "cnt"]) (use old al 10 in \<open>simp_all add: a' c tas_eval at_simps bx_def\<close>)
  next
    case 11
    have c: "rc = Continue \<and> c = (on_cpu a i)\<lparr>PC := Num (1000 + (if y > 0 then 0 else 11))\<rparr>"
      using run old 11 by (cases "y > 0") (simp_all add: tas_eval)
    then have al: "at_line (ctx c) (if y > 0 then 0 else 11)" by (simp add: at_line_def ctx_def)
    show ?thesis
      by (rule upd [of "cnt"]) (use old al 11 in \<open>simp_all add: a' c tas_eval at_simps bx_def split: if_splits\<close>)
  next
    case 12
    have c: "rc = Halted \<and> c = (on_cpu a i)\<lparr>PC := Num (1000 + 12)\<rparr>"
      using run old 12 by (simp add: tas_eval)
    then have al: "at_line (ctx c) 12" by (simp add: at_line_def ctx_def)
    show ?thesis
      by (rule upd [of "cnt"]) (use old al 12 in \<open>simp_all add: a' c tas_eval at_simps bx_def\<close>)
  qed
qed

section \<open>From the main program to the start of the run\<close>

lemma new_thread_props:
  "new_thread t a st r = Inr p \<Longrightarrow> pc p = Num a \<and> \<not> finished p"
  by (auto simp: new_thread_def)

lemma add_threads_props:
  "add_threads n t argv a st ps = Inr qs \<Longrightarrow>
   \<exists>new. qs = ps\<lparr>plist := plist ps @ new, active := active ps + int n\<rparr> \<and> length new = n \<and>
     (\<forall>p \<in> set new. pc p = Num a \<and> \<not> finished p)"
proof (induction n arbitrary: t st ps)
  case (Suc n)
  then obtain p where p: "pc p = Num a \<and> \<not> finished p"
      "add_threads n (Suc t) argv a (st - 1000) (addproc p ps) = Inr qs"
    by (auto dest: new_thread_props split: if_splits)
  from Suc.IH [OF p(2)] obtain new where "qs = (addproc p ps)\<lparr>plist := plist (addproc p ps) @ new,
      active := active (addproc p ps) + int n\<rparr>" "length new = n" "\<forall>p \<in> set new. pc p = Num a \<and> \<not> finished p" by blast
  then show ?case using p(1) by (intro exI [of _ "p # new"]) (auto simp: addproc_def)
qed simp

lemma py_int_char: "py_int [d] = Inr p \<Longrightarrow> 0 \<le> p"
  by (auto simp: py_int_def py_strip_def py_rstrip_def py_isdigit_def Let_def split: if_splits list.splits)

lemma read_sched_range:
  "read_sched ds num = Inr l \<Longrightarrow> length l = length ds \<and> (\<forall>p \<in> set l. 0 \<le> p \<and> p < num)"
  by (induction ds arbitrary: l) (auto split: if_splits dest: py_int_char)

lemma boot_ready:
  assumes "boot lines n f argv sched a ms = Inr (ps, c)"
  shows "\<exists>c0. load_program lines a (init_cpu ms) = Inr c0 \<and> memory c = memory c0 \<and> pmemory c = pmemory c0 \<and>
    ready ps \<and> length (plist ps) = n \<and> (\<forall>p \<in> set (plist ps). pc p = Num a) \<and>
    (\<forall>i < n. threads (start_state c ps) i = saved (plist ps ! i))"
proof -
  from assms obtain c0 qs args where c0: "load_program lines a (init_cpu ms) = Inr c0"
      and q: "add_threads n 0 args a (ms * 1000) new_proclist = Inr qs" and fin: "finalize sched qs c0 = Inr (ps, c)"
    by (auto simp: boot_def Let_def)
  from add_threads_props [OF q] obtain new where new: "qs = new_proclist\<lparr>plist := new, active := int n\<rparr>"
      "length new = n" "\<forall>p \<in> set new. pc p = Num a \<and> \<not> finished p"
    by (auto simp: new_proclist_def)
  obtain l b where l: "ps = qs\<lparr>manual := b, procsched := l, curr := 0\<rparr>" "\<forall>p \<in> set l. 0 \<le> p \<and> p < int n"
      and r: "restore ps c0 = Inr c"
  proof (cases "sched = []")
    case True
    then show ?thesis
      using fin new by (intro that [of "[0..int n - 1]" False]) (auto simp: finalize_def new_proclist_def)
  next
    case False
    then obtain l where "read_sched sched (getnum qs) = Inr l" "ps = qs\<lparr>manual := True, procsched := l, curr := 0\<rparr>"
        "restore ps c0 = Inr c"
      using fin new by (auto simp: finalize_def Let_def new_proclist_def split: if_splits)
    then show ?thesis using new read_sched_range [of sched "int n" l]
      by (intro that [of l True]) (auto simp: getnum_def)
  qed
  have "procsched ps \<noteq> []" using r l(1) by (auto simp: restore_def getcurr_def py_nth_def)
  then have wf: "sched_wf ps" using l new by (auto simp: sched_wf_def)
  moreover have "filter (\<lambda>p. \<not> finished p) new = new" using new(3) by (simp add: filter_id_conv)
  ultimately have rd: "ready ps" using l new by (auto simp: ready_def active_ok_def)
  have c: "c = c0\<lparr>PC := pc (plist ps ! cur_thread ps), conditions := cc (plist ps ! cur_thread ps),
      registers := regs (plist ps ! cur_thread ps)\<rparr>"
    using r sched_wf_cur(2) [OF wf] by (simp add: restore_def)
  then show ?thesis using c0 rd l new by (auto simp: start_state_def ctx_def saved_def)
qed

text \<open>
  C4: The program \<open>test-and-set.s\<close>, loaded by the assembler at its default address and started with
  any number of threads, each with a positive number of rounds in \<open>bx\<close>: in every state that a run
  can be in, for every interrupt frequency and every schedule, at most one of the threads that
  are not done is between the acquisition and the release of the lock; and when the run
  finishes, the counter in memory is exactly the sum of the rounds of all threads.
\<close>

theorem test_and_set_correct:
  assumes "boot tas_source n f argv sched 1000 128 = Inr (ps, c)"
    and "\<forall>i < n. regs (plist ps ! i) REG_BX = Num (b i) \<and> 1 \<le> b i \<and> regs (plist ps ! i) REG_ZERO = Num 0"
    and "run k f r rs c ps = Some (Inr p)"
  shows "case p of
      Running m \<Rightarrow> \<forall>i < n. \<forall>j < n. \<not> finished (plist (procs m) ! i) \<longrightarrow> \<not> finished (plist (procs m) ! j) \<longrightarrow>
        holds (view m i) \<longrightarrow> holds (view m j) \<longrightarrow> i = j
    | Finished m \<Rightarrow> memory (core m) 104 = Some (Num (\<Sum>i<n. b i))"
proof -
  obtain c0 where c0: "load_program tas_source 1000 (init_cpu 128) = Inr c0" "memory c = memory c0"
      "pmemory c = pmemory c0" "ready ps" "length (plist ps) = n" "\<forall>p \<in> set (plist ps). pc p = Num 1000"
      "\<forall>i < n. threads (start_state c ps) i = saved (plist ps ! i)"
    using boot_ready [OF assms(1)] by blast
  have mem: "code_loaded (memory c) (pmemory c)" "memory c 100 = Some (Num 0)" "memory c 104 = Some (Num 0)"
    using tas_emit [of "init_cpu 128"] c0(1-3) by (auto simp: code_loaded_def list_all_iff init_cpu_def)
  let ?a = "start_state c ps"
  have pos: "at_line (threads ?a i) 0" and b: "bx (threads ?a i) = b i" if "i < n" for i
    using that c0(5-7) assms(2) by (auto simp: at_line_def saved_def bx_def)
  have ok: "thread_ok 0 (threads ?a i)" if "i < n" for i
    unfolding thread_ok_at [OF pos [OF that]] b [OF that] using that assms(2) [rule_format, OF that] c0(7) by (simp add: saved_def)
  have nh: "\<not> holds (threads ?a i)" if "i < n" for i using holds_at [OF pos [OF that]] by simp
  have "(\<Sum>i<n. completed (b i) (threads ?a i)) = (\<Sum>i<n. 0)"
    by (rule sum.cong) (auto simp: completed_at [OF pos] b)
  then have "tas_inv n b ?a"
    using mem ok nh by (simp add: tas_inv_def start_state_def)
  moreover obtain a' where a': "(thread_step n)\<^sup>*\<^sup>* ?a a'"
      "case p of Running m' \<Rightarrow> memory (core m') = shared a' \<and> (\<forall>i < n. \<not> finished (plist (procs m') ! i) \<longrightarrow>
           threads a' i = view m' i)
       | Finished m' \<Rightarrow> memory (core m') = shared a' \<and> {..<n} \<subseteq> halted a'"
    using run_is_interleaving [OF c0(4) assms(3)] c0(5) unfolding view_def by blast
  ultimately have start: "tas_inv n b ?a" and "(thread_step n)\<^sup>*\<^sup>* ?a a'" by auto
  from this(2) have inv: "tas_inv n b a'"
    by (induction rule: rtranclp_induct) (use start tas_step in auto)
  show ?thesis
  proof (cases p)
    case (Running m)
    then show ?thesis using a'(2) inv by (simp add: tas_inv_def)
  next
    case (Finished m)
    with a'(2) have sh: "memory (core m) = shared a'" and h: "\<forall>i<n. i \<in> halted a'" by auto
    have at12: "at_line (threads a' i) 12" if "i < n" for i using inv h that by (simp add: tas_inv_def)
    obtain cnt where cnt: "shared a' 104 = Some (Num cnt)" "cnt = (\<Sum>i<n. completed (b i) (threads a' i))"
        "\<forall>i<n. thread_ok cnt (threads a' i)"
      using inv unfolding tas_inv_def by blast
    have "completed (b i) (threads a' i) = b i" if "i < n" for i
      using cnt(3) [rule_format, OF that] thread_ok_at [OF at12 [OF that], of cnt]
        completed_at [OF at12 [OF that], of "b i"] by simp
    then show ?thesis using cnt(1,2) sh Finished by simp
  qed
qed

text \<open>Two threads with one round each, as the main program starts them.\<close>

definition tas_loaded :: cpu where
  "tas_loaded = (init_cpu 128)\<lparr>
     PC := Num 1000, registers := (\<lambda>_. Num 0)(REG_BX := Num 1, REG_SP := Num 128000),
     memory := map_upds (memory (init_cpu 128)) [1000..1011] (map Code tas_code),
     pmemory := map_upds Map.empty [1000..1011]
       [''mov  $1, %ax'', ''xchg %ax, mutex'', ''test $0, %ax'', ''jne  .acquire'',
        ''mov  count, %ax'', ''add  $1, %ax'', ''mov  %ax, count'', ''mov  $0, mutex'',
        ''sub  $1, %bx'', ''test $0, %bx'', ''jgt .top'', ''halt'']\<rparr>"

definition tas_threads :: proclist where
  "tas_threads = \<lparr>plist = map (\<lambda>i. \<lparr>tid = i, pc = Num 1000,
       regs = (\<lambda>_. Num 0)(REG_BX := Num 1, REG_SP := Num (128000 - 1000 * int i)), cc = (\<lambda>_. False),
       finished = False, stack = 128000 - 1000 * int i\<rparr>) [0, 1],
     active = 2, manual = False, procsched = [0, 1], curr = 0\<rparr>"

lemma tas_trims:
  "py_strip ''mov  $1, %ax'' = ''mov  $1, %ax''"
  "py_strip ''xchg %ax, mutex     '' = ''xchg %ax, mutex''"
  "py_strip ''test $0, %ax        '' = ''test $0, %ax''"
  "py_strip ''jne  .acquire       '' = ''jne  .acquire''"
  "py_strip ''mov  count, %ax     '' = ''mov  count, %ax''"
  "py_strip ''add  $1, %ax        '' = ''add  $1, %ax''"
  "py_strip ''mov  %ax, count     '' = ''mov  %ax, count''"
  "py_strip ''mov  $0, mutex'' = ''mov  $0, mutex''"
  "py_strip ''sub  $1, %bx'' = ''sub  $1, %bx''"
  "py_strip ''test $0, %bx'' = ''test $0, %bx''"
  "py_strip ''jgt .top'' = ''jgt .top''"
  "py_strip ''halt'' = ''halt''"
  by code_simp+

lemma tas_boot:
  "boot tas_source 2 f ''bx=1'' [] 1000 128 = (if f > 0 then Inr (tas_threads, tas_loaded) else Inl SystemExit)"
proof -
  have args: "split_on CHR '','' ''bx=1'' = [''bx=1'']" "split_on CHR '':'' ''bx=1'' = [''bx=1'']"
      "split_on CHR ''='' ''bx=1'' = [''bx'', ''1'']" "py_int ''1'' = Inr 1" by code_simp+
  have idx: "[1000..1011] = [1000,1001,1002,1003,1004,1005,1006,1007,1008,1009,1010,1011::int]" by code_simp
  have load: "load_program tas_source 1000 (init_cpu 128) =
      Inr ((init_cpu 128)\<lparr>memory := memory tas_loaded, pmemory := pmemory tas_loaded\<rparr>)"
    unfolding load_program_def tas_scan
    by (simp add: tas_source_def emit_line_def tas_code_parts tas_words tas_opcodes tas_assembled opcode_dispatch
        tas_loaded_def tas_code_def tas_trims idx init_cpu_def)
  have "add_threads 2 0 [''bx=1''] 1000 128000 new_proclist =
      Inr (tas_threads\<lparr>procsched := []\<rparr>)"
    by (simp add: numeral_2_eq_2 new_thread_def args regnames_def py_nth_def tas_threads_def addproc_def new_proclist_def)
  then show ?thesis
    using load by (simp add: boot_def args zassert_def finalize_def restore_def getcurr_def py_nth_def
        tas_threads_def upto_rec1 tas_loaded_def init_cpu_def)
qed

theorem test_and_set_correct_witness:
  "\<exists>m. boot tas_source 2 3 ''bx=1'' [] 1000 128 = Inr (tas_threads, tas_loaded) \<and>
     run 60 3 False [] tas_loaded tas_threads = Some (Inr (Finished m)) \<and> memory (core m) 104 = Some (Num 2)"
proof -
  have "case run 60 3 False [] tas_loaded tas_threads of Some (Inr (Finished m)) \<Rightarrow> True | _ \<Rightarrow> False"
    by code_simp
  then obtain m where m: "run 60 3 False [] tas_loaded tas_threads = Some (Inr (Finished m))"
    by (auto split: option.splits sum.splits progress.splits)
  have "\<forall>i < 2. regs (plist tas_threads ! i) REG_BX = Num ((\<lambda>_. 1) i) \<and> 1 \<le> (\<lambda>_. 1 :: int) i \<and>
      regs (plist tas_threads ! i) REG_ZERO = Num 0" by (auto simp: tas_threads_def less_2_cases_iff)
  from test_and_set_correct [OF _ this m, of "''bx=1''" "[]"] m show ?thesis by (simp add: tas_boot)
qed

section \<open>A lock that does not work\<close>





end
