(* ===== verification/X86Types.thy ===== *)
theory X86Types
  imports X86
begin

text \<open>
  Well-typed states of the x86 machine. A memory cell may hold a number or an instruction, and nothing in the code keeps the two
  apart. A state is well-typed for a set of data addresses when the registers, the program counter and the cells at these addresses
  hold numbers. An instruction that accesses only such addresses raises no exception and keeps the state well-typed, and it leaves
  the program in memory alone.
\<close>

definition is_num :: "cell \<Rightarrow> bool" where
  "is_num v = (case v of Num n \<Rightarrow> True | Code i \<Rightarrow> False)"

definition the_num :: "cell \<Rightarrow> int" where
  "the_num v = (case v of Num n \<Rightarrow> n | Code i \<Rightarrow> 0)"

definition typed :: "int set \<Rightarrow> cpu \<Rightarrow> bool" where
  "typed D c \<longleftrightarrow> is_num (PC c) \<and> (\<forall>r. is_num (registers c r)) \<and> (\<forall>a \<in> D. \<exists>n. memory c a = Some (Num n))"

definition operand :: "int \<Rightarrow> reg \<Rightarrow> reg \<Rightarrow> int \<Rightarrow> cpu \<Rightarrow> int" where
  "operand v r q k c = v + the_num (registers c r) + k * the_num (registers c q)"

text \<open>The data addresses that an instruction reads or writes.\<close>

fun accesses :: "instr \<Rightarrow> cpu \<Rightarrow> int set" where
  "accesses (mdump text) c = (case py_int text of Inl e \<Rightarrow> {} | Inr a \<Rightarrow> {a})"
| "accesses (move_i_to_m n v r q k) c = {operand v r q k c}"
| "accesses (move_m_to_r v r q k d) c = {operand v r q k c}"
| "accesses (move_r_to_m s v r q k) c = {operand v r q k c}"
| "accesses (atomic_exchange s v r q) c = {operand v r q 1 c}"
| "accesses (fetchadd s v r q) c = {operand v r q 1 c}"
| "accesses (call t) c = {the_num (registers c REG_SP) - 4}"
| "accesses (push_r r) c = {the_num (registers c REG_SP) - 4}"
| "accesses (push_m v r q k) c = {the_num (registers c REG_SP) - 4}"
| "accesses ret c = {the_num (registers c REG_SP)}"
| "accesses (pop_r d) c = {the_num (registers c REG_SP)}"
| "accesses i c = {}"

text \<open>An address to dump is a number; the code evaluates any other text as a Python name.\<close>

definition dump_ok :: "instr \<Rightarrow> bool" where
  "dump_ok i = (case i of mdump text \<Rightarrow> (case py_int text of Inl e \<Rightarrow> False | Inr a \<Rightarrow> True) | _ \<Rightarrow> True)"

lemma is_num_simps [simp]: "is_num (Num n)" "the_num (Num n) = n" "is_num v \<Longrightarrow> get_num v = Inr (the_num v)" "is_num v \<Longrightarrow> Num (the_num v) = v"
  by (auto simp: is_num_def the_num_def split: cell.splits)

lemma typed_sel: "typed D c \<Longrightarrow> is_num (PC c)" "typed D c \<Longrightarrow> is_num (registers c r)" "typed D c \<Longrightarrow> a \<in> D \<Longrightarrow> \<exists>n. memory c a = Some (Num n)"
  by (auto simp: typed_def)

lemma typed_upd:
  "typed D c \<Longrightarrow> is_num v \<Longrightarrow> typed D (set_reg r v c)"
  "typed D c \<Longrightarrow> is_num v \<Longrightarrow> typed D (write_mem a v c)"
  "typed D c \<Longrightarrow> is_num v \<Longrightarrow> typed D (c\<lparr>PC := v\<rparr>)"
  "typed D c \<Longrightarrow> typed D (test_all s d c)"
  "typed D c \<Longrightarrow> typed D (jump_if k t c)"
  by (auto simp: typed_def set_reg_def write_mem_def test_all_def jump_if_def is_num_def split: cell.splits)

lemma typed_address: "typed D c \<Longrightarrow> address v r q k c = Inr (operand v r q k c)"
  by (simp add: address_def operand_def typed_sel(2))

lemma typed_read:
  assumes "typed D c" and "a \<in> D"
  obtains n where "read_mem (Num a) c = Inr (Num n)"
  using typed_sel(3) [OF assms] by (auto simp: read_mem_def py_lookup_def)

text \<open>What a step may change: nothing outside of the data addresses, and no text.\<close>

definition same_program :: "int set \<Rightarrow> cpu \<Rightarrow> cpu \<Rightarrow> bool" where
  "same_program D c d \<longleftrightarrow> (\<forall>a. a \<notin> D \<longrightarrow> memory d a = memory c a) \<and> pmemory d = pmemory c"

lemma same_program_upd [simp]:
  "same_program D c c"
  "same_program D c (set_reg r v d) = same_program D c d"
  "a \<in> D \<Longrightarrow> same_program D c d \<Longrightarrow> same_program D c (write_mem a v d)"
  "same_program D c (d\<lparr>PC := v\<rparr>) = same_program D c d"
  "same_program D c (test_all s e d) = same_program D c d"
  "same_program D c (jump_if k t d) = same_program D c d"
  by (auto simp: same_program_def set_reg_def write_mem_def test_all_def jump_if_def)

definition cpu_ok :: "int set \<Rightarrow> cpu \<Rightarrow> cpu res \<Rightarrow> bool" where
  "cpu_ok D c m \<longleftrightarrow> (\<exists>d. m = Inr d \<and> typed D d \<and> same_program D c d)"

definition step_ok :: "int set \<Rightarrow> cpu \<Rightarrow> (outcome \<times> cpu) res \<Rightarrow> bool" where
  "step_ok D c m \<longleftrightarrow> (\<exists>rc d. m = Inr (rc, d) \<and> typed D d \<and> same_program D c d)"

lemma ok_simps [simp]:
  "cpu_ok D c (Inr d) \<longleftrightarrow> typed D d \<and> same_program D c d"
  "step_ok D c (Inr (rc, d)) \<longleftrightarrow> typed D d \<and> same_program D c d"
  "step_ok D c (cont m) \<longleftrightarrow> cpu_ok D c m"
  by (auto simp: cpu_ok_def step_ok_def cont_def)

lemma arith_ok: "typed D c \<Longrightarrow> is_num v \<Longrightarrow> cpu_ok D c (arith f v d c)"
  by (simp add: arith_def typed_sel(2) typed_upd(1))

lemma bump_ok: "typed D d \<Longrightarrow> same_program D c d \<Longrightarrow> cpu_ok D c (bump_sp d)"
  by (simp add: bump_sp_def typed_sel(2) typed_upd(1))

lemma push_ok:
  assumes "typed D c" and "the_num (registers c REG_SP) - 4 \<in> D" and "\<And>d. typed D d \<Longrightarrow> \<exists>x. v d = Inr x \<and> is_num x"
  shows "cpu_ok D c (push_cell v c)"
proof -
  let ?d = "set_reg REG_SP (Num (the_num (registers c REG_SP) - 4)) c"
  have d: "typed D ?d" using assms(1) by (simp add: typed_upd(1))
  obtain x where "v ?d = Inr x" "is_num x" using assms(3) [OF d] by blast
  then show ?thesis using assms(1,2) d by (simp add: push_cell_def typed_sel(2) typed_upd(2))
qed

lemma read_ok:
  assumes "typed D c" and "a \<in> D" and "\<And>n. cpu_ok D c (k (Num n))"
  shows "cpu_ok D c (rbind (read_mem (Num a) c) k)"
  using typed_read [OF assms(1,2)] assms(3) by (metis rbind.simps(2))

lemma read_sp_ok:
  assumes "typed D c" and "the_num (registers c REG_SP) \<in> D" and "\<And>n. cpu_ok D c (k (Num n))"
  shows "cpu_ok D c (rbind (read_mem (registers c REG_SP) c) k)"
  using read_ok [where k = k, OF assms] assms(1) by (simp add: typed_sel(2))

lemmas ok_rules = typed_sel(1,2) typed_upd typed_address bump_ok arith_ok

lemma exec_ok:
  assumes ty: "typed D c" and "accesses i c \<subseteq> D" and "dump_ok i"
  shows "step_ok D c (exec i c)"
proof (cases i)
  case (mdump t)
  then obtain a where a: "py_int t = Inr a" "a \<in> D" using assms(2,3) by (auto simp: dump_ok_def split: sum.split_asm)
  obtain n where "read_mem (Num a) c = Inr (Num n)" using typed_read [OF ty a(2)] .
  then show ?thesis using ty mdump a(1) by simp
next
  case (move_m_to_r v r q k d)
  then show ?thesis using assms by (simp add: ok_rules del: rbind_Inr_iff) (rule read_ok, simp_all add: ok_rules)
next
  case (atomic_exchange s v r q)
  then show ?thesis using assms by (simp add: ok_rules del: rbind_Inr_iff) (rule read_ok, simp_all add: ok_rules)
next
  case (fetchadd s v r q)
  then show ?thesis using assms by (simp add: ok_rules del: rbind_Inr_iff) (rule read_ok, simp_all add: ok_rules)
next
  case (call t)
  have "cpu_ok D c (push_cell (\<lambda>c1. Inr (PC c1)) c)" by (rule push_ok) (use assms call in \<open>auto simp: ok_rules\<close>)
  then show ?thesis using call by (auto simp: cpu_ok_def ok_rules)
next
  case (push_r r)
  then show ?thesis using push_ok [OF ty, of "\<lambda>c1. Inr (registers c1 r)"] assms by (simp add: ok_rules)
next
  case (push_m v r q k)
  then show ?thesis using push_ok [OF ty, of "\<lambda>c1. rbind (address v r q k c1) (\<lambda>a. Inr (Num a))"] assms by (simp add: ok_rules)
next
  case ret
  then show ?thesis using assms by simp (rule read_sp_ok, simp_all add: ok_rules)
next
  case (pop_r d)
  then show ?thesis using assms by simp (rule read_sp_ok, simp_all add: ok_rules)
qed (use assms in \<open>simp_all add: ok_rules\<close>)

text \<open>
  C29: Type soundness of the machine. In a well-typed state whose program counter is at an instruction that accesses data addresses
  only, the fetch and execution raises no exception, the state is well-typed again, and the program and its texts are unchanged.
\<close>

theorem well_typed_step:
  assumes "typed D c" and "PC c = Num a" and "memory c a = Some (Code i)" and "pmemory c a = Some s"
    and "accesses i (c\<lparr>PC := Num (a + 1)\<rparr>) \<subseteq> D" and "dump_ok i"
  shows "\<exists>rc d. fetch_exec c = Inr (rc, d) \<and> typed D d \<and> (\<forall>x. x \<notin> D \<longrightarrow> memory d x = memory c x) \<and> pmemory d = pmemory c"
proof -
  have "typed D (c\<lparr>PC := Num (a + 1)\<rparr>)" using assms(1) by (simp add: typed_upd(3))
  from exec_ok [OF this assms(5,6)] obtain rc d where "exec i (c\<lparr>PC := Num (a + 1)\<rparr>) = Inr (rc, d)" "typed D d" "same_program D c d"
    by (auto simp: step_ok_def same_program_def)
  then show ?thesis using assms(2-4) by (simp add: fetch_exec_def read_mem_def py_lookup_def same_program_def)
qed

definition push_demo :: cpu where
  "push_demo = (init_cpu 1)\<lparr>PC := Num 1000, registers := (\<lambda>_. Num 0)(REG_SP := Num 512, REG_AX := Num 7),
     memory := (memory (init_cpu 1))(1000 \<mapsto> Code (push_r REG_AX)), pmemory := [1000 \<mapsto> ''push %ax'']\<rparr>"

theorem well_typed_step_witness:
  "\<exists>rc d. fetch_exec push_demo = Inr (rc, d) \<and> typed {0..<1000} d \<and> (\<forall>x. x \<notin> {0..<1000} \<longrightarrow> memory d x = memory push_demo x) \<and>
     pmemory d = pmemory push_demo"
  by (rule well_typed_step [where a = 1000 and i = "push_r REG_AX" and s = "''push %ax''"])
    (auto simp: push_demo_def init_cpu_def typed_def is_num_def dump_ok_def)

end
