(* ===== verification/OldX86.thy ===== *)
theory OldX86
  imports X86Threads
begin

text \<open>
  The machine of \<open>src/Sem3/BSYS/26_Threads/x86.py\<close>, the earlier version of the simulator that \<open>X86\<close> models: two registers and some
  instructions less, no scale in a memory operand, no manual schedule, and a list of threads that is searched with two loops. It is
  shown to run exactly as the later one does, on programs that do not pop a register.
\<close>

section \<open>State\<close>

datatype old_reg = OLD_ZERO | OLD_AX | OLD_BX | OLD_CX | OLD_DX | OLD_SP | OLD_BP

datatype old_instr =
    old_halt | old_iyield | old_nop | old_rdump | old_mdump string
  | old_move_i_to_r int old_reg | old_move_i_to_m int int old_reg old_reg | old_move_m_to_r int old_reg old_reg old_reg
  | old_move_r_to_m old_reg int old_reg old_reg | old_move_r_to_r old_reg old_reg
  | old_add_i_to_r int old_reg | old_add_r_to_r old_reg old_reg | old_sub_i_to_r int old_reg | old_sub_r_to_r old_reg old_reg
  | old_atomic_exchange old_reg int old_reg old_reg | old_fetchadd old_reg int old_reg old_reg
  | old_test_i_r int old_reg | old_test_r_i old_reg int | old_test_r_r old_reg old_reg
  | old_jump int | old_jump_notequal int | old_jump_equal int | old_jump_lessthan int | old_jump_lessthanorequal int
  | old_jump_greaterthan int | old_jump_greaterthanorequal int
  | old_call int | old_ret | old_push_r old_reg | old_push_m int old_reg old_reg | old_pop | old_pop_r old_reg

datatype old_cell = OldNum int | OldCode old_instr

record old_cpu =
  old_PC :: old_cell
  old_registers :: "old_reg \<Rightarrow> old_cell"
  old_conditions :: "cond \<Rightarrow> bool"
  old_memory :: "int \<rightharpoonup> old_cell"
  old_pmemory :: "int \<rightharpoonup> string"

definition old_init :: "int \<Rightarrow> old_cpu" where
  "old_init memsize =
     \<lparr>old_PC = OldNum 0, old_registers = (\<lambda>_. OldNum 0), old_conditions = (\<lambda>_. False),
      old_memory = (\<lambda>a. if 0 \<le> a \<and> a < memsize * 1024 then Some (OldNum 0) else None), old_pmemory = Map.empty\<rparr>"

fun old_num :: "old_cell \<Rightarrow> int res" where
  "old_num (OldNum n) = Inr n"
| "old_num (OldCode i) = Inl TypeError"

definition old_set_reg :: "old_reg \<Rightarrow> old_cell \<Rightarrow> old_cpu \<Rightarrow> old_cpu" where
  "old_set_reg r v c = c\<lparr>old_registers := (old_registers c)(r := v)\<rparr>"

definition old_read :: "old_cell \<Rightarrow> old_cpu \<Rightarrow> old_cell res" where
  "old_read a c = (case a of OldNum n \<Rightarrow> py_lookup (old_memory c) n | OldCode i \<Rightarrow> Inl KeyError)"

definition old_write :: "int \<Rightarrow> old_cell \<Rightarrow> old_cpu \<Rightarrow> old_cpu" where
  "old_write a v c = c\<lparr>old_memory := (old_memory c)(a \<mapsto> v)\<rparr>"

section \<open>Instructions\<close>

definition old_address :: "int \<Rightarrow> old_reg \<Rightarrow> old_reg \<Rightarrow> old_cpu \<Rightarrow> int res" where
  "old_address value r1 r2 c =
     rbind (old_num (old_registers c r1)) (\<lambda>a. rbind (old_num (old_registers c r2)) (\<lambda>b. Inr (value + a + b)))"

definition old_test_all :: "int \<Rightarrow> int \<Rightarrow> old_cpu \<Rightarrow> old_cpu" where
  "old_test_all src dst c =
     c\<lparr>old_conditions := (\<lambda>k. case k of COND_GT \<Rightarrow> dst > src | COND_GTE \<Rightarrow> dst \<ge> src | COND_LT \<Rightarrow> dst < src
        | COND_LTE \<Rightarrow> dst \<le> src | COND_EQ \<Rightarrow> dst = src | COND_NEQ \<Rightarrow> dst \<noteq> src)\<rparr>"

definition old_arith :: "(int \<Rightarrow> int \<Rightarrow> int) \<Rightarrow> old_cell \<Rightarrow> old_reg \<Rightarrow> old_cpu \<Rightarrow> old_cpu res" where
  "old_arith f src dst c =
     rbind (old_num (old_registers c dst)) (\<lambda>d. rbind (old_num src) (\<lambda>s. Inr (old_set_reg dst (OldNum (f d s)) c)))"

definition old_jump_if :: "cond \<Rightarrow> int \<Rightarrow> old_cpu \<Rightarrow> old_cpu" where
  "old_jump_if k targ c = (if old_conditions c k then c\<lparr>old_PC := OldNum targ\<rparr> else c)"

definition old_push :: "(old_cpu \<Rightarrow> old_cell res) \<Rightarrow> old_cpu \<Rightarrow> old_cpu res" where
  "old_push v c =
     rbind (old_num (old_registers c OLD_SP)) (\<lambda>sp.
       let c1 = old_set_reg OLD_SP (OldNum (sp - 4)) c in rbind (v c1) (\<lambda>x. Inr (old_write (sp - 4) x c1)))"

definition old_bump :: "old_cpu \<Rightarrow> old_cpu res" where
  "old_bump c = rbind (old_num (old_registers c OLD_SP)) (\<lambda>sp. Inr (old_set_reg OLD_SP (OldNum (sp + 4)) c))"

definition old_cont :: "old_cpu res \<Rightarrow> (outcome \<times> old_cpu) res" where
  "old_cont m = rbind m (\<lambda>c. Inr (Continue, c))"

fun old_exec :: "old_instr \<Rightarrow> old_cpu \<Rightarrow> (outcome \<times> old_cpu) res" where
  "old_exec old_halt c = Inr (Halted, c)"
| "old_exec old_iyield c = Inr (Yielded, c)"
| "old_exec old_nop c = Inr (Continue, c)"
| "old_exec old_rdump c = Inr (Continue, c)"
| "old_exec (old_mdump text) c =
     (case py_int text of Inl e \<Rightarrow> Inl NameError | Inr a \<Rightarrow> rbind (old_read (OldNum a) c) (\<lambda>v. Inr (Continue, c)))"
| "old_exec (old_move_i_to_r src dst) c = Inr (Continue, old_set_reg dst (OldNum src) c)"
| "old_exec (old_move_i_to_m src value r1 r2) c =
     old_cont (rbind (old_address value r1 r2 c) (\<lambda>a. Inr (old_write a (OldNum src) c)))"
| "old_exec (old_move_m_to_r value r1 r2 dst) c =
     old_cont (rbind (old_address value r1 r2 c) (\<lambda>a. rbind (old_read (OldNum a) c) (\<lambda>v. Inr (old_set_reg dst v c))))"
| "old_exec (old_move_r_to_m src value r1 r2) c =
     old_cont (rbind (old_address value r1 r2 c) (\<lambda>a. Inr (old_write a (old_registers c src) c)))"
| "old_exec (old_move_r_to_r src dst) c = Inr (Continue, old_set_reg dst (old_registers c src) c)"
| "old_exec (old_add_i_to_r src dst) c = old_cont (old_arith (+) (OldNum src) dst c)"
| "old_exec (old_add_r_to_r src dst) c = old_cont (old_arith (+) (old_registers c src) dst c)"
| "old_exec (old_sub_i_to_r src dst) c = old_cont (old_arith (-) (OldNum src) dst c)"
| "old_exec (old_sub_r_to_r src dst) c = old_cont (old_arith (-) (old_registers c src) dst c)"
| "old_exec (old_atomic_exchange src value r1 r2) c =
     old_cont (rbind (old_address value r1 r2 c) (\<lambda>a.
               rbind (old_read (OldNum a) c) (\<lambda>v. Inr (old_set_reg src v (old_write a (old_registers c src) c)))))"
| "old_exec (old_fetchadd src value r1 r2) c =
     old_cont (rbind (old_address value r1 r2 c) (\<lambda>a.
               rbind (old_read (OldNum a) c) (\<lambda>v.
               rbind (old_num v) (\<lambda>m.
               rbind (old_num (old_registers c src)) (\<lambda>n. Inr (old_set_reg src v (old_write a (OldNum (m + n)) c)))))))"
| "old_exec (old_test_i_r src dst) c = old_cont (rbind (old_num (old_registers c dst)) (\<lambda>d. Inr (old_test_all src d c)))"
| "old_exec (old_test_r_i src dst) c = old_cont (rbind (old_num (old_registers c src)) (\<lambda>s. Inr (old_test_all s dst c)))"
| "old_exec (old_test_r_r src dst) c =
     old_cont (rbind (old_num (old_registers c src)) (\<lambda>s. rbind (old_num (old_registers c dst)) (\<lambda>d. Inr (old_test_all s d c))))"
| "old_exec (old_jump targ) c = Inr (Continue, c\<lparr>old_PC := OldNum targ\<rparr>)"
| "old_exec (old_jump_notequal targ) c = Inr (Continue, old_jump_if COND_NEQ targ c)"
| "old_exec (old_jump_equal targ) c = Inr (Continue, old_jump_if COND_EQ targ c)"
| "old_exec (old_jump_lessthan targ) c = Inr (Continue, old_jump_if COND_LT targ c)"
| "old_exec (old_jump_lessthanorequal targ) c = Inr (Continue, old_jump_if COND_LTE targ c)"
| "old_exec (old_jump_greaterthan targ) c = Inr (Continue, old_jump_if COND_GT targ c)"
| "old_exec (old_jump_greaterthanorequal targ) c = Inr (Continue, old_jump_if COND_GTE targ c)"
| "old_exec (old_call targ) c = old_cont (rbind (old_push (\<lambda>c1. Inr (old_PC c1)) c) (\<lambda>c2. Inr (c2\<lparr>old_PC := OldNum targ\<rparr>)))"
| "old_exec old_ret c = old_cont (rbind (old_read (old_registers c OLD_SP) c) (\<lambda>v. old_bump (c\<lparr>old_PC := v\<rparr>)))"
| "old_exec (old_push_r r) c = old_cont (old_push (\<lambda>c1. Inr (old_registers c1 r)) c)"
| "old_exec (old_push_m value r1 r2) c = old_cont (old_push (\<lambda>c1. rbind (old_address value r1 r2 c1) (\<lambda>a. Inr (OldNum a))) c)"
| "old_exec old_pop c = old_cont (old_bump c)"
| "old_exec (old_pop_r dst) c = old_cont (old_bump (old_set_reg dst (old_registers c OLD_SP) c))"

section \<open>Threads\<close>

record old_process =
  old_tid :: nat
  old_pc :: old_cell
  old_regs :: "old_reg \<Rightarrow> old_cell"
  old_cc :: "cond \<Rightarrow> bool"
  old_done :: bool
  old_stack :: int

record old_proclist =
  old_plist :: "old_process list"
  old_curr :: int
  old_active :: int

definition old_new_proclist :: old_proclist where
  "old_new_proclist = \<lparr>old_plist = [], old_curr = 0, old_active = 0\<rparr>"

definition old_add :: "old_process \<Rightarrow> old_proclist \<Rightarrow> old_proclist" where
  "old_add p ps = ps\<lparr>old_active := old_active ps + 1, old_plist := old_plist ps @ [p]\<rparr>"

definition old_numdone :: "old_proclist \<Rightarrow> int" where
  "old_numdone ps = int (length (old_plist ps)) - old_active ps"

definition old_getnum :: "old_proclist \<Rightarrow> int" where
  "old_getnum ps = int (length (old_plist ps))"

definition old_getcurr :: "old_proclist \<Rightarrow> old_process res" where
  "old_getcurr ps = py_nth (old_plist ps) (old_curr ps)"

definition old_putcurr :: "old_process \<Rightarrow> old_proclist \<Rightarrow> old_proclist res" where
  "old_putcurr q ps = rbind (py_set (old_plist ps) (old_curr ps) q) (\<lambda>l. Inr (ps\<lparr>old_plist := l\<rparr>))"

definition old_proc_done :: "old_proclist \<Rightarrow> old_proclist res" where
  "old_proc_done ps = rbind (old_getcurr ps) (\<lambda>p.
     rbind (old_putcurr (p\<lparr>old_done := True\<rparr>) ps) (\<lambda>qs. Inr (qs\<lparr>old_active := old_active qs - 1\<rparr>)))"

definition old_save :: "old_cpu \<Rightarrow> old_proclist \<Rightarrow> old_proclist res" where
  "old_save c ps = rbind (old_getcurr ps) (\<lambda>p.
     old_putcurr (p\<lparr>old_pc := old_PC c, old_cc := old_conditions c, old_regs := old_registers c\<rparr>) ps)"

definition old_restore :: "old_proclist \<Rightarrow> old_cpu \<Rightarrow> old_cpu res" where
  "old_restore ps c = rbind (old_getcurr ps) (\<lambda>p.
     Inr (c\<lparr>old_PC := old_pc p, old_conditions := old_cc p, old_registers := old_regs p\<rparr>))"

text \<open>\<open>next\<close>: the two loops, over the threads behind the current one and then over those up to it.\<close>

fun old_find :: "int list \<Rightarrow> old_proclist \<Rightarrow> old_proclist option res" where
  "old_find [] ps = Inr None"
| "old_find (i # is) ps =
     rbind (py_nth (old_plist ps) i) (\<lambda>p. if \<not> old_done p then Inr (Some (ps\<lparr>old_curr := i\<rparr>)) else old_find is ps)"

definition old_next :: "old_proclist \<Rightarrow> old_proclist res" where
  "old_next ps =
     rbind (old_find [old_curr ps + 1..int (length (old_plist ps)) - 1] ps) (\<lambda>r. case r of
       Some qs \<Rightarrow> Inr qs
     | None \<Rightarrow> rbind (old_find [0..old_curr ps] ps) (\<lambda>s. case s of Some qs \<Rightarrow> Inr qs | None \<Rightarrow> Inr ps))"

section \<open>The interpreter loop\<close>

record old_machine =
  old_core :: old_cpu
  old_procs :: old_proclist
  old_interrupt :: int
  old_icount :: int
  old_draws :: draws

definition old_fetch_exec :: "old_cpu \<Rightarrow> (outcome \<times> old_cpu) res" where
  "old_fetch_exec c =
     rbind (old_read (old_PC c) c) (\<lambda>v.
     rbind (old_num (old_PC c)) (\<lambda>a.
       case v of
         OldNum n \<Rightarrow> Inl TypeError
       | OldCode i \<Rightarrow> rbind (old_exec i (c\<lparr>old_PC := OldNum (a + 1)\<rparr>)) (\<lambda>(rc, c').
                      rbind (py_lookup (old_pmemory c') a) (\<lambda>_. Inr (rc, c')))))"

definition old_next_thread :: "old_machine \<Rightarrow> old_machine res" where
  "old_next_thread m = rbind (old_next (old_procs m)) (\<lambda>ps.
     rbind (old_restore ps (old_core m)) (\<lambda>c. Inr (m\<lparr>old_procs := ps, old_core := c\<rparr>)))"

definition old_tick :: "int \<Rightarrow> bool \<Rightarrow> outcome \<Rightarrow> old_machine \<Rightarrow> old_machine progress res" where
  "old_tick intfreq intrand rc m =
     (let i = old_interrupt m - 1 in
      if i = 0 \<or> rc = Yielded then
        rbind (setint intfreq intrand (old_draws m)) (\<lambda>(j, rs).
        rbind (old_save (old_core m) (old_procs m)) (\<lambda>ps.
        rbind (old_next_thread (m\<lparr>old_interrupt := j, old_draws := rs, old_procs := ps\<rparr>)) (\<lambda>m'. Inr (Running m'))))
      else Inr (Running (m\<lparr>old_interrupt := i\<rparr>)))"

definition old_round :: "int \<Rightarrow> bool \<Rightarrow> old_machine \<Rightarrow> old_machine progress res" where
  "old_round intfreq intrand m =
     rbind (old_getcurr (old_procs m)) (\<lambda>_.
     rbind (old_fetch_exec (old_core m)) (\<lambda>(rc, c).
       let m1 = m\<lparr>old_core := c, old_icount := old_icount m + 1\<rparr> in
       if rc = Halted then
         rbind (old_proc_done (old_procs m1)) (\<lambda>ps.
           if old_numdone ps = old_getnum ps then Inr (Finished (m1\<lparr>old_procs := ps\<rparr>))
           else rbind (old_next_thread (m1\<lparr>old_procs := ps\<rparr>)) (old_tick intfreq intrand rc))
       else old_tick intfreq intrand rc m1))"

fun old_rounds :: "nat \<Rightarrow> int \<Rightarrow> bool \<Rightarrow> old_machine \<Rightarrow> old_machine progress res" where
  "old_rounds 0 intfreq intrand m = Inr (Running m)"
| "old_rounds (Suc n) intfreq intrand m =
     rbind (old_round intfreq intrand m) (\<lambda>r. case r of Running m' \<Rightarrow> old_rounds n intfreq intrand m' | Finished m' \<Rightarrow> Inr r)"

definition old_run :: "nat \<Rightarrow> int \<Rightarrow> bool \<Rightarrow> draws \<Rightarrow> old_cpu \<Rightarrow> old_proclist \<Rightarrow> old_machine progress res" where
  "old_run n intfreq intrand rs c ps =
     rbind (setint intfreq intrand rs) (\<lambda>(i, rs').
       old_rounds n intfreq intrand \<lparr>old_core = c, old_procs = ps, old_interrupt = i, old_icount = 0, old_draws = rs'\<rparr>)"

section \<open>The later machine as a model of the earlier one\<close>

fun new_reg :: "old_reg \<Rightarrow> reg" where
  "new_reg OLD_ZERO = REG_ZERO"
| "new_reg OLD_AX = REG_AX"
| "new_reg OLD_BX = REG_BX"
| "new_reg OLD_CX = REG_CX"
| "new_reg OLD_DX = REG_DX"
| "new_reg OLD_SP = REG_SP"
| "new_reg OLD_BP = REG_BP"

fun new_instr :: "old_instr \<Rightarrow> instr" where
  "new_instr old_halt = halt"
| "new_instr old_iyield = iyield"
| "new_instr old_nop = nop"
| "new_instr old_rdump = rdump"
| "new_instr (old_mdump t) = mdump t"
| "new_instr (old_move_i_to_r n r) = move_i_to_r n (new_reg r)"
| "new_instr (old_move_i_to_m n v r q) = move_i_to_m n v (new_reg r) (new_reg q) 1"
| "new_instr (old_move_m_to_r v r q d) = move_m_to_r v (new_reg r) (new_reg q) 1 (new_reg d)"
| "new_instr (old_move_r_to_m s v r q) = move_r_to_m (new_reg s) v (new_reg r) (new_reg q) 1"
| "new_instr (old_move_r_to_r s d) = move_r_to_r (new_reg s) (new_reg d)"
| "new_instr (old_add_i_to_r n d) = add_i_to_r n (new_reg d)"
| "new_instr (old_add_r_to_r s d) = add_r_to_r (new_reg s) (new_reg d)"
| "new_instr (old_sub_i_to_r n d) = sub_i_to_r n (new_reg d)"
| "new_instr (old_sub_r_to_r s d) = sub_r_to_r (new_reg s) (new_reg d)"
| "new_instr (old_atomic_exchange s v r q) = atomic_exchange (new_reg s) v (new_reg r) (new_reg q)"
| "new_instr (old_fetchadd s v r q) = fetchadd (new_reg s) v (new_reg r) (new_reg q)"
| "new_instr (old_test_i_r n d) = test_i_r n (new_reg d)"
| "new_instr (old_test_r_i s n) = test_r_i (new_reg s) n"
| "new_instr (old_test_r_r s d) = test_r_r (new_reg s) (new_reg d)"
| "new_instr (old_jump t) = jump t"
| "new_instr (old_jump_notequal t) = jump_notequal t"
| "new_instr (old_jump_equal t) = jump_equal t"
| "new_instr (old_jump_lessthan t) = jump_lessthan t"
| "new_instr (old_jump_lessthanorequal t) = jump_lessthanorequal t"
| "new_instr (old_jump_greaterthan t) = jump_greaterthan t"
| "new_instr (old_jump_greaterthanorequal t) = jump_greaterthanorequal t"
| "new_instr (old_call t) = call t"
| "new_instr old_ret = ret"
| "new_instr (old_push_r r) = push_r (new_reg r)"
| "new_instr (old_push_m v r q) = push_m v (new_reg r) (new_reg q) 1"
| "new_instr old_pop = pop"
| "new_instr (old_pop_r d) = pop_r (new_reg d)"

fun new_cell :: "old_cell \<Rightarrow> cell" where
  "new_cell (OldNum n) = Num n"
| "new_cell (OldCode i) = Code (new_instr i)"

definition new_regs :: "(old_reg \<Rightarrow> old_cell) \<Rightarrow> reg \<Rightarrow> cell" where
  "new_regs f r = (case r of REG_ZERO \<Rightarrow> new_cell (f OLD_ZERO) | REG_AX \<Rightarrow> new_cell (f OLD_AX) | REG_BX \<Rightarrow> new_cell (f OLD_BX)
     | REG_CX \<Rightarrow> new_cell (f OLD_CX) | REG_DX \<Rightarrow> new_cell (f OLD_DX) | REG_EX \<Rightarrow> Num 0 | REG_FX \<Rightarrow> Num 0
     | REG_SP \<Rightarrow> new_cell (f OLD_SP) | REG_BP \<Rightarrow> new_cell (f OLD_BP))"

definition new_cpu :: "old_cpu \<Rightarrow> cpu" where
  "new_cpu c = \<lparr>PC = new_cell (old_PC c), registers = new_regs (old_registers c), conditions = old_conditions c,
     memory = (\<lambda>a. map_option new_cell (old_memory c a)), pmemory = old_pmemory c\<rparr>"

definition new_process :: "old_process \<Rightarrow> process" where
  "new_process p = \<lparr>tid = old_tid p, pc = new_cell (old_pc p), regs = new_regs (old_regs p), cc = old_cc p,
     finished = old_done p, stack = old_stack p\<rparr>"

definition new_procs :: "old_proclist \<Rightarrow> proclist" where
  "new_procs ps = \<lparr>plist = map new_process (old_plist ps), active = old_active ps, manual = False,
     procsched = [0..int (length (old_plist ps)) - 1], curr = old_curr ps\<rparr>"

definition new_machine :: "old_machine \<Rightarrow> machine" where
  "new_machine m = \<lparr>core = new_cpu (old_core m), procs = new_procs (old_procs m), interrupt = old_interrupt m,
     icount = old_icount m, intdraws = old_draws m\<rparr>"

lemma new_reg_inject [simp]: "new_reg r = new_reg q \<longleftrightarrow> r = q"
  by (cases r; cases q) simp_all

lemma new_regs_reg [simp]: "new_regs f (new_reg r) = new_cell (f r)" "new_regs f REG_SP = new_cell (f OLD_SP)"
  by (cases r) (simp_all add: new_regs_def)

lemma new_regs_upd: "new_regs (f(r := v)) = (new_regs f)(new_reg r := new_cell v)"
proof
  fix q
  show "new_regs (f(r := v)) q = ((new_regs f)(new_reg r := new_cell v)) q"
    by (cases q; cases r) (simp_all add: new_regs_def)
qed

lemma new_cpu_sel [simp]:
  "PC (new_cpu c) = new_cell (old_PC c)" "registers (new_cpu c) = new_regs (old_registers c)" "conditions (new_cpu c) = old_conditions c"
  "memory (new_cpu c) = (\<lambda>a. map_option new_cell (old_memory c a))" "pmemory (new_cpu c) = old_pmemory c"
  by (simp_all add: new_cpu_def)

lemma new_cpu_upd:
  "new_cpu (old_set_reg r v c) = set_reg (new_reg r) (new_cell v) (new_cpu c)"
  "new_cpu (old_write a v c) = write_mem a (new_cell v) (new_cpu c)"
  "new_cpu (c\<lparr>old_PC := v\<rparr>) = (new_cpu c)\<lparr>PC := new_cell v\<rparr>"
  "new_cpu (old_test_all s d c) = test_all s d (new_cpu c)"
  "new_cpu (old_jump_if k t c) = jump_if k t (new_cpu c)"
  by (simp_all add: new_cpu_def old_set_reg_def set_reg_def old_write_def write_mem_def old_test_all_def test_all_def old_jump_if_def
      jump_if_def new_regs_upd fun_eq_iff)

abbreviation new_res :: "(outcome \<times> old_cpu) res \<Rightarrow> (outcome \<times> cpu) res" where
  "new_res \<equiv> map_sum id (map_prod id new_cpu)"

lemma new_num [simp]: "get_num (new_cell v) = old_num v"
  by (cases v) simp_all

lemma new_address: "address value (new_reg r) (new_reg q) 1 (new_cpu c) = old_address value r q c"
  by (simp add: address_def old_address_def)

lemma new_read: "read_mem (new_cell v) (new_cpu c) = map_sum id new_cell (old_read v c)"
  by (cases v) (auto simp: read_mem_def old_read_def py_lookup_def split: option.splits)

lemma new_read_num: "read_mem (Num a) (new_cpu c) = map_sum id new_cell (old_read (OldNum a) c)"
  using new_read [of "OldNum a" c] by simp

lemma map_sum_bind: "rbind (map_sum id f m) g = rbind m (\<lambda>x. g (f x))"
  by (cases m) simp_all

lemma bind_map_sum: "map_sum id f (rbind m g) = rbind m (\<lambda>x. map_sum id f (g x))"
  by (cases m) simp_all

lemma new_arith: "arith f (new_cell s) (new_reg d) (new_cpu c) = map_sum id new_cpu (old_arith f s d c)"
  by (simp add: arith_def old_arith_def bind_map_sum new_cpu_upd del: rbind_Inr_iff)

lemma new_bump: "bump_sp (new_cpu c) = map_sum id new_cpu (old_bump c)"
  by (simp add: bump_sp_def old_bump_def bind_map_sum new_cpu_upd del: rbind_Inr_iff)

lemma new_push:
  assumes "\<And>d. v' (new_cpu d) = map_sum id new_cell (v d)"
  shows "push_cell v' (new_cpu c) = map_sum id new_cpu (old_push v c)"
proof -
  have "set_reg REG_SP (Num n) (new_cpu c) = new_cpu (old_set_reg OLD_SP (OldNum n) c)" for n by (simp add: new_cpu_upd)
  then show ?thesis unfolding push_cell_def old_push_def Let_def
    by (simp add: bind_map_sum assms map_sum_bind new_cpu_upd(2) del: rbind_Inr_iff)
qed

lemma new_cont: "cont (map_sum id new_cpu m) = new_res (old_cont m)"
  by (cases m) (simp_all add: cont_def old_cont_def)


lemmas new_simps = new_cpu_upd new_address new_read new_read_num bind_map_sum map_sum_bind

lemma old_exec_new:
  assumes "\<And>d. i \<noteq> old_pop_r d"
  shows "exec (new_instr i) (new_cpu c) = new_res (old_exec i c)"
proof (cases i)
  case (old_mdump t)
  then show ?thesis by (cases "py_int t") (simp_all add: new_simps del: rbind_Inr_iff)
next
  case (old_move_i_to_m n v r q)
  then show ?thesis by (simp add: new_cont [symmetric] new_simps del: rbind_Inr_iff)
next
  case (old_move_m_to_r v r q d)
  then show ?thesis by (simp add: new_cont [symmetric] new_simps del: rbind_Inr_iff)
next
  case (old_move_r_to_m s v r q)
  then show ?thesis by (simp add: new_cont [symmetric] new_simps del: rbind_Inr_iff)
next
  case (old_add_i_to_r n d)
  then show ?thesis using new_arith [of "(+)" "OldNum n" d c] by (simp add: new_cont [symmetric])
next
  case (old_add_r_to_r r d)
  then show ?thesis by (simp add: new_cont [symmetric] new_arith)
next
  case (old_sub_i_to_r n d)
  then show ?thesis using new_arith [of "(-)" "OldNum n" d c] by (simp add: new_cont [symmetric])
next
  case (old_sub_r_to_r r d)
  then show ?thesis by (simp add: new_cont [symmetric] new_arith)
next
  case (old_atomic_exchange s v r q)
  then show ?thesis by (simp add: new_cont [symmetric] new_simps del: rbind_Inr_iff)
next
  case (old_fetchadd s v r q)
  then show ?thesis by (simp add: new_cont [symmetric] new_simps del: rbind_Inr_iff)
next
  case (old_test_i_r n d)
  then show ?thesis by (simp add: new_cont [symmetric] new_simps del: rbind_Inr_iff)
next
  case (old_test_r_i r n)
  then show ?thesis by (simp add: new_cont [symmetric] new_simps del: rbind_Inr_iff)
next
  case (old_test_r_r r d)
  then show ?thesis by (simp add: new_cont [symmetric] new_simps del: rbind_Inr_iff)
next
  case (old_call t)
  have "push_cell (\<lambda>c1. Inr (PC c1)) (new_cpu c) = map_sum id new_cpu (old_push (\<lambda>c1. Inr (old_PC c1)) c)" by (rule new_push) simp
  then show ?thesis unfolding old_call by (simp add: new_cont [symmetric] new_simps del: rbind_Inr_iff)
next
  case old_ret
  have b: "bump_sp ((new_cpu c)\<lparr>PC := new_cell v\<rparr>) = map_sum id new_cpu (old_bump (c\<lparr>old_PC := v\<rparr>))" for v
    using new_bump [of "c\<lparr>old_PC := v\<rparr>"] by (simp add: new_cpu_upd)
  then show ?thesis unfolding old_ret by (simp add: new_cont [symmetric] new_simps del: rbind_Inr_iff)
next
  case (old_push_r r)
  have "push_cell (\<lambda>c1. Inr (registers c1 (new_reg r))) (new_cpu c) = map_sum id new_cpu (old_push (\<lambda>c1. Inr (old_registers c1 r)) c)"
    by (rule new_push) simp
  then show ?thesis unfolding old_push_r by (simp add: new_cont [symmetric])
next
  case (old_push_m v r q)
  have "push_cell (\<lambda>c1. rbind (address v (new_reg r) (new_reg q) 1 c1) (\<lambda>a. Inr (Num a))) (new_cpu c) =
      map_sum id new_cpu (old_push (\<lambda>c1. rbind (old_address v r q c1) (\<lambda>a. Inr (OldNum a))) c)"
    by (rule new_push) (simp add: new_simps del: rbind_Inr_iff)
  then show ?thesis unfolding old_push_m by (simp add: new_cont [symmetric])
next
  case old_pop
  then show ?thesis by (simp add: new_cont [symmetric] new_bump)
qed (use assms in \<open>simp_all add: new_cpu_upd\<close>)

section \<open>Programs that pop no register\<close>

definition plain :: "old_cell \<Rightarrow> bool" where
  "plain v \<longleftrightarrow> (\<forall>d. v \<noteq> OldCode (old_pop_r d))"

definition plain_cpu :: "old_cpu \<Rightarrow> bool" where
  "plain_cpu c \<longleftrightarrow> plain (old_PC c) \<and> (\<forall>r. plain (old_registers c r)) \<and> (\<forall>a v. old_memory c a = Some v \<longrightarrow> plain v)"

lemma plain_num [simp]: "plain (OldNum n)"
  by (simp add: plain_def)

lemma plain_upd:
  "plain_cpu c \<Longrightarrow> plain v \<Longrightarrow> plain_cpu (old_set_reg r v c)"
  "plain_cpu c \<Longrightarrow> plain v \<Longrightarrow> plain_cpu (old_write a v c)"
  "plain_cpu c \<Longrightarrow> plain v \<Longrightarrow> plain_cpu (c\<lparr>old_PC := v\<rparr>)"
  "plain_cpu c \<Longrightarrow> plain_cpu (old_test_all s d c)"
  "plain_cpu c \<Longrightarrow> plain_cpu (old_jump_if k t c)"
  by (auto simp: plain_cpu_def old_set_reg_def old_write_def old_test_all_def old_jump_if_def)

lemma plain_sel: "plain_cpu c \<Longrightarrow> plain (old_registers c r)" "plain_cpu c \<Longrightarrow> plain (old_PC c)"
  "plain_cpu c \<Longrightarrow> old_read v c = Inr w \<Longrightarrow> plain w"
  by (auto simp: plain_cpu_def old_read_def py_lookup_def split: old_cell.splits option.splits)

lemma plain_bump: "plain_cpu c \<Longrightarrow> old_bump c = Inr d \<Longrightarrow> plain_cpu d"
  by (auto simp: old_bump_def intro: plain_upd)

lemma plain_push:
  assumes "plain_cpu c" and "old_push v c = Inr d" and "\<And>e x. plain_cpu e \<Longrightarrow> v e = Inr x \<Longrightarrow> plain x"
  shows "plain_cpu d"
proof -
  obtain sp x where d: "v (old_set_reg OLD_SP (OldNum (sp - 4)) c) = Inr x" "d = old_write (sp - 4) x (old_set_reg OLD_SP (OldNum (sp - 4)) c)"
    using assms(2) by (auto simp: old_push_def Let_def)
  have e: "plain_cpu (old_set_reg OLD_SP (OldNum (sp - 4)) c)" by (rule plain_upd(1) [OF assms(1) plain_num])
  show ?thesis unfolding d(2) by (rule plain_upd(2) [OF e assms(3) [OF e d(1)]])
qed

lemma old_exec_plain:
  assumes "plain_cpu c" and "\<And>d. i \<noteq> old_pop_r d" and "old_exec i c = Inr (rc, c')"
  shows "plain_cpu c'"
  using assms
proof (cases i)
  case (old_mdump t)
  then show ?thesis using assms by (auto split: sum.splits)
next
  case (old_call t)
  then obtain d where "old_push (\<lambda>c1. Inr (old_PC c1)) c = Inr d" "c' = d\<lparr>old_PC := OldNum t\<rparr>" using assms(3) by (auto simp: old_cont_def)
  moreover from plain_push [OF assms(1) this(1)] have "plain_cpu d" using plain_sel(2) by auto
  ultimately show ?thesis using plain_upd(3) by simp
next
  case old_ret
  then obtain v where v: "old_read (old_registers c OLD_SP) c = Inr v" "old_bump (c\<lparr>old_PC := v\<rparr>) = Inr c'"
    using assms(3) by (auto simp: old_cont_def)
  show ?thesis by (rule plain_bump [OF plain_upd(3) [OF assms(1) plain_sel(3) [OF assms(1) v(1)]] v(2)])
next
  case (old_push_r r)
  then have "old_push (\<lambda>c1. Inr (old_registers c1 r)) c = Inr c'" using assms(3) by (auto simp: old_cont_def)
  from plain_push [OF assms(1) this] show ?thesis using plain_sel(1) by auto
next
  case (old_push_m v r q)
  then have "old_push (\<lambda>c1. rbind (old_address v r q c1) (\<lambda>a. Inr (OldNum a))) c = Inr c'" using assms(3) by (auto simp: old_cont_def)
  then show ?thesis by (rule plain_push [OF assms(1)]) auto
next
  case old_pop
  then show ?thesis using assms plain_bump by (auto simp: old_cont_def)
qed (use plain_sel(3) [OF assms(1)] in \<open>auto simp: old_cont_def old_arith_def intro!: plain_upd intro: plain_sel\<close>)

lemma old_fetch_exec_new:
  assumes "plain_cpu c"
  shows "fetch_exec (new_cpu c) = new_res (old_fetch_exec c)"
proof (cases "old_read (old_PC c) c")
  case (Inr v)
  then have r: "read_mem (new_cell (old_PC c)) (new_cpu c) = Inr (new_cell v)" by (simp add: new_read)
  show ?thesis
  proof (cases "old_num (old_PC c)")
    case a: (Inr a)
    show ?thesis
    proof (cases v)
      case (OldCode i)
      have "i \<noteq> old_pop_r d" for d using plain_sel(3) [OF assms Inr] OldCode by (auto simp: plain_def)
      from old_exec_new [OF this, of "c\<lparr>old_PC := OldNum (a + 1)\<rparr>"]
      have e: "exec (new_instr i) ((new_cpu c)\<lparr>PC := Num (a + 1)\<rparr>) = new_res (old_exec i (c\<lparr>old_PC := OldNum (a + 1)\<rparr>))"
        by (simp add: new_cpu_upd(3))
      show ?thesis unfolding fetch_exec_def old_fetch_exec_def
        by (simp add: r Inr a OldCode e del: rbind_Inr_iff) (cases "old_exec i (c\<lparr>old_PC := OldNum (a + 1)\<rparr>)", auto simp: bind_map_sum simp del: rbind_Inr_iff)
    qed (simp add: fetch_exec_def old_fetch_exec_def r Inr a del: rbind_Inr_iff)
  qed (simp add: fetch_exec_def old_fetch_exec_def r Inr del: rbind_Inr_iff)
qed (simp add: fetch_exec_def old_fetch_exec_def new_read del: rbind_Inr_iff)

lemma old_fetch_exec_plain:
  assumes "plain_cpu c" and "old_fetch_exec c = Inr (rc, c')"
  shows "plain_cpu c'"
proof -
  obtain v a where v: "old_read (old_PC c) c = Inr v" "old_num (old_PC c) = Inr a" using assms(2) by (auto simp: old_fetch_exec_def)
  then obtain i where i: "v = OldCode i" using assms(2) by (cases v) (auto simp: old_fetch_exec_def)
  then have e: "old_exec i (c\<lparr>old_PC := OldNum (a + 1)\<rparr>) = Inr (rc, c')" using assms(2) v by (auto simp: old_fetch_exec_def)
  have "i \<noteq> old_pop_r d" for d using plain_sel(3) [OF assms(1) v(1)] i by (auto simp: plain_def)
  from old_exec_plain [OF plain_upd(3) [OF assms(1) plain_num] this e] show ?thesis .
qed


section \<open>Threads\<close>

definition old_wf :: "old_proclist \<Rightarrow> bool" where
  "old_wf ps \<longleftrightarrow> 0 \<le> old_curr ps \<and> old_curr ps < int (length (old_plist ps))"

definition old_active_ok :: "old_proclist \<Rightarrow> bool" where
  "old_active_ok ps \<longleftrightarrow> old_active ps = int (length (filter (\<lambda>p. \<not> old_done p) (old_plist ps)))"

lemma new_procs_sel [simp]:
  "plist (new_procs ps) = map new_process (old_plist ps)" "active (new_procs ps) = old_active ps" "manual (new_procs ps) = False"
  "procsched (new_procs ps) = [0..int (length (old_plist ps)) - 1]" "curr (new_procs ps) = old_curr ps"
  by (simp_all add: new_procs_def)

lemma new_process_sel [simp]:
  "finished (new_process p) = old_done p" "pc (new_process p) = new_cell (old_pc p)" "regs (new_process p) = new_regs (old_regs p)"
  "cc (new_process p) = old_cc p"
  by (simp_all add: new_process_def)

lemma nth_upto0: "k < n \<Longrightarrow> [0..int n - 1] ! k = int k"
  by (simp add: nth_upto)

lemma old_wf_nat:
  assumes "old_wf ps"
  obtains k where "old_curr ps = int k" and "k < length (old_plist ps)"
  using assms nonneg_int_cases [of "old_curr ps"] by (auto simp: old_wf_def)

lemma new_getcurr:
  assumes "old_wf ps"
  shows "getcurr (new_procs ps) = map_sum id new_process (old_getcurr ps)"
proof -
  obtain k where k: "old_curr ps = int k" "k < length (old_plist ps)" using old_wf_nat [OF assms] .
  then have "py_nth [0..int (length (old_plist ps)) - 1] (int k) = Inr (int k)" using nth_upto0 [OF k(2)] by simp
  then show ?thesis using k by (simp add: getcurr_def old_getcurr_def del: rbind_Inr_iff)
qed

lemma new_putcurr:
  assumes "old_wf ps"
  shows "putcurr (new_process q) (new_procs ps) = map_sum id new_procs (old_putcurr q ps)"
proof -
  obtain k where k: "old_curr ps = int k" "k < length (old_plist ps)" using old_wf_nat [OF assms] .
  then have "py_nth [0..int (length (old_plist ps)) - 1] (int k) = Inr (int k)" using nth_upto0 [OF k(2)] by simp
  then show ?thesis using k by (simp add: putcurr_def old_putcurr_def new_procs_def map_update del: rbind_Inr_iff)
qed

lemma old_curr_ok:
  assumes "old_wf ps"
  obtains k where "k < length (old_plist ps)" and "old_curr ps = int k" and "old_getcurr ps = Inr (old_plist ps ! k)"
    and "\<And>q. old_putcurr q ps = Inr (ps\<lparr>old_plist := (old_plist ps)[k := q]\<rparr>)"
proof -
  obtain k where k: "old_curr ps = int k" "k < length (old_plist ps)" using old_wf_nat [OF assms] .
  then show ?thesis by (intro that [of k]) (simp_all add: old_getcurr_def old_putcurr_def)
qed

lemma new_save:
  assumes "old_wf ps"
  shows "save (new_cpu c) (new_procs ps) = map_sum id new_procs (old_save c ps)"
proof -
  obtain k where k: "old_getcurr ps = Inr (old_plist ps ! k)" using old_curr_ok [OF assms] by metis
  have "(new_process p)\<lparr>pc := new_cell (old_PC c), cc := old_conditions c, regs := new_regs (old_registers c)\<rparr> =
      new_process (p\<lparr>old_pc := old_PC c, old_cc := old_conditions c, old_regs := old_registers c\<rparr>)" for p
    by (simp add: new_process_def)
  then show ?thesis using k by (simp add: save_def old_save_def new_getcurr [OF assms] new_putcurr [OF assms] del: rbind_Inr_iff)
qed

lemma new_restore:
  assumes "old_wf ps"
  shows "restore (new_procs ps) (new_cpu c) = map_sum id new_cpu (old_restore ps c)"
proof -
  obtain k where k: "old_getcurr ps = Inr (old_plist ps ! k)" using old_curr_ok [OF assms] by metis
  then show ?thesis by (simp add: restore_def old_restore_def new_getcurr [OF assms] new_cpu_def del: rbind_Inr_iff)
qed

lemma new_proc_done:
  assumes "old_wf ps"
  shows "proc_done (new_procs ps) = map_sum id new_procs (old_proc_done ps)"
proof -
  obtain k where k: "old_getcurr ps = Inr (old_plist ps ! k)" "\<And>q. old_putcurr q ps = Inr (ps\<lparr>old_plist := (old_plist ps)[k := q]\<rparr>)"
    using old_curr_ok [OF assms] by metis
  have "(new_process p)\<lparr>finished := True\<rparr> = new_process (p\<lparr>old_done := True\<rparr>)" for p by (simp add: new_process_def)
  moreover have "new_procs (qs\<lparr>old_active := n\<rparr>) = (new_procs qs)\<lparr>active := n\<rparr>" for qs n by (simp add: new_procs_def)
  ultimately show ?thesis using k
    by (simp add: proc_done_def old_proc_done_def new_getcurr [OF assms] new_putcurr [OF assms] del: rbind_Inr_iff)
qed

text \<open>The two loops of the earlier \<open>next\<close> look at the threads in the order of the single loop of the later one.\<close>

lemma old_find_run:
  assumes "\<forall>i \<in> set is. 0 \<le> i \<and> i < int (length (old_plist ps))"
  shows "old_find is ps = Inr (map_option (\<lambda>i. ps\<lparr>old_curr := i\<rparr>) (List.find (\<lambda>i. \<not> old_done (old_plist ps ! nat i)) is))"
  using assms
proof (induction "is")
  case (Cons i js)
  then obtain k where "i = int k" "k < length (old_plist ps)" using nonneg_int_cases [of i] by auto
  then show ?case using Cons by simp
qed simp

lemma find_append: "List.find P (xs @ ys) = (case List.find P xs of Some x \<Rightarrow> Some x | None \<Rightarrow> List.find P ys)"
  by (induction xs) auto

lemma old_next_run:
  assumes "old_wf ps"
  shows "old_next ps = Inr (case List.find (\<lambda>i. \<not> old_done (old_plist ps ! nat i)) ([old_curr ps + 1..int (length (old_plist ps)) - 1] @ [0..old_curr ps])
    of Some i \<Rightarrow> ps\<lparr>old_curr := i\<rparr> | None \<Rightarrow> ps)"
proof -
  have "old_find [old_curr ps + 1..int (length (old_plist ps)) - 1] ps =
      Inr (map_option (\<lambda>i. ps\<lparr>old_curr := i\<rparr>) (List.find (\<lambda>i. \<not> old_done (old_plist ps ! nat i)) [old_curr ps + 1..int (length (old_plist ps)) - 1]))"
    by (rule old_find_run) (use assms in \<open>auto simp: old_wf_def\<close>)
  moreover have "old_find [0..old_curr ps] ps =
      Inr (map_option (\<lambda>i. ps\<lparr>old_curr := i\<rparr>) (List.find (\<lambda>i. \<not> old_done (old_plist ps ! nat i)) [0..old_curr ps]))"
    by (rule old_find_run) (use assms in \<open>auto simp: old_wf_def\<close>)
  ultimately show ?thesis by (auto simp: old_next_def find_append simp del: rbind_Inr_iff split: option.splits)
qed


definition turn_order :: "int \<Rightarrow> int \<Rightarrow> nat \<Rightarrow> int list" where
  "turn_order N c m = map (\<lambda>t. (c + 1 + int t) mod N) [0..<m]"

lemma turn_order_Suc: "turn_order N c (Suc m) = (c + 1) mod N # turn_order N ((c + 1) mod N) m"
proof -
  have "((c + 1) mod N + 1 + int t) mod N = (c + 1 + int (Suc t)) mod N" for t
  proof -
    have "((c + 1) mod N + (1 + int t)) mod N = (c + 1 + (1 + int t)) mod N" by (rule mod_add_left_eq)
    then show ?thesis by (simp add: add.assoc)
  qed
  then show ?thesis by (simp add: turn_order_def map_upt_Suc del: upt_Suc)
qed

lemma two_loops_order:
  assumes "0 \<le> c" and "c < int n"
  shows "[c + 1..int n - 1] @ [0..c] = turn_order (int n) c n"
proof (rule nth_equalityI)
  show "length ([c + 1..int n - 1] @ [0..c]) = length (turn_order (int n) c n)" using assms by (simp add: turn_order_def)
  fix k
  assume "k < length ([c + 1..int n - 1] @ [0..c])"
  then have k: "k < n" using assms by simp
  show "([c + 1..int n - 1] @ [0..c]) ! k = turn_order (int n) c n ! k"
  proof (cases "c + 1 + int k < int n")
    case True
    then have "k < nat (int n - c - 1)" by linarith
    then show ?thesis using True assms k by (simp add: nth_append nth_upto turn_order_def)
  next
    case False
    have "(c + 1 + int k) mod int n = (c + 1 + int k - int n) mod int n" by simp
    also have "\<dots> = c + 1 + int k - int n" by (rule mod_pos_pos_trivial) (use False assms k in linarith)+
    finally have m: "(c + 1 + int k) mod int n = c + 1 + int k - int n" .
    have "\<not> k < nat (int n - c - 1)" and "0 + int (k - nat (int n - c - 1)) = c + 1 + int k - int n" using False assms k by linarith+
    then show ?thesis using m assms k by (simp add: nth_append nth_upto turn_order_def)
  qed
qed

lemma succ_mod: "0 \<le> c \<Longrightarrow> c < N \<Longrightarrow> (c + 1) mod N = (if c + 1 = N then 0 else c + 1)" for c :: int
  by (cases "c + 1 = N") (auto intro: mod_pos_pos_trivial)

lemma new_next_run:
  assumes "0 \<le> old_curr ps" and "old_curr ps < int (length (old_plist ps))"
  shows "proc_next m (new_procs ps) =
    map_option (\<lambda>i. Inr (new_procs (ps\<lparr>old_curr := i\<rparr>)))
      (List.find (\<lambda>i. \<not> old_done (old_plist ps ! nat i)) (turn_order (int (length (old_plist ps))) (old_curr ps) m))"
  using assms
proof (induction m arbitrary: ps)
  case 0
  then show ?case by (simp add: turn_order_def)
next
  case (Suc m)
  let ?N = "int (length (old_plist ps))"
  define k where "k = (old_curr ps + 1) mod ?N"
  let ?qs = "ps\<lparr>old_curr := k\<rparr>"
  have N: "0 < ?N" using Suc.prems by linarith
  have k: "0 \<le> k" "k < ?N" unfolding k_def by (rule pos_mod_sign [OF N], rule pos_mod_bound [OF N])
  have kif: "k = (if old_curr ps + 1 = ?N then 0 else old_curr ps + 1)" unfolding k_def by (rule succ_mod [OF Suc.prems])
  have wf: "old_wf ?qs" using k by (simp add: old_wf_def)
  obtain j where j: "k = int j" using nonneg_int_cases [OF k(1)] .
  have "old_getcurr ?qs = Inr (old_plist ps ! nat k)" using k unfolding j by (simp add: old_getcurr_def)
  then have g: "getcurr (new_procs ?qs) = Inr (new_process (old_plist ps ! nat k))" using new_getcurr [OF wf] by simp
  have cur: "(new_procs ps)\<lparr>curr := k\<rparr> = new_procs ?qs" by (simp add: new_procs_def)
  have len: "int (length [0..?N - 1]) = ?N" using Suc.prems by simp
  have "proc_next (Suc m) (new_procs ps) =
      (case getcurr (new_procs ?qs) of Inl e \<Rightarrow> Some (Inl e) | Inr p \<Rightarrow> if \<not> finished p then Some (Inr (new_procs ?qs)) else proc_next m (new_procs ?qs))"
    unfolding proc_next.simps Let_def new_procs_sel len kif [symmetric] cur ..
  then show ?case using Suc.IH [of ?qs] k g by (simp add: turn_order_Suc k_def [symmetric])
qed

lemma new_next:
  assumes "old_wf ps" and "\<exists>p \<in> set (old_plist ps). \<not> old_done p"
  shows "proc_next (length (procsched (new_procs ps))) (new_procs ps) = Some (map_sum id new_procs (old_next ps))"
    and "\<exists>i. old_next ps = Inr (ps\<lparr>old_curr := i\<rparr>) \<and> old_wf (ps\<lparr>old_curr := i\<rparr>) \<and> \<not> old_done (old_plist ps ! nat i)"
proof -
  let ?N = "int (length (old_plist ps))" and ?P = "\<lambda>i. \<not> old_done (old_plist ps ! nat i)"
  let ?o = "[old_curr ps + 1..?N - 1] @ [0..old_curr ps]"
  have c: "0 \<le> old_curr ps" "old_curr ps < ?N" using assms(1) by (auto simp: old_wf_def)
  obtain j where j: "j < length (old_plist ps)" "\<not> old_done (old_plist ps ! j)" using assms(2) by (metis in_set_conv_nth)
  have "int j \<in> set ?o" using c j by auto
  moreover have "?P (int j)" using j(2) by simp
  ultimately have "List.find ?P ?o \<noteq> None" unfolding find_None_iff by blast
  then obtain i where i: "List.find ?P ?o = Some i" by blast
  then have io: "i \<in> set ?o" "?P i" unfolding find_Some_iff by (metis nth_mem)+
  then have "old_wf (ps\<lparr>old_curr := i\<rparr>)" using c by (auto simp: old_wf_def)
  moreover have n: "old_next ps = Inr (ps\<lparr>old_curr := i\<rparr>)" using old_next_run [OF assms(1)] i by simp
  ultimately show "\<exists>i. old_next ps = Inr (ps\<lparr>old_curr := i\<rparr>) \<and> old_wf (ps\<lparr>old_curr := i\<rparr>) \<and> ?P i" using io(2) by blast
  have "length [0..?N - 1] = length (old_plist ps)" by simp
  then show "proc_next (length (procsched (new_procs ps))) (new_procs ps) = Some (map_sum id new_procs (old_next ps))"
    using new_next_run [OF c, of "length (old_plist ps)"] i two_loops_order [OF c] by (simp add: n)
qed

section \<open>Rounds of the loop\<close>

text \<open>The invariant of the later machine holds of its image, and what is in the machine is plain.\<close>

definition plain_process :: "old_process \<Rightarrow> bool" where
  "plain_process p \<longleftrightarrow> plain (old_pc p) \<and> (\<forall>r. plain (old_regs p r))"

definition plain_machine :: "old_machine \<Rightarrow> bool" where
  "plain_machine m \<longleftrightarrow> plain_cpu (old_core m) \<and> (\<forall>p \<in> set (old_plist (old_procs m)). plain_process p)"

lemma new_machine_sel [simp]:
  "core (new_machine m) = new_cpu (old_core m)" "procs (new_machine m) = new_procs (old_procs m)"
  "interrupt (new_machine m) = old_interrupt m" "icount (new_machine m) = old_icount m" "intdraws (new_machine m) = old_draws m"
  by (simp_all add: new_machine_def)

lemma new_machine_upd:
  "new_machine (m\<lparr>old_core := c\<rparr>) = (new_machine m)\<lparr>core := new_cpu c\<rparr>"
  "new_machine (m\<lparr>old_procs := ps\<rparr>) = (new_machine m)\<lparr>procs := new_procs ps\<rparr>"
  "new_machine (m\<lparr>old_interrupt := i\<rparr>) = (new_machine m)\<lparr>interrupt := i\<rparr>"
  "new_machine (m\<lparr>old_icount := n\<rparr>) = (new_machine m)\<lparr>icount := n\<rparr>"
  "new_machine (m\<lparr>old_draws := d\<rparr>) = (new_machine m)\<lparr>intdraws := d\<rparr>"
  by (simp_all add: new_machine_def)

lemma new_wf: "sched_wf (new_procs ps) \<longleftrightarrow> old_wf ps"
  by (auto simp: sched_wf_def old_wf_def)

lemma new_cur_thread:
  assumes "old_wf ps"
  shows "cur_thread (new_procs ps) = nat (old_curr ps)"
proof -
  obtain k where "old_curr ps = int k" "k < length (old_plist ps)" using old_wf_nat [OF assms] .
  then show ?thesis using nth_upto0 [of k "length (old_plist ps)"] by (simp add: cur_thread_def)
qed

lemma new_ok:
  assumes "machine_ok (new_machine m)"
  shows "old_wf (old_procs m)" and "active_ok (new_procs (old_procs m))"
    and "\<not> old_done (old_plist (old_procs m) ! nat (old_curr (old_procs m)))"
    and "\<exists>p \<in> set (old_plist (old_procs m)). \<not> old_done p"
proof -
  show wf: "old_wf (old_procs m)" and "active_ok (new_procs (old_procs m))" using assms by (simp_all add: machine_ok_def new_wf)
  have l: "nat (old_curr (old_procs m)) < length (old_plist (old_procs m))" using wf by (auto simp: old_wf_def)
  then show nd: "\<not> old_done (old_plist (old_procs m) ! nat (old_curr (old_procs m)))"
    using assms by (simp add: machine_ok_def new_cur_thread [OF wf])
  from l nd show "\<exists>p \<in> set (old_plist (old_procs m)). \<not> old_done p" using nth_mem by blast
qed

lemma new_next_thread:
  assumes "old_wf (old_procs m)" and "\<exists>p \<in> set (old_plist (old_procs m)). \<not> old_done p"
  shows "next_thread (new_machine m) = Some (map_sum id new_machine (old_next_thread m))"
    and "plain_machine m \<Longrightarrow> old_next_thread m = Inr m' \<Longrightarrow> plain_machine m'"
proof -
  obtain i where i: "old_next (old_procs m) = Inr ((old_procs m)\<lparr>old_curr := i\<rparr>)" "old_wf ((old_procs m)\<lparr>old_curr := i\<rparr>)"
    using new_next(2) [OF assms] by blast
  let ?qs = "(old_procs m)\<lparr>old_curr := i\<rparr>"
  show "next_thread (new_machine m) = Some (map_sum id new_machine (old_next_thread m))"
    using new_next(1) [OF assms] new_restore [OF i(2), of "old_core m"] i(1)
    by (simp add: next_thread_def old_next_thread_def new_machine_upd bind_map_sum map_sum_bind del: rbind_Inr_iff)
  obtain k where k: "k < length (old_plist ?qs)" "old_getcurr ?qs = Inr (old_plist ?qs ! k)" using old_curr_ok [OF i(2)] by metis
  assume pl: "plain_machine m" and "old_next_thread m = Inr m'"
  then have m': "m' = m\<lparr>old_procs := ?qs, old_core := (old_core m)\<lparr>old_PC := old_pc (old_plist ?qs ! k),
      old_conditions := old_cc (old_plist ?qs ! k), old_registers := old_regs (old_plist ?qs ! k)\<rparr>\<rparr>"
    using i(1) k(2) by (simp add: old_next_thread_def old_restore_def)
  have "plain_process (old_plist ?qs ! k)" using pl k(1) by (simp add: plain_machine_def)
  then show "plain_machine m'" using pl by (simp add: m' plain_machine_def plain_cpu_def plain_process_def)
qed

abbreviation new_progress :: "old_machine progress res \<Rightarrow> machine progress res" where
  "new_progress \<equiv> map_sum id (map_progress new_machine)"

lemma old_save_keeps:
  assumes "old_wf ps" and "old_save c ps = Inr qs"
  shows "old_wf qs" and "map old_done (old_plist qs) = map old_done (old_plist ps)"
    and "plain_cpu c \<Longrightarrow> \<forall>p \<in> set (old_plist ps). plain_process p \<Longrightarrow> \<forall>p \<in> set (old_plist qs). plain_process p"
proof -
  obtain k where k: "k < length (old_plist ps)" "old_getcurr ps = Inr (old_plist ps ! k)"
      "\<And>q. old_putcurr q ps = Inr (ps\<lparr>old_plist := (old_plist ps)[k := q]\<rparr>)"
    using old_curr_ok [OF assms(1)] by metis
  let ?q = "(old_plist ps ! k)\<lparr>old_pc := old_PC c, old_cc := old_conditions c, old_regs := old_registers c\<rparr>"
  have qs: "qs = ps\<lparr>old_plist := (old_plist ps)[k := ?q]\<rparr>" using assms(2) k by (simp add: old_save_def)
  show "old_wf qs" using assms(1) by (simp add: qs old_wf_def)
  show "map old_done (old_plist qs) = map old_done (old_plist ps)" using k(1) by (simp add: qs map_update list_update_same_conv)
  assume "plain_cpu c" and pl: "\<forall>p \<in> set (old_plist ps). plain_process p"
  then have "plain_process ?q" by (simp add: plain_process_def plain_cpu_def)
  then show "\<forall>p \<in> set (old_plist qs). plain_process p" using pl set_update_subset_insert by (fastforce simp: qs)
qed

lemma new_tick:
  assumes "old_wf (old_procs m)" and "\<exists>p \<in> set (old_plist (old_procs m)). \<not> old_done p"
  shows "tick_interrupt f b rc (new_machine m) = Some (new_progress (old_tick f b rc m))"
    and "plain_machine m \<Longrightarrow> old_tick f b rc m = Inr (Running m') \<Longrightarrow> plain_machine m'"
proof -
  let ?m = "\<lambda>j rs ps. m\<lparr>old_interrupt := j, old_draws := rs, old_procs := ps\<rparr>"
  have ex: "\<exists>p \<in> set (old_plist qs). \<not> old_done p" if "old_save (old_core m) (old_procs m) = Inr qs" for qs
  proof -
    have "False \<in> set (map old_done (old_plist qs))" using assms(2) unfolding old_save_keeps(2) [OF assms(1) that] by force
    then show ?thesis by auto
  qed
  have nt: "next_thread (new_machine (?m j rs qs)) = Some (map_sum id new_machine (old_next_thread (?m j rs qs)))"
    if "old_save (old_core m) (old_procs m) = Inr qs" for j rs qs
    by (rule new_next_thread(1)) (use old_save_keeps(1) [OF assms(1) that] ex [OF that] in simp_all)
  show "tick_interrupt f b rc (new_machine m) = Some (new_progress (old_tick f b rc m))"
  proof (cases "old_interrupt m - 1 = 0 \<or> rc = Yielded")
    case True
    obtain qs where qs: "old_save (old_core m) (old_procs m) = Inr qs"
      using old_curr_ok [OF assms(1)] by (metis old_save_def rbind.simps(2))
    have bind: "rbind x (\<lambda>y. Inr (Running y)) = map_sum id Running x" for x :: "old_machine res" by (cases x) simp_all
    show ?thesis
    proof (cases "setint f b (old_draws m)")
      case (Inr r)
      then show ?thesis using True nt [OF qs] qs
        by (cases r) (simp add: tick_interrupt_def old_tick_def Let_def new_save [OF assms(1)] new_machine_upd bind sum.map_comp comp_def
            del: rbind_Inr_iff)
    qed (use True in \<open>simp add: tick_interrupt_def old_tick_def Let_def\<close>)
  qed (simp add: tick_interrupt_def old_tick_def Let_def new_machine_upd)
  assume pl: "plain_machine m" and t: "old_tick f b rc m = Inr (Running m')"
  show "plain_machine m'"
  proof (cases "old_interrupt m - 1 = 0 \<or> rc = Yielded")
    case True
    then obtain j rs qs where qs: "old_save (old_core m) (old_procs m) = Inr qs" "old_next_thread (?m j rs qs) = Inr m'"
      using t by (auto simp: old_tick_def Let_def)
    have "plain_machine (?m j rs qs)" using pl old_save_keeps(3) [OF assms(1) qs(1)] by (simp add: plain_machine_def)
    then show ?thesis using new_next_thread(2) [OF _ _ _ qs(2)] old_save_keeps(1) [OF assms(1) qs(1)] ex [OF qs(1)] by simp
  qed (use pl t in \<open>auto simp: old_tick_def Let_def plain_machine_def\<close>)
qed

lemma round_ok:
  assumes "machine_ok m" and "round f b m = Some (Inr (Running m'))"
  shows "machine_ok m'"
proof -
  let ?a = "\<lparr>threads = view m, shared = memory (core m), texts = pmemory (core m), halted = {i. finished (plist (procs m) ! i)}\<rparr>"
  have "simulates m ?a" by (simp add: simulates_def)
  from round_simulated [OF assms(1) this refl assms(2)] show ?thesis by auto
qed

lemma old_proc_done_keeps:
  assumes "old_wf ps" and "old_proc_done ps = Inr qs"
  shows "old_wf qs" and "\<forall>p \<in> set (old_plist ps). plain_process p \<Longrightarrow> \<forall>p \<in> set (old_plist qs). plain_process p"
    and "old_active_ok ps \<Longrightarrow> \<not> old_done (old_plist ps ! nat (old_curr ps)) \<Longrightarrow> old_active_ok qs"
proof -
  obtain k where k: "k < length (old_plist ps)" "old_getcurr ps = Inr (old_plist ps ! k)" "old_curr ps = int k"
      "\<And>q. old_putcurr q ps = Inr (ps\<lparr>old_plist := (old_plist ps)[k := q]\<rparr>)"
    using old_curr_ok [OF assms(1)] by metis
  let ?q = "(old_plist ps ! k)\<lparr>old_done := True\<rparr>"
  have qs: "qs = ps\<lparr>old_plist := (old_plist ps)[k := ?q], old_active := old_active ps - 1\<rparr>"
    using assms(2) k by (simp add: old_proc_done_def)
  show "old_wf qs" using assms(1) by (simp add: qs old_wf_def)
  show "old_active_ok qs" if "old_active_ok ps" and "\<not> old_done (old_plist ps ! nat (old_curr ps))"
    using that length_filter_update [OF k(1), of "\<lambda>p. \<not> old_done p" ?q] by (simp add: old_active_ok_def qs k(3))
  assume pl: "\<forall>p \<in> set (old_plist ps). plain_process p"
  then have "plain_process ?q" using k(1) by (simp add: plain_process_def)
  then show "\<forall>p \<in> set (old_plist qs). plain_process p" using pl set_update_subset_insert by (fastforce simp: qs)
qed

lemma old_proc_done_result:
  assumes "old_wf ps"
  obtains qs where "old_proc_done ps = Inr qs"
proof -
  obtain k where "old_getcurr ps = Inr (old_plist ps ! k)" "\<And>q. old_putcurr q ps = Inr (ps\<lparr>old_plist := (old_plist ps)[k := q]\<rparr>)"
    using old_curr_ok [OF assms] by blast
  then show thesis using that by (simp add: old_proc_done_def)
qed

lemma old_next_thread_result:
  assumes "old_wf (old_procs m)" and "\<exists>p \<in> set (old_plist (old_procs m)). \<not> old_done p"
  obtains m' where "old_next_thread m = Inr m'" and "old_wf (old_procs m')" and "\<exists>p \<in> set (old_plist (old_procs m')). \<not> old_done p"
proof -
  obtain i where i: "old_next (old_procs m) = Inr ((old_procs m)\<lparr>old_curr := i\<rparr>)" "old_wf ((old_procs m)\<lparr>old_curr := i\<rparr>)"
    using new_next(2) [OF assms] by blast
  obtain k where k: "old_getcurr ((old_procs m)\<lparr>old_curr := i\<rparr>) = Inr (old_plist (old_procs m) ! k)"
    using old_curr_ok [OF i(2)] by (metis old_proclist.select_convs(1) old_proclist.surjective old_proclist.update_convs(2))
  then obtain m' where "old_next_thread m = Inr m'" "old_procs m' = (old_procs m)\<lparr>old_curr := i\<rparr>"
    using i(1) by (simp add: old_next_thread_def old_restore_def)
  then show thesis using i(2) assms(2) that [of m'] by simp
qed

lemma halt_switch:
  assumes "machine_ok (new_machine m)" and ps: "old_proc_done (old_procs m) = Inr ps" and "old_numdone ps \<noteq> old_getnum ps"
    and m2: "old_procs m2 = ps"
  shows "\<exists>m3. old_next_thread m2 = Inr m3 \<and> next_thread (new_machine m2) = Some (Inr (new_machine m3)) \<and>
      old_wf (old_procs m3) \<and> (\<exists>p \<in> set (old_plist (old_procs m3)). \<not> old_done p) \<and> (plain_machine m2 \<longrightarrow> plain_machine m3)"
proof -
  note ok = new_ok [OF assms(1)]
  have "old_active_ok ps"
    using old_proc_done_keeps(3) [OF ok(1) ps] ok(2,3) by (simp add: active_ok_def old_active_ok_def filter_map comp_def)
  then have "filter (\<lambda>p. \<not> old_done p) (old_plist ps) \<noteq> []" using assms(3) by (auto simp: old_active_ok_def old_numdone_def old_getnum_def)
  then have e: "\<exists>p \<in> set (old_plist (old_procs m2)). \<not> old_done p" by (auto simp: filter_empty_conv m2)
  have w: "old_wf (old_procs m2)" using old_proc_done_keeps(1) [OF ok(1) ps] by (simp add: m2)
  obtain m3 where "old_next_thread m2 = Inr m3" "old_wf (old_procs m3)" "\<exists>p \<in> set (old_plist (old_procs m3)). \<not> old_done p"
    using old_next_thread_result [OF w e] .
  with new_next_thread [OF w e] show ?thesis by auto
qed

lemma new_round:
  assumes "machine_ok (new_machine m)" and "plain_machine m"
  shows "round f b (new_machine m) = Some (new_progress (old_round f b m))"
    and "old_round f b m = Inr (Running m') \<Longrightarrow> plain_machine m'"
proof -
  note ok = new_ok [OF assms(1)]
  have pc: "plain_cpu (old_core m)" using assms(2) by (simp add: plain_machine_def)
  obtain p where p: "old_getcurr (old_procs m) = Inr p" using old_curr_ok [OF ok(1)] .
  have fe: "fetch_exec (new_cpu (old_core m)) = new_res (old_fetch_exec (old_core m))" by (rule old_fetch_exec_new [OF pc])
  define m1 where "m1 c = m\<lparr>old_core := c, old_icount := old_icount m + 1\<rparr>" for c
  have m1: "(new_machine m)\<lparr>core := new_cpu c, icount := old_icount m + 1\<rparr> = new_machine (m1 c)" for c by (simp add: m1_def new_machine_upd)
  obtain ps where ps: "old_proc_done (old_procs m) = Inr ps" using old_proc_done_result [OF ok(1)] .
  define m2 where "m2 c = (m1 c)\<lparr>old_procs := ps\<rparr>" for c
  have d: "(new_machine (m1 c))\<lparr>procs := new_procs ps\<rparr> = new_machine (m2 c)" "old_procs (m1 c) = old_procs m" for c
    by (simp_all add: m1_def m2_def new_machine_upd)
  have n: "numdone (new_procs ps) = old_numdone ps" "getnum (new_procs ps) = old_getnum ps"
    by (simp_all add: numdone_def old_numdone_def getnum_def old_getnum_def)
  note rounds = round_def old_round_def Let_def new_getcurr [OF ok(1)] p fe m1 m1_def [symmetric] d n m2_def [symmetric] new_proc_done [OF ok(1)] ps
  have wm: "old_wf (old_procs (m1 c))" "\<exists>p \<in> set (old_plist (old_procs (m1 c))). \<not> old_done p" for c using ok by (simp_all add: d)
  note tick = new_tick [OF wm]
  have switch: "\<exists>m3. old_next_thread (m2 c) = Inr m3 \<and> next_thread (new_machine (m2 c)) = Some (Inr (new_machine m3)) \<and>
      old_wf (old_procs m3) \<and> (\<exists>p \<in> set (old_plist (old_procs m3)). \<not> old_done p) \<and> (plain_machine (m2 c) \<longrightarrow> plain_machine m3)"
    if "old_numdone ps \<noteq> old_getnum ps" for c by (rule halt_switch [OF assms(1) ps that]) (simp add: m2_def)
  show "round f b (new_machine m) = Some (new_progress (old_round f b m))"
  proof (cases "old_fetch_exec (old_core m)")
    case (Inr r)
    obtain rc c where "r = (rc, c)" by (cases r)
    note r = Inr [unfolded this]
    show ?thesis
    proof (cases "rc = Halted \<and> old_numdone ps \<noteq> old_getnum ps")
      case True
      then obtain m3 where "old_next_thread (m2 c) = Inr m3" "next_thread (new_machine (m2 c)) = Some (Inr (new_machine m3))"
          "old_wf (old_procs m3)" "\<exists>p \<in> set (old_plist (old_procs m3)). \<not> old_done p" using switch by blast
      then show ?thesis using True r new_tick(1) by (simp add: rounds del: rbind_Inr_iff)
    qed (use r in \<open>auto simp: rounds tick(1) simp del: rbind_Inr_iff\<close>)
  qed (simp add: round_def old_round_def new_getcurr [OF ok(1)] p fe)
  assume rd: "old_round f b m = Inr (Running m')"
  then obtain rc c where r: "old_fetch_exec (old_core m) = Inr (rc, c)" using p by (auto simp: old_round_def)
  have pl: "plain_machine (m1 c)" "plain_machine (m2 c)"
    using assms(2) old_fetch_exec_plain [OF pc r] old_proc_done_keeps(2) [OF ok(1) ps] by (simp_all add: plain_machine_def m1_def m2_def)
  show "plain_machine m'"
  proof (cases "rc = Halted")
    case True
    then have nd: "old_numdone ps \<noteq> old_getnum ps" using rd r by (auto simp: rounds simp del: rbind_Inr_iff)
    then obtain m3 where "old_next_thread (m2 c) = Inr m3" "old_wf (old_procs m3)" "\<exists>p \<in> set (old_plist (old_procs m3)). \<not> old_done p"
        "plain_machine m3" using switch pl(2) by blast
    then show ?thesis using True rd r nd new_tick(2) [of m3 f b rc m'] by (simp add: rounds del: rbind_Inr_iff)
  next
    case False
    then show ?thesis using rd r tick(2) [OF pl(1)] by (simp add: rounds del: rbind_Inr_iff)
  qed
qed

lemma new_rounds:
  "machine_ok (new_machine m) \<Longrightarrow> plain_machine m \<Longrightarrow> rounds n f b (new_machine m) = Some (new_progress (old_rounds n f b m))"
proof (induction n arbitrary: m)
  case (Suc n)
  note eq = new_round(1) [OF Suc.prems, of f b]
  show ?case
  proof (cases "old_round f b m")
    case (Inr q)
    show ?thesis
    proof (cases q)
      case (Running m')
      have "machine_ok (new_machine m')" by (rule round_ok [OF Suc.prems(1)]) (use eq Inr Running in simp)
      moreover have "plain_machine m'" by (rule new_round(2) [OF Suc.prems]) (use Inr Running in simp)
      ultimately show ?thesis using Suc.IH eq Inr Running by simp
    qed (use eq Inr in simp)
  qed (use eq in simp)
qed simp

definition old_ready :: "old_proclist \<Rightarrow> bool" where
  "old_ready ps \<longleftrightarrow> old_wf ps \<and> old_active_ok ps \<and> (\<forall>p \<in> set (old_plist ps). \<not> old_done p \<and> plain_process p)"

lemma old_run_new:
  assumes "old_ready ps" and "plain_cpu c"
  shows "run n f b rs (new_cpu c) (new_procs ps) = Some (new_progress (old_run n f b rs c ps))"
proof (cases "setint f b rs")
  case (Inr r)
  obtain i rs' where r: "r = (i, rs')" by (cases r)
  let ?m = "\<lparr>old_core = c, old_procs = ps, old_interrupt = i, old_icount = 0, old_draws = rs'\<rparr>"
  have w: "old_wf ps" using assms(1) by (simp add: old_ready_def)
  then have "nat (old_curr ps) < length (old_plist ps)" by (auto simp: old_wf_def)
  then have "machine_ok (new_machine ?m)" using assms(1)
    by (simp add: machine_ok_def new_wf new_cur_thread [OF w] old_ready_def active_ok_def old_active_ok_def filter_map comp_def)
  moreover have "plain_machine ?m" using assms by (simp add: plain_machine_def old_ready_def)
  ultimately have "rounds n f b (new_machine ?m) = Some (new_progress (old_rounds n f b ?m))" by (rule new_rounds)
  then show ?thesis using Inr r by (simp add: run_def old_run_def Let_def new_machine_def)
qed (simp add: run_def old_run_def Let_def)

end
