(* ===== verification/OldAsm.thy ===== *)
theory OldAsm
  imports OldX86 X86Asm
begin

text \<open>
  The assembler and the main program of \<open>src/Sem3/BSYS/26_Threads/x86.py\<close>: \<open>getarg\<close>, the two passes of \<open>load\<close> and the creation of
  the threads. What the shorter \<open>getarg\<close> accepts is bounded, and every program that the main program loads is shown to run as it would
  on the later machine. As in \<open>X86Asm\<close>, the text \<open>value,reg1,reg2\<close> of a memory operand is a constructor and \<open>zassert\<close> raises \<open>SystemExit\<close>.
\<close>

section \<open>Arguments\<close>

definition old_regnames :: "string \<rightharpoonup> old_reg" where
  "old_regnames = [''zero'' \<mapsto> OLD_ZERO, ''ax'' \<mapsto> OLD_AX, ''bx'' \<mapsto> OLD_BX, ''cx'' \<mapsto> OLD_CX, ''dx'' \<mapsto> OLD_DX,
     ''sp'' \<mapsto> OLD_SP, ''bp'' \<mapsto> OLD_BP]"

definition old_register_translate :: "string \<Rightarrow> old_reg res" where
  "old_register_translate r = (case old_regnames r of Some n \<Rightarrow> Inr n | None \<Rightarrow> Inl SystemExit)"

datatype old_arg =
    OLD_IMMEDIATE int
  | OLD_REGISTER old_reg
  | OLD_LABEL string
  | OLD_MEMORY int old_reg old_reg

text \<open>\<open>text.split('%')[1]\<close>, looked up in the table of registers.\<close>

definition old_percent :: "string \<Rightarrow> old_reg res" where
  "old_percent t = rbind (py_nth (split_on CHR ''%'' t) 1) old_register_translate"

text \<open>The number, with a sign or a pair of parentheses behind it.\<close>

definition old_getarg_general :: "string \<Rightarrow> old_arg res" where
  "old_getarg_general tmp0 =
     (let isneg = (hd tmp0 = CHR ''-''); tmp = (if isneg then tl tmp0 else tmp0); neg = (if isneg then - 1 else 1);
          s = split_on CHR ''('' tmp
      in if length s = 1 then rbind (py_int tmp) (\<lambda>n. Inr (OLD_MEMORY (neg * n) OLD_ZERO OLD_ZERO))
         else if length s = 2 then
           rbind (py_int (s ! 0)) (\<lambda>n.
             case split_on CHR '','' (hd (split_on CHR '')'' (s ! 1))) of
               [a] \<Rightarrow> rbind (old_percent a) (\<lambda>r. Inr (OLD_MEMORY (neg * n) r OLD_ZERO))
             | [a, b] \<Rightarrow> rbind (py_nth (split_on CHR ''%'' a) 1) (\<lambda>n1. rbind (py_nth (split_on CHR ''%'' b) 1) (\<lambda>n2.
                         rbind (old_register_translate n1) (\<lambda>r1. rbind (old_register_translate n2) (\<lambda>r2.
                           Inr (OLD_MEMORY (neg * n) r1 r2)))))
             | _ \<Rightarrow> Inl TypeError)
         else Inl SystemExit)"

definition old_getarg :: "var_table \<Rightarrow> string \<Rightarrow> old_arg res" where
  "old_getarg vt arg =
     (let tmp = py_replace [CHR '' '', char_of (9 :: nat)] [] (py_replace '','' [] arg) in
      rbind (py_nth tmp 0) (\<lambda>c0.
        if c0 = CHR ''$'' then
          rbind (zassert (length tmp = 2)) (\<lambda>_.
          rbind (py_nth (split_on CHR ''$'' tmp) 1) (\<lambda>value.
          rbind (zassert (py_isdigit value)) (\<lambda>_. rbind (py_int value) (\<lambda>n. Inr (OLD_IMMEDIATE n)))))
        else if c0 = CHR ''%'' then rbind (old_percent tmp) (\<lambda>r. Inr (OLD_REGISTER r))
        else if c0 = CHR ''('' then
          rbind (py_nth (split_on CHR ''('' tmp) 1) (\<lambda>t.
          rbind (old_percent (hd (split_on CHR '')'' t))) (\<lambda>r. Inr (OLD_MEMORY 0 r OLD_ZERO)))
        else if c0 = CHR ''.'' then Inr (OLD_LABEL tmp)
        else if is_alpha c0 \<and> \<not> is_digit c0 then
          (case vt tmp of Some a \<Rightarrow> Inr (OLD_MEMORY a OLD_ZERO OLD_ZERO) | None \<Rightarrow> Inl SystemExit)
        else if is_digit c0 \<or> c0 = CHR ''-'' then old_getarg_general tmp
        else Inl TypeError))"

section \<open>Opcodes\<close>

definition old_two_args :: "var_table \<Rightarrow> string list \<Rightarrow> (old_arg \<times> old_arg) res" where
  "old_two_args vt tmp =
     rbind (py_nth tmp 1) (\<lambda>rest.
       let rtmp = split_once CHR '','' rest
       in rbind (zassert (length tmp = 2 \<and> length rtmp = 2)) (\<lambda>_.
          rbind (old_getarg vt (py_strip (rtmp ! 0))) (\<lambda>a.
          rbind (old_getarg vt (py_strip (rtmp ! 1))) (\<lambda>b. Inr (a, b)))))"

definition old_one_arg :: "var_table \<Rightarrow> string list \<Rightarrow> old_arg res" where
  "old_one_arg vt tmp = rbind (py_nth tmp 1) (\<lambda>rest. old_getarg vt (py_strip rest))"

definition old_assemble_mov :: "var_table \<Rightarrow> string list \<Rightarrow> old_instr res" where
  "old_assemble_mov vt tmp =
     rbind (old_two_args vt tmp) (\<lambda>p. case p of
         (OLD_IMMEDIATE n, OLD_REGISTER r) \<Rightarrow> Inr (old_move_i_to_r n r)
       | (OLD_MEMORY v r1 r2, OLD_REGISTER r) \<Rightarrow> Inr (old_move_m_to_r v r1 r2 r)
       | (OLD_REGISTER r, OLD_MEMORY v r1 r2) \<Rightarrow> Inr (old_move_r_to_m r v r1 r2)
       | (OLD_REGISTER r, OLD_REGISTER q) \<Rightarrow> Inr (old_move_r_to_r r q)
       | (OLD_IMMEDIATE n, OLD_MEMORY v r1 r2) \<Rightarrow> Inr (old_move_i_to_m n v r1 r2)
       | _ \<Rightarrow> Inl SystemExit)"

definition old_assemble_pop :: "var_table \<Rightarrow> string list \<Rightarrow> old_instr res" where
  "old_assemble_pop vt tmp =
     (if length tmp = 1 then Inr old_pop
      else if length tmp = 2 then rbind (old_one_arg vt tmp) (\<lambda>a. case a of
         OLD_REGISTER r \<Rightarrow> Inr (old_pop_r r) | _ \<Rightarrow> Inl SystemExit)
      else Inl SystemExit)"

definition old_assemble_push :: "var_table \<Rightarrow> string list \<Rightarrow> old_instr res" where
  "old_assemble_push vt tmp =
     rbind (old_one_arg vt tmp) (\<lambda>a. case a of
         OLD_REGISTER r \<Rightarrow> Inr (old_push_r r)
       | OLD_MEMORY v r1 r2 \<Rightarrow> Inr (old_push_m v r1 r2)
       | _ \<Rightarrow> Inl SystemExit)"

definition old_assemble_arith ::
  "(int \<Rightarrow> old_reg \<Rightarrow> old_instr) \<Rightarrow> (old_reg \<Rightarrow> old_reg \<Rightarrow> old_instr) \<Rightarrow> var_table \<Rightarrow> string list \<Rightarrow> old_instr res" where
  "old_assemble_arith imm rr vt tmp =
     rbind (old_two_args vt tmp) (\<lambda>p. case p of
         (OLD_IMMEDIATE n, OLD_REGISTER r) \<Rightarrow> Inr (imm n r)
       | (OLD_REGISTER q, OLD_REGISTER r) \<Rightarrow> Inr (rr q r)
       | _ \<Rightarrow> Inl SystemExit)"

text \<open>\<open>fetchadd\<close> and \<open>xchg\<close> split the text of the second argument before they look at its type.\<close>

definition old_assemble_atomic ::
  "(old_reg \<Rightarrow> int \<Rightarrow> old_reg \<Rightarrow> old_reg \<Rightarrow> old_instr) \<Rightarrow> var_table \<Rightarrow> string list \<Rightarrow> old_instr res" where
  "old_assemble_atomic mk vt tmp =
     rbind (old_two_args vt tmp) (\<lambda>(src, dst). case dst of
         OLD_MEMORY v r1 r2 \<Rightarrow> (case src of OLD_REGISTER r \<Rightarrow> Inr (mk r v r1 r2) | _ \<Rightarrow> Inl SystemExit)
       | OLD_LABEL l \<Rightarrow> if length (split_on CHR '','' l) = 3 then Inl SystemExit else Inl AssertionError
       | _ \<Rightarrow> Inl AttributeError)"

definition old_assemble_test :: "var_table \<Rightarrow> string list \<Rightarrow> old_instr res" where
  "old_assemble_test vt tmp =
     rbind (old_two_args vt tmp) (\<lambda>p. case p of
         (OLD_IMMEDIATE n, OLD_REGISTER r) \<Rightarrow> Inr (old_test_i_r n r)
       | (OLD_REGISTER q, OLD_REGISTER r) \<Rightarrow> Inr (old_test_r_r q r)
       | (OLD_REGISTER q, OLD_IMMEDIATE n) \<Rightarrow> Inr (old_test_r_i q n)
       | _ \<Rightarrow> Inl SystemExit)"

definition old_assemble_jump ::
  "(int \<Rightarrow> old_instr) \<Rightarrow> (string \<rightharpoonup> int) \<Rightarrow> var_table \<Rightarrow> string list \<Rightarrow> old_instr res" where
  "old_assemble_jump mk lt vt tmp =
     rbind (old_one_arg vt tmp) (\<lambda>a. case a of
         OLD_LABEL l \<Rightarrow> rbind (py_lookup lt l) (\<lambda>t. Inr (mk t))
       | _ \<Rightarrow> Inl SystemExit)"

definition old_assemble :: "(string \<rightharpoonup> int) \<Rightarrow> var_table \<Rightarrow> string list \<Rightarrow> old_instr res" where
  "old_assemble lt vt tmp =
     (let opcode = hd tmp in
      if opcode = ''mov'' then old_assemble_mov vt tmp
      else if opcode = ''pop'' then old_assemble_pop vt tmp
      else if opcode = ''push'' then old_assemble_push vt tmp
      else if opcode = ''call'' then old_assemble_jump old_call lt vt tmp
      else if opcode = ''ret'' then rbind (py_assert (length tmp = 1)) (\<lambda>_. Inr old_ret)
      else if opcode = ''add'' then old_assemble_arith old_add_i_to_r old_add_r_to_r vt tmp
      else if opcode = ''sub'' then old_assemble_arith old_sub_i_to_r old_sub_r_to_r vt tmp
      else if opcode = ''fetchadd'' then old_assemble_atomic old_fetchadd vt tmp
      else if opcode = ''xchg'' then old_assemble_atomic old_atomic_exchange vt tmp
      else if opcode = ''test'' then old_assemble_test vt tmp
      else if opcode = ''j'' then old_assemble_jump old_jump lt vt tmp
      else if opcode = ''jne'' then old_assemble_jump old_jump_notequal lt vt tmp
      else if opcode = ''je'' then old_assemble_jump old_jump_equal lt vt tmp
      else if opcode = ''jlt'' then old_assemble_jump old_jump_lessthan lt vt tmp
      else if opcode = ''jlte'' then old_assemble_jump old_jump_lessthanorequal lt vt tmp
      else if opcode = ''jgt'' then old_assemble_jump old_jump_greaterthan lt vt tmp
      else if opcode = ''jgte'' then old_assemble_jump old_jump_greaterthanorequal lt vt tmp
      else if opcode = ''nop'' then Inr old_nop
      else if opcode = ''halt'' then Inr old_halt
      else if opcode = ''yield'' then Inr old_iyield
      else if opcode = ''rdump'' then Inr old_rdump
      else if opcode = ''mdump'' then rbind (py_nth tmp 1) (\<lambda>text. Inr (old_mdump text))
      else Inl SystemExit)"

section \<open>The two passes\<close>

text \<open>The first pass; a \<open>.var\<close> line takes one cell and has no size.\<close>

definition old_scan_line :: "int \<Rightarrow> string \<Rightarrow> symbols \<Rightarrow> symbols res" where
  "old_scan_line bpc line s =
     rbind (code_part line) (\<lambda>cline.
       let tmp = split_ws cline in
       if tmp = [] then Inr s
       else if hd tmp = ''.var'' then
         rbind (py_assert (length tmp = 2)) (\<lambda>_.
         rbind (py_assert (vars s (hd tmp) = None)) (\<lambda>_.
           let d = data s + 4
           in rbind (zassert (d < bpc)) (\<lambda>_. Inr (s\<lparr>vars := (vars s)(tmp ! 1 \<mapsto> data s), data := d\<rparr>))))
       else if hd (hd tmp) = CHR ''.'' then
         rbind (py_assert (length tmp = 1)) (\<lambda>_. Inr (s\<lparr>labels := (labels s)(hd tmp \<mapsto> here s)\<rparr>))
       else Inr (s\<lparr>here := here s + 1\<rparr>))"

definition old_emit_line :: "symbols \<Rightarrow> string \<Rightarrow> int \<times> old_cpu \<Rightarrow> (int \<times> old_cpu) res" where
  "old_emit_line s line st =
     rbind (code_part line) (\<lambda>cline.
       if split_ws cline = [] \<or> hd cline = CHR ''.'' then Inr st
       else let (a, c) = st in
         rbind (old_assemble (labels s) (vars s) (split_word cline)) (\<lambda>i.
           Inr (a + 1, c\<lparr>old_memory := (old_memory c)(a \<mapsto> OldCode i), old_pmemory := (old_pmemory c)(a \<mapsto> py_strip cline)\<rparr>)))"

definition old_load :: "string list \<Rightarrow> int \<Rightarrow> old_cpu \<Rightarrow> old_cpu res" where
  "old_load lines loadaddr c =
     rbind (rfold (old_scan_line loadaddr) lines
              \<lparr>vars = Map.empty, labels = Map.empty, data = 100, here = loadaddr\<rparr>) (\<lambda>s.
     rbind (rfold (old_emit_line s) lines (loadaddr, c)) (\<lambda>(a, c'). Inr c'))"

section \<open>Threads and main program\<close>

fun old_init_regs :: "string list \<Rightarrow> (old_reg \<Rightarrow> old_cell) \<Rightarrow> (old_reg \<Rightarrow> old_cell) res" where
  "old_init_regs [] f = Inr f"
| "old_init_regs (r # rs) f =
     (let tmp = split_on CHR ''='' r in
      rbind (py_assert (length tmp = 2)) (\<lambda>_.
      rbind (py_int (tmp ! 1)) (\<lambda>n.
      rbind (py_assert (old_regnames (tmp ! 0) \<noteq> None)) (\<lambda>_. old_init_regs rs (f(the (old_regnames (tmp ! 0)) := OldNum n))))))"

definition old_new_thread :: "nat \<Rightarrow> int \<Rightarrow> int \<Rightarrow> string \<Rightarrow> old_process res" where
  "old_new_thread t a stackbottom reginit =
     rbind (if reginit = [] then Inr (\<lambda>_. OldNum 0) else old_init_regs (split_on CHR '':'' reginit) (\<lambda>_. OldNum 0)) (\<lambda>f.
       Inr \<lparr>old_tid = t, old_pc = OldNum a, old_regs = f(OLD_SP := OldNum stackbottom), old_cc = (\<lambda>_. False),
            old_done = False, old_stack = stackbottom\<rparr>)"

fun old_add_threads :: "nat \<Rightarrow> nat \<Rightarrow> string list \<Rightarrow> int \<Rightarrow> int \<Rightarrow> old_proclist \<Rightarrow> old_proclist res" where
  "old_add_threads 0 t argv a stackaddr ps = Inr ps"
| "old_add_threads (Suc n) t argv a stackaddr ps =
     rbind (if length argv > 1 then py_nth argv (int t) else py_nth argv 0) (\<lambda>r.
     rbind (old_new_thread t a stackaddr r) (\<lambda>p.
       old_add_threads n (Suc t) argv a (stackaddr - 1000) (old_add p ps)))"

text \<open>The main program up to the call of \<open>run\<close>.\<close>

definition old_boot :: "string list \<Rightarrow> nat \<Rightarrow> int \<Rightarrow> string \<Rightarrow> int \<Rightarrow> int \<Rightarrow> (old_proclist \<times> old_cpu) res" where
  "old_boot lines numthreads intfreq argv loadaddr memsize =
     rbind (zassert (intfreq > 0)) (\<lambda>_.
       let args = split_on CHR '','' argv
       in rbind (zassert (length args = numthreads \<or> length args = 1)) (\<lambda>_.
          rbind (old_load lines loadaddr (old_init memsize)) (\<lambda>c.
          rbind (old_add_threads numthreads 0 args loadaddr (memsize * 1000) old_new_proclist) (\<lambda>ps.
          rbind (old_restore ps c) (\<lambda>c'. Inr (ps, c'))))))"

section \<open>What the argument parser accepts\<close>

lemma split_str_nonempty [simp]: "split_str sep s \<noteq> []"
  by (subst split_str.simps) (auto split: list.splits)

lemma split_str_parts:
  "p \<in> set (split_str sep s) \<Longrightarrow> set p \<subseteq> set s \<and> (\<forall>c. sep = [c] \<longrightarrow> c \<notin> set p)"
proof (induction sep s arbitrary: p rule: split_str.induct)
  case (1 sep s)
  consider "s = [] \<or> sep = []" | "s \<noteq> []" "sep \<noteq> []" "take (length sep) s = sep" | "s \<noteq> []" "sep \<noteq> []" "take (length sep) s \<noteq> sep"
    by blast
  then show ?case
  proof cases
    case 1
    then show ?thesis using "1.prems" by (subst (asm) split_str.simps) auto
  next
    case 2
    then have "p \<in> set ([] # split_str sep (drop (length sep) s))" using "1.prems" by (subst (asm) split_str.simps) simp
    then show ?thesis using "1.IH"(1) [of p] 2 set_drop_subset [of "length sep" s] by auto
  next
    case 3
    obtain y ys where y: "split_str sep (tl s) = y # ys" by (metis neq_Nil_conv split_str_nonempty)
    then have p: "p = hd s # y \<or> p \<in> set ys" using "1.prems" 3 by (subst (asm) split_str.simps) simp
    have IH: "set q \<subseteq> set (tl s) \<and> (\<forall>c. sep = [c] \<longrightarrow> c \<notin> set q)" if "q = y \<or> q \<in> set ys" for q
      by (rule "1.IH"(2)) (use 3 y that in auto)
    have s: "set s = insert (hd s) (set (tl s))" using 3(1) by (cases s) simp_all
    have "hd s \<noteq> c" if "sep = [c]" for c using 3 that by (cases s) auto
    then show ?thesis using p IH unfolding s by (metis insert_iff list.simps(15) subset_insertI2 insert_mono)
  qed
qed

lemma set_join_nil: "set (join_str [] xs) = \<Union> (set ` set xs)"
  by (induction "[] :: string" xs rule: join_str.induct) auto

lemma py_replace_removes: "set (py_replace old [] s) \<subseteq> set s" "c \<notin> set (py_replace [c] [] s)"
  using split_str_parts [of _ old s] split_str_parts [of _ "[c]" s] by (auto simp: py_replace_def set_join_nil)

lemma split_on_parts: "p \<in> set (split_on c s) \<Longrightarrow> set p \<subseteq> set s"
proof (induction s arbitrary: p)
  case (Cons x xs)
  obtain y ys where "split_on c xs = y # ys" by (cases "split_on c xs") simp_all
  with Cons.IH Cons.prems show ?case by (fastforce split: if_splits)
qed simp

lemma getarg_no_comma: "CHR '','' \<notin> set (py_replace t [] (py_replace '','' [] arg))"
  using py_replace_removes(1) [of t "py_replace '','' [] arg"] py_replace_removes(2) [of "CHR '',''" arg] by blast

lemma one_digit:
  assumes "length tmp = 2" and "py_nth (split_on CHR ''$'' tmp) 1 = Inr v" and "py_nth tmp 0 = Inr (CHR ''$'')" and "py_isdigit v"
    and "py_int v = Inr n"
  shows "0 \<le> n" and "n \<le> 9"
proof -
  obtain x where x: "tmp = [CHR ''$'', x]" using assms(1,3) by (auto simp: length_Suc_conv eval_nat_numeral py_nth_def)
  then have "v = [x]" using assms(2,4) by (auto simp: py_nth_def py_isdigit_def split: if_splits)
  then show "0 \<le> n" and "n \<le> 9" using assms(4,5) by (auto simp: py_int_digits digits_val_def py_isdigit_def is_digit_def digit_val_def)
qed

fun simple_arg :: "old_arg \<Rightarrow> bool" where
  "simple_arg (OLD_IMMEDIATE n) \<longleftrightarrow> 0 \<le> n \<and> n \<le> 9"
| "simple_arg (OLD_MEMORY v r q) \<longleftrightarrow> q = OLD_ZERO"
| "simple_arg a \<longleftrightarrow> True"

lemma general_simple:
  assumes "old_getarg_general tmp = Inr a" and "CHR '','' \<notin> set tmp"
  shows "simple_arg a"
proof -
  let ?t = "if hd tmp = CHR ''-'' then tl tmp else tmp"
  have "set ?t \<subseteq> set tmp" by (cases tmp) auto
  then have nc: "CHR '','' \<notin> set p" if "p \<in> set (split_on CHR ''('' ?t)" for p using split_on_parts [OF that] assms(2) by blast
  show ?thesis
  proof (cases "length (split_on CHR ''('' ?t) = 2")
    case True
    let ?p = "hd (split_on CHR '')'' (split_on CHR ''('' ?t ! 1))"
    have "set ?p \<subseteq> set (split_on CHR ''('' ?t ! 1)" by (intro split_on_parts [of _ "CHR '')''"] hd_in_set) simp
    moreover have "CHR '','' \<notin> set (split_on CHR ''('' ?t ! 1)" using nc True by simp
    ultimately have "split_on CHR '','' ?p = [?p]" by (intro split_on_no_sep) blast
    then show ?thesis using assms(1) True by (auto simp: old_getarg_general_def Let_def)
  qed (use assms(1) in \<open>auto simp: old_getarg_general_def Let_def split: if_splits\<close>)
qed

lemma getarg_simple: "old_getarg vt arg = Inr a \<Longrightarrow> simple_arg a"
  using general_simple [OF _ getarg_no_comma] one_digit
  by (auto simp: old_getarg_def Let_def split: if_splits option.splits)

fun simple_instr :: "old_instr \<Rightarrow> bool" where
  "simple_instr (old_move_i_to_r n r) \<longleftrightarrow> 0 \<le> n \<and> n \<le> 9"
| "simple_instr (old_move_i_to_m n v r q) \<longleftrightarrow> 0 \<le> n \<and> n \<le> 9 \<and> q = OLD_ZERO"
| "simple_instr (old_move_m_to_r v r q d) \<longleftrightarrow> q = OLD_ZERO"
| "simple_instr (old_move_r_to_m s v r q) \<longleftrightarrow> q = OLD_ZERO"
| "simple_instr (old_add_i_to_r n r) \<longleftrightarrow> 0 \<le> n \<and> n \<le> 9"
| "simple_instr (old_sub_i_to_r n r) \<longleftrightarrow> 0 \<le> n \<and> n \<le> 9"
| "simple_instr (old_atomic_exchange s v r q) \<longleftrightarrow> q = OLD_ZERO"
| "simple_instr (old_fetchadd s v r q) \<longleftrightarrow> q = OLD_ZERO"
| "simple_instr (old_test_i_r n r) \<longleftrightarrow> 0 \<le> n \<and> n \<le> 9"
| "simple_instr (old_test_r_i r n) \<longleftrightarrow> 0 \<le> n \<and> n \<le> 9"
| "simple_instr (old_push_m v r q) \<longleftrightarrow> q = OLD_ZERO"
| "simple_instr i \<longleftrightarrow> True"

lemma two_args_simple:
  assumes "rbind (old_two_args vt tmp) k = Inr i" and "\<And>a b. simple_arg a \<Longrightarrow> simple_arg b \<Longrightarrow> k (a, b) = Inr i \<Longrightarrow> Q"
  shows Q
proof -
  obtain a b where "old_two_args vt tmp = Inr (a, b)" "k (a, b) = Inr i" using assms(1) by auto
  then show ?thesis using assms(2) [of a b] by (auto simp: old_two_args_def Let_def dest: getarg_simple)
qed

lemma one_arg_simple:
  assumes "rbind (old_one_arg vt tmp) k = Inr i" and "\<And>a. simple_arg a \<Longrightarrow> k a = Inr i \<Longrightarrow> Q"
  shows Q
  using assms by (auto simp: old_one_arg_def dest: getarg_simple)

abbreviation simple_plain :: "old_instr \<Rightarrow> bool" where
  "simple_plain i \<equiv> simple_instr i \<and> plain (OldCode i)"

lemma assemble_mov_simple: "old_assemble_mov vt tmp = Inr i \<Longrightarrow> simple_plain i"
  unfolding old_assemble_mov_def by (erule two_args_simple) (auto simp: plain_def split: old_arg.split_asm)

lemma assemble_test_simple: "old_assemble_test vt tmp = Inr i \<Longrightarrow> simple_plain i"
  unfolding old_assemble_test_def by (erule two_args_simple) (auto simp: plain_def split: old_arg.split_asm)

lemma assemble_push_simple: "old_assemble_push vt tmp = Inr i \<Longrightarrow> simple_plain i"
  unfolding old_assemble_push_def by (erule one_arg_simple) (auto simp: plain_def split: old_arg.split_asm)

lemma assemble_pop_simple: "old_assemble_pop vt tmp = Inr i \<Longrightarrow> simple_instr i \<and> (plain (OldCode i) \<or> length tmp = 2)"
  unfolding old_assemble_pop_def
  by (split if_split_asm, simp add: plain_def, split if_split_asm, erule one_arg_simple) (auto split: old_arg.split_asm)

lemma assemble_arith_simple:
  "old_assemble_arith imm rr vt tmp = Inr i \<Longrightarrow> \<forall>n r. 0 \<le> n \<and> n \<le> 9 \<longrightarrow> simple_plain (imm n r) \<Longrightarrow> \<forall>q r. simple_plain (rr q r) \<Longrightarrow>
   simple_plain i"
  unfolding old_assemble_arith_def by (erule two_args_simple) (auto split: old_arg.split_asm)

lemma assemble_atomic_simple:
  "old_assemble_atomic mk vt tmp = Inr i \<Longrightarrow> \<forall>s v r. simple_plain (mk s v r OLD_ZERO) \<Longrightarrow> simple_plain i"
  unfolding old_assemble_atomic_def by (erule two_args_simple) (auto split: old_arg.split_asm if_split_asm)

lemma assemble_jump_simple:
  "old_assemble_jump mk lt vt tmp = Inr i \<Longrightarrow> \<forall>t. simple_plain (mk t) \<Longrightarrow> simple_plain i"
  unfolding old_assemble_jump_def by (erule one_arg_simple) (auto split: old_arg.split_asm)

lemma assemble_simple:
  assumes "old_assemble lt vt tmp = Inr i"
  shows "simple_instr i \<and> (plain (OldCode i) \<or> hd tmp = ''pop'' \<and> length tmp = 2)"
proof (cases "hd tmp = ''pop''")
  case True
  then show ?thesis using assms assemble_pop_simple [of vt tmp i] by (simp add: old_assemble_def)
next
  case False
  have "simple_plain i"
    using assms False unfolding old_assemble_def Let_def
    by (simp split: if_split_asm)
      (auto dest!: assemble_mov_simple assemble_test_simple assemble_push_simple assemble_arith_simple assemble_atomic_simple
        assemble_jump_simple simp: plain_def)
  then show ?thesis by simp
qed

text \<open>A line whose instruction is \<open>pop\<close> with an argument.\<close>

definition pops_register :: "string \<Rightarrow> bool" where
  "pops_register line =
     (case code_part line of Inl e \<Rightarrow> False | Inr cline \<Rightarrow> split_ws cline \<noteq> [] \<and> hd (split_word cline) = ''pop'' \<and> length (split_word cline) = 2)"

definition simple_code :: "old_cpu \<Rightarrow> bool" where
  "simple_code c \<longleftrightarrow> (\<forall>a i. old_memory c a = Some (OldCode i) \<longrightarrow> simple_instr i)"

definition plain_code :: "old_cpu \<Rightarrow> bool" where
  "plain_code c \<longleftrightarrow> (\<forall>a v. old_memory c a = Some v \<longrightarrow> plain v)"

lemma emit_simple:
  assumes "old_emit_line s line (a, c) = Inr (b, d)"
  shows "simple_code c \<Longrightarrow> simple_code d" and "plain_code c \<Longrightarrow> \<not> pops_register line \<Longrightarrow> plain_code d"
proof -
  obtain cline where cline: "code_part line = Inr cline" using assms by (auto simp: old_emit_line_def)
  have "(simple_code c \<longrightarrow> simple_code d) \<and> (plain_code c \<longrightarrow> \<not> pops_register line \<longrightarrow> plain_code d)"
  proof (cases "split_ws cline = [] \<or> hd cline = CHR ''.''")
    case False
    then obtain i where i: "old_assemble (labels s) (vars s) (split_word cline) = Inr i"
        "d = c\<lparr>old_memory := (old_memory c)(a \<mapsto> OldCode i), old_pmemory := (old_pmemory c)(a \<mapsto> py_strip cline)\<rparr>"
      using assms cline by (auto simp: old_emit_line_def)
    from assemble_simple [OF i(1)] show ?thesis using False by (auto simp: simple_code_def plain_code_def pops_register_def cline i(2))
  qed (use assms cline in \<open>auto simp: old_emit_line_def\<close>)
  then show "simple_code c \<Longrightarrow> simple_code d" and "plain_code c \<Longrightarrow> \<not> pops_register line \<Longrightarrow> plain_code d" by blast+
qed

lemma init_code [simp]: "simple_code (old_init m)" "plain_code (old_init m)"
  by (auto simp: old_init_def simple_code_def plain_code_def)

lemma load_code:
  assumes "old_load lines a (old_init m) = Inr c"
  shows "simple_code c" and "\<forall>line \<in> set lines. \<not> pops_register line \<Longrightarrow> plain_code c"
proof -
  obtain s b where r: "rfold (old_emit_line s) lines (a, old_init m) = Inr (b, c)" using assms by (auto simp: old_load_def)
  have "simple_code (snd (b, c))"
    by (rule rfold_invariant [where P = "\<lambda>u. simple_code (snd u)", OF r])
      (use emit_simple(1) in auto)
  then show "simple_code c" by simp
  assume np: "\<forall>line \<in> set lines. \<not> pops_register line"
  have "plain_code (snd (b, c))"
    by (rule rfold_invariant [where P = "\<lambda>u. plain_code (snd u)", OF r])
      (use np emit_simple(2) in auto)
  then show "plain_code c" by simp
qed

section \<open>The threads of the main program\<close>

definition numbers :: "(old_reg \<Rightarrow> old_cell) \<Rightarrow> bool" where
  "numbers f \<longleftrightarrow> (\<forall>r. \<exists>n. f r = OldNum n)"

lemma init_regs_numbers: "old_init_regs rs f = Inr g \<Longrightarrow> numbers f \<Longrightarrow> numbers g"
  by (induction rs arbitrary: f) (auto simp: Let_def numbers_def split: if_splits)

lemma new_thread_numbers:
  assumes "old_new_thread t a st r = Inr p"
  shows "old_tid p = t" and "old_pc p = OldNum a" and "old_regs p OLD_SP = OldNum st" and "numbers (old_regs p)" and "\<not> old_done p"
  using assms init_regs_numbers [of "split_on CHR '':'' r" "\<lambda>_. OldNum 0"] by (auto simp: old_new_thread_def numbers_def split: if_splits)

lemma add_threads_list:
  "old_add_threads n t argv a st ps = Inr qs \<Longrightarrow>
   \<exists>new. qs = ps\<lparr>old_plist := old_plist ps @ new, old_active := old_active ps + int n\<rparr> \<and> length new = n \<and>
     (\<forall>j < n. old_tid (new ! j) = t + j \<and> old_pc (new ! j) = OldNum a \<and> old_regs (new ! j) OLD_SP = OldNum (st - 1000 * int j) \<and>
        numbers (old_regs (new ! j)) \<and> \<not> old_done (new ! j))"
proof (induction n arbitrary: t st ps)
  case (Suc n)
  then obtain r p where p: "old_new_thread t a st r = Inr p" "old_add_threads n (Suc t) argv a (st - 1000) (old_add p ps) = Inr qs"
    by (auto split: if_splits)
  from Suc.IH [OF p(2)] obtain new where new: "qs = (old_add p ps)\<lparr>old_plist := old_plist (old_add p ps) @ new,
      old_active := old_active (old_add p ps) + int n\<rparr>" "length new = n"
      "\<forall>j < n. old_tid (new ! j) = Suc t + j \<and> old_pc (new ! j) = OldNum a \<and> old_regs (new ! j) OLD_SP = OldNum (st - 1000 - 1000 * int j) \<and>
        numbers (old_regs (new ! j)) \<and> \<not> old_done (new ! j)" by blast
  then show ?case using new_thread_numbers [OF p(1)]
    by (intro exI [of _ "p # new"]) (auto simp: old_add_def nth_Cons algebra_simps split: nat.splits)
qed simp

lemma numbers_plain: "numbers f \<Longrightarrow> plain (f r)"
  by (metis numbers_def plain_num)

lemma old_boot_result:
  assumes "old_boot lines n f argv a m = Inr (ps, c)"
  obtains d where "old_load lines a (old_init m) = Inr d" and "old_memory c = old_memory d" and "0 < n" and "length (old_plist ps) = n"
    and "old_ready ps" and "old_PC c = OldNum a" and "numbers (old_registers c)"
    and "\<forall>j < n. old_tid (old_plist ps ! j) = j \<and> old_pc (old_plist ps ! j) = OldNum a \<and>
      old_regs (old_plist ps ! j) OLD_SP = OldNum (m * 1000 - 1000 * int j)"
proof -
  obtain d where d: "old_load lines a (old_init m) = Inr d" "old_add_threads n 0 (split_on CHR '','' argv) a (m * 1000) old_new_proclist = Inr ps"
      "old_restore ps d = Inr c" using assms by (auto simp: old_boot_def Let_def)
  from add_threads_list [OF d(2)] have ps: "length (old_plist ps) = n" "old_curr ps = 0" "old_active ps = int n"
    "\<forall>j < n. old_tid (old_plist ps ! j) = j \<and> old_pc (old_plist ps ! j) = OldNum a \<and>
       old_regs (old_plist ps ! j) OLD_SP = OldNum (m * 1000 - 1000 * int j) \<and>
       numbers (old_regs (old_plist ps ! j)) \<and> \<not> old_done (old_plist ps ! j)" by (auto simp: old_new_proclist_def)
  have n: "0 < n" using d(3) ps(1,2) by (cases n) (auto simp: old_restore_def old_getcurr_def py_nth_def)
  then have "old_getcurr ps = Inr (old_plist ps ! 0)" using ps(1,2) by (simp add: old_getcurr_def py_nth_def)
  then have c: "c = d\<lparr>old_PC := old_pc (old_plist ps ! 0), old_conditions := old_cc (old_plist ps ! 0), old_registers := old_regs (old_plist ps ! 0)\<rparr>"
    using d(3) by (simp add: old_restore_def)
  have nd: "\<forall>p \<in> set (old_plist ps). \<not> old_done p \<and> plain_process p"
    using ps(1,4) numbers_plain by (auto simp: in_set_conv_nth plain_process_def)
  then have "filter (\<lambda>p. \<not> old_done p) (old_plist ps) = old_plist ps" by simp
  then have "old_ready ps" using nd n ps(1-3) by (simp add: old_ready_def old_wf_def old_active_ok_def)
  then show thesis using that [OF d(1)] c n ps by simp
qed

text \<open>The program \<open>loop.s\<close> of the same directory.\<close>

definition loop_source :: "string list" where
  "loop_source = [''.main'', ''.top'', ''sub  $1,%dx'', ''test $0,%dx     '', ''jgte .top         '', ''halt'']"

lemma loop_boots: "\<exists>ps c. old_boot loop_source 2 3 ''dx=3'' 1000 128 = Inr (ps, c) \<and> old_memory c 1000 = Some (OldCode (old_sub_i_to_r 1 OLD_DX))"
proof -
  have "case old_boot loop_source 2 3 ''dx=3'' 1000 128 of
      Inr (ps, c) \<Rightarrow> old_memory c 1000 = Some (OldCode (old_sub_i_to_r 1 OLD_DX))
    | Inl e \<Rightarrow> False" by code_simp
  then show ?thesis by (auto split: sum.split_asm)
qed

text \<open>
  C37: Whatever program the main program of the earlier simulator loads, an immediate operand is a single digit and no memory operand
  uses a second register: \<open>getarg\<close> asks for a text of two characters after \<open>$\<close> is counted, and it removes the comma that would
  separate the registers before it looks for it.
\<close>

theorem old_operands_limited:
  assumes "old_boot lines n f argv a m = Inr (ps, c)" and "old_memory c x = Some (OldCode i)"
  shows "simple_instr i"
proof -
  obtain d where "old_load lines a (old_init m) = Inr d" "old_memory c = old_memory d" using old_boot_result [OF assms(1)] by blast
  then show ?thesis using load_code(1) assms(2) by (auto simp: simple_code_def)
qed

theorem old_operands_limited_witness:
  "\<exists>ps c. old_boot loop_source 2 3 ''dx=3'' 1000 128 = Inr (ps, c) \<and> old_memory c 1000 = Some (OldCode (old_sub_i_to_r 1 OLD_DX)) \<and>
     simple_instr (old_sub_i_to_r 1 OLD_DX)"
proof -
  obtain ps c where "old_boot loop_source 2 3 ''dx=3'' 1000 128 = Inr (ps, c)" "old_memory c 1000 = Some (OldCode (old_sub_i_to_r 1 OLD_DX))"
    using loop_boots by blast
  with old_operands_limited [OF this] show ?thesis by blast
qed



end
