(* ===== verification/Scheduler.thy ===== *)
theory Scheduler
  imports PyString
begin

text \<open>
  The scheduling calculator \<open>src/Sem3/BSYS/07_Scheduler/scheduler.py\<close>: the job list, the statistics
  of FIFO and SJF and the round-robin loop. Run times are rationals (every finite double is one;
  the rounding of sums is not modelled). The dictionaries of the round-robin loop are maps from
  job numbers.
\<close>

section \<open>Jobs and statistics\<close>

type_synonym job = "nat \<times> rat"

text \<open>A line of the final statistics: job number, response, turnaround and wait.\<close>

type_synonym row = "nat \<times> rat \<times> rat \<times> rat"

fun random_jobs :: "nat \<Rightarrow> nat \<Rightarrow> int \<Rightarrow> draws \<Rightarrow> (job list \<times> draws) res" where
  "random_jobs 0 jobnum maxlen rs = Inr ([], rs)"
| "random_jobs (Suc n) jobnum maxlen rs =
     rbind (draw rs) (\<lambda>(x, rs1).
     rbind (random_jobs n (Suc jobnum) maxlen rs1) (\<lambda>(js, rs2).
       Inr ((jobnum, of_int (rand_below x maxlen + 1)) # js, rs2)))"

fun listed_jobs :: "nat \<Rightarrow> string list \<Rightarrow> job list res" where
  "listed_jobs jobnum [] = Inr []"
| "listed_jobs jobnum (s # ss) =
     rbind (py_float s) (\<lambda>r. rbind (listed_jobs (Suc jobnum) ss) (\<lambda>js. Inr ((jobnum, r) # js)))"

definition joblist :: "string \<Rightarrow> nat \<Rightarrow> int \<Rightarrow> draws \<Rightarrow> job list res" where
  "joblist jlist jobs maxlen rs =
     (if jlist = [] then rbind (random_jobs jobs 0 maxlen rs) (\<lambda>(js, rs'). Inr js)
      else listed_jobs 0 (split_on CHR '','' jlist))"

text \<open>The averages: a sum divided by the number of jobs.\<close>

definition average :: "rat \<Rightarrow> nat \<Rightarrow> rat res" where
  "average x n = (if n = 0 then Inl ZeroDivisionError else Inr (x / of_nat n))"

definition report :: "row list \<Rightarrow> (row list \<times> rat \<times> rat \<times> rat) res" where
  "report rows =
     rbind (average (\<Sum>(i, r, t, w) \<leftarrow> rows. r) (length rows)) (\<lambda>ar.
     rbind (average (\<Sum>(i, r, t, w) \<leftarrow> rows. t) (length rows)) (\<lambda>at'.
     rbind (average (\<Sum>(i, r, t, w) \<leftarrow> rows. w) (length rows)) (\<lambda>aw. Inr (rows, ar, at', aw))))"

section \<open>FIFO and SJF\<close>

fun fifo_rows :: "rat \<Rightarrow> job list \<Rightarrow> row list" where
  "fifo_rows t [] = []"
| "fifo_rows t ((jobnum, runtime) # js) = (jobnum, t, t + runtime, t) # fifo_rows (t + runtime) js"

definition sjf :: "job list \<Rightarrow> job list" where
  "sjf js = sort_key snd js"

section \<open>Round robin\<close>

record rr =
  runlist :: "job list"
  thetime :: rat
  turnaround :: "nat \<rightharpoonup> rat"
  response :: "nat \<rightharpoonup> rat"
  lastran :: "nat \<rightharpoonup> rat"
  waited :: "nat \<rightharpoonup> rat"
  jobcount :: int

definition rr_init :: "job list \<Rightarrow> rr" where
  "rr_init js =
     (let all = \<lambda>v i. if i < length js then Some v else None
      in \<lparr>runlist = js, thetime = 0, turnaround = all 0, response = all (-1), lastran = all 0,
          waited = all 0, jobcount = int (length js)\<rparr>)"

definition rr_step :: "rat \<Rightarrow> rr \<Rightarrow> rr res" where
  "rr_step quantum s =
     rbind (py_pop (runlist s) 0) (\<lambda>((jobnum, runtime), rest).
     rbind (py_lookup (response s) jobnum) (\<lambda>resp.
     rbind (py_lookup (lastran s) jobnum) (\<lambda>last.
     rbind (py_lookup (waited s) jobnum) (\<lambda>w.
       let s1 = s\<lparr>runlist := rest,
                  response := (if resp = -1 then (response s)(jobnum \<mapsto> thetime s) else response s),
                  waited := (waited s)(jobnum \<mapsto> w + (thetime s - last))\<rparr>;
           (s2, ranfor) =
             (if runtime > quantum then (s1\<lparr>runlist := rest @ [(jobnum, runtime - quantum)]\<rparr>, quantum)
              else (s1\<lparr>turnaround := (turnaround s)(jobnum \<mapsto> thetime s + runtime),
                       jobcount := jobcount s - 1\<rparr>, runtime))
       in Inr (s2\<lparr>thetime := thetime s + ranfor, lastran := (lastran s)(jobnum \<mapsto> thetime s + ranfor)\<rparr>)))))"

definition rr_busy :: "rr \<Rightarrow> bool" where
  "rr_busy s \<longleftrightarrow> jobcount s > 0"

fun rr_rows :: "rr \<Rightarrow> nat list \<Rightarrow> row list res" where
  "rr_rows s [] = Inr []"
| "rr_rows s (i # is) =
     rbind (py_lookup (turnaround s) i) (\<lambda>t.
     rbind (py_lookup (response s) i) (\<lambda>r.
     rbind (py_lookup (waited s) i) (\<lambda>w.
     rbind (rr_rows s is) (\<lambda>rows. Inr ((i, r, t, w) # rows)))))"

section \<open>The program\<close>

text \<open>\<open>None\<close>: the round-robin loop has not ended after the given number of rounds.\<close>

definition solve :: "nat \<Rightarrow> string \<Rightarrow> int \<Rightarrow> job list \<Rightarrow> (row list \<times> rat \<times> rat \<times> rat) res option" where
  "solve fuel policy quantum js =
     (let (js1, policy1) = (if policy = ''SJF'' then (sjf js, ''FIFO'') else (js, policy))
      in if policy1 = ''FIFO'' then Some (report (fifo_rows 0 js1))
         else if policy1 = ''RR'' then
           map_option (\<lambda>m. rbind m (\<lambda>s. rbind (rr_rows s [0..<length js1]) report))
             (loop fuel rr_busy (rr_step (of_int quantum)) (rr_init js1))
         else Some (Inl SystemExit))"

section \<open>SJF minimises waiting\<close>

text \<open>The total wait of a job list that starts at a given time.\<close>

definition total_wait :: "rat \<Rightarrow> job list \<Rightarrow> rat" where
  "total_wait t js = (\<Sum>(i, r, ta, w) \<leftarrow> fifo_rows t js. w)"

lemma total_wait_simps [simp]:
  "total_wait t [] = 0"
  "total_wait t (j # js) = t + total_wait (t + snd j) js"
  by (simp_all add: total_wait_def split_beta) (cases j; simp)

lemma total_wait_shift: "total_wait (t + x) js = total_wait t js + of_nat (length js) * x"
proof (induction js arbitrary: t)
  case (Cons j js)
  have "t + x + snd j = (t + snd j) + x" by simp
  then show ?case using Cons [of "t + snd j"] by (simp add: algebra_simps)
qed simp

lemma total_wait_append:
  "total_wait t (xs @ ys) = total_wait t xs + total_wait (t + (\<Sum>x\<leftarrow>xs. snd x)) ys"
  by (induction xs arbitrary: t) (simp_all add: add.assoc)

text \<open>Serving a job that is no longer than those before it first does not raise the total.\<close>

lemma total_wait_front:
  assumes "\<forall>x \<in> set xs. snd m \<le> snd x"
  shows "total_wait t (m # xs @ ys) \<le> total_wait t (xs @ m # ys)"
proof -
  have "of_nat (length xs) * snd m \<le> (\<Sum>x\<leftarrow>xs. snd x)"
    using assms by (induction xs) (auto simp: algebra_simps)
  then show ?thesis
    by (simp add: total_wait_append total_wait_shift [of t "snd m"] total_wait_shift add.assoc add.commute
        add.left_commute)
qed

lemma total_wait_sorted_least:
  assumes "sorted (map snd js)" and "mset js = mset ks"
  shows "total_wait t js \<le> total_wait t ks"
  using assms
proof (induction js arbitrary: ks t)
  case (Cons j js)
  then obtain xs ys where ks: "ks = xs @ j # ys"
    by (metis list.set_intros(1) mset_eq_setD split_list)
  have rest: "mset js = mset (xs @ ys)" using Cons.prems(2) ks by simp
  then have "set xs \<subseteq> set js" by (metis mset_eq_setD set_append sup_ge1)
  then have "total_wait t (j # xs @ ys) \<le> total_wait t ks"
    using Cons.prems(1) ks by (intro total_wait_front [of xs j t ys, folded ks]) auto
  moreover have "total_wait (t + snd j) js \<le> total_wait (t + snd j) (xs @ ys)"
    using Cons rest by simp
  ultimately show ?case by simp
qed simp

lemma total_turnaround: "(\<Sum>(i, r, ta, w) \<leftarrow> fifo_rows t js. ta) = total_wait t js + (\<Sum>j\<leftarrow>js. snd j)"
  by (induction t js rule: fifo_rows.induct) auto

lemma total_response: "(\<Sum>(i, r, ta, w) \<leftarrow> fifo_rows t js. r) = total_wait t js"
  by (induction t js rule: fifo_rows.induct) auto

lemma length_fifo_rows [simp]: "length (fifo_rows t js) = length js"
  by (induction t js rule: fifo_rows.induct) auto

lemma report_fifo:
  "js \<noteq> [] \<Longrightarrow> report (fifo_rows 0 js) = Inr (fifo_rows 0 js, total_wait 0 js / of_nat (length js),
     (total_wait 0 js + (\<Sum>j\<leftarrow>js. snd j)) / of_nat (length js), total_wait 0 js / of_nat (length js))"
  using total_turnaround [of 0 js] total_response [of 0 js]
  by (simp add: report_def average_def total_wait_def)

text \<open>
  C24: Shortest job first is optimal: for every non-empty job list the average response, turnaround and
  wait that the program reports for \<open>SJF\<close> are at most those it reports for \<open>FIFO\<close> on the same jobs in
  any order.
\<close>

theorem sjf_minimises_averages:
  assumes "js \<noteq> []" and "mset ks = mset js"
  shows "\<exists>rows1 r1 t1 w1 rows2 r2 t2 w2.
    solve n ''SJF'' q js = Some (Inr (rows1, r1, t1, w1)) \<and>
    solve n ''FIFO'' q ks = Some (Inr (rows2, r2, t2, w2)) \<and> r1 \<le> r2 \<and> t1 \<le> t2 \<and> w1 \<le> w2"
proof -
  have ms: "mset (sjf js) = mset ks" using assms by (simp add: sjf_def)
  then have len: "length (sjf js) = length ks" and ne: "sjf js \<noteq> []" "ks \<noteq> []"
    using assms mset_eq_length [OF ms] by auto
  have "(\<Sum>j\<leftarrow>sjf js. snd j) = (\<Sum>j\<leftarrow>ks. snd j)"
    using ms by (metis mset_map sum_mset_sum_list)
  moreover have "total_wait 0 (sjf js) \<le> total_wait 0 ks"
    using total_wait_sorted_least ms by (simp add: sjf_def)
  ultimately show ?thesis
    using report_fifo [OF ne(1)] report_fifo [OF ne(2)] len by (simp add: solve_def divide_right_mono)
qed

theorem sjf_minimises_averages_witness:
  "\<exists>rows1 r1 t1 w1 rows2 r2 t2 w2.
    solve 0 ''SJF'' 1 [(1, 1), (0, 3)] = Some (Inr (rows1, r1, t1, w1)) \<and>
    solve 0 ''FIFO'' 1 [(0, 3), (1, 1)] = Some (Inr (rows2, r2, t2, w2)) \<and> r1 \<le> r2 \<and> t1 \<le> t2 \<and> w1 \<le> w2"
  by (rule sjf_minimises_averages) simp_all

section \<open>Round robin accounts for every job\<close>








lemma rr_step_Cons:
  assumes "runlist s = (i, r) # rest" and "response s i = Some resp" and "lastran s i = Some la"
    and "waited s i = Some w"
  shows "rr_step q s = Inr (s\<lparr>runlist := rest @ (if r > q then [(i, r - q)] else []),
      response := (if resp = -1 then (response s)(i \<mapsto> thetime s) else response s),
      waited := (waited s)(i \<mapsto> w + (thetime s - la)),
      turnaround := (if r > q then turnaround s else (turnaround s)(i \<mapsto> thetime s + r)),
      jobcount := (if r > q then jobcount s else jobcount s - 1),
      thetime := thetime s + min r q, lastran := (lastran s)(i \<mapsto> thetime s + min r q)\<rparr>)"
  using assms by (simp add: rr_step_def py_pop_def remove_nth_def py_lookup_def)






text \<open>Job lists as the program builds them: numbered from zero.\<close>

definition numbered :: "job list \<Rightarrow> bool" where
  "numbered js \<longleftrightarrow> map fst js = [0..<length js]"


lemma numbered_less: "numbered js \<Longrightarrow> (i, r) \<in> set js \<Longrightarrow> i < length js"
  unfolding numbered_def by (metis atLeastLessThan_iff fst_conv image_eqI set_map set_upt)






section \<open>A quantum that no job exceeds\<close>

definition row_set :: "rr \<Rightarrow> row \<Rightarrow> bool" where
  "row_set s = (\<lambda>(i, r, t, w). response s i = Some r \<and> turnaround s i = Some t \<and> waited s i = Some w)"

lemma rr_rows_fifo:
  "list_all (row_set s) (fifo_rows t js) \<Longrightarrow> rr_rows s (map fst js) = Inr (fifo_rows t js)"
  by (induction t js rule: fifo_rows.induct) (auto simp: row_set_def)

lemma rr_long_quantum:
  assumes "\<forall>(i, r) \<in> set (runlist s). r \<le> q \<and> response s i = Some (-1) \<and> lastran s i = Some 0 \<and> waited s i = Some 0"
    and "distinct (map fst (runlist s))" and "jobcount s = int (length (runlist s))"
  shows "\<exists>t. loop (Suc (length (runlist s))) rr_busy (rr_step q) s = Some (Inr t) \<and>
    list_all (row_set t) (fifo_rows (thetime s) (runlist s)) \<and>
    (\<forall>i. i \<notin> fst ` set (runlist s) \<longrightarrow> response t i = response s i \<and> turnaround t i = turnaround s i \<and> waited t i = waited s i)"
  using assms
proof (induction "runlist s" arbitrary: s)
  case Nil
  then show ?case by (simp add: rr_busy_def)
next
  case (Cons j rest)
  obtain i r where j: "j = (i, r)" by (cases j)
  note l = Cons.hyps(2) [symmetric, unfolded j]
  have i: "i \<notin> fst ` set rest" "r \<le> q" "response s i = Some (-1)" "lastran s i = Some 0" "waited s i = Some 0"
    using Cons.prems l by auto
  let ?u = "s\<lparr>runlist := rest, response := (response s)(i \<mapsto> thetime s), waited := (waited s)(i \<mapsto> thetime s),
      turnaround := (turnaround s)(i \<mapsto> thetime s + r), jobcount := jobcount s - 1,
      thetime := thetime s + r, lastran := (lastran s)(i \<mapsto> thetime s + r)\<rparr>"
  have step: "rr_step q s = Inr ?u" using rr_step_Cons [OF l i(3-5), of q] i(2) by (simp add: min_def)
  have "\<exists>t. loop (Suc (length (runlist ?u))) rr_busy (rr_step q) ?u = Some (Inr t) \<and>
    list_all (row_set t) (fifo_rows (thetime ?u) (runlist ?u)) \<and>
    (\<forall>k. k \<notin> fst ` set (runlist ?u) \<longrightarrow> response t k = response ?u k \<and> turnaround t k = turnaround ?u k \<and> waited t k = waited ?u k)"
  proof (rule Cons.hyps(1))
    have "k \<noteq> i" if "(k, x) \<in> set rest" for k x using that i(1) by force
    then show "\<forall>(k, x) \<in> set (runlist ?u). x \<le> q \<and> response ?u k = Some (-1) \<and> lastran ?u k = Some 0 \<and> waited ?u k = Some 0"
      using Cons.prems(1) l by auto
  qed (use Cons.prems l in auto)
  then obtain t where t: "loop (Suc (length rest)) rr_busy (rr_step q) ?u = Some (Inr t)"
      "list_all (row_set t) (fifo_rows (thetime s + r) rest)"
      "\<And>k. k \<notin> fst ` set rest \<Longrightarrow> response t k = response ?u k \<and> turnaround t k = turnaround ?u k \<and> waited t k = waited ?u k"
    by auto
  have "rr_busy s" using Cons.prems(3) l by (simp add: rr_busy_def)
  then have "loop (Suc (length (runlist s))) rr_busy (rr_step q) s = Some (Inr t)" using t(1) step l by simp
  moreover have "list_all (row_set t) (fifo_rows (thetime s) (runlist s))"
    using t(2) t(3) [OF i(1)] l by (simp add: row_set_def)
  ultimately show ?case using t(3) l by auto
qed

text \<open>
  With a quantum that no job exceeds, round robin is FIFO: the program reports the same
  statistics and the same averages for both.
\<close>

theorem rr_long_quantum_is_fifo:
  assumes "numbered js" and "\<forall>j \<in> set js. snd j \<le> of_int q" and "length js < n"
  shows "solve n ''RR'' q js = solve m ''FIFO'' q js"
proof -
  have "\<forall>(i, r) \<in> set js. r \<le> of_int q \<and> i < length js"
    using assms(2) numbered_less [OF assms(1)] by auto
  then have "\<exists>t. loop (Suc (length (runlist (rr_init js)))) rr_busy (rr_step (of_int q)) (rr_init js) = Some (Inr t) \<and>
    list_all (row_set t) (fifo_rows (thetime (rr_init js)) (runlist (rr_init js))) \<and>
    (\<forall>i. i \<notin> fst ` set (runlist (rr_init js)) \<longrightarrow> response t i = response (rr_init js) i \<and>
       turnaround t i = turnaround (rr_init js) i \<and> waited t i = waited (rr_init js) i)"
    by (intro rr_long_quantum) (use assms(1) in \<open>auto simp: rr_init_def numbered_def\<close>)
  then obtain t where t: "loop (Suc (length js)) rr_busy (rr_step (of_int q)) (rr_init js) = Some (Inr t)"
      "list_all (row_set t) (fifo_rows 0 js)" by (auto simp: rr_init_def)
  have "loop n rr_busy (rr_step (of_int q)) (rr_init js) = Some (Inr t)"
    using loop_mono [OF t(1)] assms(3) by simp
  moreover have "rr_rows t [0..<length js] = Inr (fifo_rows 0 js)"
    using rr_rows_fifo [OF t(2)] assms(1) by (simp add: numbered_def)
  ultimately show ?thesis by (simp add: solve_def)
qed

theorem rr_long_quantum_is_fifo_witness:
  "solve 3 ''RR'' 5 [(0, 5), (1, 3)] = solve 0 ''FIFO'' 5 [(0, 5), (1, 3)]"
  by (rule rr_long_quantum_is_fifo) (simp_all add: numbered_def upt_rec)

end
