(* ===== verification/Lottery.thy ===== *)
theory Lottery
  imports PyString
begin

text \<open>
  The lottery scheduler \<open>src/Sem3/BSYS/09_Lottery/lottery.py\<close>: the job list with run times and
  tickets, and the rounds that draw a number, find the job that holds the winning ticket and do
  the accounting. The variables that hold the winner keep their value from one round to the
  next; before the first winner they are unbound.
\<close>

section \<open>Job lists\<close>

text \<open>A job: its number, the time it still needs and its tickets.\<close>

type_synonym ljob = "int \<times> int \<times> int"

text \<open>\<open>while x == 0: x = int(limit * random.random())\<close>\<close>

fun draw_nonzero :: "int \<Rightarrow> draws \<Rightarrow> (int \<times> draws) res" where
  "draw_nonzero limit [] = Inl OutOfDraws"
| "draw_nonzero limit (x # rs) =
     (if rand_below x limit = 0 then draw_nonzero limit rs else Inr (rand_below x limit, rs))"

fun random_jobs :: "nat \<Rightarrow> int \<Rightarrow> int \<Rightarrow> int \<Rightarrow> draws \<Rightarrow> (ljob list \<times> draws) res" where
  "random_jobs 0 jobnum maxlen maxticket rs = Inr ([], rs)"
| "random_jobs (Suc n) jobnum maxlen maxticket rs =
     rbind (draw_nonzero maxlen rs) (\<lambda>(runtime, rs1).
     rbind (draw_nonzero maxticket rs1) (\<lambda>(tickets, rs2).
     rbind (random_jobs n (jobnum + 1) maxlen maxticket rs2) (\<lambda>(js, rs3).
       Inr ((jobnum, runtime, tickets) # js, rs3))))"

fun listed_jobs :: "int \<Rightarrow> string list \<Rightarrow> ljob list res" where
  "listed_jobs jobnum [] = Inr []"
| "listed_jobs jobnum (entry # es) =
     (case split_on CHR '':'' entry of
        [runtime, tickets] \<Rightarrow>
          rbind (py_int runtime) (\<lambda>r. rbind (py_int tickets) (\<lambda>t.
          rbind (listed_jobs (jobnum + 1) es) (\<lambda>js. Inr ((jobnum, r, t) # js))))
      | _ \<Rightarrow> Inl ValueError)"

definition run_total :: "ljob list \<Rightarrow> int" where
  "run_total js = (\<Sum>(j, r, t) \<leftarrow> js. r)"

definition ticket_total :: "ljob list \<Rightarrow> int" where
  "ticket_total js = (\<Sum>(j, r, t) \<leftarrow> js. t)"

section \<open>The drawing\<close>

record lottery =
  ljobs :: "ljob list"
  tickTotal :: int
  jobs_left :: int
  clock :: int
  won :: "ljob option"

text \<open>The inner loop: the first job with which the running sum exceeds the winning ticket.\<close>

fun winning_job :: "int \<Rightarrow> int \<Rightarrow> ljob list \<Rightarrow> ljob option" where
  "winning_job current winner [] = None"
| "winning_job current winner ((job, runtime, tickets) # js) =
     (if current + tickets > winner then Some (job, runtime, tickets)
      else winning_job (current + tickets) winner js)"

text \<open>The accounting of a round for the winner.\<close>

definition account :: "int \<Rightarrow> ljob \<Rightarrow> lottery \<Rightarrow> lottery res" where
  "account quantum = (\<lambda>(wjob, wrun, wtix) s.
     (let wrun1 = (if wrun \<ge> quantum then wrun - quantum else 0);
          wtix1 = (if wrun1 = 0 then 0 else wtix)
      in rbind (py_set (ljobs s) wjob (wjob, wrun1, wtix1)) (\<lambda>l.
           Inr (s\<lparr>ljobs := l, clock := clock s + quantum, won := Some (wjob, wrun1, wtix1),
                  tickTotal := (if wrun1 = 0 then tickTotal s - wtix else tickTotal s),
                  jobs_left := (if wrun1 = 0 then jobs_left s - 1 else jobs_left s)\<rparr>))))"

definition hold_draw :: "int \<Rightarrow> rat \<Rightarrow> lottery \<Rightarrow> lottery res" where
  "hold_draw quantum x s =
     (if tickTotal s = 0 then Inl ZeroDivisionError
      else let winner = rand_below x 1000001 mod tickTotal s;
               w = (case winning_job 0 winner (ljobs s) of None \<Rightarrow> won s | Some j \<Rightarrow> Some j)
           in case w of None \<Rightarrow> Inl NameError | Some j \<Rightarrow> account quantum j s)"

text \<open>\<open>for i in range(runTotal)\<close>, left when no job remains.\<close>

fun draws_for :: "nat \<Rightarrow> int \<Rightarrow> draws \<Rightarrow> lottery \<Rightarrow> lottery res" where
  "draws_for 0 quantum rs s = Inr s"
| "draws_for (Suc n) quantum rs s =
     rbind (draw rs) (\<lambda>(x, rs').
     rbind (hold_draw quantum x s) (\<lambda>t. if jobs_left t = 0 then Inr t else draws_for n quantum rs' t))"

definition start :: "ljob list \<Rightarrow> lottery" where
  "start js = \<lparr>ljobs = js, tickTotal = ticket_total js, jobs_left = int (length js), clock = 0, won = None\<rparr>"

definition run_jobs :: "int \<Rightarrow> draws \<Rightarrow> ljob list \<Rightarrow> lottery res" where
  "run_jobs quantum rs js = draws_for (nat (run_total js)) quantum rs (start js)"

definition main :: "string \<Rightarrow> nat \<Rightarrow> int \<Rightarrow> int \<Rightarrow> int \<Rightarrow> draws \<Rightarrow> lottery res" where
  "main jlist jobs maxlen maxticket quantum rs =
     (if jlist = [] then rbind (random_jobs jobs 0 maxlen maxticket rs) (\<lambda>(js, rs'). run_jobs quantum rs' js)
      else rbind (listed_jobs 0 (split_on CHR '','' jlist)) (run_jobs quantum rs))"

section \<open>The winning ticket\<close>

lemma ticket_total_simps [simp]:
  "ticket_total [] = 0" "ticket_total ((j, r, t) # js) = t + ticket_total js"
  by (simp_all add: ticket_total_def)

lemma ticket_total_nonneg: "\<forall>(j, r, t) \<in> set js. 0 \<le> t \<Longrightarrow> 0 \<le> ticket_total js"
  by (induction js) auto

lemma winning_job_mem: "winning_job c w js = Some j \<Longrightarrow> j \<in> set js"
  by (induction c w js rule: winning_job.induct) (auto split: if_splits)

lemma winning_job_interval:
  assumes "\<forall>(j, r, t) \<in> set js. 0 \<le> t" and "distinct js" and "i < length js" and "c \<le> w"
  shows "winning_job c w js = Some (js ! i) \<longleftrightarrow>
    c + ticket_total (take i js) \<le> w \<and> w < c + ticket_total (take (Suc i) js)"
  using assms
proof (induction js arbitrary: c i)
  case (Cons j js)
  obtain n r t where j: "j = (n, r, t)" by (cases j)
  have nonneg: "\<forall>(j, r, t) \<in> set (take i js). 0 \<le> t" for i using Cons.prems(1) by (auto dest: in_set_takeD)
  show ?case
  proof (cases i)
    case 0
    have "winning_job (c + t) w js \<noteq> Some j" using winning_job_mem Cons.prems(2) by fastforce
    with 0 j Cons.prems(4) show ?thesis by auto
  next
    case (Suc k)
    then have k: "k < length js" using Cons.prems(3) by simp
    then have "js ! k \<noteq> j" using nth_mem Cons.prems(2) by fastforce
    note k = k this
    show ?thesis
    proof (cases "w < c + t")
      case True
      with ticket_total_nonneg [OF nonneg, of k] Suc k j show ?thesis by auto
    next
      case False
      with Cons.IH [of k "c + t"] Cons.prems Suc k j show ?thesis by (auto simp: add.assoc)
    qed
  qed
qed simp

text \<open>
  A fair lottery: of the numbers below the ticket total, exactly as many make a job win as the
  job holds tickets.
\<close>

theorem lottery_proportional:
  assumes "\<forall>(j, r, t) \<in> set js. 0 \<le> t" and "distinct js"
  shows "\<forall>i < length js. card {w. 0 \<le> w \<and> w < ticket_total js \<and> winning_job 0 w js = Some (js ! i)} =
      nat (snd (snd (js ! i)))"
proof (intro allI impI)
  fix i
  assume i: "i < length js"
  let ?a = "ticket_total (take i js)" and ?b = "ticket_total (take (Suc i) js)"
  have app: "ticket_total (xs @ ys) = ticket_total xs + ticket_total ys" for xs ys
    by (simp add: ticket_total_def)
  have "0 \<le> ?a" "0 \<le> ticket_total (drop (Suc i) js)"
    using assms(1) by (auto intro!: ticket_total_nonneg dest: in_set_takeD in_set_dropD)
  moreover have "ticket_total js = ?b + ticket_total (drop (Suc i) js)" by (simp flip: app)
  ultimately have "{w. 0 \<le> w \<and> w < ticket_total js \<and> winning_job 0 w js = Some (js ! i)} = {?a..<?b}"
    using winning_job_interval [OF assms i, of 0] by auto
  moreover have "?b = ?a + snd (snd (js ! i))"
    by (simp add: take_Suc_conv_app_nth [OF i] app) (cases "js ! i"; simp)
  ultimately show "card {w. 0 \<le> w \<and> w < ticket_total js \<and> winning_job 0 w js = Some (js ! i)} = nat (snd (snd (js ! i)))"
    by simp
qed

theorem lottery_proportional_witness:
  "card {w. 0 \<le> w \<and> w < ticket_total [(0, 5, 75), (1, 5, 25)] \<and>
      winning_job 0 w [(0, 5, 75), (1, 5, 25)] = Some (1, 5, 25)} = 25"
proof -
  let ?js = "[(0, 5, 75), (1, 5, 25)] :: ljob list"
  have "\<forall>(j, r, t) \<in> set ?js. 0 \<le> t" "distinct ?js" by simp_all
  from lottery_proportional [OF this, rule_format, of 1] show ?thesis
    by (simp del: winning_job.simps ticket_total_simps)
qed

section \<open>Every job is served\<close>

text \<open>Between rounds: the jobs are numbered by position, hold tickets exactly while they need time,
  and the counters agree with the list.\<close>

definition lottery_inv :: "lottery \<Rightarrow> bool" where
  "lottery_inv s \<longleftrightarrow> (\<forall>i < length (ljobs s). fst (ljobs s ! i) = int i) \<and>
     (\<forall>(j, r, t) \<in> set (ljobs s). 0 \<le> r \<and> 0 \<le> t \<and> (0 < t \<longleftrightarrow> 0 < r)) \<and>
     tickTotal s = ticket_total (ljobs s) \<and>
     jobs_left s = int (length (filter (\<lambda>(j, r, t). 0 < r) (ljobs s)))"

lemma winning_job_found:
  "\<forall>(j, r, t) \<in> set js. 0 \<le> t \<Longrightarrow> c \<le> w \<Longrightarrow> w < c + ticket_total js \<Longrightarrow>
   \<exists>j r t. winning_job c w js = Some (j, r, t) \<and> (j, r, t) \<in> set js \<and> 0 < t"
proof (induction c w js rule: winning_job.induct)
  case (2 c w job runtime tickets js)
  then show ?case by (cases "w < c + tickets") fastforce+
qed simp

lemma totals_update:
  assumes "i < length js" and "js ! i = (j, r, t)"
  shows "ticket_total (js[i := (j', r', t')]) = ticket_total js - t + t'"
    and "run_total (js[i := (j', r', t')]) = run_total js - r + r'"
  using assms by (induction js arbitrary: i) (auto simp: ticket_total_def run_total_def split: nat.splits)

lemma tickets_positive:
  "\<forall>(j, r, t) \<in> set js. 0 \<le> t \<and> (0 < t \<longleftrightarrow> 0 < r) \<Longrightarrow> filter (\<lambda>(j, r, t). 0 < r) js \<noteq> [] \<Longrightarrow> 0 < ticket_total js"
proof (induction js)
  case (Cons x js)
  have "0 \<le> ticket_total js" using Cons.prems by (intro ticket_total_nonneg) auto
  with Cons show ?case by (cases x) (auto split: if_splits)
qed simp

lemma run_positive:
  "\<forall>(j, r, t) \<in> set js. 0 \<le> r \<Longrightarrow> filter (\<lambda>(j, r, t). 0 < r) js \<noteq> [] \<Longrightarrow> 0 < run_total js"
proof (induction js)
  case (Cons x js)
  have "0 \<le> run_total js" using Cons.prems by (auto simp: run_total_def intro!: sum_list_nonneg)
  with Cons show ?case by (cases x) (auto simp: run_total_def split: if_splits)
qed simp

lemma totals_zero: "\<forall>(j, r, t) \<in> set js. r = 0 \<and> t = 0 \<Longrightarrow> run_total js = 0 \<and> ticket_total js = 0"
  by (induction js) (auto simp: run_total_def)

lemma hold_draw_ok:
  assumes inv: "lottery_inv s" and left: "0 < jobs_left s" and q: "1 \<le> q"
  shows "\<exists>t. hold_draw q x s = Inr t \<and> lottery_inv t \<and> clock t = clock s + q \<and>
    run_total (ljobs t) < run_total (ljobs s) \<and> (q = 1 \<longrightarrow> run_total (ljobs t) = run_total (ljobs s) - 1)"
proof -
  have nonneg: "\<forall>(j, r, t) \<in> set (ljobs s). 0 \<le> t" and tt: "tickTotal s = ticket_total (ljobs s)"
    using inv by (auto simp: lottery_inv_def)
  have "filter (\<lambda>(j, r, t). 0 < r) (ljobs s) \<noteq> []" using inv left by (auto simp: lottery_inv_def)
  then have pos: "0 < tickTotal s" using tickets_positive [of "ljobs s"] inv tt by (force simp: lottery_inv_def)
  let ?w = "rand_below x 1000001 mod tickTotal s"
  have "0 \<le> ?w" "?w < 0 + ticket_total (ljobs s)" using pos tt by auto
  then obtain j r t where win: "winning_job 0 ?w (ljobs s) = Some (j, r, t)" "(j, r, t) \<in> set (ljobs s)" "0 < t"
    using winning_job_found [OF nonneg] by blast
  then obtain i where i: "i < length (ljobs s)" "ljobs s ! i = (j, r, t)" "j = int i"
    using inv by (fastforce simp: in_set_conv_nth lottery_inv_def)
  have r: "0 < r" using inv win by (auto simp: lottery_inv_def)
  let ?r = "if r \<ge> q then r - q else 0"
  let ?t = "if ?r = 0 then 0 else t"
  let ?u = "s\<lparr>ljobs := (ljobs s)[i := (j, ?r, ?t)], clock := clock s + q, won := Some (j, ?r, ?t),
      tickTotal := (if ?r = 0 then tickTotal s - t else tickTotal s),
      jobs_left := (if ?r = 0 then jobs_left s - 1 else jobs_left s)\<rparr>"
  have step: "hold_draw q x s = Inr ?u" using pos win(1) i by (simp add: hold_draw_def account_def Let_def)
  have "length (filter (\<lambda>(j, r, t). 0 < r) ((ljobs s)[i := (j, ?r, ?t)])) + (if 0 < r then 1 else 0) =
      length (filter (\<lambda>(j, r, t). 0 < r) (ljobs s)) + (if 0 < ?r then 1 else 0)"
    using length_filter_update [OF i(1), of "\<lambda>(j, r, t). 0 < r" "(j, ?r, ?t)"] i(2) by simp
  then have cnt: "int (length (filter (\<lambda>(j, r, t). 0 < r) (ljobs s))) =
      int (length (filter (\<lambda>(j, r, t). 0 < r) ((ljobs s)[i := (j, ?r, ?t)]))) + (if ?r = 0 then 1 else 0)"
    using r q by (auto split: if_splits)
  have "lottery_inv ?u"
    unfolding lottery_inv_def
  proof (intro conjI)
    show "\<forall>(j, r, t) \<in> set (ljobs ?u). 0 \<le> r \<and> 0 \<le> t \<and> (0 < t \<longleftrightarrow> 0 < r)"
    proof
      fix y
      assume "y \<in> set (ljobs ?u)"
      then have "y = (j, ?r, ?t) \<or> y \<in> set (ljobs s)" using set_update_subset_insert by fastforce
      then show "case y of (j, r, t) \<Rightarrow> 0 \<le> r \<and> 0 \<le> t \<and> (0 < t \<longleftrightarrow> 0 < r)"
        using inv win(3) q by (auto simp: lottery_inv_def split: if_splits)
    qed
    show "tickTotal ?u = ticket_total (ljobs ?u)" using totals_update(1) [OF i(1,2)] tt by simp
    show "jobs_left ?u = int (length (filter (\<lambda>(j, r, t). 0 < r) (ljobs ?u)))"
      using cnt inv by (simp add: lottery_inv_def)
  qed (use inv i in \<open>auto simp: lottery_inv_def nth_list_update\<close>)
  then show ?thesis using step totals_update(2) [OF i(1,2)] r q by auto
qed

lemma draws_for_ok:
  assumes "lottery_inv s" and "0 < jobs_left s" and "1 \<le> q" and "run_total (ljobs s) \<le> int n" and "n \<le> length rs"
  shows "\<exists>t. draws_for n q rs s = Inr t \<and> lottery_inv t \<and> jobs_left t = 0 \<and>
    clock t + q * run_total (ljobs t) \<le> clock s + q * run_total (ljobs s) \<and>
    (q = 1 \<longrightarrow> clock t + run_total (ljobs t) = clock s + run_total (ljobs s))"
  using assms
proof (induction n arbitrary: s rs)
  case 0
  have "0 < run_total (ljobs s)"
    using 0(1,2) by (intro run_positive) (auto simp: lottery_inv_def)
  then show ?case using 0(4) by simp
next
  case (Suc n)
  then obtain x rs' where rs: "rs = x # rs'" by (cases rs) auto
  obtain t where t: "hold_draw q x s = Inr t" "lottery_inv t" "clock t = clock s + q"
      "run_total (ljobs t) < run_total (ljobs s)" "q = 1 \<longrightarrow> run_total (ljobs t) = run_total (ljobs s) - 1"
    using hold_draw_ok [OF Suc.prems(1-3)] by blast
  have "q * run_total (ljobs t) \<le> q * (run_total (ljobs s) - 1)"
    using t(4) Suc.prems(3) by (intro mult_left_mono) auto
  then have clk: "clock t + q * run_total (ljobs t) \<le> clock s + q * run_total (ljobs s)"
    using t(3) by (simp add: right_diff_distrib)
  show ?case
  proof (cases "jobs_left t = 0")
    case True
    then show ?thesis using t clk rs by auto
  next
    case False
    then have "0 < jobs_left t" using t(2) by (auto simp: lottery_inv_def)
    with Suc.IH [OF t(2) this Suc.prems(3), of rs'] Suc.prems(4,5) t clk rs False show ?thesis by fastforce
  qed
qed

text \<open>
  C25: Every job is served, whatever numbers are drawn: with run times, tickets and a quantum of at
  least one, the rounds end within the announced number of draws with no job left, no time and
  no ticket in play, and without an error; the clock has then advanced by at
  most the quantum times the total run time, and by exactly the total run time if the quantum is one.
\<close>

theorem lottery_completes:
  assumes "js \<noteq> []" and "\<forall>i < length js. fst (js ! i) = int i" and "\<forall>(j, r, t) \<in> set js. 1 \<le> r \<and> 1 \<le> t"
    and "1 \<le> q" and "run_total js \<le> int (length rs)"
  shows "\<exists>s. run_jobs q rs js = Inr s \<and> jobs_left s = 0 \<and> tickTotal s = 0 \<and>
    (\<forall>(j, r, t) \<in> set (ljobs s). r = 0 \<and> t = 0) \<and> clock s \<le> q * run_total js \<and> (q = 1 \<longrightarrow> clock s = run_total js)"
proof -
  have all: "filter (\<lambda>(j, r, t). 0 < r) js = js" using assms(3) by (auto simp: filter_id_conv)
  have inv: "lottery_inv (start js)"
    unfolding lottery_inv_def using assms(2,3) by (auto simp: start_def all)
  have "0 \<le> run_total js" using run_positive [of js] all assms(1,3) by force
  moreover from this have "nat (run_total js) \<le> length rs" using assms(5) by linarith
  ultimately obtain s where s: "run_jobs q rs js = Inr s" "lottery_inv s" "jobs_left s = 0"
      "clock s + q * run_total (ljobs s) \<le> q * run_total js"
      "q = 1 \<longrightarrow> clock s + run_total (ljobs s) = run_total js"
    using draws_for_ok [OF inv _ assms(4), of "nat (run_total js)" rs] assms(1,5)
    by (auto simp: run_jobs_def start_def)
  have none: "\<forall>(j, r, t) \<in> set (ljobs s). r = 0 \<and> t = 0"
    using s(2,3) by (force simp: lottery_inv_def filter_empty_conv)
  then have "run_total (ljobs s) = 0" "ticket_total (ljobs s) = 0" using totals_zero by auto
  with s none show ?thesis by (auto simp: lottery_inv_def)
qed

theorem lottery_completes_witness:
  "\<exists>s. run_jobs 1 [1/2, 0, 1/3] [(0, 2, 10), (1, 1, 5)] = Inr s \<and> jobs_left s = 0 \<and> clock s = 3"
  using lottery_completes [of "[(0, 2, 10), (1, 1, 5)]" 1 "[1/2, 0, 1/3]"]
  by (auto simp: run_total_def less_Suc_eq)

text \<open>
  A job without tickets stops the program: when it is the only one left the ticket total is zero
  and the next draw divides by it.
\<close>

theorem lottery_no_tickets: "main ''3:0'' n m k q (x # rs) = Inl ZeroDivisionError"
proof -
  have "split_on CHR '','' ''3:0'' = [''3:0'']" "split_on CHR '':'' ''3:0'' = [''3'', ''0'']" "py_int ''3'' = Inr 3" "py_int ''0'' = Inr 0"
    by code_simp+
  then show ?thesis
    by (simp add: main_def run_jobs_def run_total_def numeral_3_eq_3 start_def hold_draw_def)
qed

end
