(* ===== verification/Mlfq.thy ===== *)
theory Mlfq
  imports PyString
begin

text \<open>
  The multi-level feedback queue \<open>src/Sem3/BSYS/08_MLF/mlfq.py\<close>: the configuration of the levels, the
  job list, and the main loop with priority boosts, delivery of finished I/Os, one tick of the
  chosen job and the rules for the end of a job, an I/O, a time slice and an allotment.

  The dictionaries \<open>quantum\<close>, \<open>allotment\<close>, \<open>queue\<close> and \<open>ioDone\<close> are maps; \<open>job\<close>, whose keys are
  the numbers from zero on, is a list.
\<close>

section \<open>Configuration\<close>

record mcfg =
  numQueues :: int
  quantum :: "int \<rightharpoonup> int"
  allotment :: "int \<rightharpoonup> int"
  boost :: int
  ioTime :: int
  stay :: bool
  iobump :: bool

definition hiQueue :: "mcfg \<Rightarrow> int" where
  "hiQueue c = numQueues c - 1"

definition levels :: "int \<Rightarrow> int \<Rightarrow> int \<rightharpoonup> int" where
  "levels n v = (\<lambda>i. if 0 \<le> i \<and> i < n then Some v else None)"

fun quantum_levels :: "int \<Rightarrow> string list \<Rightarrow> (int \<rightharpoonup> int) res" where
  "quantum_levels qc [] = Inr Map.empty"
| "quantum_levels qc (s # ss) =
     rbind (py_int s) (\<lambda>v. rbind (quantum_levels (qc - 1) ss) (\<lambda>m. Inr (m(qc \<mapsto> v))))"

fun allotment_levels :: "int \<Rightarrow> string list \<Rightarrow> (int \<rightharpoonup> int) res" where
  "allotment_levels qc [] = Inr Map.empty"
| "allotment_levels qc (s # ss) =
     rbind (py_int s) (\<lambda>v. if qc \<noteq> 0 \<and> v \<le> 0 then Inl SystemExit
       else rbind (allotment_levels (qc - 1) ss) (\<lambda>m. Inr (m(qc \<mapsto> v))))"

definition configure ::
  "int \<Rightarrow> int \<Rightarrow> int \<Rightarrow> string \<Rightarrow> string \<Rightarrow> int \<Rightarrow> int \<Rightarrow> bool \<Rightarrow> bool \<Rightarrow> mcfg res" where
  "configure num q a quantumList allotmentList bst io st bump =
     (let qs = split_on CHR '','' quantumList; as = split_on CHR '','' allotmentList in
      rbind (if quantumList \<noteq> [] then rbind (quantum_levels (int (length qs) - 1) qs) (\<lambda>m. Inr (int (length qs), m))
             else Inr (num, levels num q)) (\<lambda>(n, quanta).
      rbind (if allotmentList \<noteq> [] then if n \<noteq> int (length as) then Inl SystemExit
               else allotment_levels (n - 1) as
             else Inr (levels n a)) (\<lambda>allots.
        Inr \<lparr>numQueues = n, quantum = quanta, allotment = allots, boost = bst, ioTime = io, stay = st,
             iobump = bump\<rparr>)))"

section \<open>Jobs\<close>

record mjob =
  currPri :: int
  ticksLeft :: int
  allotLeft :: int
  startTime :: int
  runTime :: int
  timeLeft :: int
  ioFreq :: int
  doingIO :: bool
  firstRun :: int
  endTime :: "int option"

datatype event = JOB_BEGINS | IO_DONE

record mlfq =
  queue :: "int \<rightharpoonup> nat list"
  job :: "mjob list"
  ioDone :: "int \<rightharpoonup> (nat \<times> event) list"
  currTime :: int
  finishedJobs :: int

definition add_event :: "int \<Rightarrow> nat \<times> event \<Rightarrow> mlfq \<Rightarrow> mlfq" where
  "add_event t e s = s\<lparr>ioDone := (ioDone s)(t \<mapsto> (case ioDone s t of None \<Rightarrow> [] | Some l \<Rightarrow> l) @ [e])\<rparr>"

definition add_job :: "mcfg \<Rightarrow> int \<times> int \<times> int \<Rightarrow> mlfq \<Rightarrow> mlfq res" where
  "add_job c = (\<lambda>(start, run, io) s.
     rbind (py_lookup (quantum c) (hiQueue c)) (\<lambda>q.
     rbind (py_lookup (allotment c) (hiQueue c)) (\<lambda>a.
       Inr (add_event start (length (job s), JOB_BEGINS)
         (s\<lparr>job := job s @ [\<lparr>currPri = hiQueue c, ticksLeft = q, allotLeft = a, startTime = start, runTime = run,
             timeLeft = run, ioFreq = io, doingIO = False, firstRun = -1, endTime = None\<rparr>]\<rparr>)))))"

definition parse_job :: "string \<Rightarrow> (int \<times> int \<times> int) res" where
  "parse_job j =
     (case split_on CHR '','' j of
        [x, y, z] \<Rightarrow> rbind (py_int x) (\<lambda>start. rbind (py_int y) (\<lambda>run. rbind (py_int z) (\<lambda>io. Inr (start, run, io))))
      | _ \<Rightarrow> Inl SystemExit)"

fun random_jobs :: "nat \<Rightarrow> int \<Rightarrow> int \<Rightarrow> draws \<Rightarrow> (int \<times> int \<times> int) list res" where
  "random_jobs 0 maxlen maxio rs = Inr []"
| "random_jobs (Suc n) maxlen maxio rs =
     rbind (draw rs) (\<lambda>(x, rs1). rbind (draw rs1) (\<lambda>(y, rs2).
     rbind (random_jobs n maxlen maxio rs2) (\<lambda>l.
       Inr ((0, py_trunc (x * of_int (maxlen - 1) + 1), py_trunc (y * of_int (maxio - 1) + 1)) # l))))"

definition empty_mlfq :: "mcfg \<Rightarrow> mlfq" where
  "empty_mlfq c = \<lparr>queue = (\<lambda>q. if 0 \<le> q \<and> q < numQueues c then Some [] else None), job = [],
     ioDone = Map.empty, currTime = 0, finishedJobs = 0\<rparr>"

definition load_jobs :: "mcfg \<Rightarrow> (int \<times> int \<times> int) list \<Rightarrow> mlfq res" where
  "load_jobs c js = rfold (add_job c) js (empty_mlfq c)"

definition load_jlist :: "mcfg \<Rightarrow> string \<Rightarrow> mlfq res" where
  "load_jlist c jlist =
     rfold (\<lambda>j s. rbind (parse_job j) (\<lambda>x. add_job c x s)) (split_on CHR '':'' jlist) (empty_mlfq c)"

section \<open>The main loop\<close>

definition get_job :: "mlfq \<Rightarrow> nat \<Rightarrow> mjob res" where
  "get_job s j = (if j < length (job s) then Inr (job s ! j) else Inl KeyError)"

definition put_job :: "nat \<Rightarrow> mjob \<Rightarrow> mlfq \<Rightarrow> mlfq" where
  "put_job j J s = s\<lparr>job := (job s)[j := J]\<rparr>"

text \<open>\<open>queue[q].append(j)\<close> and \<open>queue[q].pop(0)\<close>\<close>

definition enqueue :: "int \<Rightarrow> nat \<Rightarrow> mlfq \<Rightarrow> mlfq res" where
  "enqueue q j s = rbind (py_lookup (queue s) q) (\<lambda>l. Inr (s\<lparr>queue := (queue s)(q \<mapsto> l @ [j])\<rparr>))"

definition pop_front :: "int \<Rightarrow> mlfq \<Rightarrow> (nat \<times> mlfq) res" where
  "pop_front q s = rbind (py_lookup (queue s) q) (\<lambda>l.
     rbind (py_pop l 0) (\<lambda>(j, rest). Inr (j, s\<lparr>queue := (queue s)(q \<mapsto> rest)\<rparr>)))"

function FindQueue :: "(int \<rightharpoonup> nat list) \<Rightarrow> int \<Rightarrow> int res" where
  "FindQueue qs q =
     (if q > 0 then rbind (py_lookup qs q) (\<lambda>l. if l \<noteq> [] then Inr q else FindQueue qs (q - 1))
      else rbind (py_lookup qs 0) (\<lambda>l. if l \<noteq> [] then Inr 0 else Inr (-1)))"
  by pat_completeness auto
termination by (relation "measure (\<lambda>(qs, q). nat q)") auto

declare FindQueue.simps [simp del]

text \<open>The boost: the lower queues are emptied into the highest one, unfinished jobs get its
  priority.\<close>

definition boost_queue :: "mcfg \<Rightarrow> int \<Rightarrow> mlfq \<Rightarrow> mlfq res" where
  "boost_queue c q s =
     rbind (py_lookup (queue s) q) (\<lambda>l.
     rbind (rfold (\<lambda>j t. rbind (get_job t j) (\<lambda>J. if \<not> doingIO J then enqueue (hiQueue c) j t else Inr t)) l s) (\<lambda>t.
       Inr (t\<lparr>queue := (queue t)(q \<mapsto> [])\<rparr>)))"

definition boost_job :: "mcfg \<Rightarrow> nat \<Rightarrow> mlfq \<Rightarrow> mlfq res" where
  "boost_job c j s =
     rbind (get_job s j) (\<lambda>J.
       if timeLeft J > 0 then
         rbind (py_lookup (allotment c) (hiQueue c)) (\<lambda>a.
           Inr (put_job j (J\<lparr>currPri := hiQueue c, ticksLeft := a\<rparr>) s))
       else Inr s)"

definition boost_phase :: "mcfg \<Rightarrow> mlfq \<Rightarrow> mlfq res" where
  "boost_phase c s =
     (if boost c > 0 \<and> currTime s \<noteq> 0 \<and> currTime s mod boost c = 0 then
        rbind (rfold (boost_queue c) [0..numQueues c - 2] s) (rfold (boost_job c) [0..<length (job s)])
      else Inr s)"

text \<open>Jobs that begin or whose I/O is done at the current time enter their queue.\<close>

definition deliver :: "mcfg \<Rightarrow> nat \<times> event \<Rightarrow> mlfq \<Rightarrow> mlfq res" where
  "deliver c = (\<lambda>(j, ty) s.
     rbind (get_job s j) (\<lambda>J.
     rbind (py_lookup (queue s) (currPri J)) (\<lambda>l.
       Inr ((put_job j (J\<lparr>doingIO := False\<rparr>) s)
         \<lparr>queue := (queue s)(currPri J \<mapsto> (if \<not> iobump c \<or> ty = JOB_BEGINS then l @ [j] else j # l))\<rparr>))))"

definition events_at :: "mlfq \<Rightarrow> int \<Rightarrow> (nat \<times> event) list" where
  "events_at s t = (case ioDone s t of None \<Rightarrow> [] | Some l \<Rightarrow> l)"

text \<open>An I/O takes the job off its queue and schedules its return.\<close>

definition issue_io :: "mcfg \<Rightarrow> int \<Rightarrow> nat \<Rightarrow> mlfq \<Rightarrow> mlfq res" where
  "issue_io c q j s =
     rbind (pop_front q s) (\<lambda>(d, s1).
     rbind (py_assert (d = j)) (\<lambda>_.
     rbind (get_job s1 j) (\<lambda>J.
     rbind (if stay c then rbind (py_lookup (quantum c) q) (\<lambda>v. rbind (py_lookup (allotment c) q) (\<lambda>a.
              Inr (J\<lparr>doingIO := True, ticksLeft := v, allotLeft := a\<rparr>)))
            else Inr (J\<lparr>doingIO := True\<rparr>)) (\<lambda>J'.
       Inr (add_event (currTime s1 + ioTime c) (j, IO_DONE) (put_job j J' s1))))))"

text \<open>The end of a time slice: the job moves down when its allotment is used up.\<close>

definition end_slice :: "mcfg \<Rightarrow> int \<Rightarrow> nat \<Rightarrow> bool \<Rightarrow> mlfq \<Rightarrow> mlfq res" where
  "end_slice c q j issuedIO s =
     rbind (if issuedIO then Inr s
            else rbind (pop_front q s) (\<lambda>(d, s1). rbind (py_assert (d = j)) (\<lambda>_. Inr s1))) (\<lambda>s1.
     rbind (get_job s1 j) (\<lambda>J.
       let J1 = J\<lparr>allotLeft := allotLeft J - 1\<rparr> in
       if allotLeft J1 = 0 then
         (let q' = (if q > 0 then q - 1 else q) in
          rbind (py_lookup (quantum c) q') (\<lambda>v. rbind (py_lookup (allotment c) q') (\<lambda>a.
            let s2 = put_job j (J1\<lparr>currPri := (if q > 0 then q - 1 else currPri J1), ticksLeft := v, allotLeft := a\<rparr>) s1
            in if issuedIO then Inr s2 else enqueue q' j s2)))
       else rbind (py_lookup (quantum c) q) (\<lambda>v.
         let s2 = put_job j (J1\<lparr>ticksLeft := v\<rparr>) s1
         in if issuedIO then Inr s2 else enqueue q j s2)))"

definition run_job :: "mcfg \<Rightarrow> int \<Rightarrow> nat \<Rightarrow> mlfq \<Rightarrow> mlfq res" where
  "run_job c q j s =
     rbind (get_job s j) (\<lambda>J.
       let J1 = J\<lparr>timeLeft := timeLeft J - 1, ticksLeft := ticksLeft J - 1,
                  firstRun := (if firstRun J = -1 then currTime s else firstRun J)\<rparr>;
           s1 = (put_job j J1 s)\<lparr>currTime := currTime s + 1\<rparr> in
       if timeLeft J1 < 0 then Inl SystemExit
       else if timeLeft J1 = 0 then
         rbind (pop_front q (put_job j (J1\<lparr>endTime := Some (currTime s1)\<rparr>) (s1\<lparr>finishedJobs := finishedJobs s1 + 1\<rparr>)))
           (\<lambda>(d, s2). rbind (py_assert (d = j)) (\<lambda>_. Inr s2))
       else let io = (ioFreq J1 > 0 \<and> (runTime J1 - timeLeft J1) mod ioFreq J1 = 0) in
         rbind (if io then issue_io c q j s1 else Inr s1) (\<lambda>s2.
           if ticksLeft J1 = 0 then end_slice c q j io s2 else Inr s2))"

definition mlfq_tick :: "mcfg \<Rightarrow> mlfq \<Rightarrow> mlfq res" where
  "mlfq_tick c s =
     rbind (boost_phase c s) (\<lambda>s1.
     rbind (rfold (deliver c) (events_at s1 (currTime s1)) s1) (\<lambda>s2.
     rbind (FindQueue (queue s2) (hiQueue c)) (\<lambda>q.
       if q = -1 then Inr (s2\<lparr>currTime := currTime s2 + 1\<rparr>)
       else rbind (py_lookup (queue s2) q) (\<lambda>l. rbind (py_nth l 0) (\<lambda>j. rbind (get_job s2 j) (\<lambda>J.
         if currPri J \<noteq> q then Inl SystemExit else run_job c q j s2))))))"

definition unfinished :: "mlfq \<Rightarrow> bool" where
  "unfinished s \<longleftrightarrow> finishedJobs s < int (length (job s))"

text \<open>The final statistics: response and turnaround of each job, and the averages.\<close>

fun job_stats :: "mjob list \<Rightarrow> (int \<times> int) list res" where
  "job_stats [] = Inr []"
| "job_stats (J # Js) =
     (case endTime J of
        None \<Rightarrow> Inl KeyError
      | Some e \<Rightarrow> rbind (job_stats Js) (\<lambda>l. Inr ((firstRun J - startTime J, e - startTime J) # l)))"

definition mlfq_stats :: "mcfg \<Rightarrow> mlfq \<Rightarrow> ((int \<times> int) list \<times> rat \<times> rat) res" where
  "mlfq_stats c s =
     rbind (job_stats (job s)) (\<lambda>l.
       if l = [] then Inl (if numQueues c \<le> 0 then NameError else ZeroDivisionError)
       else Inr (l, of_int (\<Sum>(r, t) \<leftarrow> l. r) / of_nat (length l), of_int (\<Sum>(r, t) \<leftarrow> l. t) / of_nat (length l)))"

definition mlfq_run :: "nat \<Rightarrow> mcfg \<Rightarrow> mlfq \<Rightarrow> ((int \<times> int) list \<times> rat \<times> rat) res option" where
  "mlfq_run fuel c s = map_option (\<lambda>m. rbind m (mlfq_stats c)) (loop fuel unfinished (mlfq_tick c) s)"

definition mlfq_main ::
  "nat \<Rightarrow> mcfg \<Rightarrow> string \<Rightarrow> nat \<Rightarrow> int \<Rightarrow> int \<Rightarrow> draws \<Rightarrow> ((int \<times> int) list \<times> rat \<times> rat) res option" where
  "mlfq_main fuel c jlist numJobs maxlen maxio rs =
     (case (if jlist \<noteq> [] then load_jlist c jlist
            else rbind (random_jobs numJobs maxlen maxio rs) (load_jobs c)) of
        Inl e \<Rightarrow> Some (Inl e)
      | Inr s \<Rightarrow> mlfq_run fuel c s)"

section \<open>Where the jobs are\<close>

text \<open>
  Every unfinished job is in exactly one place: in one of the queues, or among the events that
  are still to come. The jobs are counted as a multiset, so that a job in two places, or twice in
  a queue, would be noticed.
\<close>

definition queued_jobs :: "mcfg \<Rightarrow> (int \<rightharpoonup> nat list) \<Rightarrow> nat multiset" where
  "queued_jobs c qs = (\<Sum>q\<in>{0..<numQueues c}. mset (the (qs q)))"

definition pending_jobs :: "int \<Rightarrow> mlfq \<Rightarrow> nat multiset" where
  "pending_jobs b s = (\<Sum>t\<in>{t \<in> dom (ioDone s). b \<le> t}. mset (map fst (events_at s t)))"

definition live_jobs :: "mjob list \<Rightarrow> nat multiset" where
  "live_jobs js = mset (filter (\<lambda>j. 0 < timeLeft (js ! j)) [0..<length js])"

lemma queued_jobs_update:
  assumes "0 \<le> q" and "q < numQueues c" and "qs q = Some l"
  shows "queued_jobs c (qs(q \<mapsto> l')) + mset l = queued_jobs c qs + mset l'"
proof -
  have q: "q \<in> {0..<numQueues c}" using assms by simp
  have "(\<Sum>i\<in>{0..<numQueues c} - {q}. mset (the ((qs(q \<mapsto> l')) i))) = (\<Sum>i\<in>{0..<numQueues c} - {q}. mset (the (qs i)))"
    by (rule sum.cong) auto
  then show ?thesis using assms(3) by (simp add: queued_jobs_def sum.remove [OF _ q])
qed

lemma queued_jobs_mem:
  "j \<in># queued_jobs c qs \<longleftrightarrow> (\<exists>q. 0 \<le> q \<and> q < numQueues c \<and> j \<in> set (the (qs q)))"
  by (auto simp: queued_jobs_def set_mset_sum)

lemma events_at_add:
  "events_at (add_event t e s) u = (if u = t then events_at s t @ [e] else events_at s u)"
  by (simp add: events_at_def add_event_def)

lemma pending_jobs_add:
  assumes "finite (dom (ioDone s))" and "b \<le> t"
  shows "pending_jobs b (add_event t (j, e) s) = add_mset j (pending_jobs b s)"
proof -
  let ?D = "{u \<in> dom (ioDone s). b \<le> u}" and ?f = "\<lambda>s u. mset (map fst (events_at s u))"
  have D: "{u \<in> dom (ioDone (add_event t (j, e) s)). b \<le> u} = insert t ?D"
    using assms(2) by (auto simp: add_event_def)
  have "pending_jobs b s = (\<Sum>u\<in>insert t ?D. ?f s u)"
    unfolding pending_jobs_def
    by (rule sum.mono_neutral_left) (use assms in \<open>auto simp: events_at_def split: option.splits\<close>)
  moreover have "pending_jobs b (add_event t (j, e) s) = (\<Sum>u\<in>insert t ?D. ?f s u + (if u = t then {#j#} else {#}))"
    unfolding pending_jobs_def D by (rule sum.cong) (auto simp: events_at_add)
  ultimately show ?thesis using assms(1) by (simp add: sum.distrib)
qed

lemma pending_jobs_next:
  assumes "finite (dom (ioDone s))"
  shows "pending_jobs b s = mset (map fst (events_at s b)) + pending_jobs (b + 1) s"
proof (cases "b \<in> dom (ioDone s)")
  case True
  then have "{t \<in> dom (ioDone s). b \<le> t} = insert b {t \<in> dom (ioDone s). b + 1 \<le> t}" by auto
  then show ?thesis using assms by (simp add: pending_jobs_def)
next
  case False
  then have "{t \<in> dom (ioDone s). b \<le> t} = {t \<in> dom (ioDone s). b + 1 \<le> t}" by (auto simp: le_less)
  with False show ?thesis by (auto simp: pending_jobs_def events_at_def split: option.splits)
qed

lemma live_jobs_count: "count (live_jobs js) j = (if j < length js \<and> 0 < timeLeft (js ! j) then 1 else 0)"
  by (simp add: live_jobs_def distinct_count_atmost_1 [THEN iffD1])

lemma live_jobs_update:
  "j < length js \<Longrightarrow> (0 < timeLeft J \<longleftrightarrow> 0 < timeLeft (js ! j)) \<Longrightarrow> live_jobs (js[j := J]) = live_jobs js"
  by (rule multiset_eqI) (auto simp: live_jobs_count nth_list_update)

lemma live_jobs_finish:
  "j < length js \<Longrightarrow> 0 < timeLeft (js ! j) \<Longrightarrow> timeLeft J = 0 \<Longrightarrow> live_jobs js = add_mset j (live_jobs (js[j := J]))"
  by (rule multiset_eqI) (auto simp: live_jobs_count nth_list_update)

lemma live_jobs_mem: "j \<in># live_jobs js \<longleftrightarrow> j < length js \<and> 0 < timeLeft (js ! j)"
  by (simp add: live_jobs_def)

section \<open>The invariant\<close>

definition cfg_ok :: "mcfg \<Rightarrow> bool" where
  "cfg_ok c \<longleftrightarrow> 1 \<le> numQueues c \<and> 0 \<le> ioTime c \<and>
     (\<forall>q. 0 \<le> q \<longrightarrow> q < numQueues c \<longrightarrow> quantum c q \<noteq> None \<and> allotment c q \<noteq> None)"

definition job_ok :: "mcfg \<Rightarrow> int \<Rightarrow> mjob \<Rightarrow> bool" where
  "job_ok c now J \<longleftrightarrow> 0 \<le> currPri J \<and> currPri J < numQueues c \<and> 0 \<le> timeLeft J \<and> timeLeft J \<le> runTime J \<and>
     (firstRun J = -1 \<and> timeLeft J = runTime J \<or>
      firstRun J \<noteq> -1 \<and> startTime J \<le> firstRun J \<and> firstRun J + runTime J \<le> now + timeLeft J) \<and>
     (if timeLeft J = 0 then \<exists>e. endTime J = Some e \<and> firstRun J \<noteq> -1 \<and> firstRun J + runTime J \<le> e
      else endTime J = None)"

text \<open>The invariant while the events \<open>L\<close> wait to be delivered and those from time \<open>b\<close> on are to come.\<close>

definition mlfq_inv :: "mcfg \<Rightarrow> (nat \<times> event) list \<Rightarrow> int \<Rightarrow> mlfq \<Rightarrow> bool" where
  "mlfq_inv c L b s \<longleftrightarrow>
     dom (queue s) = {0..<numQueues c} \<and> finite (dom (ioDone s)) \<and> 0 \<le> currTime s \<and>
     queued_jobs c (queue s) + mset (map fst L) + pending_jobs b s = live_jobs (job s) \<and>
     (\<forall>q l. queue s q = Some l \<longrightarrow> (\<forall>j \<in> set l. currPri (job s ! j) = q \<and> \<not> doingIO (job s ! j) \<and>
        startTime (job s ! j) \<le> currTime s)) \<and>
     (\<forall>(j, e) \<in> set L. startTime (job s ! j) \<le> currTime s) \<and>
     (\<forall>t. \<forall>(j, e) \<in> set (events_at s t). j < length (job s) \<and> startTime (job s ! j) \<le> t) \<and>
     (\<forall>J \<in> set (job s). job_ok c (currTime s) J) \<and>
     finishedJobs s + int (size (live_jobs (job s))) = int (length (job s))"

lemma mlfq_inv_queue:
  assumes "mlfq_inv c L b s" and "0 \<le> q" and "q < numQueues c"
  obtains l where "queue s q = Some l" and "\<And>j. j \<in> set l \<Longrightarrow> j < length (job s) \<and> 0 < timeLeft (job s ! j) \<and>
    currPri (job s ! j) = q \<and> \<not> doingIO (job s ! j) \<and> startTime (job s ! j) \<le> currTime s"
proof -
  have "q \<in> dom (queue s)" using assms by (auto simp: mlfq_inv_def)
  then obtain l where l: "queue s q = Some l" by auto
  have "j \<in># live_jobs (job s)" if "j \<in> set l" for j
  proof -
    have "j \<in># queued_jobs c (queue s)" using that assms(2,3) l by (auto simp: queued_jobs_mem)
    then show ?thesis using assms(1) unfolding mlfq_inv_def by (metis union_iff)
  qed
  then have "j \<in> set l \<Longrightarrow> j < length (job s) \<and> 0 < timeLeft (job s ! j) \<and>
    currPri (job s ! j) = q \<and> \<not> doingIO (job s ! j) \<and> startTime (job s ! j) \<le> currTime s" for j
    using assms(1) l by (simp add: mlfq_inv_def live_jobs_mem)
  with l that show ?thesis by blast
qed

text \<open>What the jobs are given and never changes, and the time they still need together.\<close>

definition given :: "mlfq \<Rightarrow> (int \<times> int) list" where
  "given s = map (\<lambda>J. (startTime J, runTime J)) (job s)"

definition time_needed :: "mlfq \<Rightarrow> int" where
  "time_needed s = (\<Sum>J\<leftarrow>job s. timeLeft J)"

lemma time_needed_update:
  "j < length js \<Longrightarrow> (\<Sum>J\<leftarrow>js[j := J']. timeLeft J) = (\<Sum>J\<leftarrow>js. timeLeft J) - timeLeft (js ! j) + timeLeft J'"
  by (induction js arbitrary: j) (auto split: nat.splits)

lemma given_update:
  "j < length (job s) \<Longrightarrow> job t = (job s)[j := J'] \<Longrightarrow> startTime J' = startTime (job s ! j) \<Longrightarrow>
   runTime J' = runTime (job s ! j) \<Longrightarrow> given t = given s"
  by (simp add: given_def map_update list_update_same_conv)

text \<open>The events of the current time become due.\<close>

lemma mlfq_inv_due:
  assumes "mlfq_inv c [] (currTime s) s"
  shows "mlfq_inv c (events_at s (currTime s)) (currTime s + 1) s"
  using assms pending_jobs_next [of s "currTime s"] unfolding mlfq_inv_def by (auto simp: add.assoc)

lemma deliver_ok:
  assumes inv: "mlfq_inv c ((j, e) # L) b s"
  shows "\<exists>t. deliver c (j, e) s = Inr t \<and> mlfq_inv c L b t \<and> currTime t = currTime s \<and> ioDone t = ioDone s \<and>
    given t = given s \<and> time_needed t = time_needed s \<and> finishedJobs t = finishedJobs s"
proof -
  let ?J = "job s ! j"
  have bal: "queued_jobs c (queue s) + mset (map fst ((j, e) # L)) + pending_jobs b s = live_jobs (job s)"
    using inv by (simp add: mlfq_inv_def)
  have "j \<in># live_jobs (job s)" unfolding bal [symmetric] by simp
  then have j: "j < length (job s)" "0 < timeLeft ?J" by (auto simp: live_jobs_mem)
  then have Jok: "job_ok c (currTime s) ?J" and st: "startTime ?J \<le> currTime s" using inv by (auto simp: mlfq_inv_def)
  let ?q = "currPri ?J"
  have q: "0 \<le> ?q" "?q < numQueues c" using Jok by (auto simp: job_ok_def)
  obtain l where l: "queue s ?q = Some l" by (rule mlfq_inv_queue [OF inv q])
  let ?l = "if \<not> iobump c \<or> e = JOB_BEGINS then l @ [j] else j # l"
  let ?t = "(put_job j (?J\<lparr>doingIO := False\<rparr>) s)\<lparr>queue := (queue s)(?q \<mapsto> ?l)\<rparr>"
  have step: "deliver c (j, e) s = Inr ?t" using j l by (simp add: deliver_def get_job_def)
  have "queued_jobs c (queue ?t) + mset l = queued_jobs c (queue s) + mset ?l"
    using queued_jobs_update [where qs = "queue s" and q = ?q, OF q l, of ?l] by simp
  then have qj: "queued_jobs c (queue ?t) = add_mset j (queued_jobs c (queue s))" by (auto split: if_splits)
  have pj: "pending_jobs b ?t = pending_jobs b s" by (simp add: pending_jobs_def events_at_def put_job_def)
  have lj: "live_jobs (job ?t) = live_jobs (job s)" using j by (simp add: put_job_def live_jobs_update)
  have "mlfq_inv c L b ?t"
    unfolding mlfq_inv_def
  proof (intro conjI)
    show "queued_jobs c (queue ?t) + mset (map fst L) + pending_jobs b ?t = live_jobs (job ?t)"
      using bal unfolding qj pj lj by simp
    show "\<forall>J \<in> set (job ?t). job_ok c (currTime ?t) J"
    proof
      fix J
      assume "J \<in> set (job ?t)"
      then have "J = ?J\<lparr>doingIO := False\<rparr> \<or> J \<in> set (job s)" using set_update_subset_insert [of "job s"] by (fastforce simp: put_job_def)
      then show "job_ok c (currTime ?t) J" using inv Jok by (auto simp: mlfq_inv_def job_ok_def put_job_def)
    qed
    show "finishedJobs ?t + int (size (live_jobs (job ?t))) = int (length (job ?t))"
      unfolding lj using inv by (simp add: mlfq_inv_def put_job_def)
    have old: "currPri (job s ! k) = q \<and> \<not> doingIO (job s ! k) \<and> startTime (job s ! k) \<le> currTime s"
      if "queue s q = Some l" "k \<in> set l" for q l k using inv that by (simp add: mlfq_inv_def)
    show "\<forall>q l. queue ?t q = Some l \<longrightarrow> (\<forall>k \<in> set l. currPri (job ?t ! k) = q \<and> \<not> doingIO (job ?t ! k) \<and>
        startTime (job ?t ! k) \<le> currTime ?t)"
    proof (intro allI impI ballI)
      fix q l' k
      assume "queue ?t q = Some l'" "k \<in> set l'"
      then have "k = j \<and> q = ?q \<or> queue s q = Some l' \<and> k \<in> set l' \<or> q = ?q \<and> k \<in> set l" by (auto split: if_splits)
      then show "currPri (job ?t ! k) = q \<and> \<not> doingIO (job ?t ! k) \<and> startTime (job ?t ! k) \<le> currTime ?t"
        using old [of q l' k] old [OF l, of k] j st by (cases "k = j") (auto simp: put_job_def)
    qed
  qed (use inv j q l in \<open>auto simp: mlfq_inv_def put_job_def nth_list_update events_at_def\<close>)
  moreover have "given ?t = given s" by (rule given_update [OF j(1), of _ "?J\<lparr>doingIO := False\<rparr>"]) (simp_all add: put_job_def)
  moreover have "time_needed ?t = time_needed s"
    using time_needed_update [OF j(1)] by (simp add: time_needed_def put_job_def)
  ultimately show ?thesis using step by (auto simp: put_job_def)
qed

lemma deliver_all:
  assumes "mlfq_inv c L b s"
  shows "\<exists>t. rfold (deliver c) L s = Inr t \<and> mlfq_inv c [] b t \<and> currTime t = currTime s \<and> ioDone t = ioDone s \<and>
    given t = given s \<and> time_needed t = time_needed s \<and> finishedJobs t = finishedJobs s"
  using assms
proof (induction L arbitrary: s)
  case (Cons x L)
  obtain j e where x: "x = (j, e)" by (cases x)
  from deliver_ok [OF Cons.prems [unfolded x]] obtain u where u: "deliver c (j, e) s = Inr u" "mlfq_inv c L b u"
    "currTime u = currTime s" "ioDone u = ioDone s" "given u = given s" "time_needed u = time_needed s"
    "finishedJobs u = finishedJobs s" by blast
  then show ?case using Cons.IH [OF u(2)] by (simp add: x)
qed simp

section \<open>One job runs\<close>

lemma pop_front_Cons:
  "queue s q = Some (j # rest) \<Longrightarrow> pop_front q s = Inr (j, s\<lparr>queue := (queue s)(q \<mapsto> rest)\<rparr>)"
  by (simp add: pop_front_def py_pop_def remove_nth_def)

lemma issue_io_result:
  assumes c: "cfg_ok c" "0 \<le> q" "q < numQueues c" and s: "queue s q = Some (j # rest)" "j < length (job s)"
  shows "\<exists>v a. issue_io c q j s = Inr (add_event (currTime s + ioTime c) (j, IO_DONE)
    (s\<lparr>queue := (queue s)(q \<mapsto> rest), job := (job s)[j := (job s ! j)\<lparr>doingIO := True, ticksLeft := v, allotLeft := a\<rparr>]\<rparr>))"
proof (cases "stay c")
  case True
  obtain v a where "quantum c q = Some v" "allotment c q = Some a" using c by (auto simp: cfg_ok_def)
  with True s show ?thesis
    by (auto simp: issue_io_def pop_front_Cons get_job_def put_job_def py_lookup_def)
next
  case False
  let ?J = "(job s ! j)\<lparr>doingIO := True, ticksLeft := ticksLeft (job s ! j), allotLeft := allotLeft (job s ! j)\<rparr>"
  have "(job s ! j)\<lparr>doingIO := True\<rparr> = ?J" by simp
  then have "issue_io c q j s = Inr (add_event (currTime s + ioTime c) (j, IO_DONE)
      (s\<lparr>queue := (queue s)(q \<mapsto> rest), job := (job s)[j := ?J]\<rparr>))"
    using False s by (simp add: issue_io_def pop_front_Cons get_job_def put_job_def)
  then show ?thesis by blast
qed

text \<open>After a time slice the job keeps its level or moves down one; unless it waits for an I/O it
  goes to the end of that queue.\<close>

lemma end_slice_result:
  assumes c: "cfg_ok c" "0 \<le> q" "q < numQueues c" and j: "j < length (job s)" "currPri (job s ! j) = q"
    and s: "if io then queue s = Q else queue s q = Some (j # rest) \<and> Q = (queue s)(q \<mapsto> rest)"
    and Q: "dom Q = {0..<numQueues c}"
  shows "\<exists>p v a. 0 \<le> p \<and> p \<le> q \<and> end_slice c q j io s = Inr (s\<lparr>queue := (if io then Q else Q(p \<mapsto> the (Q p) @ [j])),
     job := (job s)[j := (job s ! j)\<lparr>currPri := p, ticksLeft := v, allotLeft := a\<rparr>]\<rparr>)"
proof -
  let ?p = "if allotLeft (job s ! j) = 1 \<and> q > 0 then q - 1 else q"
  have p: "0 \<le> ?p" "?p \<le> q" "?p < numQueues c" using c by auto
  obtain v a where v: "quantum c ?p = Some v" "allotment c ?p = Some a"
    using c(1) p by (auto simp: cfg_ok_def)
  obtain l where l: "Q ?p = Some l" using Q p by (metis atLeastLessThan_iff domD)
  let ?a = "if allotLeft (job s ! j) = 1 then a else allotLeft (job s ! j) - 1"
  let ?J = "(job s ! j)\<lparr>currPri := ?p, ticksLeft := v, allotLeft := ?a\<rparr>"
  have "end_slice c q j io s = Inr (s\<lparr>queue := (if io then Q else Q(?p \<mapsto> the (Q ?p) @ [j])), job := (job s)[j := ?J]\<rparr>)"
  proof (cases io)
    case True
    with s j v show ?thesis
      by (cases "allotLeft (job s ! j) = 1"; cases "q > 0"; cases "job s ! j")
         (simp_all add: end_slice_def get_job_def put_job_def py_lookup_def Let_def)
  next
    case False
    then have s': "queue s q = Some (j # rest)" "Q = (queue s)(q \<mapsto> rest)" using s by auto
    show ?thesis
      using False s'(1) j v l unfolding s'(2)
      by (cases "allotLeft (job s ! j) = 1"; cases "q > 0"; cases "job s ! j")
         (simp_all add: end_slice_def pop_front_Cons get_job_def put_job_def py_lookup_def Let_def enqueue_def)
  qed
  then show ?thesis using p by blast
qed

lemma job_ok_later: "job_ok c now J \<Longrightarrow> job_ok c (now + 1) J"
  by (auto simp: job_ok_def)

lemma move_job:
  assumes inv: "mlfq_inv c [] b s" and b: "b = currTime s + 1" and j: "j < length (job s)"
    and t: "currTime t = b" "job t = (job s)[j := J']"
    and J': "job_ok c b J'" "startTime J' = startTime (job s ! j)" "startTime J' \<le> currTime s"
    and Q: "dom (queue t) = dom (queue s)"
      "\<And>q l k. queue t q = Some l \<Longrightarrow> k \<in> set l \<Longrightarrow>
         k = j \<and> q = currPri J' \<and> \<not> doingIO J' \<or> k \<noteq> j \<and> (\<exists>l'. queue s q = Some l' \<and> k \<in> set l')"
    and E: "ioDone t = ioDone s \<or> (\<exists>u \<ge> b. ioDone t = ioDone (add_event u (j, IO_DONE) s))"
    and bal: "queued_jobs c (queue t) + pending_jobs b t = live_jobs (job t)"
    and fin: "finishedJobs t + int (size (live_jobs (job t))) = int (length (job t))"
  shows "mlfq_inv c [] b t"
  unfolding mlfq_inv_def
proof (intro conjI)
  have old: "currPri (job s ! k) = q \<and> \<not> doingIO (job s ! k) \<and> startTime (job s ! k) \<le> currTime s"
    if "queue s q = Some l" "k \<in> set l" for q l k using inv that by (simp add: mlfq_inv_def)
  show "\<forall>q l. queue t q = Some l \<longrightarrow> (\<forall>k \<in> set l. currPri (job t ! k) = q \<and> \<not> doingIO (job t ! k) \<and>
      startTime (job t ! k) \<le> currTime t)"
  proof (intro allI impI ballI)
    fix q l k
    assume "queue t q = Some l" "k \<in> set l"
    from Q(2) [OF this] consider "k = j" "q = currPri J'" "\<not> doingIO J'" | l' where "k \<noteq> j" "queue s q = Some l'" "k \<in> set l'"
      by blast
    then show "currPri (job t ! k) = q \<and> \<not> doingIO (job t ! k) \<and> startTime (job t ! k) \<le> currTime t"
    proof cases
      case 1
      then show ?thesis using j t b J'(3) by simp
    next
      case 2
      then show ?thesis using old [OF 2(2,3)] t b by simp
    qed
  qed
  have ev: "\<exists>u \<ge> b. \<forall>x. set (events_at t x) \<subseteq> set (events_at s x) \<union> (if x = u then {(j, IO_DONE)} else {})"
    using E by (auto simp: events_at_def add_event_def split: option.splits intro: exI [of _ b])
  show "\<forall>x. \<forall>(k, e) \<in> set (events_at t x). k < length (job t) \<and> startTime (job t ! k) \<le> x"
  proof (intro allI ballI, clarify)
    fix x k e
    assume "(k, e) \<in> set (events_at t x)"
    then have "(k, e) \<in> set (events_at s x) \<or> k = j \<and> b \<le> x" using ev by (fastforce split: if_splits)
    then show "k < length (job t) \<and> startTime (job t ! k) \<le> x"
      using inv j t b J'(2,3) by (cases "k = j") (auto simp: mlfq_inv_def)
  qed
  show "\<forall>J \<in> set (job t). job_ok c (currTime t) J"
  proof
    fix J
    assume "J \<in> set (job t)"
    then have "J = J' \<or> J \<in> set (job s)" using set_update_subset_insert [of "job s" j J'] t(2) by auto
    then show "job_ok c (currTime t) J" using inv J'(1) t(1) b job_ok_later by (auto simp: mlfq_inv_def)
  qed
  show "finite (dom (ioDone t))" using inv E by (auto simp: mlfq_inv_def add_event_def)
  show "0 \<le> currTime t" using inv t(1) b by (simp add: mlfq_inv_def)
qed (use inv bal fin Q(1) in \<open>auto simp: mlfq_inv_def\<close>)

text \<open>The first job of a queue is nowhere else.\<close>

lemma head_unique:
  assumes inv: "mlfq_inv c [] b s" and q: "0 \<le> q" "q < numQueues c" and l: "queue s q = Some (j # rest)"
  shows "add_mset j (queued_jobs c ((queue s)(q \<mapsto> rest))) = queued_jobs c (queue s)"
    and "((queue s)(q \<mapsto> rest)) p = Some l' \<Longrightarrow> j \<notin> set l'"
proof -
  show q': "add_mset j (queued_jobs c ((queue s)(q \<mapsto> rest))) = queued_jobs c (queue s)"
    using queued_jobs_update [where qs = "queue s" and q = q and c = c, OF q l, of rest] by simp
  have "queued_jobs c (queue s) \<subseteq># live_jobs (job s)" using inv unfolding mlfq_inv_def
    by (metis mset_subset_eq_add_left add.assoc)
  then have "count (queued_jobs c (queue s)) j \<le> 1"
    using mset_subset_eq_count [of _ _ j] live_jobs_count [of "job s" j] by (metis le_zero_eq le_numeral_extra(4) nat_le_linear zero_le_one order_trans)
  then have n: "j \<notin># queued_jobs c ((queue s)(q \<mapsto> rest))"
    unfolding q' [symmetric] by (simp add: not_in_iff)
  assume "((queue s)(q \<mapsto> rest)) p = Some l'"
  moreover from this have "p \<in> {0..<numQueues c}" using inv q by (auto simp: mlfq_inv_def split: if_splits)
  ultimately show "j \<notin> set l'" using n by (force simp: queued_jobs_mem)
qed

text \<open>The job after its tick, before anything else happens to it.\<close>

definition ticked :: "int \<Rightarrow> mjob \<Rightarrow> mjob" where
  "ticked now J = J\<lparr>timeLeft := timeLeft J - 1, ticksLeft := ticksLeft J - 1,
     firstRun := (if firstRun J = -1 then now else firstRun J)\<rparr>"

lemma ticked_simps [simp]:
  "timeLeft (ticked now J) = timeLeft J - 1" "runTime (ticked now J) = runTime J"
  "startTime (ticked now J) = startTime J" "currPri (ticked now J) = currPri J"
  "endTime (ticked now J) = endTime J" "doingIO (ticked now J) = doingIO J"
  by (simp_all add: ticked_def)

lemma job_ok_ticked:
  assumes "job_ok c now J" and "0 \<le> now" and "startTime J \<le> now" and "1 < timeLeft J" and "0 \<le> p" and "p < numQueues c"
  shows "job_ok c (now + 1) ((ticked now J)\<lparr>currPri := p, ticksLeft := v, allotLeft := a, doingIO := d\<rparr>)"
  using assms by (auto simp: job_ok_def ticked_def)

lemma job_ok_finished:
  assumes "job_ok c now J" and "0 \<le> now" and "startTime J \<le> now" and "timeLeft J = 1"
  shows "job_ok c (now + 1) ((ticked now J)\<lparr>endTime := Some (now + 1)\<rparr>)"
  using assms by (auto simp: job_ok_def ticked_def)

lemma job_reorder:
  "currPri J = q \<Longrightarrow> J\<lparr>doingIO := d, ticksLeft := v, allotLeft := a\<rparr> = J\<lparr>currPri := q, ticksLeft := v, allotLeft := a, doingIO := d\<rparr>"
  "J\<lparr>doingIO := d, currPri := p, ticksLeft := v', allotLeft := a'\<rparr> =
   J\<lparr>currPri := p, ticksLeft := v', allotLeft := a', doingIO := d\<rparr>"
  "currPri J = q \<Longrightarrow> \<not> doingIO J \<Longrightarrow> J\<lparr>currPri := q, ticksLeft := ticksLeft J, allotLeft := allotLeft J, doingIO := False\<rparr> = J"
  "\<not> doingIO J \<Longrightarrow> J\<lparr>currPri := p, ticksLeft := v', allotLeft := a'\<rparr> = J\<lparr>currPri := p, ticksLeft := v', allotLeft := a', doingIO := False\<rparr>"
  for J :: mjob
  by (cases J; simp)+

lemma run_job_result:
  assumes c: "cfg_ok c" "0 \<le> q" "q < numQueues c" and dom: "dom (queue s) = {0..<numQueues c}"
    and l: "queue s q = Some (j # rest)" and j: "j < length (job s)" "0 < timeLeft (job s ! j)" "currPri (job s ! j) = q"
      "\<not> doingIO (job s ! j)"
  defines "now \<equiv> currTime s" and "J \<equiv> job s ! j" and "Q \<equiv> (queue s)(q \<mapsto> rest)"
  shows "\<exists>t. run_job c q j s = Inr t \<and> currTime t = now + 1 \<and>
    (timeLeft J = 1 \<and> job t = (job s)[j := (ticked now J)\<lparr>endTime := Some (now + 1)\<rparr>] \<and> queue t = Q \<and>
       ioDone t = ioDone s \<and> finishedJobs t = finishedJobs s + 1 \<or>
     1 < timeLeft J \<and> finishedJobs t = finishedJobs s \<and>
       (\<exists>p v a d. 0 \<le> p \<and> p \<le> q \<and> job t = (job s)[j := (ticked now J)\<lparr>currPri := p, ticksLeft := v, allotLeft := a, doingIO := d\<rparr>] \<and>
         (queue t = Q \<and> ioDone t = ioDone (add_event (now + 1 + ioTime c) (j, IO_DONE) s) \<or>
          ioDone t = ioDone s \<and> \<not> d \<and> (p = q \<and> queue t = queue s \<or> queue t = Q(p \<mapsto> the (Q p) @ [j])))))"
proof -
  let ?J = "ticked now J"
  let ?s = "s\<lparr>job := (job s)[j := ?J], currTime := now + 1\<rparr>"
  let ?io = "ioFreq J > 0 \<and> (runTime J - timeLeft ?J) mod ioFreq J = 0"
  have dQ: "dom Q = {0..<numQueues c}" using dom l c by (auto simp: Q_def)
  have run: "run_job c q j s = (if timeLeft ?J = 0
      then Inr (s\<lparr>job := (job s)[j := ?J\<lparr>endTime := Some (now + 1)\<rparr>], currTime := now + 1, finishedJobs := finishedJobs s + 1, queue := Q\<rparr>)
      else rbind (if ?io then issue_io c q j ?s else Inr ?s) (\<lambda>s2. if ticksLeft ?J = 0 then end_slice c q j ?io s2 else Inr s2))"
    using j l by (simp add: run_job_def get_job_def put_job_def pop_front_Cons ticked_def now_def J_def Q_def Let_def)
  show ?thesis
  proof (cases "timeLeft J = 1")
    case True
    then show ?thesis using run by auto
  next
    case False
    then have left: "1 < timeLeft J" using j(2) by (simp add: J_def)
    have js: "job ?s ! j = ?J" "j < length (job ?s)" using j by auto
    show ?thesis
    proof (cases ?io)
      case True
      obtain v a where io: "issue_io c q j ?s = Inr (add_event (now + 1 + ioTime c) (j, IO_DONE)
          (s\<lparr>currTime := now + 1, queue := Q, job := (job s)[j := ?J\<lparr>doingIO := True, ticksLeft := v, allotLeft := a\<rparr>]\<rparr>))"
        using issue_io_result [OF c, of ?s j rest] l j by (auto simp: Q_def)
      let ?u = "add_event (now + 1 + ioTime c) (j, IO_DONE)
          (s\<lparr>currTime := now + 1, queue := Q, job := (job s)[j := ?J\<lparr>doingIO := True, ticksLeft := v, allotLeft := a\<rparr>]\<rparr>)"
      have u: "currTime ?u = now + 1" "queue ?u = Q" "finishedJobs ?u = finishedJobs s"
        "ioDone ?u = ioDone (add_event (now + 1 + ioTime c) (j, IO_DONE) s)"
        by (simp_all add: add_event_def)
      have r: "?J\<lparr>doingIO := True, ticksLeft := v, allotLeft := a\<rparr> = ?J\<lparr>currPri := q, ticksLeft := v, allotLeft := a, doingIO := True\<rparr>"
        by (rule job_reorder(1)) (simp add: J_def j(3))
      have "job ?u = (job s)[j := ?J\<lparr>currPri := q, ticksLeft := v, allotLeft := a, doingIO := True\<rparr>]"
        by (simp only: r [symmetric]) (simp add: add_event_def)
      note u = u this
      show ?thesis
      proof (cases "ticksLeft ?J = 0")
        case False
        then have "run_job c q j s = Inr ?u" using run left True io by auto
        then show ?thesis using u left c(2) by blast
      next
        case slice: True
        have "j < length (job ?u)" "currPri (job ?u ! j) = q" "if True then queue ?u = Q else queue ?u q = Some (j # rest) \<and> Q = (queue ?u)(q \<mapsto> rest)"
          using j(1) u by auto
        from end_slice_result [OF c this dQ] obtain p v' a' where e: "0 \<le> p" "p \<le> q"
            "end_slice c q j True ?u = Inr (?u\<lparr>queue := Q, job := (job ?u)[j := (job ?u ! j)\<lparr>currPri := p, ticksLeft := v', allotLeft := a'\<rparr>]\<rparr>)"
          by auto
        let ?w = "?u\<lparr>queue := Q, job := (job ?u)[j := (job ?u ! j)\<lparr>currPri := p, ticksLeft := v', allotLeft := a'\<rparr>]\<rparr>"
        have "run_job c q j s = Inr ?w" using run left True io slice e(3) by auto
        moreover have "job ?w = (job s)[j := ?J\<lparr>currPri := p, ticksLeft := v', allotLeft := a', doingIO := True\<rparr>]"
          using j(1) u(5) by (simp add: job_reorder(2))
        ultimately show ?thesis using u e(1,2) left by (intro exI [of _ ?w]) auto
      qed
    next
      case False
      show ?thesis
      proof (cases "ticksLeft ?J = 0")
        case no_slice: False
        then have "run_job c q j s = Inr ?s" using run left False by auto
        moreover have "job ?s = (job s)[j := ?J\<lparr>currPri := q, ticksLeft := ticksLeft ?J, allotLeft := allotLeft ?J, doingIO := False\<rparr>]"
          by (subst job_reorder(3)) (use j(3,4) in \<open>simp_all add: J_def\<close>)
        moreover have "currTime ?s = now + 1" "queue ?s = queue s" "ioDone ?s = ioDone s" "finishedJobs ?s = finishedJobs s"
          by simp_all
        ultimately show ?thesis using c(2) left by blast
      next
        case slice: True
        have "if False then queue ?s = Q else queue ?s q = Some (j # rest) \<and> Q = (queue ?s)(q \<mapsto> rest)"
            "currPri (job ?s ! j) = q" using l js j(3) by (simp_all add: Q_def J_def)
        from end_slice_result [OF c js(2) this(2,1) dQ] obtain p v' a' where e: "0 \<le> p" "p \<le> q"
            "end_slice c q j False ?s = Inr (?s\<lparr>queue := Q(p \<mapsto> the (Q p) @ [j]), job := (job ?s)[j := (job ?s ! j)\<lparr>currPri := p, ticksLeft := v', allotLeft := a'\<rparr>]\<rparr>)"
          by auto
        let ?w = "?s\<lparr>queue := Q(p \<mapsto> the (Q p) @ [j]), job := (job ?s)[j := (job ?s ! j)\<lparr>currPri := p, ticksLeft := v', allotLeft := a'\<rparr>]\<rparr>"
        have "run_job c q j s = Inr ?w" using run left False slice e(3) by auto
        moreover have "job ?w = (job s)[j := ?J\<lparr>currPri := p, ticksLeft := v', allotLeft := a', doingIO := False\<rparr>]"
          by (subst job_reorder(4) [symmetric]) (use j(1,4) in \<open>simp_all add: J_def\<close>)
        moreover have "currTime ?w = now + 1" "queue ?w = Q(p \<mapsto> the (Q p) @ [j])" "ioDone ?w = ioDone s"
          "finishedJobs ?w = finishedJobs s" by simp_all
        ultimately show ?thesis using e(1,2) left by blast
      qed
    qed
  qed
qed

lemma run_job_ok:
  assumes c: "cfg_ok c" "0 \<le> q" "q < numQueues c" and inv: "mlfq_inv c [] (currTime s + 1) s"
    and l: "queue s q = Some (j # rest)"
  shows "\<exists>t. run_job c q j s = Inr t \<and> mlfq_inv c [] (currTime s + 1) t \<and> currTime t = currTime s + 1 \<and>
    given t = given s \<and> time_needed t = time_needed s - 1 \<and>
    dom (ioDone t) \<subseteq> insert (currTime s + 1 + ioTime c) (dom (ioDone s))"
proof -
  let ?b = "currTime s + 1" and ?J = "job s ! j" and ?Q = "(queue s)(q \<mapsto> rest)"
  obtain j: "j < length (job s)" "0 < timeLeft ?J" "currPri ?J = q" "\<not> doingIO ?J" "startTime ?J \<le> currTime s"
    by (rule mlfq_inv_queue [OF inv c(2,3)]) (use l in auto)
  have dom: "dom (queue s) = {0..<numQueues c}" and now: "0 \<le> currTime s" and Jok: "job_ok c (currTime s) ?J"
    and bal: "queued_jobs c (queue s) + pending_jobs ?b s = live_jobs (job s)"
    and fin: "finishedJobs s + int (size (live_jobs (job s))) = int (length (job s))"
    and fd: "finite (dom (ioDone s))"
    using inv j(1) by (auto simp: mlfq_inv_def)
  have dQ: "dom ?Q = dom (queue s)" using l by auto
  note head = head_unique [OF inv c(2,3) l]
  have inQ: "k \<noteq> j \<and> (\<exists>l'. queue s p = Some l' \<and> k \<in> set l')" if "?Q p = Some m" "k \<in> set m" for p m k
  proof -
    have "k \<noteq> j" using head(2) [OF that(1)] that(2) by auto
    moreover have "queue s p = Some m \<or> p = q \<and> m = rest" using that(1) by (auto split: if_splits)
    ultimately show ?thesis using that(2) l by auto
  qed
  from run_job_result [OF c dom l j(1-4)] obtain t where t: "run_job c q j s = Inr t" "currTime t = ?b"
    "timeLeft ?J = 1 \<and> job t = (job s)[j := (ticked (currTime s) ?J)\<lparr>endTime := Some ?b\<rparr>] \<and> queue t = ?Q \<and>
       ioDone t = ioDone s \<and> finishedJobs t = finishedJobs s + 1 \<or>
     1 < timeLeft ?J \<and> finishedJobs t = finishedJobs s \<and>
       (\<exists>p v a d. 0 \<le> p \<and> p \<le> q \<and> job t = (job s)[j := (ticked (currTime s) ?J)\<lparr>currPri := p, ticksLeft := v, allotLeft := a, doingIO := d\<rparr>] \<and>
         (queue t = ?Q \<and> ioDone t = ioDone (add_event (?b + ioTime c) (j, IO_DONE) s) \<or>
          ioDone t = ioDone s \<and> \<not> d \<and> (p = q \<and> queue t = queue s \<or> queue t = ?Q(p \<mapsto> the (?Q p) @ [j]))))"
    by blast
  have pend: "pending_jobs ?b u = pending_jobs ?b s" if "ioDone u = ioDone s" for u
    using that by (simp add: pending_jobs_def events_at_def)
  from t(3) consider (finish) "timeLeft ?J = 1" "job t = (job s)[j := (ticked (currTime s) ?J)\<lparr>endTime := Some ?b\<rparr>]"
      "queue t = ?Q" "ioDone t = ioDone s" "finishedJobs t = finishedJobs s + 1"
    | (io) p v a d where "1 < timeLeft ?J" "finishedJobs t = finishedJobs s" "0 \<le> p" "p \<le> q"
      "job t = (job s)[j := (ticked (currTime s) ?J)\<lparr>currPri := p, ticksLeft := v, allotLeft := a, doingIO := d\<rparr>]"
      "queue t = ?Q" "ioDone t = ioDone (add_event (?b + ioTime c) (j, IO_DONE) s)"
    | (stay) p v a where "1 < timeLeft ?J" "finishedJobs t = finishedJobs s" "0 \<le> p" "p \<le> q"
      "job t = (job s)[j := (ticked (currTime s) ?J)\<lparr>currPri := p, ticksLeft := v, allotLeft := a, doingIO := False\<rparr>]"
      "ioDone t = ioDone s" "p = q \<and> queue t = queue s \<or> queue t = ?Q(p \<mapsto> the (?Q p) @ [j])"
    by auto
  then show ?thesis
  proof cases
    case finish
    have live: "live_jobs (job s) = add_mset j (live_jobs (job t))"
      using live_jobs_finish [OF j(1,2)] finish(1,2) by simp
    have "mlfq_inv c [] ?b t"
    proof (rule move_job [OF inv refl j(1) t(2) finish(2)])
      show "queued_jobs c (queue t) + pending_jobs ?b t = live_jobs (job t)"
        using bal live by (simp add: finish(3) pend [OF finish(4)] flip: head(1))
      show "finishedJobs t + int (size (live_jobs (job t))) = int (length (job t))"
        using fin live finish(2,5) by simp
    qed (use job_ok_finished [OF Jok now j(5)] finish j(5) dQ inQ in auto)
    moreover have "given t = given s" by (rule given_update [OF j(1) finish(2)]) simp_all
    ultimately show ?thesis
      using t(1,2) finish time_needed_update [OF j(1)] by (auto simp: time_needed_def)
  next
    case (io p v a d)
    have p: "p < numQueues c" using io(4) c(3) by simp
    have live: "live_jobs (job t) = live_jobs (job s)" using io(1,5) j(1) by (simp add: live_jobs_update)
    have u: "?b \<le> ?b + ioTime c" using c(1) by (simp add: cfg_ok_def)
    have pj: "pending_jobs ?b t = add_mset j (pending_jobs ?b s)"
      using pending_jobs_add [OF fd u, of j IO_DONE] io(7) by (simp add: pending_jobs_def events_at_def)
    have "mlfq_inv c [] ?b t"
    proof (rule move_job [OF inv refl j(1) t(2) io(5)])
      show "job_ok c ?b ((ticked (currTime s) ?J)\<lparr>currPri := p, ticksLeft := v, allotLeft := a, doingIO := d\<rparr>)"
        by (rule job_ok_ticked [OF Jok now j(5) io(1,3) p])
      show "queued_jobs c (queue t) + pending_jobs ?b t = live_jobs (job t)"
        using bal by (simp add: io(6) pj live flip: head(1))
      show "ioDone t = ioDone s \<or> (\<exists>u \<ge> ?b. ioDone t = ioDone (add_event u (j, IO_DONE) s))" using u io(7) by blast
    qed (use fin live io(2,5,6) j(5) dQ inQ in auto)
    moreover have "given t = given s" by (rule given_update [OF j(1) io(5)]) simp_all
    ultimately show ?thesis
      using t(1,2) io time_needed_update [OF j(1)] by (auto simp: time_needed_def add_event_def)
  next
    case (stay p v a)
    have p: "p < numQueues c" using stay(4) c(3) by simp
    have live: "live_jobs (job t) = live_jobs (job s)" using stay(1,5) j(1) by (simp add: live_jobs_update)
    obtain m where m: "?Q p = Some m" using dom dQ p stay(3) by (metis atLeastLessThan_iff domD)
    have qj: "queued_jobs c (queue t) = queued_jobs c (queue s)"
      using stay(7) head(1) queued_jobs_update [where qs = ?Q and q = p and c = c, OF stay(3) p m, of "m @ [j]"] m by auto
    have "insert p (insert q (dom (queue s))) = dom (queue s)" using dom p stay(3) c(2,3) by auto
    then have dt: "dom (queue t) = dom (queue s)" using stay(7) by auto
    have inT: "k = j \<and> r = p \<or> k \<noteq> j \<and> (\<exists>l'. queue s r = Some l' \<and> k \<in> set l')" if "queue t r = Some n" "k \<in> set n" for r n k
    proof -
      have "?Q r = Some n \<and> k \<in> set n \<or> r = p \<and> k = j \<or> r = p \<and> k \<in> set m \<or> r = q \<and> p = q \<and> k = j"
        using that stay(7) m l by (auto split: if_splits)
      then show ?thesis using inQ [of r n k] inQ [OF m, of k] by auto
    qed
    have "mlfq_inv c [] ?b t"
    proof (rule move_job [OF inv refl j(1) t(2) stay(5)])
      show "job_ok c ?b ((ticked (currTime s) ?J)\<lparr>currPri := p, ticksLeft := v, allotLeft := a, doingIO := False\<rparr>)"
        by (rule job_ok_ticked [OF Jok now j(5) stay(1,3) p])
      show "queued_jobs c (queue t) + pending_jobs ?b t = live_jobs (job t)"
        using bal by (simp add: qj live pend [OF stay(6)])
    qed (use fin live stay(2,5,6) j(5) dt inT in auto)
    moreover have "given t = given s" by (rule given_update [OF j(1) stay(5)]) simp_all
    ultimately show ?thesis
      using t(1,2) stay time_needed_update [OF j(1)] by (auto simp: time_needed_def)
  qed
qed

section \<open>Boosts and the choice of a queue\<close>

lemma FindQueue_result:
  assumes "0 \<le> q" and "{0..q} \<subseteq> dom Q"
  shows "FindQueue Q q = Inr (-1) \<and> (\<forall>p. 0 \<le> p \<longrightarrow> p \<le> q \<longrightarrow> Q p = Some []) \<or>
    (\<exists>r j rest. FindQueue Q q = Inr r \<and> 0 \<le> r \<and> r \<le> q \<and> Q r = Some (j # rest) \<and>
       (\<forall>p. r < p \<longrightarrow> p \<le> q \<longrightarrow> Q p = Some []))"
  using assms
proof (induction Q q rule: FindQueue.induct)
  case (1 Q q)
  obtain l where l: "Q q = Some l" using 1(2,3) by fastforce
  show ?case
  proof (cases "q > 0 \<and> l = []")
    case True
    have "FindQueue Q q = FindQueue Q (q - 1)" using True l by (simp add: FindQueue.simps [of Q q] py_lookup_def)
    moreover have "FindQueue Q (q - 1) = Inr (-1) \<and> (\<forall>p. 0 \<le> p \<longrightarrow> p \<le> q - 1 \<longrightarrow> Q p = Some []) \<or>
      (\<exists>r j rest. FindQueue Q (q - 1) = Inr r \<and> 0 \<le> r \<and> r \<le> q - 1 \<and> Q r = Some (j # rest) \<and>
         (\<forall>p. r < p \<longrightarrow> p \<le> q - 1 \<longrightarrow> Q p = Some []))"
    proof (rule 1(1) [of l])
      show "{0..q - 1} \<subseteq> dom Q" using subset_trans [OF _ 1(3), of "{0..q - 1}"] by auto
    qed (use True l in auto)
    moreover have "p \<le> q - 1 \<or> p = q" if "p \<le> q" for p using that by auto
    ultimately show ?thesis using l True by (smt (verit))
  next
    case False
    then show ?thesis
    proof (cases l)
      case Nil
      with False 1(2) have "q = 0" by auto
      with l Nil show ?thesis by (auto simp: FindQueue.simps [of Q 0] py_lookup_def)
    next
      case (Cons j rest)
      have "FindQueue Q q = Inr q" using l Cons 1(2) by (cases "q = 0") (auto simp: FindQueue.simps [of Q q] FindQueue.simps [of Q 0] py_lookup_def)
      with l Cons 1(2) show ?thesis by auto
    qed
  qed
qed

lemma enqueue_all:
  assumes "queue s p = Some h" and "\<forall>j \<in> set l. j < length (job s) \<and> \<not> doingIO (job s ! j)"
  shows "rfold (\<lambda>j t. rbind (get_job t j) (\<lambda>J. if \<not> doingIO J then enqueue p j t else Inr t)) l s =
    Inr (s\<lparr>queue := (queue s)(p \<mapsto> h @ l)\<rparr>)"
  using assms by (induction l arbitrary: s h) (auto simp: get_job_def enqueue_def py_lookup_def fun_upd_idem)

lemma boost_queues:
  assumes "dom (queue s) = {0..<numQueues c}" and "set qs \<subseteq> {0..<hiQueue c}"
    and "\<forall>j. j \<in># queued_jobs c (queue s) \<longrightarrow> j < length (job s) \<and> \<not> doingIO (job s ! j)"
  shows "\<exists>Q. rfold (boost_queue c) qs s = Inr (s\<lparr>queue := Q\<rparr>) \<and> dom Q = {0..<numQueues c} \<and>
    queued_jobs c Q = queued_jobs c (queue s) \<and>
    (\<forall>p. p \<noteq> hiQueue c \<longrightarrow> Q p = (if p \<in> set qs then Some [] else queue s p))"
  using assms
proof (induction qs arbitrary: s)
  case Nil
  then show ?case by (intro exI [of _ "queue s"]) auto
next
  case (Cons q qs)
  let ?h = "hiQueue c"
  have q: "0 \<le> q" "q < numQueues c" "q \<noteq> ?h" "0 \<le> ?h" "?h < numQueues c" using Cons.prems(2) by (auto simp: hiQueue_def)
  obtain l h where l: "queue s q = Some l" "queue s ?h = Some h"
    using Cons.prems(1) q by (metis atLeastLessThan_iff domD)
  have "j \<in># queued_jobs c (queue s)" if "j \<in> set l" for j
    using that l(1) q(1,2) by (auto simp: queued_jobs_mem)
  then have "\<forall>j \<in> set l. j < length (job s) \<and> \<not> doingIO (job s ! j)" using Cons.prems(3) by blast
  note enq = enqueue_all [OF l(2) this]
  let ?Q1 = "(queue s)(?h \<mapsto> h @ l)"
  let ?u = "s\<lparr>queue := ?Q1(q \<mapsto> [])\<rparr>"
  have step: "boost_queue c q s = Inr ?u" using l(1) enq by (simp add: boost_queue_def py_lookup_def)
  have "queued_jobs c ?Q1 + mset h = queued_jobs c (queue s) + mset (h @ l)"
    by (rule queued_jobs_update) (use q l in simp_all)
  moreover have "queued_jobs c (?Q1(q \<mapsto> [])) + mset l = queued_jobs c ?Q1 + mset []"
    by (rule queued_jobs_update [OF q(1,2)]) (use l(1) q(3) in simp)
  ultimately have same: "queued_jobs c (queue ?u) = queued_jobs c (queue s)" by (simp add: union_commute union_assoc)
  have dom: "dom (queue ?u) = {0..<numQueues c}" using Cons.prems(1) q l by auto
  have "\<exists>Q. rfold (boost_queue c) qs ?u = Inr (?u\<lparr>queue := Q\<rparr>) \<and> dom Q = {0..<numQueues c} \<and>
    queued_jobs c Q = queued_jobs c (queue ?u) \<and> (\<forall>p. p \<noteq> ?h \<longrightarrow> Q p = (if p \<in> set qs then Some [] else queue ?u p))"
    by (rule Cons.IH [OF dom]) (use Cons.prems(2,3) same in \<open>simp_all only: same\<close>, simp_all)
  then obtain Q where "rfold (boost_queue c) qs ?u = Inr (s\<lparr>queue := Q\<rparr>)" "dom Q = {0..<numQueues c}"
      "queued_jobs c Q = queued_jobs c (queue s)" "\<forall>p. p \<noteq> ?h \<longrightarrow> Q p = (if p \<in> set qs then Some [] else queue ?u p)"
    unfolding same by auto
  then show ?case using step q(3) by (intro exI [of _ Q]) auto
qed

definition boosted :: "mcfg \<Rightarrow> int \<Rightarrow> mjob \<Rightarrow> mjob" where
  "boosted c a J = (if timeLeft J > 0 then J\<lparr>currPri := hiQueue c, ticksLeft := a\<rparr> else J)"

lemma boost_jobs:
  assumes "allotment c (hiQueue c) = Some a" and "m \<le> length (job s)"
  shows "rfold (boost_job c) [0..<m] s = Inr (s\<lparr>job := map (boosted c a) (take m (job s)) @ drop m (job s)\<rparr>)"
  using assms(2)
proof (induction m)
  case (Suc m)
  let ?l = "map (boosted c a) (take m (job s)) @ drop m (job s)"
  have "?l ! m = job s ! m" "?l[m := x] = map (boosted c a) (take m (job s)) @ x # drop (Suc m) (job s)" for x
    using Suc.prems by (simp_all add: nth_append list_update_append Cons_nth_drop_Suc [symmetric])
  then have "boost_job c m (s\<lparr>job := ?l\<rparr>) = Inr (s\<lparr>job := map (boosted c a) (take m (job s)) @ boosted c a (job s ! m) # drop (Suc m) (job s)\<rparr>)"
    using Suc.prems assms(1) Cons_nth_drop_Suc [of m "job s"] by (auto simp: boost_job_def get_job_def put_job_def boosted_def py_lookup_def)
  with Suc show ?case by (simp add: rfold_append take_Suc_conv_app_nth)
qed simp

lemma boosted_simps [simp]:
  "timeLeft (boosted c a J) = timeLeft J" "runTime (boosted c a J) = runTime J" "startTime (boosted c a J) = startTime J"
  "doingIO (boosted c a J) = doingIO J"
  "currPri (boosted c a J) = (if timeLeft J > 0 then hiQueue c else currPri J)"
  by (simp_all add: boosted_def)

lemma boost_phase_ok:
  assumes c: "cfg_ok c" and inv: "mlfq_inv c [] b s"
  shows "\<exists>t. boost_phase c s = Inr t \<and> mlfq_inv c [] b t \<and> currTime t = currTime s \<and> ioDone t = ioDone s \<and>
    given t = given s \<and> time_needed t = time_needed s \<and> finishedJobs t = finishedJobs s"
proof (cases "boost c > 0 \<and> currTime s \<noteq> 0 \<and> currTime s mod boost c = 0")
  case True
  let ?h = "hiQueue c"
  have h: "0 \<le> ?h" "?h < numQueues c" using c by (auto simp: cfg_ok_def hiQueue_def)
  obtain a where a: "allotment c ?h = Some a" using c h by (auto simp: cfg_ok_def)
  have dom: "dom (queue s) = {0..<numQueues c}" using inv by (simp add: mlfq_inv_def)
  have ready: "j < length (job s) \<and> 0 < timeLeft (job s ! j) \<and> \<not> doingIO (job s ! j) \<and> startTime (job s ! j) \<le> currTime s"
    if mem: "j \<in># queued_jobs c (queue s)" for j
  proof -
    obtain q where q: "0 \<le> q" "q < numQueues c" "j \<in> set (the (queue s q))" using mem by (auto simp: queued_jobs_mem)
    show ?thesis by (rule mlfq_inv_queue [OF inv q(1,2)]) (use q(3) in auto)
  qed
  have levels: "set [0..numQueues c - 2] \<subseteq> {0..<?h}" by (auto simp: hiQueue_def)
  from boost_queues [OF dom levels] ready obtain Q where Q:
      "rfold (boost_queue c) [0..numQueues c - 2] s = Inr (s\<lparr>queue := Q\<rparr>)" "dom Q = {0..<numQueues c}"
      "queued_jobs c Q = queued_jobs c (queue s)"
      "\<forall>p. p \<noteq> ?h \<longrightarrow> Q p = (if p \<in> set [0..numQueues c - 2] then Some [] else queue s p)" by blast
  have low: "Q p = Some [] \<or> Q p = None" if ne: "p \<noteq> ?h" for p
  proof (cases "p \<in> dom (queue s)")
    case True
    then have "p \<in> set [0..numQueues c - 2]" using ne dom by (auto simp: hiQueue_def)
    with Q(4) ne show ?thesis by simp
  next
    case False
    then show ?thesis using Q(2) dom by auto
  qed
  let ?t = "s\<lparr>queue := Q, job := map (boosted c a) (job s)\<rparr>"
  have step: "boost_phase c s = Inr ?t"
    using True Q(1) boost_jobs [OF a, of "length (job s)" "s\<lparr>queue := Q\<rparr>"] by (simp add: boost_phase_def)
  have live: "live_jobs (job ?t) = live_jobs (job s)"
    by (rule multiset_eqI) (auto simp: live_jobs_count)
  have pend: "pending_jobs b ?t = pending_jobs b s" by (simp add: pending_jobs_def events_at_def)
  have "mlfq_inv c [] b ?t"
    unfolding mlfq_inv_def live pend
  proof (intro conjI)
    show "\<forall>q l. queue ?t q = Some l \<longrightarrow> (\<forall>j \<in> set l. currPri (job ?t ! j) = q \<and> \<not> doingIO (job ?t ! j) \<and>
        startTime (job ?t ! j) \<le> currTime ?t)"
    proof (intro allI impI ballI)
      fix q l j
      assume l: "queue ?t q = Some l" "j \<in> set l"
      then have q: "q = ?h" using low [of q] by (cases "q = ?h") auto
      have "j \<in># queued_jobs c Q" using l q h by (auto simp: queued_jobs_mem)
      then show "currPri (job ?t ! j) = q \<and> \<not> doingIO (job ?t ! j) \<and> startTime (job ?t ! j) \<le> currTime ?t"
        using ready [of j] Q(3) q by simp
    qed
    show "\<forall>J \<in> set (job ?t). job_ok c (currTime ?t) J"
      using inv h by (auto simp: mlfq_inv_def job_ok_def boosted_def)
  qed (use inv Q(2,3) in \<open>auto simp: mlfq_inv_def events_at_def\<close>)
  moreover have "given ?t = given s" "time_needed ?t = time_needed s"
    by (simp_all add: given_def time_needed_def o_def)
  ultimately show ?thesis using step by auto
next
  case False
  then have "boost_phase c s = Inr s" unfolding boost_phase_def by (rule if_not_P)
  then show ?thesis using inv by simp
qed

section \<open>Every run ends\<close>

definition horizon :: "mlfq \<Rightarrow> int" where
  "horizon s = Max (insert 0 (dom (ioDone s)))"

definition mlfq_measure :: "mcfg \<Rightarrow> mlfq \<Rightarrow> nat" where
  "mlfq_measure c s = nat (time_needed s * (ioTime c + 1) + max 0 (horizon s - currTime s))"

lemma time_needed_nonneg: "mlfq_inv c L b s \<Longrightarrow> 0 \<le> time_needed s"
  by (auto simp: mlfq_inv_def job_ok_def time_needed_def intro!: sum_list_nonneg)

lemma pending_horizon:
  assumes "finite (dom (ioDone s))" and "pending_jobs b s \<noteq> {#}"
  shows "b \<le> horizon s"
proof -
  have "{t \<in> dom (ioDone s). b \<le> t} \<noteq> {}"
  proof
    assume e: "{t \<in> dom (ioDone s). b \<le> t} = {}"
    have "pending_jobs b s = {#}" unfolding pending_jobs_def e by simp
    with assms(2) show False by simp
  qed
  then obtain t where "t \<in> dom (ioDone s)" "b \<le> t" by blast
  moreover have "t \<le> Max (insert 0 (dom (ioDone s)))" by (rule Max_ge) (use assms(1) \<open>t \<in> dom (ioDone s)\<close> in auto)
  ultimately show ?thesis by (simp add: horizon_def)
qed

lemma horizon_grows:
  assumes "finite (dom (ioDone s))" and "dom (ioDone t) \<subseteq> insert u (dom (ioDone s))"
  shows "horizon t \<le> max (horizon s) u"
proof -
  have "horizon t \<le> Max (insert 0 (insert u (dom (ioDone s))))"
    unfolding horizon_def by (rule Max_mono) (use assms in auto)
  also have "\<dots> = max u (horizon s)" unfolding horizon_def using assms(1) by (subst insert_commute) simp
  finally show ?thesis by simp
qed

lemma given_length: "given t = given s \<Longrightarrow> length (job t) = length (job s)"
  by (metis given_def length_map)

lemma mlfq_inv_wait:
  assumes "mlfq_inv c [] (currTime s + 1) s"
  shows "mlfq_inv c [] (currTime s + 1) (s\<lparr>currTime := currTime s + 1\<rparr>)"
proof -
  have "pending_jobs b (s\<lparr>currTime := x\<rparr>) = pending_jobs b s" "events_at (s\<lparr>currTime := x\<rparr>) = events_at s" for b x
    by (auto simp: pending_jobs_def events_at_def)
  moreover have "startTime J \<le> currTime s \<Longrightarrow> startTime J \<le> currTime s + 1" for J by simp
  ultimately show ?thesis using assms unfolding mlfq_inv_def by (simp add: job_ok_later) blast
qed

lemma mlfq_tick_ok:
  assumes c: "cfg_ok c" and inv: "mlfq_inv c [] (currTime s) s" and u: "unfinished s"
  shows "\<exists>t. mlfq_tick c s = Inr t \<and> mlfq_inv c [] (currTime t) t \<and> given t = given s \<and>
    mlfq_measure c t < mlfq_measure c s"
proof -
  from boost_phase_ok [OF c inv] obtain s1 where s1: "boost_phase c s = Inr s1" "mlfq_inv c [] (currTime s1) s1"
      "currTime s1 = currTime s" "ioDone s1 = ioDone s" "given s1 = given s" "time_needed s1 = time_needed s"
      "finishedJobs s1 = finishedJobs s" by auto
  from deliver_all [OF mlfq_inv_due [OF s1(2)]] obtain s2 where s2:
      "rfold (deliver c) (events_at s1 (currTime s1)) s1 = Inr s2" "mlfq_inv c [] (currTime s2 + 1) s2"
      "currTime s2 = currTime s1" "ioDone s2 = ioDone s1" "given s2 = given s1" "time_needed s2 = time_needed s1"
      "finishedJobs s2 = finishedJobs s1"
    by (auto simp: s1(3))
  have fd: "finite (dom (ioDone s))" using inv by (simp add: mlfq_inv_def)
  have hor: "horizon s2 = horizon s" by (simp add: horizon_def s2(4) s1(4))
  have io: "0 \<le> ioTime c" "0 \<le> hiQueue c" using c by (auto simp: cfg_ok_def hiQueue_def)
  have tn: "0 \<le> time_needed s2" by (rule time_needed_nonneg [OF s2(2)])
  have dom: "{0..hiQueue c} \<subseteq> dom (queue s2)" using s2(2) by (auto simp: mlfq_inv_def hiQueue_def)
  from FindQueue_result [OF io(2) dom] consider
      (idle) "FindQueue (queue s2) (hiQueue c) = Inr (-1)" "\<forall>p. 0 \<le> p \<longrightarrow> p \<le> hiQueue c \<longrightarrow> queue s2 p = Some []"
    | (run) q j rest where "FindQueue (queue s2) (hiQueue c) = Inr q" "0 \<le> q" "q \<le> hiQueue c" "queue s2 q = Some (j # rest)"
    by blast
  then show ?thesis
  proof cases
    case idle
    let ?t = "s2\<lparr>currTime := currTime s2 + 1\<rparr>"
    have step: "mlfq_tick c s = Inr ?t" using s1(1) s2(1) idle(1) by (simp add: mlfq_tick_def)
    have "queued_jobs c (queue s2) = {#}" using idle(2) by (auto simp: queued_jobs_def hiQueue_def)
    moreover have "live_jobs (job s2) \<noteq> {#}"
      using u s2 s1(5,7) by (auto simp: unfinished_def mlfq_inv_def dest: given_length)
    ultimately have "currTime s + 1 \<le> horizon s"
      using pending_horizon [of s2 "currTime s2 + 1"] s2(2,3) s1(3) hor by (simp add: mlfq_inv_def)
    moreover have "0 \<le> time_needed s * (ioTime c + 1)" using tn s2(6) s1(6) io by simp
    moreover have "time_needed ?t = time_needed s" "horizon ?t = horizon s"
      using s2(6) s1(6) hor by (simp_all add: time_needed_def horizon_def)
    ultimately have "mlfq_measure c ?t < mlfq_measure c s"
      using s2(3) s1(3) by (auto simp: mlfq_measure_def)
    moreover have "mlfq_inv c [] (currTime ?t) ?t" using mlfq_inv_wait [OF s2(2)] by simp
    ultimately show ?thesis using step s2(5) s1(5) by (auto simp: given_def)
  next
    case run
    have q: "q < numQueues c" using run(3) by (simp add: hiQueue_def)
    from run_job_ok [OF c run(2) q s2(2) run(4)] obtain t where t: "run_job c q j s2 = Inr t"
        "mlfq_inv c [] (currTime t) t" "currTime t = currTime s2 + 1" "given t = given s2"
        "time_needed t = time_needed s2 - 1" "dom (ioDone t) \<subseteq> insert (currTime s2 + 1 + ioTime c) (dom (ioDone s2))"
      by auto
    obtain "j < length (job s2)" "currPri (job s2 ! j) = q"
      by (rule mlfq_inv_queue [OF s2(2) run(2) q]) (use run(4) in auto)
    then have step: "mlfq_tick c s = Inr t"
      using s1(1) s2(1) run t(1) by (simp add: mlfq_tick_def py_lookup_def py_nth_def get_job_def)
    have "horizon t \<le> max (horizon s) (currTime s + 1 + ioTime c)"
      using horizon_grows [of s2 t] t(6) fd hor s2(3,4) s1(3,4) by simp
    moreover have "time_needed t * (ioTime c + 1) = time_needed s * (ioTime c + 1) - (ioTime c + 1)"
      using t(5) s2(6) s1(6) by (simp add: left_diff_distrib)
    moreover have "0 \<le> time_needed t * (ioTime c + 1)" using time_needed_nonneg [OF t(2)] io by simp
    moreover have "currTime t = currTime s + 1" using t(3) s2(3) s1(3) by simp
    ultimately have "mlfq_measure c t < mlfq_measure c s"
      using io(1) unfolding mlfq_measure_def by (smt (verit) nat_less_eq_zless)
    then show ?thesis using step t(2,4) s2(5) s1(5) by auto
  qed
qed

interpretation mlfq_loop: guarded_loop unfinished "mlfq_tick c"
  "\<lambda>s. cfg_ok c \<and> mlfq_inv c [] (currTime s) s \<and> given s = g" "mlfq_measure c" for c g
proof
  fix s
  assume s: "cfg_ok c \<and> mlfq_inv c [] (currTime s) s \<and> given s = g" "unfinished s"
  then show "\<exists>t. mlfq_tick c s = Inr t \<and> cfg_ok c \<and> mlfq_inv c [] (currTime t) t \<and> given t = g"
    using mlfq_tick_ok by blast
  fix t
  assume "mlfq_tick c s = Inr t"
  then show "mlfq_measure c t < mlfq_measure c s" using mlfq_tick_ok [of c s] s by auto
qed

section \<open>The loaded jobs\<close>

lemma live_jobs_snoc: "live_jobs (js @ [J]) = (if timeLeft J > 0 then add_mset (length js) (live_jobs js) else live_jobs js)"
  by (rule multiset_eqI) (auto simp: live_jobs_count nth_append less_Suc_eq)

lemma add_job_ok:
  assumes c: "cfg_ok c" and inv: "mlfq_inv c [] 0 s" and now: "currTime s = 0" and j: "0 \<le> start" "1 \<le> run"
  shows "\<exists>t. add_job c (start, run, io) s = Inr t \<and> mlfq_inv c [] 0 t \<and> currTime t = 0 \<and>
    given t = given s @ [(start, run)] \<and> time_needed t = time_needed s + run \<and> dom (ioDone t) = insert start (dom (ioDone s))"
proof -
  have h: "0 \<le> hiQueue c" "hiQueue c < numQueues c" using c by (auto simp: cfg_ok_def hiQueue_def)
  obtain v a where va: "quantum c (hiQueue c) = Some v" "allotment c (hiQueue c) = Some a" using c h by (auto simp: cfg_ok_def)
  let ?J = "\<lparr>currPri = hiQueue c, ticksLeft = v, allotLeft = a, startTime = start, runTime = run,
    timeLeft = run, ioFreq = io, doingIO = False, firstRun = -1, endTime = None\<rparr>"
  let ?n = "length (job s)"
  let ?u = "s\<lparr>job := job s @ [?J]\<rparr>"
  let ?t = "add_event start (?n, JOB_BEGINS) ?u"
  have step: "add_job c (start, run, io) s = Inr ?t" using va by (simp add: add_job_def py_lookup_def)
  have fields: "queue ?t = queue s" "job ?t = job s @ [?J]" "currTime ?t = 0" "finishedJobs ?t = finishedJobs s"
    using now by (simp_all add: add_event_def)
  have live: "live_jobs (job ?t) = add_mset ?n (live_jobs (job s))" unfolding fields using j(2) by (simp add: live_jobs_snoc)
  have "pending_jobs 0 ?t = add_mset ?n (pending_jobs 0 ?u)"
    by (rule pending_jobs_add) (use inv j(1) in \<open>auto simp: mlfq_inv_def\<close>)
  then have pend: "pending_jobs 0 ?t = add_mset ?n (pending_jobs 0 s)" by (simp add: pending_jobs_def events_at_def)
  have "\<forall>q l. queue s q = Some l \<longrightarrow> (\<forall>j \<in> set l. j < ?n)"
  proof (intro allI impI ballI)
    fix q l j
    assume l: "queue s q = Some l" "j \<in> set l"
    then have q: "0 \<le> q" "q < numQueues c" using inv domI [of "queue s" q l] by (auto simp: mlfq_inv_def)
    show "j < ?n" by (rule mlfq_inv_queue [OF inv q]) (use l in auto)
  qed
  note ready = this
  have ev: "set (events_at ?t x) \<subseteq> set (events_at s x) \<union> (if x = start then {(?n, JOB_BEGINS)} else {})" for x
    by (auto simp: events_at_def add_event_def split: option.splits)
  have "mlfq_inv c [] 0 ?t"
    unfolding mlfq_inv_def live pend unfolding fields
  proof (intro conjI)
    show "\<forall>q l. queue s q = Some l \<longrightarrow> (\<forall>j \<in> set l. currPri ((job s @ [?J]) ! j) = q \<and>
        \<not> doingIO ((job s @ [?J]) ! j) \<and> startTime ((job s @ [?J]) ! j) \<le> 0)"
      using inv ready now by (simp add: mlfq_inv_def nth_append)
    show "\<forall>x. \<forall>(j, e) \<in> set (events_at ?t x). j < length (job s @ [?J]) \<and> startTime ((job s @ [?J]) ! j) \<le> x"
    proof (intro allI ballI, clarify)
      fix x j e
      assume "(j, e) \<in> set (events_at ?t x)"
      then have "(j, e) \<in> set (events_at s x) \<or> j = ?n \<and> x = start" using ev [of x] by (auto split: if_splits)
      then show "j < length (job s @ [?J]) \<and> startTime ((job s @ [?J]) ! j) \<le> x"
        using inv by (auto simp: mlfq_inv_def nth_append)
    qed
    show "\<forall>J \<in> set (job s @ [?J]). job_ok c 0 J"
      using inv now h j by (auto simp: mlfq_inv_def job_ok_def)
    show "finite (dom (ioDone ?t))" using inv by (simp add: mlfq_inv_def add_event_def)
  qed (use inv in \<open>auto simp: mlfq_inv_def\<close>)
  then show ?thesis
    using step fields by (auto simp: given_def time_needed_def add_event_def)
qed

definition jobs_ok :: "(int \<times> int \<times> int) list \<Rightarrow> bool" where
  "jobs_ok js \<longleftrightarrow> (\<forall>(start, run, io) \<in> set js. 0 \<le> start \<and> 1 \<le> run)"

lemma add_jobs_ok:
  assumes "cfg_ok c" and "mlfq_inv c [] 0 s" and "currTime s = 0" and "jobs_ok js"
  shows "\<exists>t. rfold (add_job c) js s = Inr t \<and> mlfq_inv c [] 0 t \<and> currTime t = 0 \<and>
    given t = given s @ map (\<lambda>(start, run, io). (start, run)) js \<and>
    time_needed t = time_needed s + (\<Sum>(start, run, io) \<leftarrow> js. run) \<and> dom (ioDone t) = fst ` set js \<union> dom (ioDone s)"
  using assms(2-4)
proof (induction js arbitrary: s)
  case (Cons x js)
  obtain start run io where x: "x = (start, run, io)" by (cases x)
  have j: "0 \<le> start" "1 \<le> run" "jobs_ok js" using Cons.prems(3) x by (auto simp: jobs_ok_def)
  from add_job_ok [OF assms(1) Cons.prems(1,2) j(1,2)] obtain u where u: "add_job c (start, run, io) s = Inr u"
      "mlfq_inv c [] 0 u" "currTime u = 0" "given u = given s @ [(start, run)]" "time_needed u = time_needed s + run"
      "dom (ioDone u) = insert start (dom (ioDone s))" by blast
  from Cons.IH [OF u(2,3) j(3)] u show ?case by (auto simp: x)
qed simp

lemma load_jobs_ok:
  assumes "cfg_ok c" and "jobs_ok js"
  shows "\<exists>s. load_jobs c js = Inr s \<and> mlfq_inv c [] (currTime s) s \<and> currTime s = 0 \<and>
    given s = map (\<lambda>(start, run, io). (start, run)) js \<and>
    mlfq_measure c s = nat ((\<Sum>(start, run, io) \<leftarrow> js. run) * (ioTime c + 1) + Max (insert 0 (fst ` set js)))"
proof -
  have "mlfq_inv c [] 0 (empty_mlfq c)"
    by (auto simp: mlfq_inv_def empty_mlfq_def queued_jobs_def pending_jobs_def live_jobs_def events_at_def split: if_splits)
  from add_jobs_ok [OF assms(1) this _ assms(2)] obtain s where s: "load_jobs c js = Inr s" "mlfq_inv c [] 0 s"
      "currTime s = 0" "given s = map (\<lambda>(start, run, io). (start, run)) js"
      "time_needed s = (\<Sum>(start, run, io) \<leftarrow> js. run)" "dom (ioDone s) = fst ` set js"
    by (auto simp: load_jobs_def empty_mlfq_def given_def time_needed_def)
  have "0 \<le> Max (insert 0 (fst ` set js))" by (rule Max_ge) auto
  with s show ?thesis by (auto simp: mlfq_measure_def horizon_def)
qed

lemma job_stats_done:
  assumes "\<forall>J \<in> set Js. endTime J \<noteq> None"
  shows "job_stats Js = Inr (map (\<lambda>J. (firstRun J - startTime J, the (endTime J) - startTime J)) Js)"
  using assms by (induction Js) auto

text \<open>
  C13: Every run ends. With a level for each priority, an I/O time that is not negative and jobs that
  start at time zero or later and need at least one tick, the main loop finishes every job within
  a bounded number of ticks, for every quantum, allotment, boost interval and flag, without an
  abort; each job first runs no earlier than its start and its turnaround is at least its response
  plus its run time.
\<close>

theorem mlfq_completes:
  assumes "cfg_ok c" and "jobs_ok js" and "js \<noteq> []"
    and "nat ((\<Sum>(start, run, io) \<leftarrow> js. run) * (ioTime c + 1) + Max (insert 0 (fst ` set js))) < n"
  shows "\<exists>s stats r t. load_jobs c js = Inr s \<and> mlfq_run n c s = Some (Inr (stats, r, t)) \<and>
    length stats = length js \<and>
    (\<forall>i < length js. \<exists>start run io resp turn. js ! i = (start, run, io) \<and> stats ! i = (resp, turn) \<and>
       0 \<le> resp \<and> resp + run \<le> turn)"
proof -
  obtain s where s: "load_jobs c js = Inr s" "mlfq_inv c [] (currTime s) s"
      "given s = map (\<lambda>(start, run, io). (start, run)) js" "mlfq_measure c s < n"
    using load_jobs_ok [OF assms(1,2)] assms(4) by auto
  obtain t where t: "loop n unfinished (mlfq_tick c) s = Some (Inr t)" "mlfq_inv c [] (currTime t) t"
      "given t = given s" "\<not> unfinished t"
    using mlfq_loop.loop_returns [of c s "given s" n] s assms(1) by blast
  have "finishedJobs t + int (size (live_jobs (job t))) = int (length (job t))" using t(2) by (simp add: mlfq_inv_def)
  then have "size (live_jobs (job t)) = 0" using t(4) unfolding unfinished_def by linarith
  then have empty: "live_jobs (job t) = {#}" by simp
  have none: "timeLeft J = 0" if J: "J \<in> set (job t)" for J
  proof -
    obtain k where "k < length (job t)" "J = job t ! k" using J by (auto simp: in_set_conv_nth)
    then have "\<not> 0 < timeLeft J" using live_jobs_mem [of k "job t"] empty by simp
    moreover have "job_ok c (currTime t) J" using J t(2) by (simp add: mlfq_inv_def)
    ultimately show ?thesis by (simp add: job_ok_def)
  qed
  have ok: "\<exists>e. endTime J = Some e \<and> startTime J \<le> firstRun J \<and> firstRun J + runTime J \<le> e" if "J \<in> set (job t)" for J
    using that t(2) none [OF that] by (auto simp: mlfq_inv_def job_ok_def)
  let ?f = "\<lambda>J. (firstRun J - startTime J, the (endTime J) - startTime J)"
  have st: "job_stats (job t) = Inr (map ?f (job t))" by (rule job_stats_done) (use ok in force)
  have len: "length (job t) = length js" using t(3) s(3) by (metis given_def length_map)
  have "job t \<noteq> []" using len assms(3) by auto
  then have "\<exists>r u. mlfq_stats c t = Inr (map ?f (job t), r, u)" using st by (simp add: mlfq_stats_def)
  then obtain r u where "mlfq_stats c t = Inr (map ?f (job t), r, u)" by blast
  then have "mlfq_run n c s = Some (Inr (map ?f (job t), r, u))" using t(1) by (simp add: mlfq_run_def)
  moreover have "\<exists>start run io resp turn. js ! i = (start, run, io) \<and> map ?f (job t) ! i = (resp, turn) \<and>
      0 \<le> resp \<and> resp + run \<le> turn" if i: "i < length js" for i
  proof -
    obtain start run io where x: "js ! i = (start, run, io)" by (cases "js ! i")
    have "(startTime (job t ! i), runTime (job t ! i)) = (start, run)"
      using t(3) s(3) i len x by (metis (no_types, lifting) given_def nth_map old.prod.case)
    then show ?thesis using ok [of "job t ! i"] i len x by auto
  qed
  ultimately show ?thesis using s(1) len by fastforce
qed

definition demo_cfg :: "bool \<Rightarrow> int \<Rightarrow> mcfg" where
  "demo_cfg st b = \<lparr>numQueues = 3, quantum = levels 3 10, allotment = levels 3 1, boost = b, ioTime = 5, stay = st, iobump = False\<rparr>"

lemma demo_cfg_ok: "cfg_ok (demo_cfg st b)"
  by (simp add: cfg_ok_def demo_cfg_def levels_def)

theorem mlfq_completes_witness:
  "\<exists>s stats r t. load_jobs (demo_cfg False 0) [(0, 20, 3), (4, 7, 0)] = Inr s \<and>
     mlfq_run 200 (demo_cfg False 0) s = Some (Inr (stats, r, t)) \<and> length stats = 2"
  using mlfq_completes [OF demo_cfg_ok, of "[(0, 20, 3), (4, 7, 0)]" False 0 200]
  by (auto simp: jobs_ok_def demo_cfg_def)

text \<open>The states the main loop can be in.\<close>

inductive mlfq_reaches :: "mcfg \<Rightarrow> mlfq \<Rightarrow> mlfq \<Rightarrow> bool" for c s where
  reaches_start: "mlfq_reaches c s s"
| reaches_tick: "mlfq_reaches c s t \<Longrightarrow> unfinished t \<Longrightarrow> mlfq_tick c t = Inr u \<Longrightarrow> mlfq_reaches c s u"

lemma mlfq_reaches_inv:
  "mlfq_reaches c s t \<Longrightarrow> cfg_ok c \<Longrightarrow> mlfq_inv c [] (currTime s) s \<Longrightarrow> mlfq_inv c [] (currTime t) t"
  by (induction rule: mlfq_reaches.induct) (use mlfq_tick_ok in fastforce)+

text \<open>
  C19: No job is lost or doubled. In every state of a run the unfinished jobs are, counted with
  multiplicity, exactly those in the queues and those whose start or end of I/O is still to come;
  every queued job is in the queue of its current priority; and the next tick does not abort.
\<close>

theorem mlfq_conserves_jobs:
  assumes "cfg_ok c" and "jobs_ok js" and "load_jobs c js = Inr s" and "mlfq_reaches c s t"
  shows "queued_jobs c (queue t) + pending_jobs (currTime t) t = live_jobs (job t) \<and>
    (\<forall>q l. queue t q = Some l \<longrightarrow> (\<forall>j \<in> set l. currPri (job t ! j) = q \<and> \<not> doingIO (job t ! j))) \<and>
    (unfinished t \<longrightarrow> (\<exists>u. mlfq_tick c t = Inr u))"
proof -
  have inv: "mlfq_inv c [] (currTime t) t"
    using load_jobs_ok [OF assms(1,2)] assms(3) mlfq_reaches_inv [OF assms(4,1)] by auto
  have "unfinished t \<longrightarrow> (\<exists>u. mlfq_tick c t = Inr u)" using mlfq_tick_ok [OF assms(1) inv] by blast
  with inv show ?thesis by (simp add: mlfq_inv_def)
qed

theorem mlfq_conserves_jobs_witness:
  "\<exists>s. load_jobs (demo_cfg False 0) [(0, 20, 3)] = Inr s \<and>
     queued_jobs (demo_cfg False 0) (queue s) + pending_jobs (currTime s) s = live_jobs (job s)"
proof -
  have ok: "jobs_ok [(0, 20, 3)]" by (simp add: jobs_ok_def)
  then obtain s where "load_jobs (demo_cfg False 0) [(0, 20, 3)] = Inr s" using load_jobs_ok [OF demo_cfg_ok] by blast
  with mlfq_conserves_jobs [OF demo_cfg_ok ok this reaches_start] show ?thesis by blast
qed

section \<open>Deviations\<close>

text \<open>
  A boost resets the time slice of a job to the allotment, which is a number of slices, instead
  of the quantum: with the default quantum of ten and allotment of one, a long job alone in the
  system has one tick left after a boost instead of ten, and is moved down when it has run for it.
  And a job that issues its I/O with the last tick of its slice is moved down although it is to
  stay at its level after an I/O.
\<close>

theorem mlfq_boost_and_stay:
  "(case rbind (load_jobs (demo_cfg False 5) [(0, 100, 0)]) (rfold (\<lambda>_. mlfq_tick (demo_cfg False 5)) [0..<5]) of
      Inl e \<Rightarrow> False
    | Inr t \<Rightarrow> currTime t = 5 \<and> ticksLeft (hd (job t)) = 5 \<and> currPri (hd (job t)) = 2 \<and>
        (case mlfq_tick (demo_cfg False 5) t of Inl e \<Rightarrow> False | Inr u \<Rightarrow> currPri (hd (job u)) = 1)) \<and>
   (case rbind (load_jobs (demo_cfg True 0) [(0, 100, 10)]) (rfold (\<lambda>_. mlfq_tick (demo_cfg True 0)) [0..<10]) of
      Inl e \<Rightarrow> False
    | Inr t \<Rightarrow> doingIO (hd (job t)) \<and> currPri (hd (job t)) = 1)"
  by (intro conjI; code_simp)

end
