(* ===== verification/Translate.thy ===== *)
theory Translate
  imports PyString
begin

unbundle bit_operations_syntax

text \<open>
  Three address translators: base and bounds (\<open>src/Sem3/BSYS/15_Mechanisms/relocation.py\<close>), two
  segments (\<open>src/Sem3/BSYS/16_Segmentation/segmentation.py\<close>) and a linear page table
  (\<open>src/Sem3/BSYS/18_Paging/paging-linear-translate.py\<close>). Each program sets up its registers or its
  table, partly at random, and then translates a list of virtual addresses; a translation is
  \<open>None\<close> where the program reports a violation. Random placement draws until it fits.
\<close>

section \<open>Sizes\<close>

text \<open>The test of the two sizes, shared by the first two programs.\<close>

definition check_sizes :: "int \<Rightarrow> int \<Rightarrow> unit res" where
  "check_sizes asize psize = (if psize \<le> 1 \<or> asize = 0 \<or> psize \<le> asize then Inl SystemExit else Inr ())"

text \<open>\<open>int(asize/4.0 + (asize/4.0 * random.random()))\<close>\<close>

definition random_limit :: "int \<Rightarrow> rat \<Rightarrow> int" where
  "random_limit asize x = py_trunc (of_int asize / 4 + of_int asize / 4 * x)"

definition choose_limit :: "int \<Rightarrow> int \<Rightarrow> draws \<Rightarrow> (int \<times> draws) res" where
  "choose_limit limit asize rs =
     (if limit = -1 then rbind (draw rs) (\<lambda>(x, rs'). Inr (random_limit asize x, rs')) else Inr (limit, rs))"

text \<open>Random addresses, or those of a comma-separated list.\<close>

fun random_addresses :: "nat \<Rightarrow> int \<Rightarrow> draws \<Rightarrow> (int list \<times> draws) res" where
  "random_addresses 0 asize rs = Inr ([], rs)"
| "random_addresses (Suc n) asize rs =
     rbind (draw rs) (\<lambda>(x, rs1). rbind (random_addresses n asize rs1) (\<lambda>(l, rs2). Inr (rand_below x asize # l, rs2)))"

section \<open>Base and bounds\<close>

fun place_base :: "int \<Rightarrow> int \<Rightarrow> draws \<Rightarrow> (int \<times> draws) res" where
  "place_base psize limit [] = Inl OutOfDraws"
| "place_base psize limit (x # rs) =
     (if rand_below x psize + limit < psize then Inr (rand_below x psize, rs) else place_base psize limit rs)"

definition reloc_setup :: "string \<Rightarrow> string \<Rightarrow> string \<Rightarrow> string \<Rightarrow> draws \<Rightarrow> (int \<times> int \<times> int \<times> int \<times> draws) res" where
  "reloc_setup asizeS psizeS limitS baseS rs =
     rbind (convert asizeS) (\<lambda>asize. rbind (convert psizeS) (\<lambda>psize.
     rbind (check_sizes asize psize) (\<lambda>_.
     rbind (convert limitS) (\<lambda>l. rbind (convert baseS) (\<lambda>b.
     rbind (choose_limit l asize rs) (\<lambda>(limit, rs1).
     rbind (if b = -1 then place_base psize limit rs1 else Inr (b, rs1)) (\<lambda>(base, rs2).
       if base + limit > psize then Inl SystemExit else Inr (asize, psize, base, limit, rs2))))))))"

definition reloc_translate :: "int \<Rightarrow> int \<Rightarrow> int \<Rightarrow> int option" where
  "reloc_translate base limit vaddr = (if vaddr \<ge> limit then None else Some (vaddr + base))"

definition reloc_main ::
  "string \<Rightarrow> string \<Rightarrow> string \<Rightarrow> string \<Rightarrow> nat \<Rightarrow> draws \<Rightarrow> (int \<times> int option) list res" where
  "reloc_main asizeS psizeS limitS baseS num rs =
     rbind (reloc_setup asizeS psizeS limitS baseS rs) (\<lambda>(asize, psize, base, limit, rs1).
     rbind (random_addresses num asize rs1) (\<lambda>(l, rs2).
       Inr (map (\<lambda>v. (v, reloc_translate base limit v)) l)))"

section \<open>Two segments\<close>

record segments =
  base0 :: int
  len0 :: int
  base1 :: int
  len1 :: int

fun place_base1 :: "int \<Rightarrow> int \<Rightarrow> int \<Rightarrow> int \<Rightarrow> draws \<Rightarrow> (int \<times> draws) res" where
  "place_base1 psize b0 l0 l1 [] = Inl OutOfDraws"
| "place_base1 psize b0 l0 l1 (x # rs) =
     (let b1 = rand_below x psize in
      if b1 + l1 < psize \<and> (b1 > b0 + l0 \<or> b1 + l1 < b0) then Inr (b1, rs) else place_base1 psize b0 l0 l1 rs)"

definition seg_registers :: "int \<Rightarrow> int \<Rightarrow> int \<Rightarrow> int \<Rightarrow> int \<Rightarrow> int \<Rightarrow> draws \<Rightarrow> (segments \<times> draws) res" where
  "seg_registers asize psize l0 l1 b0 b1 rs =
     rbind (choose_limit l0 asize rs) (\<lambda>(l0', rs1).
     rbind (choose_limit l1 asize rs1) (\<lambda>(l1', rs2).
     rbind (if b0 = -1 then place_base psize l0' rs2 else Inr (b0, rs2)) (\<lambda>(b0', rs3).
     rbind (if b1 = -1 then place_base1 psize b0' l0' l1' rs3 else Inr (b1 - l1', rs3)) (\<lambda>(b1', rs4).
       if 2 * l0' > asize \<or> 2 * l1' > asize then Inl SystemExit
       else if l0' + b0' > b1' \<and> b1' > b0' then Inl SystemExit
       else Inr (\<lparr>base0 = b0', len0 = l0', base1 = b1', len1 = l1'\<rparr>, rs4)))))"

definition seg_setup ::
  "string \<Rightarrow> string \<Rightarrow> string \<Rightarrow> string \<Rightarrow> string \<Rightarrow> string \<Rightarrow> draws \<Rightarrow> (int \<times> int \<times> segments \<times> draws) res" where
  "seg_setup asizeS psizeS len0S len1S base0S base1S rs =
     rbind (convert asizeS) (\<lambda>asize. rbind (convert psizeS) (\<lambda>psize.
     rbind (check_sizes asize psize) (\<lambda>_.
     rbind (convert len0S) (\<lambda>l0. rbind (convert len1S) (\<lambda>l1. rbind (convert base0S) (\<lambda>b0. rbind (convert base1S) (\<lambda>b1.
     rbind (seg_registers asize psize l0 l1 b0 b1 rs) (\<lambda>(g, rs'). Inr (asize, psize, g, rs')))))))))"

definition seg_translate :: "int \<Rightarrow> segments \<Rightarrow> int \<Rightarrow> int option" where
  "seg_translate asize g vaddr =
     (if vaddr \<ge> asize div 2 then
        (let paddr = base1 g + len1 g + (vaddr - asize) in if paddr < base1 g then None else Some paddr)
      else if vaddr \<ge> len0 g then None else Some (vaddr + base0 g))"

fun seg_trace :: "int \<Rightarrow> segments \<Rightarrow> int res list \<Rightarrow> (int \<times> int option) list res" where
  "seg_trace asize g [] = Inr []"
| "seg_trace asize g (m # ms) =
     rbind m (\<lambda>v. if v < 0 \<or> v \<ge> asize then Inl SystemExit
       else rbind (seg_trace asize g ms) (\<lambda>l. Inr ((v, seg_translate asize g v) # l)))"

definition seg_main ::
  "string \<Rightarrow> string \<Rightarrow> string \<Rightarrow> string \<Rightarrow> string \<Rightarrow> string \<Rightarrow> string \<Rightarrow> nat \<Rightarrow> draws \<Rightarrow> (int \<times> int option) list res" where
  "seg_main asizeS psizeS len0S len1S base0S base1S addresses num rs =
     rbind (seg_setup asizeS psizeS len0S len1S base0S base1S rs) (\<lambda>(asize, psize, g, rs1).
     rbind (if addresses = ''-1'' then rbind (random_addresses num asize rs1) (\<lambda>(l, rs2). Inr (map Inr l))
            else Inr (map py_int (split_on CHR '','' addresses))) (seg_trace asize g))"

section \<open>A linear page table\<close>

text \<open>
  \<open>int(math.log(float(x))/math.log(2.0))\<close>: the integral part of the logarithm to base two. The
  rounding of the two logarithms is not modelled.
\<close>

fun ilog2 :: "nat \<Rightarrow> nat" where
  "ilog2 n = (if n < 2 then 0 else Suc (ilog2 (n div 2)))"

declare ilog2.simps [simp del]

definition log_bits :: "int \<Rightarrow> nat res" where
  "log_bits x = (if x \<le> 0 then Inl ValueError else Inr (ilog2 (nat x)))"

definition mustbepowerof2 :: "nat \<Rightarrow> int \<Rightarrow> unit res" where
  "mustbepowerof2 bits sz = (if 2 ^ bits \<noteq> sz then Inl SystemExit else Inr ())"

text \<open>\<open>int(float(a)/float(b)) != int(a) / int(b)\<close>: a truncated quotient against a rounded-down one.\<close>

definition mustbemultipleof :: "int \<Rightarrow> int \<Rightarrow> unit res" where
  "mustbemultipleof bignum num =
     (if num = 0 then Inl ZeroDivisionError
      else if py_trunc (of_int bignum / of_int num) \<noteq> bignum div num then Inl SystemExit else Inr ())"

text \<open>The page table is filled entry by entry; \<open>-1\<close> marks an entry that is not valid.\<close>

fun fill_table :: "nat \<Rightarrow> int \<Rightarrow> int \<Rightarrow> draws \<Rightarrow> bool list \<Rightarrow> int list \<Rightarrow> (int list \<times> draws) res" where
  "fill_table 0 percent pages rs used pt = Inr (pt, rs)"
| "fill_table (Suc n) percent pages [] used pt = Inl OutOfDraws"
| "fill_table (Suc n) percent pages (x # rs) used pt =
     (if x * 100 > 100 - of_int percent then
        (case rs of
           [] \<Rightarrow> Inl OutOfDraws
         | y # rs' \<Rightarrow>
             (let u = rand_below y pages in
              rbind (py_nth used u) (\<lambda>b.
                if \<not> b then rbind (py_set used u True) (\<lambda>used'. fill_table n percent pages rs' used' (pt @ [u]))
                else fill_table (Suc n) percent pages rs' used pt)))
      else fill_table n percent pages rs used (pt @ [-1]))"

definition paging_setup ::
  "string \<Rightarrow> string \<Rightarrow> string \<Rightarrow> int \<Rightarrow> draws \<Rightarrow> (int \<times> nat \<times> int list \<times> draws) res" where
  "paging_setup asizeS psizeS pagesizeS percent rs =
     rbind (convert asizeS) (\<lambda>asize. rbind (convert psizeS) (\<lambda>psize. rbind (convert pagesizeS) (\<lambda>pagesize.
     if psize \<le> 1 \<or> asize < 1 \<or> psize \<le> asize \<or> psize \<ge> 1024 ^ 3 \<or> asize \<ge> 1024 ^ 3 then Inl SystemExit
     else
       rbind (mustbemultipleof asize pagesize) (\<lambda>_. rbind (mustbemultipleof psize pagesize) (\<lambda>_.
       rbind (log_bits asize) (\<lambda>vabits. rbind (mustbepowerof2 vabits asize) (\<lambda>_.
       rbind (log_bits pagesize) (\<lambda>pagebits. rbind (mustbepowerof2 pagebits pagesize) (\<lambda>_.
       rbind (fill_table (nat (asize div pagesize)) percent (psize div pagesize) rs
                (replicate (nat (psize div pagesize)) False) []) (\<lambda>(pt, rs').
         Inr (asize, pagebits, pt, rs')))))))))))"

definition pagemask :: "nat \<Rightarrow> int" where
  "pagemask pagebits = push_bit pagebits 1 - 1"

definition vpnmask :: "nat \<Rightarrow> int" where
  "vpnmask pagebits = 0xFFFFFFFF AND NOT (pagemask pagebits)"

definition paging_translate :: "nat \<Rightarrow> int list \<Rightarrow> int \<Rightarrow> int option res" where
  "paging_translate pagebits pt vaddr =
     (let vpn = drop_bit pagebits (vaddr AND vpnmask pagebits) in
      rbind (py_nth pt vpn) (\<lambda>pfn.
        if pfn < 0 then Inr None
        else Inr (Some (push_bit pagebits pfn OR (vaddr AND pagemask pagebits)))))"

fun paging_trace :: "nat \<Rightarrow> int list \<Rightarrow> int res list \<Rightarrow> (int \<times> int option) list res" where
  "paging_trace pagebits pt [] = Inr []"
| "paging_trace pagebits pt (m # ms) =
     rbind m (\<lambda>v. rbind (paging_translate pagebits pt v) (\<lambda>p.
     rbind (paging_trace pagebits pt ms) (\<lambda>l. Inr ((v, p) # l))))"

definition paging_main ::
  "string \<Rightarrow> string \<Rightarrow> string \<Rightarrow> int \<Rightarrow> string \<Rightarrow> nat \<Rightarrow> draws \<Rightarrow> (int \<times> int option) list res" where
  "paging_main asizeS psizeS pagesizeS percent addresses num rs =
     rbind (paging_setup asizeS psizeS pagesizeS percent rs) (\<lambda>(asize, pagebits, pt, rs1).
     rbind (if addresses = ''-1'' then rbind (random_addresses num asize rs1) (\<lambda>(l, rs2). Inr (map Inr l))
            else Inr (map py_int (split_on CHR '','' addresses))) (paging_trace pagebits pt))"

section \<open>Placement\<close>

lemma place_base_fits:
  "place_base psize limit rs = Inr (b, rs') \<Longrightarrow> draws_ok rs \<Longrightarrow> 0 < psize \<Longrightarrow>
   0 \<le> b \<and> b < psize \<and> b + limit < psize \<and> draws_ok rs'"
proof (induction psize limit rs rule: place_base.induct)
  case (2 psize limit x rs)
  have x: "0 \<le> x" "x < 1" "draws_ok rs" using 2(3) by (auto simp: draws_ok_def)
  show ?case
    using 2 x rand_below_bounds [OF x(1,2) 2(4)] by (auto split: if_splits)
qed simp

lemma place_base1_fits:
  "place_base1 psize b0 l0 l1 rs = Inr (b, rs') \<Longrightarrow> draws_ok rs \<Longrightarrow> 0 < psize \<Longrightarrow>
   0 \<le> b \<and> b + l1 < psize \<and> (b > b0 + l0 \<or> b + l1 < b0) \<and> draws_ok rs'"
proof (induction psize b0 l0 l1 rs rule: place_base1.induct)
  case (2 psize b0 l0 l1 x rs)
  have x: "0 \<le> x" "x < 1" "draws_ok rs" using 2(3) by (auto simp: draws_ok_def)
  show ?case
    using 2 x rand_below_bounds [OF x(1,2) 2(4)] by (auto simp: Let_def split: if_splits)
qed simp

lemma choose_limit_draws: "choose_limit l asize rs = Inr (l', rs') \<Longrightarrow> draws_ok rs \<Longrightarrow> draws_ok rs'"
  by (auto simp: choose_limit_def split: if_splits dest: draws_ok_draw)

text \<open>
  Base and bounds with registers chosen at random, or with a base that is not negative: if the
  set-up succeeds, the translation of an address of the address space lies in physical memory,
  between base and base plus limit, and no two addresses share a physical address.
\<close>

theorem reloc_in_bounds:
  assumes "reloc_setup asizeS psizeS limitS baseS rs = Inr (asize, psize, base, limit, rs')" and "draws_ok rs"
    and "baseS = ''-1'' \<or> 0 \<le> base"
  shows "\<forall>v p. 0 \<le> v \<longrightarrow> reloc_translate base limit v = Some p \<longrightarrow>
    0 \<le> p \<and> p < psize \<and> base \<le> p \<and> p < base + limit \<and>
    (\<forall>w. reloc_translate base limit w = Some p \<longrightarrow> w = v)"
proof -
  have m1: "convert ''-1'' = Inr (-1)" by code_simp
  obtain l b rs1 where psize: "1 < psize" and b: "convert baseS = Inr b" and r: "choose_limit l asize rs = Inr (limit, rs1)"
      "(if b = -1 then place_base psize limit rs1 else Inr (b, rs1)) = Inr (base, rs')" "base + limit \<le> psize"
    using assms(1) by (auto simp: reloc_setup_def check_sizes_def split: if_splits)
  have "0 \<le> base"
  proof (cases "b = -1")
    case True
    then show ?thesis using place_base_fits [of psize limit rs1 base rs'] choose_limit_draws [OF r(1) assms(2)] r(2) psize by simp
  next
    case False
    then show ?thesis using assms(3) b m1 by auto
  qed
  with r(3) show ?thesis by (auto simp: reloc_translate_def split: if_splits)
qed

theorem reloc_in_bounds_witness:
  "\<exists>base limit. reloc_setup ''1k'' ''16k'' ''-1'' ''-1'' [1/2, 1/4] = Inr (1024, 16384, base, limit, []) \<and>
     reloc_translate base limit 100 = Some (100 + base) \<and> 0 \<le> 100 + base \<and> 100 + base < 16384"
proof -
  have s: "reloc_setup ''1k'' ''16k'' ''-1'' ''-1'' [1/2, 1/4] = Inr (1024, 16384, 4096, 384, [])" by code_simp
  have t: "reloc_translate 4096 384 100 = Some (100 + 4096)" by (simp add: reloc_translate_def)
  have d: "draws_ok [1/2, 1/4]" by (simp add: draws_ok_def)
  have b: "0 \<le> 100 + (4096 :: int) \<and> 100 + (4096 :: int) < 16384 \<and> 4096 \<le> 100 + (4096 :: int) \<and> 100 + (4096 :: int) < 4096 + 384 \<and>
      (\<forall>w. reloc_translate 4096 384 w = Some (100 + 4096) \<longrightarrow> w = 100)"
    by (rule reloc_in_bounds [OF s d, THEN spec, THEN spec, THEN mp, THEN mp, OF _ _ t]) simp_all
  show ?thesis by (intro exI [of _ 4096] exI [of _ 384] conjI s t b [THEN conjunct1] b [THEN conjunct2, THEN conjunct1])
qed

text \<open>
  C30: Segments placed at random are isolated: if the set-up succeeds, every translation lies in
  physical memory and no two virtual addresses, of the same or of different segments, share a
  physical address.
\<close>

theorem segmentation_isolates:
  assumes "seg_setup asizeS psizeS len0S len1S ''-1'' ''-1'' rs = Inr (asize, psize, g, rs')" and "draws_ok rs"
  shows "\<forall>v p. 0 \<le> v \<longrightarrow> v < asize \<longrightarrow> seg_translate asize g v = Some p \<longrightarrow>
    0 \<le> p \<and> p < psize \<and> (\<forall>w. 0 \<le> w \<longrightarrow> w < asize \<longrightarrow> seg_translate asize g w = Some p \<longrightarrow> w = v)"
proof -
  have m1: "convert ''-1'' = Inr (-1)" by code_simp
  obtain l0 l1 where psize: "1 < psize" and reg: "seg_registers asize psize l0 l1 (-1) (-1) rs = Inr (g, rs')"
    using assms(1) by (auto simp: seg_setup_def m1 check_sizes_def split: if_splits)
  then obtain rs1 rs2 rs3 rs4 where r: "choose_limit l0 asize rs = Inr (len0 g, rs1)" "choose_limit l1 asize rs1 = Inr (len1 g, rs2)"
      "place_base psize (len0 g) rs2 = Inr (base0 g, rs3)" "place_base1 psize (base0 g) (len0 g) (len1 g) rs3 = Inr (base1 g, rs4)"
    by (auto simp: seg_registers_def split: if_splits)
  note d2 = choose_limit_draws [OF r(2) choose_limit_draws [OF r(1) assms(2)]]
  have b0: "0 \<le> base0 g" "base0 g + len0 g < psize" "draws_ok rs3" using place_base_fits [OF r(3) d2] psize by auto
  have b1: "0 \<le> base1 g" "base1 g + len1 g < psize" "base1 g > base0 g + len0 g \<or> base1 g + len1 g < base0 g"
    using place_base1_fits [OF r(4) b0(3)] psize by auto
  show ?thesis using b0 b1 by (auto simp: seg_translate_def Let_def split: if_splits)
qed

theorem segmentation_isolates_witness:
  "\<exists>g. seg_setup ''1k'' ''16k'' ''-1'' ''-1'' ''-1'' ''-1'' [0, 0, 1/2, 1/4] = Inr (1024, 16384, g, []) \<and>
     seg_translate 1024 g 100 = Some 8292 \<and> (\<forall>w. 0 \<le> w \<longrightarrow> w < 1024 \<longrightarrow> seg_translate 1024 g w = Some 8292 \<longrightarrow> w = 100)"
proof -
  let ?g = "\<lparr>base0 = 8192, len0 = 256, base1 = 4096, len1 = 256\<rparr>"
  have s: "seg_setup ''1k'' ''16k'' ''-1'' ''-1'' ''-1'' ''-1'' [0, 0, 1/2, 1/4] = Inr (1024, 16384, ?g, [])" by code_simp
  have t: "seg_translate 1024 ?g 100 = Some 8292" by code_simp
  have "draws_ok [0, 0, 1/2, 1/4]" by (simp add: draws_ok_def)
  from segmentation_isolates [OF s this, rule_format, of 100 8292] s t show ?thesis by (intro exI [of _ ?g]) auto
qed

text \<open>
  With registers given by the user the overlap test is incomplete: it only looks for a second
  segment that starts inside the first. Segments that overlap the other way round are accepted
  and two virtual addresses are translated to the same physical one.
\<close>

theorem segmentation_overlap_missed:
  "seg_main ''1k'' ''16k'' ''100'' ''100'' ''1000'' ''1050'' ''0,974'' 0 [] = Inr [(0, Some 1000), (974, Some 1000)]"
  by code_simp

text \<open>
  The test that a size is a multiple of the page size never fails: it compares the rounded-down
  quotient with itself. A page size above the size of the address space is therefore accepted,
  the page table is empty and the first translation raises \<open>IndexError\<close>.
\<close>

theorem multiple_check_never_fails:
  assumes "0 \<le> bignum" and "0 < num"
  shows "mustbemultipleof bignum num = Inr ()"
proof -
  have "\<lfloor>rat_of_int bignum / rat_of_int num\<rfloor> = bignum div num" by (rule floor_divide_of_int_eq)
  moreover have "\<not> rat_of_int bignum / rat_of_int num < 0" using assms by (simp add: not_less)
  ultimately show ?thesis using assms unfolding mustbemultipleof_def py_trunc_def by simp
qed

theorem multiple_check_never_fails_witness:
  "mustbemultipleof 16 32 = Inr () \<and> paging_main ''16'' ''64'' ''32'' 50 ''3'' 0 [] = Inl IndexError"
proof
  show "mustbemultipleof 16 32 = Inr ()" by (rule multiple_check_never_fails) simp_all
  show "paging_main ''16'' ''64'' ''32'' 50 ''3'' 0 [] = Inl IndexError" by code_simp
qed

section \<open>The page table\<close>

definition table_ok :: "nat \<Rightarrow> bool list \<Rightarrow> int list \<Rightarrow> bool" where
  "table_ok n used pt \<longleftrightarrow> length used = n \<and> (\<forall>p \<in> set pt. -1 \<le> p \<and> p < int n) \<and>
     (\<forall>u < n. used ! u \<longleftrightarrow> int u \<in> set pt) \<and> distinct (filter (\<lambda>p. 0 \<le> p) pt)"

lemma fill_table_ok:
  assumes "fill_table n percent pages rs used pt = Inr (pt', rs')" and "draws_ok rs" and "table_ok (nat pages) used pt"
  shows "length pt' = length pt + n \<and> (\<exists>used'. table_ok (nat pages) used' pt')"
  using assms
proof (induction n percent pages rs used pt rule: fill_table.induct)
  case (3 n percent pages x rs used pt)
  have rs: "draws_ok rs" using 3(5) by (simp add: draws_ok_def)
  show ?case
  proof (cases "x * 100 > 100 - of_int percent")
    case False
    have "table_ok (nat pages) used (pt @ [-1])" using 3(6) by (auto simp: table_ok_def)
    then show ?thesis using 3(3) [OF False] 3(4) rs False by auto
  next
    case True
    then obtain y ys where y: "rs = y # ys" using 3(4) by (cases rs) auto
    have ys: "0 \<le> y" "y < 1" "draws_ok ys" using rs y by (auto simp: draws_ok_def)
    let ?u = "rand_below y pages"
    show ?thesis
    proof (cases "py_nth used ?u")
      case (Inl e)
      then show ?thesis using 3(4) True y by simp
    next
      case (Inr b)
      show ?thesis
      proof (cases b)
        case b: True
        then show ?thesis using 3(2) [OF True y refl Inr] 3(4,6) True y Inr ys(3) by simp
      next
        case False
        have pages: "0 < pages"
        proof (rule ccontr)
          assume "\<not> 0 < pages"
          then have "used = []" using 3(6) by (simp add: table_ok_def)
          then show False using Inr by (auto simp: py_nth_def split: if_splits)
        qed
        note u = rand_below_bounds [OF ys(1,2) pages]
        define k where "k = nat ?u"
        have k: "k < nat pages" "?u = int k" using u by (auto simp: k_def)
        have len: "length used = nat pages" using 3(6) by (simp add: table_ok_def)
        have nb: "\<not> used ! k" using Inr False k len by simp
        have "table_ok (nat pages) (used[k := True]) (pt @ [int k])"
          using 3(6) nb k len by (auto simp: table_ok_def nth_list_update)
        then show ?thesis using 3(1) [OF True y refl Inr, of "used[k := True]"] 3(4) True y Inr ys(3) False k len by simp
      qed
    qed
  qed
qed auto

lemma fill_table_start: "table_ok n (replicate n False) []"
  by (simp add: table_ok_def)

section \<open>Splitting an address\<close>

lemma pagemask_mask: "pagemask n = mask n"
  by (simp add: pagemask_def mask_eq_exp_minus_1)

lemma vpn_div:
  assumes "0 \<le> v" and "v < 2 ^ 32"
  shows "drop_bit n (v AND vpnmask n) = v div 2 ^ n"
proof -
  have m: "(0xFFFFFFFF :: int) = mask 32" by (simp add: mask_eq_exp_minus_1)
  have "v AND (mask 32 AND NOT (mask n)) = (v AND mask 32) AND NOT (mask n)" by (simp add: and.assoc)
  also have "v AND mask 32 = v" using assms by (simp add: take_bit_int_eq_self flip: take_bit_eq_mask)
  finally have "drop_bit n (v AND vpnmask n) = drop_bit n (v AND NOT (mask n))"
    unfolding vpnmask_def pagemask_mask m by simp
  also have "\<dots> = drop_bit n v" by (rule bit_eqI) (auto simp: bit_simps)
  finally show ?thesis by (simp add: drop_bit_eq_div)
qed

lemma join_offset: "push_bit n p OR (v AND pagemask n) = p * 2 ^ n + v mod 2 ^ n" for p v :: int
proof -
  have "push_bit n p AND take_bit n v = 0" by (rule bit_eqI) (auto simp: bit_simps)
  then have "push_bit n p OR take_bit n v = push_bit n p + take_bit n v" by (simp add: disjunctive_add_eq_or)
  then show ?thesis by (simp add: pagemask_mask push_bit_eq_mult take_bit_eq_mod flip: take_bit_eq_mask)
qed

text \<open>What a successful set-up says of the table.\<close>

lemma paging_setup_ok:
  assumes "paging_setup asizeS psizeS pagesizeS percent rs = Inr (asize, pagebits, pt, rs')" and "draws_ok rs"
    and "convert psizeS = Inr psize"
  obtains used where "0 < asize" "asize < 2 ^ 30" "length pt = nat (asize div 2 ^ pagebits)" "asize = 2 ^ ilog2 (nat asize)"
    "table_ok (nat (psize div 2 ^ pagebits)) used pt" "0 < psize"
proof -
  obtain pagesize where s: "1 \<le> asize" "asize < psize" "\<not> asize \<ge> 1024 ^ 3" "2 ^ ilog2 (nat asize) = asize" "2 ^ pagebits = pagesize"
      "fill_table (nat (asize div pagesize)) percent (psize div pagesize) rs (replicate (nat (psize div pagesize)) False) [] = Inr (pt, rs')"
    using assms(1,3) by (auto simp: paging_setup_def mustbepowerof2_def log_bits_def split: if_splits)
  have "length pt = nat (asize div pagesize)" "\<exists>used. table_ok (nat (psize div pagesize)) used pt"
    using fill_table_ok [OF s(6) assms(2) fill_table_start] by auto
  then show ?thesis using that s by auto
qed

lemma page_split_unique:
  fixes p q m :: int
  assumes "p * m + v mod m = q * m + w mod m" and "0 < m"
  shows "p = q \<and> v mod m = w mod m"
proof -
  have "(p * m + v mod m) div m = p" "(q * m + w mod m) div m = q" using assms(2) by simp_all
  with assms(1) have "p = q" by simp
  with assms(1) show ?thesis by simp
qed

lemma filter_distinct_nth:
  assumes "distinct (filter P xs)" and "i < j" and "j < length xs" and "P (xs ! i)"
  shows "xs ! i \<noteq> xs ! j"
proof
  assume e: "xs ! i = xs ! j"
  have "xs ! i \<in> set (take j xs)" using assms(2,3) by (metis in_set_conv_nth length_take min.absorb2 nth_take less_imp_le)
  moreover have "distinct (filter P (take j xs) @ filter P (xs ! j # drop (Suc j) xs))"
    using assms(1,3) by (metis filter_append id_take_nth_drop)
  ultimately show False using e assms(4) by auto
qed

lemma table_injective:
  assumes "table_ok n used pt" and "i < length pt" and "j < length pt" and "pt ! i = pt ! j" and "0 \<le> pt ! i"
  shows "i = j"
proof -
  have d: "distinct (filter (\<lambda>p. 0 \<le> p) pt)" using assms(1) by (simp add: table_ok_def)
  show ?thesis
    using filter_distinct_nth [OF d, of i j] filter_distinct_nth [OF d, of j i] assms(2-5) by (cases i j rule: linorder_cases) auto
qed

text \<open>
  C26: If the page size is at most the address space, the translation with masks and shifts is the arithmetic one: page number and offset are the
  quotient and the remainder by the page size, and a valid address is the frame number times the
  page size plus the offset. For a table the program has built, every address of the address
  space has an entry, every translation lies in physical memory, and no two addresses share one.
\<close>

theorem paging_translates:
  assumes "paging_setup asizeS psizeS pagesizeS percent rs = Inr (asize, pagebits, pt, rs')" and "draws_ok rs"
    and "convert psizeS = Inr psize" and "2 ^ pagebits \<le> asize"
  shows "\<forall>v. 0 \<le> v \<longrightarrow> v < asize \<longrightarrow>
    (let vpn = v div 2 ^ pagebits; pfn = pt ! nat vpn in
     vpn < int (length pt) \<and>
     paging_translate pagebits pt v = Inr (if pfn < 0 then None else Some (pfn * 2 ^ pagebits + v mod 2 ^ pagebits)) \<and>
     (\<forall>p. paging_translate pagebits pt v = Inr (Some p) \<longrightarrow> 0 \<le> p \<and> p < psize \<and>
       (\<forall>w. 0 \<le> w \<longrightarrow> w < asize \<longrightarrow> paging_translate pagebits pt w = Inr (Some p) \<longrightarrow> w = v)))"
proof -
  let ?m = "2 ^ pagebits :: int"
  obtain used where s: "0 < asize" "asize < 2 ^ 30" "length pt = nat (asize div ?m)" "asize = 2 ^ ilog2 (nat asize)"
      "table_ok (nat (psize div ?m)) used pt" "0 < psize"
    by (rule paging_setup_ok [OF assms(1-3)])
  have pos: "0 < ?m" by simp
  have "pagebits \<le> ilog2 (nat asize)"
    by (rule power_le_imp_le_exp [of "2 :: int"]) (use assms(4) s(4) in auto)
  then have dvd: "?m dvd asize" by (subst s(4)) (rule le_imp_power_dvd)
  have vpn: "0 \<le> v div ?m" "v div ?m < int (length pt)" if v: "0 \<le> v" "v < asize" for v
  proof -
    have "v < asize div ?m * ?m" using v dvd by simp
    moreover have "v div ?m * ?m \<le> v" by (simp add: minus_mod_eq_div_mult [symmetric])
    ultimately have "v div ?m * ?m < asize div ?m * ?m" by linarith
    then have "v div ?m < asize div ?m" by simp
    then show "0 \<le> v div ?m" "v div ?m < int (length pt)" using v s(3) by (simp_all add: pos_imp_zdiv_nonneg_iff)
  qed
  have tr: "paging_translate pagebits pt v =
      Inr (if pt ! nat (v div ?m) < 0 then None else Some (pt ! nat (v div ?m) * ?m + v mod ?m))" if v: "0 \<le> v" "v < asize" for v
  proof -
    have "drop_bit pagebits (v AND vpnmask pagebits) = v div ?m" by (rule vpn_div) (use v s(2) in auto)
    then show ?thesis using vpn [OF v] by (simp add: paging_translate_def py_nth_def join_offset)
  qed
  have val: "0 \<le> pt ! nat (v div ?m) \<and> p = pt ! nat (v div ?m) * ?m + v mod ?m"
    if "0 \<le> v" "v < asize" "paging_translate pagebits pt v = Inr (Some p)" for v p
    using tr [OF that(1,2)] that(3) by (auto split: if_splits)
  have "0 \<le> p \<and> p < psize" if v: "0 \<le> v" "v < asize" "paging_translate pagebits pt v = Inr (Some p)" for v p
  proof -
    let ?f = "pt ! nat (v div ?m)"
    have f: "0 \<le> ?f" "p = ?f * ?m + v mod ?m" using val [OF v] by auto
    have "?f \<in> set pt" using vpn [OF v(1,2)] by simp
    then have "?f < int (nat (psize div ?m))" using s(5) by (simp add: table_ok_def)
    moreover have "0 \<le> psize div ?m" using s(6) by (simp add: pos_imp_zdiv_nonneg_iff)
    ultimately have "?f < psize div ?m" by simp
    then have "(?f + 1) * ?m \<le> psize div ?m * ?m" by (intro mult_right_mono) auto
    also have "\<dots> \<le> psize" using pos by (simp add: minus_mod_eq_div_mult [symmetric])
    finally have "?f * ?m + ?m \<le> psize" by (simp add: distrib_right)
    moreover have "0 \<le> v mod ?m" "v mod ?m < ?m" using pos by simp_all
    moreover have "0 \<le> ?f * ?m" using f(1) by simp
    ultimately show ?thesis using f(2) by linarith
  qed
  moreover have "w = v" if v: "0 \<le> v" "v < asize" "paging_translate pagebits pt v = Inr (Some p)"
      and w: "0 \<le> w" "w < asize" "paging_translate pagebits pt w = Inr (Some p)" for v w p
  proof -
    have e: "pt ! nat (w div ?m) = pt ! nat (v div ?m)" "w mod ?m = v mod ?m"
      using page_split_unique [OF _ pos, of "pt ! nat (w div ?m)" w "pt ! nat (v div ?m)" v] val [OF v] val [OF w] by auto
    have "nat (w div ?m) = nat (v div ?m)"
      by (rule table_injective [OF s(5)]) (use e(1) val [OF w] vpn [OF v(1,2)] vpn [OF w(1,2)] in auto)
    then have "w div ?m = v div ?m" using vpn(1) [OF v(1,2)] vpn(1) [OF w(1,2)] by (simp add: eq_nat_nat_iff)
    with e(2) show ?thesis by (metis div_mult_mod_eq)
  qed
  ultimately show ?thesis using vpn(2) tr unfolding Let_def by blast
qed

theorem paging_translates_witness:
  "\<exists>pt. paging_setup ''16'' ''64'' ''4'' 100 [1/2, 1/2, 1/2, 1/4, 1/2, 0, 1/2, 1/8] = Inr (16, 2, pt, []) \<and>
     paging_translate 2 pt 7 = Inr (Some (pt ! 1 * 4 + 3))"
proof -
  let ?rs = "[1/2, 1/2, 1/2, 1/4, 1/2, 0, 1/2, 1/8] :: draws"
  have s: "paging_setup ''16'' ''64'' ''4'' 100 ?rs = Inr (16, 2, [8, 4, 0, 2], [])" by code_simp
  have c: "convert ''64'' = Inr 64" by code_simp
  have d: "draws_ok ?rs" by (simp add: draws_ok_def)
  have "paging_translate 2 [8, 4, 0, 2] 7 = Inr (if ([8, 4, 0, 2] :: int list) ! nat (7 div 2 ^ 2) < 0 then None
      else Some ([8, 4, 0, 2] ! nat (7 div 2 ^ 2) * 2 ^ 2 + 7 mod 2 ^ 2))"
    by (rule paging_translates [OF s d c, THEN spec, THEN mp, THEN mp, unfolded Let_def, THEN conjunct2, THEN conjunct1]) simp_all
  then show ?thesis using s by (intro exI [of _ "[8, 4, 0, 2]"]) simp
qed

end
