(* ===== verification/Multilevel.thy ===== *)
theory Multilevel
  imports Prelude
begin

unbundle bit_operations_syntax

text \<open>
  The two-level page table of \<open>src/Sem3/BSYS/20_Multilevel_Cache/paging-multilevel-translate.py\<close>: class \<open>OS\<close>
  with its frame allocator, the page directory and the page tables, which it keeps in the frames
  of the simulated memory, the allocation of a process and the translation of an address.

  In \<open>procAlloc\<close> the dictionary \<open>used\<close> marks exactly the virtual pages that have been appended to
  \<open>allocatedVPs\<close>; the model asks the list.
\<close>

section \<open>State\<close>

record os =
  usedPages :: "int list"
  usedPagesCount :: int
  memory :: "int list"
  pdbr :: "int \<rightharpoonup> int"

definition pageSize :: int where "pageSize = 32"
definition physPages :: int where "physPages = 128"
definition vaPages :: int where "vaPages = 1024"
definition pageBits :: nat where "pageBits = 5"
definition maxPageCount :: int where "maxPageCount = pageSize * physPages div pageSize"
definition PDE_MASK :: int where "PDE_MASK = 0x7c00"
definition PDE_SHIFT :: nat where "PDE_SHIFT = 10"
definition PTE_MASK :: int where "PTE_MASK = 0x03e0"
definition PTE_SHIFT :: nat where "PTE_SHIFT = 5"
definition OFFSET_MASK :: int where "OFFSET_MASK = 0x1f"

definition os_init :: os where
  "os_init = \<lparr>usedPages = replicate (nat maxPageCount) 0, usedPagesCount = 0,
     memory = replicate (nat (pageSize * physPages)) 0, pdbr = Map.empty\<rparr>"

section \<open>Operations\<close>

text \<open>The random search for a frame that is not in use.\<close>

fun look_free :: "int list \<Rightarrow> draws \<Rightarrow> (int \<times> draws) res" where
  "look_free used [] = Inl OutOfDraws"
| "look_free used (x # rs) =
     (let look = rand_below x maxPageCount in
      rbind (py_nth used look) (\<lambda>u. if u = 1 then look_free used rs else Inr (look, rs)))"

definition findFree :: "draws \<Rightarrow> os \<Rightarrow> (int \<times> os \<times> draws) res" where
  "findFree rs s =
     rbind (py_assert (usedPagesCount s < maxPageCount)) (\<lambda>_.
     rbind (look_free (usedPages s) rs) (\<lambda>(look, rs').
     rbind (py_set (usedPages s) look 1) (\<lambda>u.
       Inr (look, s\<lparr>usedPagesCount := usedPagesCount s + 1, usedPages := u\<rparr>, rs'))))"

text \<open>\<open>self.memory[i] = v\<close>\<close>

definition poke :: "int \<Rightarrow> int \<Rightarrow> os \<Rightarrow> os res" where
  "poke i v s = rbind (py_set (memory s) i v) (\<lambda>m. Inr (s\<lparr>memory := m\<rparr>))"

definition initPageDir :: "int \<Rightarrow> os \<Rightarrow> os res" where
  "initPageDir whichPage s =
     (let whichByte = push_bit pageBits whichPage
      in rfold (\<lambda>i. poke i 0x7f) [whichByte..whichByte + pageSize - 1] s)"

definition initPageTablePage :: "int \<Rightarrow> os \<Rightarrow> os res" where
  "initPageTablePage = initPageDir"

definition getPageTableEntry :: "int \<Rightarrow> int \<Rightarrow> os \<Rightarrow> (int \<times> int \<times> int) res" where
  "getPageTableEntry virtualAddr ptePage s =
     (let pteBits = drop_bit PTE_SHIFT (virtualAddr AND PTE_MASK);
          pteAddr = push_bit pageBits ptePage OR pteBits
      in rbind (py_nth (memory s) pteAddr) (\<lambda>pte. Inr (drop_bit 7 (pte AND 0x80), pte AND 0x7f, pteAddr)))"

definition getPageDirEntry :: "int \<Rightarrow> int \<Rightarrow> os \<Rightarrow> (int \<times> int \<times> int) res" where
  "getPageDirEntry pid virtualAddr s =
     rbind (py_lookup (pdbr s) pid) (\<lambda>pageDir.
     let pdeBits = drop_bit PDE_SHIFT (virtualAddr AND PDE_MASK);
         pdeAddr = push_bit pageBits pageDir OR pdeBits
     in rbind (py_nth (memory s) pdeAddr) (\<lambda>pde. Inr (drop_bit 7 (pde AND 0x80), pde AND 0x7f, pdeAddr)))"

definition setPageTableEntry :: "int \<Rightarrow> int \<Rightarrow> os \<Rightarrow> os res" where
  "setPageTableEntry pteAddr physicalPage = poke pteAddr (0x80 OR physicalPage)"

definition setPageDirEntry :: "int \<Rightarrow> int \<Rightarrow> os \<Rightarrow> os res" where
  "setPageDirEntry pdeAddr physicalPage = poke pdeAddr (0x80 OR physicalPage)"

text \<open>The page of the page table for an address, allocated if the directory has none.\<close>

definition page_table :: "int \<Rightarrow> int \<Rightarrow> draws \<Rightarrow> os \<Rightarrow> (int \<times> os \<times> draws) res" where
  "page_table pid virtualAddr rs s =
     rbind (getPageDirEntry pid virtualAddr s) (\<lambda>(valid, ptPtr, pdeAddr).
       if valid = 0 then
         rbind (py_assert (ptPtr = 127)) (\<lambda>_.
         rbind (findFree rs s) (\<lambda>(ptePage, s1, rs1).
         rbind (setPageDirEntry pdeAddr ptePage s1) (\<lambda>s2.
         rbind (initPageTablePage ptePage s2) (\<lambda>s3. Inr (ptePage, s3, rs1)))))
       else Inr (ptPtr, s, rs))"

definition allocVirtualPage :: "int \<Rightarrow> int \<Rightarrow> int \<Rightarrow> draws \<Rightarrow> os \<Rightarrow> (os \<times> draws) res" where
  "allocVirtualPage pid virtualPage physicalPage rs s =
     (let virtualAddr = push_bit pageBits virtualPage in
      rbind (page_table pid virtualAddr rs s) (\<lambda>(ptePage, s1, rs1).
      rbind (getPageTableEntry virtualAddr ptePage s1) (\<lambda>(valid, pfn, pteAddr).
      rbind (py_assert (valid = 0)) (\<lambda>_.
      rbind (py_assert (pfn = 127)) (\<lambda>_.
      rbind (setPageTableEntry pteAddr physicalPage s1) (\<lambda>s2. Inr (s2, rs1)))))))"

definition translate :: "int \<Rightarrow> int \<Rightarrow> os \<Rightarrow> int res" where
  "translate pid virtualAddr s =
     rbind (getPageDirEntry pid virtualAddr s) (\<lambda>(valid, ptPtr, pdeAddr).
       if valid = 1 then
         rbind (getPageTableEntry virtualAddr ptPtr s) (\<lambda>(valid', pfn, pteAddr).
           if valid' = 1 then Inr (push_bit pageBits pfn OR (virtualAddr AND OFFSET_MASK)) else Inr (-2))
       else Inr (-1))"

fun fill_cells :: "int list \<Rightarrow> draws \<Rightarrow> os \<Rightarrow> (os \<times> draws) res" where
  "fill_cells [] rs s = Inr (s, rs)"
| "fill_cells (i # is) rs s =
     rbind (draw rs) (\<lambda>(x, rs1). rbind (poke i (rand_below x 31) s) (fill_cells is rs1))"

definition fillPage :: "int \<Rightarrow> draws \<Rightarrow> os \<Rightarrow> (os \<times> draws) res" where
  "fillPage whichPage = fill_cells (map (\<lambda>j. whichPage * pageSize + j) [0..pageSize - 1])"

fun pick_vp :: "int list \<Rightarrow> draws \<Rightarrow> (int \<times> draws) res" where
  "pick_vp vps [] = Inl OutOfDraws"
| "pick_vp vps (x # rs) =
     (if rand_below x vaPages \<in> set vps then pick_vp vps rs else Inr (rand_below x vaPages, rs))"

fun alloc_pages :: "nat \<Rightarrow> int \<Rightarrow> int list \<Rightarrow> draws \<Rightarrow> os \<Rightarrow> (int list \<times> os \<times> draws) res" where
  "alloc_pages 0 pid vps rs s = Inr (vps, s, rs)"
| "alloc_pages (Suc n) pid vps rs s =
     rbind (pick_vp vps rs) (\<lambda>(vp, rs1).
     rbind (findFree rs1 s) (\<lambda>(pp, s1, rs2).
     rbind (allocVirtualPage pid vp pp rs2 s1) (\<lambda>(s2, rs3).
     rbind (fillPage pp rs3 s2) (\<lambda>(s3, rs4). alloc_pages n pid (vps @ [vp]) rs4 s3))))"

definition procAlloc :: "int \<Rightarrow> nat \<Rightarrow> draws \<Rightarrow> os \<Rightarrow> (int list \<times> os \<times> draws) res" where
  "procAlloc pid numPages rs s =
     rbind (findFree rs s) (\<lambda>(pageDir, s1, rs1).
     rbind (initPageDir pageDir (s1\<lparr>pdbr := (pdbr s1)(pid \<mapsto> pageDir)\<rparr>)) (\<lambda>s2.
       alloc_pages numPages pid [] rs1 s2))"

section \<open>The main program\<close>

definition trace_address :: "nat \<Rightarrow> int list \<Rightarrow> draws \<Rightarrow> (int \<times> draws) res" where
  "trace_address i vps rs =
     rbind (draw rs) (\<lambda>(x, rs1).
     rbind (draw rs1) (\<lambda>(y, rs2).
       if x * 100 > 50 \<or> i \<ge> length vps then Inr (py_trunc (y * 1024 * 32), rs2)
       else Inr (push_bit 5 (vps ! i) OR rand_below y 32, rs2)))"

text \<open>A line of the trace: the address and either the physical address with the value there or the fault.\<close>

fun trace :: "nat \<Rightarrow> nat \<Rightarrow> int list \<Rightarrow> draws \<Rightarrow> os \<Rightarrow> (int \<times> int \<times> int option) list res" where
  "trace 0 i vps rs s = Inr []"
| "trace (Suc n) i vps rs s =
     rbind (trace_address i vps rs) (\<lambda>(vaddr, rs').
     rbind (translate 1 vaddr s) (\<lambda>r.
     rbind (if r > -1 then rbind (py_nth (memory s) r) (\<lambda>v. Inr (Some v)) else Inr None) (\<lambda>v.
     rbind (trace n (Suc i) vps rs' s) (\<lambda>l. Inr ((vaddr, r, v) # l)))))"

definition main :: "nat \<Rightarrow> nat \<Rightarrow> draws \<Rightarrow> (int \<times> int \<times> int option) list res" where
  "main allocated num rs =
     rbind (procAlloc 1 allocated rs os_init) (\<lambda>(vps, s, rs'). trace num 0 vps rs' s)"

section \<open>Bit fields\<close>

lemma bit_field: "drop_bit n (v AND push_bit n (mask m)) = v div 2 ^ n mod 2 ^ m" for v :: int
proof -
  have "drop_bit n (v AND push_bit n (mask m)) = take_bit m (drop_bit n v)"
    by (rule bit_eqI) (auto simp: bit_simps)
  then show ?thesis by (simp add: take_bit_eq_mod drop_bit_eq_div)
qed

lemma pde_bits: "drop_bit PDE_SHIFT (v AND PDE_MASK) = v div 1024 mod 32"
  using bit_field [of 10 v 5] by (simp add: PDE_SHIFT_def PDE_MASK_def mask_eq_exp_minus_1 push_bit_eq_mult)

lemma pte_bits: "drop_bit PTE_SHIFT (v AND PTE_MASK) = v div 32 mod 32"
  using bit_field [of 5 v 5] by (simp add: PTE_SHIFT_def PTE_MASK_def mask_eq_exp_minus_1 push_bit_eq_mult)

lemma offset_bits: "v AND OFFSET_MASK = v mod 32"
  using bit_field [of 0 v 5] by (simp add: OFFSET_MASK_def mask_eq_exp_minus_1)

lemma pfn_bits: "v AND 0x7f = v mod 128" for v :: int
  using bit_field [of 0 v 7] by (simp add: mask_eq_exp_minus_1)

lemma valid_bit: "drop_bit 7 (v AND 0x80) = v div 128 mod 2" for v :: int
  using bit_field [of 7 v 1] by (simp add: mask_eq_exp_minus_1 push_bit_eq_mult)

lemma join_bits:
  assumes "0 \<le> (b :: int)" and "b < 2 ^ n"
  shows "push_bit n a OR b = a * 2 ^ n + b"
proof -
  have b: "take_bit n b = b" using assms by (simp add: take_bit_int_eq_self)
  have "push_bit n a AND take_bit n b = 0" by (rule bit_eqI) (auto simp: bit_simps)
  then have "push_bit n a OR take_bit n b = push_bit n a + take_bit n b" by (simp add: disjunctive_add_eq_or)
  then show ?thesis by (simp add: b push_bit_eq_mult)
qed

lemma valid_entry: "0 \<le> (f :: int) \<Longrightarrow> f < 128 \<Longrightarrow> 0x80 OR f = 128 + f"
  using join_bits [of f 7 1] by simp

lemma frame_base: "push_bit pageBits f = f * 32" for f :: int
  by (simp add: pageBits_def push_bit_eq_mult)

lemma frame_cell: "0 \<le> k \<Longrightarrow> k < 32 \<Longrightarrow> push_bit pageBits f OR k = f * 32 + k" for f k :: int
  using join_bits [of k 5 f] by (simp add: pageBits_def)

section \<open>Memory as frames\<close>

definition peek :: "os \<Rightarrow> int \<Rightarrow> int \<Rightarrow> int" where
  "peek s f k = memory s ! nat (f * 32 + k)"

text \<open>\<open>t\<close> is \<open>s\<close> after writes to frame \<open>f\<close>.\<close>

definition writes :: "int \<Rightarrow> os \<Rightarrow> os \<Rightarrow> bool" where
  "writes f s t \<longleftrightarrow> (\<exists>m. t = s\<lparr>memory := m\<rparr>) \<and> length (memory t) = length (memory s) \<and>
     (\<forall>g k. 0 \<le> g \<longrightarrow> g < 128 \<longrightarrow> 0 \<le> k \<longrightarrow> k < 32 \<longrightarrow> g \<noteq> f \<longrightarrow> peek t g k = peek s g k)"

lemma writes_refl: "writes f s s"
  unfolding writes_def by (auto intro: exI [of _ "memory s"])

lemma writesI:
  assumes "length m = 4096" and "length (memory s) = 4096"
    and "\<And>n. n < 4096 \<Longrightarrow> int n div 32 \<noteq> f \<Longrightarrow> m ! n = memory s ! n"
  shows "writes f s (s\<lparr>memory := m\<rparr>)"
proof -
  have "m ! nat (g * 32 + k) = memory s ! nat (g * 32 + k)" if "0 \<le> g" "g < 128" "0 \<le> k" "k < 32" "g \<noteq> f" for g k
    by (rule assms(3)) (use that in auto)
  then show ?thesis using assms(1,2) by (auto simp: writes_def peek_def)
qed

lemma poke_ok:
  assumes "length (memory s) = 4096" and "0 \<le> f" "f < 128" "0 \<le> k" "k < 32"
  shows "poke (f * 32 + k) v s = Inr (s\<lparr>memory := (memory s)[nat (f * 32 + k) := v]\<rparr>)"
  using assms by (simp add: poke_def py_set_def)

lemma poke_peek:
  assumes "length (memory s) = 4096" and "0 \<le> f" "f < 128" "0 \<le> k" "k < 32"
    and t_def: "t = s\<lparr>memory := (memory s)[nat (f * 32 + k) := v]\<rparr>"
  shows "writes f s t" and "0 \<le> l \<Longrightarrow> l < 32 \<Longrightarrow> peek t f l = (if l = k then v else peek s f l)"
proof -
  show "writes f s t"
    unfolding t_def by (rule writesI) (use assms in \<open>auto simp: nth_list_update\<close>)
  show "peek t f l = (if l = k then v else peek s f l)" if "0 \<le> l" "l < 32"
    using assms that by (auto simp: peek_def nth_list_update)
qed

lemma poke_all:
  assumes "\<forall>i \<in> set is. 0 \<le> i \<and> i < int (length (memory s))"
  shows "rfold (\<lambda>i. poke i v) is s =
    Inr (s\<lparr>memory := map (\<lambda>n. if int n \<in> set is then v else memory s ! n) [0..<length (memory s)]\<rparr>)"
  using assms
proof (induction "is" arbitrary: s)
  case Nil
  then show ?case by (simp add: map_nth)
next
  case (Cons i "is")
  let ?u = "s\<lparr>memory := (memory s)[nat i := v]\<rparr>"
  have "poke i v s = Inr ?u" using Cons.prems by (simp add: poke_def py_set_def)
  moreover have "rfold (\<lambda>i. poke i v) is ?u =
      Inr (?u\<lparr>memory := map (\<lambda>n. if int n \<in> set is then v else memory ?u ! n) [0..<length (memory ?u)]\<rparr>)"
    by (rule Cons.IH) (use Cons.prems in simp)
  moreover have "map (\<lambda>n. if int n \<in> set is then v else memory ?u ! n) [0..<length (memory ?u)] =
      map (\<lambda>n. if int n \<in> set (i # is) then v else memory s ! n) [0..<length (memory s)]"
    using Cons.prems by (auto simp: nth_list_update)
  ultimately show ?case by simp
qed

lemma initPageDir_ok:
  assumes "length (memory s) = 4096" and "0 \<le> f" "f < 128"
  shows "\<exists>t. initPageDir f s = Inr t \<and> writes f s t \<and> (\<forall>k. 0 \<le> k \<longrightarrow> k < 32 \<longrightarrow> peek t f k = 127)"
proof -
  let ?is = "[f * 32..f * 32 + 31]"
  let ?m = "map (\<lambda>n. if int n \<in> set ?is then 127 else memory s ! n) [0..<length (memory s)]"
  have "initPageDir f s = Inr (s\<lparr>memory := ?m\<rparr>)"
    using poke_all [of ?is s 127] assms by (simp add: initPageDir_def frame_base pageSize_def Let_def add.commute [of 31])
  moreover have "writes f s (s\<lparr>memory := ?m\<rparr>)"
    by (rule writesI) (use assms in auto)
  moreover have "peek (s\<lparr>memory := ?m\<rparr>) f k = 127" if "0 \<le> k" "k < 32" for k
    using that assms by (simp add: peek_def)
  ultimately show ?thesis by blast
qed

lemma fill_cells_ok:
  assumes "\<forall>i \<in> set is. 0 \<le> i \<and> i < 4096 \<and> i div 32 = f" and "length (memory s) = 4096" and "draws_ok rs"
  shows "unless_dry (fill_cells is rs s) (\<lambda>(t, rs'). writes f s t \<and> draws_ok rs')"
  using assms
proof (induction "is" arbitrary: s rs)
  case Nil
  then show ?case by (simp add: writes_refl)
next
  case (Cons i "is")
  show ?case
  proof (cases rs)
    case (Cons x ys)
    let ?u = "s\<lparr>memory := (memory s)[nat i := rand_below x 31]\<rparr>"
    have i: "0 \<le> i" "i < 4096" "i div 32 = f" using Cons.prems(1) by auto
    have step: "poke i (rand_below x 31) s = Inr ?u" using i Cons.prems(2) by (simp add: poke_def py_set_def)
    have w: "writes f s ?u" by (rule writesI) (use i Cons.prems(2) in \<open>auto simp: nth_list_update\<close>)
    have "unless_dry (fill_cells is ys ?u) (\<lambda>(t, rs'). writes f ?u t \<and> draws_ok rs')"
      by (rule Cons.IH) (use Cons.prems local.Cons in \<open>auto simp: draws_ok_def\<close>)
    then show ?thesis using w by (auto simp: local.Cons step writes_def unless_dry_def)
  qed (simp add: unless_dry_def)
qed

lemma fillPage_ok:
  assumes "length (memory s) = 4096" and "0 \<le> f" "f < 128" and "draws_ok rs"
  shows "unless_dry (fillPage f rs s) (\<lambda>(t, rs'). writes f s t \<and> draws_ok rs')"
  unfolding fillPage_def pageSize_def by (rule fill_cells_ok) (use assms in auto)

section \<open>The frame allocator\<close>

definition in_use :: "os \<Rightarrow> int set" where
  "in_use s = {f. 0 \<le> f \<and> f < 128 \<and> usedPages s ! nat f = 1}"

lemma look_free_ok:
  assumes "length used = 128" and "draws_ok rs"
  shows "unless_dry (look_free used rs) (\<lambda>(f, rs'). 0 \<le> f \<and> f < 128 \<and> used ! nat f \<noteq> 1 \<and> draws_ok rs')"
  using assms(2)
proof (induction rs)
  case (Cons x rs)
  have x: "0 \<le> x" "x < 1" "draws_ok rs" using Cons.prems by (auto simp: draws_ok_def)
  have m: "maxPageCount = 128" by (simp add: maxPageCount_def pageSize_def physPages_def)
  have "0 \<le> rand_below x 128" "rand_below x 128 < 128" using rand_below_bounds [OF x(1,2), of 128] by auto
  then show ?case using Cons.IH x(3) assms(1) by (simp add: Let_def m py_nth_def)
qed (simp add: unless_dry_def)

lemma findFree_ok:
  assumes "length (usedPages s) = 128" and "usedPagesCount s < 128" and "draws_ok rs"
  shows "unless_dry (findFree rs s) (\<lambda>(f, t, rs'). 0 \<le> f \<and> f < 128 \<and> f \<notin> in_use s \<and> draws_ok rs' \<and>
    in_use t = insert f (in_use s) \<and> usedPagesCount t = usedPagesCount s + 1 \<and> memory t = memory s \<and> pdbr t = pdbr s \<and>
    length (usedPages t) = 128)"
proof -
  have m: "maxPageCount = 128" by (simp add: maxPageCount_def pageSize_def physPages_def)
  show ?thesis
    unfolding findFree_def m using assms(2)
    by (auto intro!: unless_dry_bind [OF look_free_ok [OF assms(1,3)]]
        simp: assms(1) in_use_def nth_list_update py_set_def nat_eq_iff)
qed

section \<open>The page tables of a process\<close>

text \<open>
  A process has a page directory in frame \<open>D\<close>, page tables in the frames \<open>T i\<close> and pages in the frames
  \<open>M v\<close>; \<open>X\<close> are frames that have just been taken.
\<close>

definition entry :: "int option \<Rightarrow> int" where
  "entry e = (case e of None \<Rightarrow> 127 | Some f \<Rightarrow> 128 + f)"

definition tables_ok :: "int \<Rightarrow> (int \<rightharpoonup> int) \<Rightarrow> (int \<rightharpoonup> int) \<Rightarrow> int set \<Rightarrow> os \<Rightarrow> bool" where
  "tables_ok D T M X s \<longleftrightarrow> length (memory s) = 4096 \<and> length (usedPages s) = 128 \<and> pdbr s 1 = Some D \<and>
     in_use s = insert D (ran T \<union> ran M \<union> X) \<and> D \<notin> ran T \<union> ran M \<union> X \<and> ran T \<inter> ran M = {} \<and> ran T \<inter> X = {} \<and> ran M \<inter> X = {} \<and>
     inj_on T (dom T) \<and> inj_on M (dom M) \<and> dom T \<subseteq> {0..<32} \<and> dom M \<subseteq> {0..<1024} \<and> finite X \<and>
     (\<forall>i. 0 \<le> i \<longrightarrow> i < 32 \<longrightarrow> peek s D i = entry (T i)) \<and>
     (\<forall>i f k. T i = Some f \<longrightarrow> 0 \<le> k \<longrightarrow> k < 32 \<longrightarrow> peek s f k = entry (M (i * 32 + k))) \<and>
     (\<forall>v. M v \<noteq> None \<longrightarrow> T (v div 32) \<noteq> None) \<and>
     usedPagesCount s = 1 + int (card (dom T)) + int (card (dom M)) + int (card X)"

lemma tables_frames:
  assumes "tables_ok D T M X s"
  shows "0 \<le> D \<and> D < 128" and "T i = Some f \<Longrightarrow> 0 \<le> f \<and> f < 128" and "M v = Some p \<Longrightarrow> 0 \<le> p \<and> p < 128"
    and "T i = Some f \<Longrightarrow> 0 \<le> i \<and> i < 32" and "M v = Some p \<Longrightarrow> 0 \<le> v \<and> v < 1024"
    and "f \<in> X \<Longrightarrow> 0 \<le> f \<and> f < 128"
proof -
  have u: "insert D (ran T \<union> ran M \<union> X) \<subseteq> {0..<128}" using assms by (auto simp: tables_ok_def in_use_def)
  show "0 \<le> D \<and> D < 128" using u by auto
  show "0 \<le> f \<and> f < 128" if "T i = Some f" using u ranI [of T, OF that] by auto
  show "0 \<le> p \<and> p < 128" if "M v = Some p" using u ranI [of M, OF that] by auto
  show "0 \<le> f \<and> f < 128" if "f \<in> X" using u that by auto
  show "0 \<le> i \<and> i < 32" if "T i = Some f" using assms domI [of T, OF that] by (auto simp: tables_ok_def)
  show "0 \<le> v \<and> v < 1024" if "M v = Some p" using assms domI [of M, OF that] by (auto simp: tables_ok_def)
qed

lemma tables_covered: "tables_ok D T M X s \<Longrightarrow> T (v div 32) = None \<Longrightarrow> M v = None"
  unfolding tables_ok_def by blast

lemma entry_bits:
  "\<forall>f. e = Some f \<longrightarrow> 0 \<le> f \<and> f < 128 \<Longrightarrow> entry e div 128 mod 2 = (if e = None then 0 else 1) \<and>
     entry e mod 128 = (case e of None \<Rightarrow> 127 | Some f \<Rightarrow> f)"
  by (cases e) (auto simp: entry_def div_pos_pos_trivial mod_pos_pos_trivial)

lemma getPageDirEntry_ok:
  assumes ok: "tables_ok D T M X s" and i: "i = va div 1024 mod 32"
  shows "getPageDirEntry 1 va s =
    Inr (if T i = None then 0 else 1, case T i of None \<Rightarrow> 127 | Some f \<Rightarrow> f, D * 32 + i)"
proof -
  have r: "0 \<le> i" "i < 32" using i by auto
  have D: "0 \<le> D" "D < 128" using tables_frames(1) [OF ok] by auto
  have "memory s ! nat (D * 32 + i) = entry (T i)" "length (memory s) = 4096" "pdbr s 1 = Some D"
    using ok r by (auto simp: tables_ok_def peek_def)
  moreover have addr: "push_bit pageBits D OR drop_bit PDE_SHIFT (va AND PDE_MASK) = D * 32 + i"
    unfolding pde_bits i [symmetric] by (rule frame_cell [OF r])
  moreover have "py_lookup (pdbr s) 1 = Inr D" using ok by (simp add: tables_ok_def)
  then have "getPageDirEntry 1 va s = rbind (py_nth (memory s) (D * 32 + i)) (\<lambda>pde. Inr (pde div 128 mod 2, pde mod 128, D * 32 + i))"
    by (simp only: getPageDirEntry_def rbind.simps Let_def addr valid_bit pfn_bits)
  ultimately show ?thesis
    using r D entry_bits [of "T i"] tables_frames(2) [OF ok] by (simp add: py_nth_def)
qed

lemma getPageTableEntry_ok:
  assumes ok: "tables_ok D T M X s" and T: "T i = Some f" and k: "k = va div 32 mod 32"
  shows "getPageTableEntry va f s =
    Inr (if M (i * 32 + k) = None then 0 else 1, case M (i * 32 + k) of None \<Rightarrow> 127 | Some p \<Rightarrow> p, f * 32 + k)"
proof -
  have r: "0 \<le> k" "k < 32" using k by auto
  have f: "0 \<le> f" "f < 128" using tables_frames(2) [OF ok T] by auto
  have "memory s ! nat (f * 32 + k) = entry (M (i * 32 + k))" "length (memory s) = 4096"
    using ok r T by (auto simp: tables_ok_def peek_def)
  moreover have addr: "push_bit pageBits f OR drop_bit PTE_SHIFT (va AND PTE_MASK) = f * 32 + k"
    unfolding pte_bits k [symmetric] by (rule frame_cell [OF r])
  ultimately show ?thesis
    using r f entry_bits [of "M (i * 32 + k)"] tables_frames(3) [OF ok]
    unfolding getPageTableEntry_def Let_def addr valid_bit pfn_bits by (simp add: py_nth_def)
qed

lemma translate_ok:
  assumes ok: "tables_ok D T M X s" and va: "0 \<le> va" "va < 32768"
  shows "translate 1 va s = Inr (case M (va div 32) of Some p \<Rightarrow> p * 32 + va mod 32
     | None \<Rightarrow> if T (va div 1024) = None then -1 else -2)"
proof -
  let ?i = "va div 1024" and ?k = "va div 32 mod 32"
  have i: "?i mod 32 = ?i" using va by auto
  have i2: "?i = va div 32 div 32" using zdiv_zmult2_eq [of 32 va 32] by simp
  then have v: "?i * 32 + ?k = va div 32" by simp
  note dir = getPageDirEntry_ok [OF ok refl, of va, unfolded i]
  show ?thesis
  proof (cases "T ?i")
    case None
    then have "M (va div 32) = None" using tables_covered [OF ok, of "va div 32"] i2 by simp
    with None show ?thesis by (simp add: translate_def dir)
  next
    case (Some f)
    note tab = getPageTableEntry_ok [OF ok Some refl, of va, unfolded v]
    show ?thesis
      using Some by (auto simp: translate_def dir tab offset_bits frame_cell split: option.splits)
  qed
qed

lemma tables_write_data:
  assumes ok: "tables_ok D T M X s" and w: "writes f s t" and f: "f \<notin> insert D (ran T)"
  shows "tables_ok D T M X t"
proof -
  obtain m where m: "t = s\<lparr>memory := m\<rparr>" and len: "length (memory t) = length (memory s)"
    and keep: "\<And>g k. 0 \<le> g \<Longrightarrow> g < 128 \<Longrightarrow> 0 \<le> k \<Longrightarrow> k < 32 \<Longrightarrow> g \<noteq> f \<Longrightarrow> peek t g k = peek s g k"
    using w by (auto simp: writes_def)
  have "peek t D i = entry (T i)" if "0 \<le> i" "i < 32" for i
    using keep [of D i] tables_frames(1) [OF ok] f ok that by (auto simp: tables_ok_def)
  moreover have "peek t g k = entry (M (i * 32 + k))" if "T i = Some g" "0 \<le> k" "k < 32" for i g k
    using keep [of g k] tables_frames(2) [OF ok that(1)] f ranI [of T, OF that(1)] ok that by (auto simp: tables_ok_def)
  ultimately show ?thesis using ok len m by (simp add: tables_ok_def in_use_def)
qed

lemma tables_take_frame:
  assumes ok: "tables_ok D T M X s" and f: "f \<notin> in_use s"
    and t: "in_use t = insert f (in_use s)" "usedPagesCount t = usedPagesCount s + 1" "memory t = memory s" "pdbr t = pdbr s"
      "length (usedPages t) = 128"
  shows "tables_ok D T M (insert f X) t"
proof -
  have "f \<notin> X" "f \<noteq> D" "f \<notin> ran T" "f \<notin> ran M" using f ok by (auto simp: tables_ok_def)
  moreover have "peek t = peek s" using t(3) by (simp add: peek_def fun_eq_iff)
  ultimately show ?thesis using ok t by (auto simp: tables_ok_def)
qed

lemma tables_new_table:
  assumes ok: "tables_ok D T M (insert f X) s" and f: "f \<notin> X" and i: "0 \<le> i" "i < 32" "T i = None"
    and t1: "t1 = s\<lparr>memory := (memory s)[nat (D * 32 + i) := 128 + f]\<rparr>" and w: "writes f t1 t"
    and init: "\<forall>k. 0 \<le> k \<longrightarrow> k < 32 \<longrightarrow> peek t f k = 127"
  shows "tables_ok D (T(i \<mapsto> f)) M X t"
proof -
  note fr = tables_frames [OF ok]
  have D: "0 \<le> D" "D < 128" and F: "0 \<le> f" "f < 128" using fr(1) fr(6) [of f] by auto
  have len: "length (memory s) = 4096" using ok by (simp add: tables_ok_def)
  note p1 = poke_peek [OF len D i(1,2) t1]
  obtain m where m: "t = t1\<lparr>memory := m\<rparr>" and lt: "length (memory t) = length (memory t1)"
    and keep: "\<And>g k. 0 \<le> g \<Longrightarrow> g < 128 \<Longrightarrow> 0 \<le> k \<Longrightarrow> k < 32 \<Longrightarrow> g \<noteq> f \<Longrightarrow> peek t g k = peek t1 g k"
    using w by (auto simp: writes_def)
  have keep1: "peek t1 g k = peek s g k" if "0 \<le> g" "g < 128" "0 \<le> k" "k < 32" "g \<noteq> D" for g k
    using p1(1) that by (auto simp: writes_def)
  have dist: "f \<noteq> D" "f \<notin> ran T" "f \<notin> ran M" "D \<notin> ran T" using ok by (auto simp: tables_ok_def)
  have dir: "peek t D k = entry ((T(i \<mapsto> f)) k)" if "0 \<le> k" "k < 32" for k
    using keep [OF D that] p1(2) [OF that] dist(1) ok that by (auto simp: tables_ok_def entry_def)
  have none: "M (i * 32 + k) = None" if "0 \<le> k" "k < 32" for k
  proof -
    have "(i * 32 + k) div 32 = i" using that by simp
    with tables_covered [OF ok, of "i * 32 + k"] i(3) show ?thesis by simp
  qed
  have tab: "peek t g k = entry (M (j * 32 + k))" if j: "(T(i \<mapsto> f)) j = Some g" "0 \<le> k" "k < 32" for j g k
  proof (cases "j = i")
    case True
    then show ?thesis using init none [OF j(2,3)] j by (simp add: entry_def)
  next
    case False
    then have Tj: "T j = Some g" using j(1) by simp
    then have g: "g \<noteq> f" "g \<noteq> D" using dist ranI [of T, OF Tj] by auto
    have "peek s g k = entry (M (j * 32 + k))" using ok Tj j(2,3) by (simp add: tables_ok_def)
    then show ?thesis using keep [of g k] keep1 [of g k] fr(2) [OF Tj] g j(2,3) by simp
  qed
  have ran: "ran (T(i \<mapsto> f)) = insert f (ran T)" using i(3) by (rule ran_map_upd)
  have inj: "inj_on (T(i \<mapsto> f)) (insert i (dom T))"
    using ok dist(2) i(3) by (auto simp: tables_ok_def inj_on_def ran_def)
  have card: "card (insert i (dom T)) = Suc (card (dom T))" "card (insert f X) = Suc (card X)"
    using i(3) f ok finite_subset [of "dom T" "{0..<32}"] by (auto simp: tables_ok_def domIff intro: card_insert_disjoint)
  have u: "in_use t = in_use s" "usedPagesCount t = usedPagesCount s" "usedPages t = usedPages s" "pdbr t = pdbr s"
    using m t1 by (simp_all add: in_use_def)
  show ?thesis
    unfolding tables_ok_def
  proof (intro conjI)
    show "\<forall>v. M v \<noteq> None \<longrightarrow> (T(i \<mapsto> f)) (v div 32) \<noteq> None" using ok by (auto simp: tables_ok_def)
    show "usedPagesCount t = 1 + int (card (dom (T(i \<mapsto> f)))) + int (card (dom M)) + int (card X)"
      using ok card u(2) by (simp add: tables_ok_def)
    show "in_use t = insert D (ran (T(i \<mapsto> f)) \<union> ran M \<union> X)" using ok u(1) ran by (auto simp: tables_ok_def)
    show "inj_on (T(i \<mapsto> f)) (dom (T(i \<mapsto> f)))" using inj by simp
  qed (use ok u lt t1 dist f dir tab ran i in \<open>auto simp: tables_ok_def\<close>)
qed

lemma page_table_ok:
  assumes ok: "tables_ok D T M X s" and i: "i = va div 1024 mod 32" and free: "T i = None \<Longrightarrow> usedPagesCount s < 128"
    and rs: "draws_ok rs"
  shows "unless_dry (page_table 1 va rs s) (\<lambda>(f, t, rs'). draws_ok rs' \<and>
    (\<exists>T'. tables_ok D T' M X t \<and> T' i = Some f \<and> (\<forall>j. j \<noteq> i \<longrightarrow> T' j = T j)))"
proof (cases "T i")
  case (Some f)
  then show ?thesis using ok rs by (auto simp: page_table_def getPageDirEntry_ok [OF ok i])
next
  case None
  have r: "0 \<le> i" "i < 32" using i by auto
  have u: "length (usedPages s) = 128" using ok by (simp add: tables_ok_def)
  have D: "0 \<le> D" "D < 128" using tables_frames(1) [OF ok] by auto
  have "unless_dry (rbind (findFree rs s) (\<lambda>(ptePage, s1, rs1).
      rbind (setPageDirEntry (D * 32 + i) ptePage s1) (\<lambda>s2.
      rbind (initPageTablePage ptePage s2) (\<lambda>s3. Inr (ptePage, s3, rs1)))))
    (\<lambda>(f, t, rs'). draws_ok rs' \<and> (\<exists>T'. tables_ok D T' M X t \<and> T' i = Some f \<and> (\<forall>j. j \<noteq> i \<longrightarrow> T' j = T j)))"
  proof (rule unless_dry_bind [OF findFree_ok [OF u free [OF None] rs]], clarify)
    fix f s1 rs1
    assume f: "0 \<le> f" "f < 128" "f \<notin> in_use s" "draws_ok rs1" "in_use s1 = insert f (in_use s)"
      "usedPagesCount s1 = usedPagesCount s + 1" "memory s1 = memory s" "pdbr s1 = pdbr s" "length (usedPages s1) = 128"
    have ok1: "tables_ok D T M (insert f X) s1" by (rule tables_take_frame [OF ok f(3,5-9)])
    have len: "length (memory s1) = 4096" using ok1 by (simp add: tables_ok_def)
    have fX: "f \<notin> X" using f(3) ok by (auto simp: tables_ok_def)
    let ?s2 = "s1\<lparr>memory := (memory s1)[nat (D * 32 + i) := 128 + f]\<rparr>"
    have set: "setPageDirEntry (D * 32 + i) f s1 = Inr ?s2"
      using poke_ok [OF len D r] by (simp add: setPageDirEntry_def valid_entry [OF f(1,2)])
    obtain s3 where s3: "initPageDir f ?s2 = Inr s3" "writes f ?s2 s3" "\<forall>k. 0 \<le> k \<longrightarrow> k < 32 \<longrightarrow> peek s3 f k = 127"
      using initPageDir_ok [OF _ f(1,2), of ?s2] len by auto
    have "tables_ok D (T(i \<mapsto> f)) M X s3" by (rule tables_new_table [OF ok1 fX r None refl s3(2,3)])
    then show "unless_dry (rbind (setPageDirEntry (D * 32 + i) f s1) (\<lambda>s2. rbind (initPageTablePage f s2) (\<lambda>s3. Inr (f, s3, rs1))))
        (\<lambda>(f, t, rs'). draws_ok rs' \<and> (\<exists>T'. tables_ok D T' M X t \<and> T' i = Some f \<and> (\<forall>j. j \<noteq> i \<longrightarrow> T' j = T j)))"
      using f(4) by (auto simp: set initPageTablePage_def s3(1))
  qed
  then show ?thesis by (simp add: page_table_def getPageDirEntry_ok [OF ok i] None)
qed

lemma tables_new_page:
  assumes ok: "tables_ok D T M {p} s" and T: "T i = Some f" and k: "0 \<le> k" "k < 32" and M: "M (i * 32 + k) = None"
    and t: "t = s\<lparr>memory := (memory s)[nat (f * 32 + k) := 128 + p]\<rparr>"
  shows "tables_ok D T (M(i * 32 + k \<mapsto> p)) {} t"
proof -
  note fr = tables_frames [OF ok]
  let ?v = "i * 32 + k"
  have F: "0 \<le> f" "f < 128" and i: "0 \<le> i" "i < 32" using fr(2,4) [OF T] by auto
  have len: "length (memory s) = 4096" using ok by (simp add: tables_ok_def)
  note p1 = poke_peek [OF len F k t]
  have keep: "peek t g l = peek s g l" if "0 \<le> g" "g < 128" "0 \<le> l" "l < 32" "g \<noteq> f" for g l
    using p1(1) that by (auto simp: writes_def)
  have dist: "D \<noteq> f" "p \<notin> ran T" "p \<notin> ran M" "p \<noteq> D"
    using ok ranI [of T, OF T] by (auto simp: tables_ok_def)
  have dir: "peek t D l = entry (T l)" if "0 \<le> l" "l < 32" for l
    using keep [of D l] fr(1) dist(1) ok that by (auto simp: tables_ok_def)
  have tab: "peek t g l = entry ((M(?v \<mapsto> p)) (j * 32 + l))" if j: "T j = Some g" "0 \<le> l" "l < 32" for j g l
  proof (cases "j = i")
    case True
    have "peek s f l = entry (M (i * 32 + l))" using ok T j(2,3) by (simp add: tables_ok_def)
    then show ?thesis using True T j p1(2) [OF j(2,3)] by (auto simp: entry_def)
  next
    case False
    have "inj_on T (dom T)" using ok by (simp add: tables_ok_def)
    then have "g \<noteq> f" using False T j(1) inj_onD [of T "dom T" j i] by auto
    moreover have "(j * 32 + l) div 32 = j" "?v div 32 = i" using j(2,3) k by simp_all
    then have "j * 32 + l \<noteq> ?v" using False by auto
    moreover have "peek s g l = entry (M (j * 32 + l))" using ok j by (simp add: tables_ok_def)
    ultimately show ?thesis using keep [of g l] fr(2) [OF j(1)] j(2,3) by simp
  qed
  have ran: "ran (M(?v \<mapsto> p)) = insert p (ran M)" using M by (rule ran_map_upd)
  have inj: "inj_on (M(?v \<mapsto> p)) (insert ?v (dom M))"
    using ok dist(3) M by (auto simp: tables_ok_def inj_on_def ran_def)
  have card: "card (insert ?v (dom M)) = Suc (card (dom M))"
    using M ok finite_subset [of "dom M" "{0..<1024}"] by (auto simp: tables_ok_def domIff intro: card_insert_disjoint)
  have u: "in_use t = in_use s" "usedPagesCount t = usedPagesCount s" "usedPages t = usedPages s" "pdbr t = pdbr s"
    "length (memory t) = length (memory s)"
    using t by (simp_all add: in_use_def)
  show ?thesis
    unfolding tables_ok_def
  proof (intro conjI)
    show "\<forall>v. (M(?v \<mapsto> p)) v \<noteq> None \<longrightarrow> T (v div 32) \<noteq> None" using ok T k by (auto simp: tables_ok_def)
    show "usedPagesCount t = 1 + int (card (dom T)) + int (card (dom (M(?v \<mapsto> p)))) + int (card {})"
      using ok card u(2) by (simp add: tables_ok_def)
    show "in_use t = insert D (ran T \<union> ran (M(?v \<mapsto> p)) \<union> {})" using ok u(1) ran by (auto simp: tables_ok_def)
    show "inj_on (M(?v \<mapsto> p)) (dom (M(?v \<mapsto> p)))" using inj by simp
  qed (use ok u dist dir tab ran i k in \<open>auto simp: tables_ok_def\<close>)
qed

lemma allocVirtualPage_ok:
  assumes ok: "tables_ok D T M {p} s" and v: "0 \<le> v" "v < 1024" "M v = None"
    and free: "T (v div 32) = None \<Longrightarrow> usedPagesCount s < 128" and rs: "draws_ok rs"
  shows "unless_dry (allocVirtualPage 1 v p rs s) (\<lambda>(t, rs'). draws_ok rs' \<and>
    (\<exists>T'. tables_ok D T' (M(v \<mapsto> p)) {} t \<and> dom T' = insert (v div 32) (dom T)))"
proof -
  let ?i = "v div 32" and ?k = "v mod 32" and ?va = "v * 32"
  have va: "push_bit pageBits v = ?va" by (rule frame_base)
  have i: "?i = ?va div 1024 mod 32" "?k = ?va div 32 mod 32" using v by auto
  have k: "0 \<le> ?k" "?k < 32" by auto
  have join: "?i * 32 + ?k = v" by simp
  show ?thesis
    unfolding allocVirtualPage_def Let_def va
  proof (rule unless_dry_bind3 [OF page_table_ok [OF ok i(1) free rs]], assumption, elim conjE exE)
    fix f t rs' T'
    assume r: "draws_ok rs'" and ok': "tables_ok D T' M {p} t" and f: "T' ?i = Some f" and T': "\<forall>j. j \<noteq> ?i \<longrightarrow> T' j = T j"
    have p: "0 \<le> p" "p < 128" using tables_frames(6) [OF ok', of p] by auto
    have F: "0 \<le> f" "f < 128" using tables_frames(2) [OF ok' f] by auto
    have len: "length (memory t) = 4096" using ok' by (simp add: tables_ok_def)
    let ?t = "t\<lparr>memory := (memory t)[nat (f * 32 + ?k) := 128 + p]\<rparr>"
    have get: "getPageTableEntry ?va f t = Inr (0, 127, f * 32 + ?k)"
      using getPageTableEntry_ok [OF ok' f i(2)] v(3) by (simp only: join) simp
    have set: "setPageTableEntry (f * 32 + ?k) p t = Inr ?t"
      using poke_ok [OF len F k] by (simp add: setPageTableEntry_def valid_entry [OF p])
    have new: "tables_ok D T' (M(v \<mapsto> p)) {} ?t"
      using tables_new_page [OF ok' f k _ refl] v(3) by (simp only: join)
    have "T' = T(?i \<mapsto> f)" using T' f by (simp add: fun_eq_iff)
    then have "dom T' = insert ?i (dom T)" by simp
    with new r show "unless_dry (rbind (getPageTableEntry ?va f t) (\<lambda>(valid, pfn, pteAddr).
        rbind (py_assert (valid = 0)) (\<lambda>_. rbind (py_assert (pfn = 127)) (\<lambda>_.
        rbind (setPageTableEntry pteAddr p t) (\<lambda>s2. Inr (s2, rs'))))))
      (\<lambda>(t, rs'). draws_ok rs' \<and> (\<exists>T'. tables_ok D T' (M(v \<mapsto> p)) {} t \<and> dom T' = insert ?i (dom T)))"
      by (auto simp: get set)
  qed
qed

lemma pick_vp_ok:
  "draws_ok rs \<Longrightarrow> unless_dry (pick_vp vps rs) (\<lambda>(v, rs'). 0 \<le> v \<and> v < 1024 \<and> v \<notin> set vps \<and> draws_ok rs')"
proof (induction rs)
  case (Cons x rs)
  have x: "0 \<le> x" "x < 1" "draws_ok rs" using Cons.prems by (auto simp: draws_ok_def)
  show ?case using Cons.IH [OF x(3)] rand_below_bounds [OF x(1,2), of 1024] x(3) by (simp add: vaPages_def)
qed (simp add: unless_dry_def)

text \<open>Between two pages of \<open>procAlloc\<close>: the pages are those in \<open>vps\<close> and every page table is for one of them.\<close>

definition allocated :: "int list \<Rightarrow> (int \<rightharpoonup> int) \<Rightarrow> (int \<rightharpoonup> int) \<Rightarrow> os \<Rightarrow> bool" where
  "allocated vps T M s \<longleftrightarrow> (\<exists>D. tables_ok D T M {} s) \<and> distinct vps \<and> dom M = set vps \<and> dom T = (\<lambda>v. v div 32) ` set vps"

lemma allocated_count:
  assumes "allocated vps T M s"
  shows "usedPagesCount s \<le> 33 + int (length vps)"
proof -
  obtain D where ok: "tables_ok D T M {} s" using assms by (auto simp: allocated_def)
  have "card (dom M) = length vps" using assms by (simp add: allocated_def distinct_card)
  moreover have "card (dom T) \<le> 32" using ok card_mono [of "{0..<32 :: int}" "dom T"] by (simp add: tables_ok_def)
  ultimately show ?thesis using ok by (simp add: tables_ok_def)
qed

lemma alloc_page_ok:
  assumes al: "allocated vps T M s" and n: "length vps < 94" and rs: "draws_ok rs"
    and v: "0 \<le> v" "v < 1024" "v \<notin> set vps"
  shows "unless_dry (rbind (findFree rs s) (\<lambda>(pp, s1, rs2). rbind (allocVirtualPage 1 v pp rs2 s1) (\<lambda>(s2, rs3). fillPage pp rs3 s2)))
    (\<lambda>(t, rs'). draws_ok rs' \<and> (\<exists>T' M'. allocated (vps @ [v]) T' M' t))"
proof -
  obtain D where ok: "tables_ok D T M {} s" and d: "distinct vps" "dom M = set vps" "dom T = (\<lambda>v. v div 32) ` set vps"
    using al by (auto simp: allocated_def)
  have u: "length (usedPages s) = 128" using ok by (simp add: tables_ok_def)
  have cnt: "usedPagesCount s < 128" "usedPagesCount s + 1 < 128" using allocated_count [OF al] n by auto
  have Mv: "M v = None" using v(3) d(2) by auto
  show ?thesis
  proof (rule unless_dry_bind3 [OF findFree_ok [OF u cnt(1) rs]], elim conjE exE)
    fix p s1 rs1
    assume f: "0 \<le> p" "p < 128" "p \<notin> in_use s" "draws_ok rs1" "in_use s1 = insert p (in_use s)"
      "usedPagesCount s1 = usedPagesCount s + 1" "memory s1 = memory s" "pdbr s1 = pdbr s" "length (usedPages s1) = 128"
    have ok1: "tables_ok D T M {p} s1" by (rule tables_take_frame [OF ok f(3,5-9)])
    have c1: "usedPagesCount s1 < 128" using f(6) cnt(2) by simp
    show "unless_dry (rbind (allocVirtualPage 1 v p rs1 s1) (\<lambda>(s2, rs3). fillPage p rs3 s2))
      (\<lambda>(t, rs'). draws_ok rs' \<and> (\<exists>T' M'. allocated (vps @ [v]) T' M' t))"
    proof (rule unless_dry_bind2 [OF allocVirtualPage_ok [OF ok1 v(1,2) Mv c1 f(4)]], elim conjE exE)
      fix s2 rs2 T'
      assume r2: "draws_ok rs2" and ok2: "tables_ok D T' (M(v \<mapsto> p)) {} s2" and dT: "dom T' = insert (v div 32) (dom T)"
      have len: "length (memory s2) = 4096" using ok2 by (simp add: tables_ok_def)
      have "p \<in> ran (M(v \<mapsto> p))" by (auto simp: ran_def)
      then have p: "p \<notin> insert D (ran T')" using ok2 by (auto simp: tables_ok_def)
      show "unless_dry (fillPage p rs2 s2) (\<lambda>(t, rs'). draws_ok rs' \<and> (\<exists>T' M'. allocated (vps @ [v]) T' M' t))"
      proof (rule unless_dry_mono2 [OF fillPage_ok [OF len f(1,2) r2]], elim conjE exE)
        fix t rs'
        assume w: "writes p s2 t" and r: "draws_ok rs'"
        have "tables_ok D T' (M(v \<mapsto> p)) {} t" by (rule tables_write_data [OF ok2 w p])
        then have "allocated (vps @ [v]) T' (M(v \<mapsto> p)) t" using d dT v(3) by (auto simp: allocated_def)
        with r show "draws_ok rs' \<and> (\<exists>T' M'. allocated (vps @ [v]) T' M' t)" by blast
      qed
    qed
  qed
qed

lemma alloc_pages_step:
  "alloc_pages (Suc n) pid vps rs s =
     rbind (pick_vp vps rs) (\<lambda>(vp, rs1).
     rbind (rbind (findFree rs1 s) (\<lambda>(pp, s1, rs2). rbind (allocVirtualPage pid vp pp rs2 s1) (\<lambda>(s2, rs3). fillPage pp rs3 s2)))
       (\<lambda>(t, rs'). alloc_pages n pid (vps @ [vp]) rs' t))"
  by (simp add: rbind_assoc split_def)

lemma alloc_pages_ok:
  "allocated vps T M s \<Longrightarrow> length vps + n \<le> 94 \<Longrightarrow> draws_ok rs \<Longrightarrow>
   unless_dry (alloc_pages n 1 vps rs s)
     (\<lambda>(vps', t, rs'). draws_ok rs' \<and> length vps' = length vps + n \<and> (\<exists>T' M'. allocated vps' T' M' t))"
proof (induction n arbitrary: vps T M rs s)
  case 0
  then show ?case by auto
next
  case (Suc n)
  note IH = Suc.IH
  show ?case
    unfolding alloc_pages_step
  proof (rule unless_dry_bind2 [OF pick_vp_ok [OF Suc.prems(3)]], elim conjE exE)
    fix v rs1
    assume v: "0 \<le> v" "v < 1024" "v \<notin> set vps" and rs1: "draws_ok rs1"
    have n: "length vps < 94" using Suc.prems(2) by simp
    show "unless_dry (rbind (rbind (findFree rs1 s) (\<lambda>(pp, s1, rs2). rbind (allocVirtualPage 1 v pp rs2 s1) (\<lambda>(s2, rs3). fillPage pp rs3 s2)))
        (\<lambda>(t, rs'). alloc_pages n 1 (vps @ [v]) rs' t))
      (\<lambda>(vps', t, rs'). draws_ok rs' \<and> length vps' = length vps + Suc n \<and> (\<exists>T' M'. allocated vps' T' M' t))"
    proof (rule unless_dry_bind2 [OF alloc_page_ok [OF Suc.prems(1) n rs1 v]], elim conjE exE)
      fix t rs' T' M'
      assume "draws_ok rs'" and "allocated (vps @ [v]) T' M' t"
      from IH [OF this(2) _ this(1)] Suc.prems(2)
      show "unless_dry (alloc_pages n 1 (vps @ [v]) rs' t)
        (\<lambda>(vps', t, rs'). draws_ok rs' \<and> length vps' = length vps + Suc n \<and> (\<exists>T' M'. allocated vps' T' M' t))" by simp
    qed
  qed
qed

lemma allocated_init:
  assumes "0 \<le> f" "f < 128" and s: "in_use s = {f}" "usedPagesCount s = 1" "length (memory s) = 4096" "pdbr s 1 = Some f"
    "length (usedPages s) = 128" and init: "\<forall>k. 0 \<le> k \<longrightarrow> k < 32 \<longrightarrow> peek s f k = 127"
  shows "allocated [] Map.empty Map.empty s"
  unfolding allocated_def tables_ok_def using assms by (auto simp: entry_def)

lemma procAlloc_ok:
  assumes "n \<le> 94" and "draws_ok rs"
  shows "unless_dry (procAlloc 1 n rs os_init) (\<lambda>(vps, t, rs'). draws_ok rs' \<and> length vps = n \<and> (\<exists>T M. allocated vps T M t))"
proof -
  have i: "length (usedPages os_init) = 128" "usedPagesCount os_init < 128" "in_use os_init = {}" "usedPagesCount os_init = 0"
    "length (memory os_init) = 4096"
    by (auto simp: os_init_def maxPageCount_def pageSize_def physPages_def in_use_def)
  show ?thesis
    unfolding procAlloc_def
  proof (rule unless_dry_bind3 [OF findFree_ok [OF i(1,2) assms(2)]], elim conjE exE)
    fix f s1 rs1
    assume f: "0 \<le> f" "f < 128" "f \<notin> in_use os_init" "draws_ok rs1" "in_use s1 = insert f (in_use os_init)"
      "usedPagesCount s1 = usedPagesCount os_init + 1" "memory s1 = memory os_init" "pdbr s1 = pdbr os_init"
      "length (usedPages s1) = 128"
    let ?s = "s1\<lparr>pdbr := (pdbr s1)(1 \<mapsto> f)\<rparr>"
    obtain t where t: "initPageDir f ?s = Inr t" "writes f ?s t" "\<forall>k. 0 \<le> k \<longrightarrow> k < 32 \<longrightarrow> peek t f k = 127"
      using initPageDir_ok [OF _ f(1,2), of ?s] f(7) i(5) by auto
    have "allocated [] Map.empty Map.empty t"
      by (rule allocated_init [OF f(1,2) _ _ _ _ _ t(3)]) (use t(2) f i in \<open>auto simp: writes_def in_use_def\<close>)
    from alloc_pages_ok [OF this _ f(4), of n] assms(1)
    show "unless_dry (rbind (initPageDir f ?s) (\<lambda>s2. alloc_pages n 1 [] rs1 s2))
      (\<lambda>(vps, t, rs'). draws_ok rs' \<and> length vps = n \<and> (\<exists>T M. allocated vps T M t))" by (simp add: t(1))
  qed
qed

lemma allocated_translate:
  assumes al: "allocated vps T M s" and va: "0 \<le> va" "va < 32768"
  shows "translate 1 va s = Inr (case M (va div 32) of Some p \<Rightarrow> p * 32 + va mod 32
     | None \<Rightarrow> if \<exists>v \<in> set vps. v div 32 = va div 1024 then -2 else -1)"
proof -
  obtain D where ok: "tables_ok D T M {} s" and dT: "dom T = (\<lambda>v. v div 32) ` set vps" using al by (auto simp: allocated_def)
  have "va div 1024 \<in> dom T \<longleftrightarrow> (\<exists>v \<in> set vps. v div 32 = va div 1024)"
    unfolding dT by force
  then have "T (va div 1024) = None \<longleftrightarrow> \<not> (\<exists>v \<in> set vps. v div 32 = va div 1024)" by blast
  then show ?thesis using translate_ok [OF ok va] by (auto split: option.split)
qed

lemma allocated_frames:
  assumes "allocated vps T M s"
  shows "inj_on M (dom M)" and "ran M \<subseteq> {0..<128}" and "set vps \<subseteq> {0..<1024}" and "length (memory s) = 4096"
proof -
  obtain D where ok: "tables_ok D T M {} s" and "dom M = set vps" using assms by (auto simp: allocated_def)
  then show "inj_on M (dom M)" "set vps \<subseteq> {0..<1024}" "length (memory s) = 4096" by (auto simp: tables_ok_def)
  show "ran M \<subseteq> {0..<128}" using tables_frames(3) [OF ok] by (auto simp: ran_def)
qed

lemma trace_ok:
  assumes al: "allocated vps T M s"
  shows "draws_ok rs \<Longrightarrow> unless_dry (trace n i vps rs s) (\<lambda>l. length l = n)"
proof (induction n arbitrary: i rs)
  case (Suc n)
  have addr: "unless_dry (trace_address i vps rs) (\<lambda>(va, rs'). (0 \<le> va \<and> va < 32768) \<and> draws_ok rs')"
  proof (cases rs)
    case (Cons x rs1)
    note rs = Cons
    show ?thesis
    proof (cases rs1)
      case (Cons y rs2)
      have y: "0 \<le> y" "y < 1" "draws_ok rs2" using Suc.prems rs Cons by (auto simp: draws_ok_def)
      have o: "push_bit 5 (vps ! i) OR rand_below y 32 = vps ! i * 32 + rand_below y 32"
        using frame_cell [OF rand_below_bounds [OF y(1,2), of 32], of "vps ! i"] by (simp add: pageBits_def)
      have v: "0 \<le> vps ! i" "vps ! i < 1024" if "i < length vps"
        using allocated_frames(3) [OF al] nth_mem [OF that] by auto
      have t: "py_trunc (32768 * y) = rand_below y 32768" by (simp add: rand_below_def mult.commute)
      show ?thesis
        using rand_below_bounds [OF y(1,2), of 32] rand_below_bounds [OF y(1,2), of 32768] v y(3)
        by (simp add: trace_address_def rs Cons o t) linarith
    qed (simp add: trace_address_def rs unless_dry_def)
  qed (simp add: trace_address_def unless_dry_def)
  show ?case
    unfolding trace.simps
  proof (rule unless_dry_bind2 [OF addr], elim conjE)
    fix va :: int and rs'
    assume va: "0 \<le> va" "va < 32768" and rs': "draws_ok rs'"
    let ?r = "case M (va div 32) of Some p \<Rightarrow> p * 32 + va mod 32 | None \<Rightarrow> if \<exists>v \<in> set vps. v div 32 = va div 1024 then -2 else -1"
    have r: "?r < 4096"
    proof (cases "M (va div 32)")
      case (Some p)
      then have "p < 128" using allocated_frames(2) [OF al] ranI [of M, OF Some] by auto
      moreover have "va mod 32 < 32" by simp
      ultimately show ?thesis using Some by simp
    qed simp
    have mem: "unless_dry (if ?r > -1 then rbind (py_nth (memory s) ?r) (\<lambda>v. Inr (Some v)) else Inr None) (\<lambda>_. True)"
      using r allocated_frames(4) [OF al] by (simp add: py_nth_def del: option.case_distrib)
    show "unless_dry (rbind (translate 1 va s) (\<lambda>r.
        rbind (if r > -1 then rbind (py_nth (memory s) r) (\<lambda>v. Inr (Some v)) else Inr None) (\<lambda>v.
        rbind (trace n (Suc i) vps rs' s) (\<lambda>l. Inr ((va, r, v) # l))))) (\<lambda>l. length l = Suc n)"
      unfolding allocated_translate [OF al va] rbind.simps
      by (rule unless_dry_bind [OF mem], rule unless_dry_bind [OF Suc.IH [OF rs']]) simp
  qed
qed simp

text \<open>So with at most 94 pages the whole program ends without an exception.\<close>

lemma main_runs:
  assumes "n \<le> 94" and "draws_ok rs"
  shows "unless_dry (main n num rs) (\<lambda>l. length l = num)"
  unfolding main_def
proof (rule unless_dry_bind3 [OF procAlloc_ok [OF assms]], elim conjE exE)
  fix vps s rs' T M
  assume "draws_ok rs'" and "allocated vps T M s"
  then show "unless_dry (trace num 0 vps rs' s) (\<lambda>l. length l = num)" by (metis trace_ok)
qed

section \<open>Properties\<close>

text \<open>
  C27: \<open>procAlloc\<close> implements a partial map from virtual pages to frames. With up to 94 pages and any numbers
  from the generator, it hands out that many different virtual pages and raises nothing; after it the
  bits that the page directory and the page tables hold in memory represent an injective map \<open>M\<close> whose
  domain is exactly those pages, and \<open>translate\<close> of each of the 32768 addresses gives the byte of the
  frame \<open>M\<close> assigns to its page, -2 when only the page table exists and -1 when it does not.
\<close>

theorem multilevel_refines_map:
  assumes "n \<le> 94" and "draws_ok rs"
  shows "unless_dry (procAlloc 1 n rs os_init) (\<lambda>(vps, s, rs'). length vps = n \<and> distinct vps \<and>
    (\<exists>M. dom M = set vps \<and> inj_on M (dom M) \<and> ran M \<subseteq> {0..<128} \<and>
      (\<forall>va. 0 \<le> va \<longrightarrow> va < 32768 \<longrightarrow> translate 1 va s = Inr (case M (va div 32) of Some p \<Rightarrow> p * 32 + va mod 32
        | None \<Rightarrow> if \<exists>v \<in> set vps. v div 32 = va div 1024 then -2 else -1))))"
proof (rule unless_dry_mono [OF procAlloc_ok [OF assms]], clarify)
  fix vps s rs' T M
  assume al: "allocated vps T M s" and n: "n = length vps"
  then have "distinct vps" "dom M = set vps" by (auto simp: allocated_def)
  with allocated_frames(1,2) [OF al] allocated_translate [OF al]
  show "length vps = length vps \<and> distinct vps \<and>
    (\<exists>M. dom M = set vps \<and> inj_on M (dom M) \<and> ran M \<subseteq> {0..<128} \<and>
      (\<forall>va. 0 \<le> va \<longrightarrow> va < 32768 \<longrightarrow> translate 1 va s = Inr (case M (va div 32) of Some p \<Rightarrow> p * 32 + va mod 32
        | None \<Rightarrow> if \<exists>v \<in> set vps. v div 32 = va div 1024 then -2 else -1)))" by blast
qed

lemma zero_draws: "replicate 32 (0 :: rat) = [0, 0, 0, 0, 0, 0, 0, 0, 0, 0, 0, 0, 0, 0, 0, 0, 0, 0, 0, 0, 0, 0, 0, 0, 0, 0, 0, 0, 0, 0, 0, 0]"
  by (simp add: numeral_eq_Suc)

lemma one_page_run: "case procAlloc 1 1 ([0, 0, 1/64, 1/32] @ replicate 32 0) os_init of Inr r \<Rightarrow> fst r = [0] | Inl _ \<Rightarrow> False"
  by (simp add: zero_draws procAlloc_def os_init_def findFree_def maxPageCount_def pageSize_def physPages_def vaPages_def rand_below_def
    py_trunc_def py_nth_def py_set_def poke_def initPageDir_def pageBits_def allocVirtualPage_def page_table_def getPageDirEntry_def
    getPageTableEntry_def setPageDirEntry_def setPageTableEntry_def initPageTablePage_def fillPage_def PDE_SHIFT_def PDE_MASK_def
    PTE_SHIFT_def PTE_MASK_def numeral_eq_Suc [of "num.Bit0 num.One"] upto.simps nth_list_update py_lookup_def Let_def py_assert_def)

theorem multilevel_refines_map_witness:
  "\<exists>s rs' p. procAlloc 1 1 ([0, 0, 1/64, 1/32] @ replicate 32 0) os_init = Inr ([0], s, rs') \<and>
     translate 1 5 s = Inr (p * 32 + 5) \<and> translate 1 40 s = Inr (-2) \<and> translate 1 2000 s = Inr (-1)"
proof -
  let ?rs = "[0, 0, 1/64, 1/32] @ replicate 32 (0 :: rat)"
  have "draws_ok ?rs" by (simp add: draws_ok_def)
  note th = multilevel_refines_map [OF _ this, of 1]
  obtain s rs' where run: "procAlloc 1 1 ?rs os_init = Inr ([0], s, rs')"
    using one_page_run by (cases "procAlloc 1 1 ?rs os_init") (auto simp del: append.simps)
  with th obtain M where M: "dom M = {0}" and tr: "\<And>va. 0 \<le> va \<Longrightarrow> va < 32768 \<Longrightarrow>
      translate 1 va s = Inr (case M (va div 32) of Some p \<Rightarrow> p * 32 + va mod 32 | None \<Rightarrow> if 0 = va div 1024 then -2 else -1)"
    by (auto simp del: append.simps)
  obtain p where "M 0 = Some p" "M 1 = None" "M 62 = None" using M by (metis domD domIff insertI1 singletonD zero_neq_one zero_neq_numeral)
  with run tr [of 5] tr [of 40] tr [of 2000] show ?thesis by auto
qed
end
