(* ===== verification/Multi.thy ===== *)
theory Multi
  imports PyString
begin

text \<open>
  The multiprocessor scheduling simulator \<open>src/Sem3/BSYS/10_Multiprocessor/multi.py\<close>: the caches of the
  CPUs, the constructor of the scheduler with its job and affinity descriptions, the tick with its
  interrupts, job stealing, dispatch and execution, and the main loop.

  The dictionaries that the scheduler indexes with \<open>range(num_cpus)\<close> are functions of the CPU number.
  Without per-CPU queues every key of \<open>per_cpu_sched_queue\<close> refers to the one central list; the model
  keeps that list as queue 0 (\<open>queue_of\<close>). The one-element list \<open>time_left\<close>, which the source calls a
  hack to make a tuple field mutable, is a number. \<open>random.shuffle\<close> and \<open>random.choice\<close> take their numbers from
  \<open>random.random()\<close> as in Python 2.
\<close>

section \<open>Jobs and caches\<close>

record job =
  run_time :: int
  working_set_size :: int
  affinity :: "int list"
  time_left :: int

type_synonym jobs = "string \<rightharpoonup> job"

record config =
  per_cpu_queues :: bool
  peek_interval :: int
  num_cpus :: nat
  time_slice :: int
  random_order :: bool
  cache_size :: int
  cache_rate_cold :: int
  cache_rate_warm :: int
  cache_warmup_time :: int

record cache =
  cache_contents :: "string list"
  cache_warming :: "string list"
  cache_warming_counter :: "string \<rightharpoonup> int"

definition cache_init :: cache where
  "cache_init = \<lparr>cache_contents = [], cache_warming = [], cache_warming_counter = Map.empty\<rparr>"

fun sum_working_sets :: "jobs \<Rightarrow> string list \<Rightarrow> int res" where
  "sum_working_sets js [] = Inr 0"
| "sum_working_sets js (x # xs) =
     rbind (py_lookup js x) (\<lambda>j. rbind (sum_working_sets js xs) (\<lambda>n. Inr (working_set_size j + n)))"

definition total_working_set :: "jobs \<Rightarrow> cache \<Rightarrow> int res" where
  "total_working_set js c = sum_working_sets js (cache_contents c)"

text \<open>The loop of \<open>adjust_size\<close>: the last entry leaves until the rest fits.\<close>

function shrink :: "config \<Rightarrow> jobs \<Rightarrow> int \<Rightarrow> cache \<Rightarrow> cache res" where
  "shrink cf js working_set_total c =
     (if working_set_total > cache_size cf then
        if cache_contents c = [] then Inl IndexError
        else let job_gone = last (cache_contents c);
                 c' = c\<lparr>cache_contents := butlast (cache_contents c),
                        cache_warming := cache_warming c @ [job_gone],
                        cache_warming_counter := (cache_warming_counter c)(job_gone \<mapsto> cache_warmup_time cf)\<rparr>
             in rbind (py_lookup js job_gone) (\<lambda>j. shrink cf js (working_set_total - working_set_size j) c')
      else Inr c)"
  by pat_completeness auto

termination by (relation "measure (\<lambda>(cf, js, w, c). length (cache_contents c))") auto

declare shrink.simps [simp del]

definition adjust_size :: "config \<Rightarrow> jobs \<Rightarrow> cache \<Rightarrow> cache res" where
  "adjust_size cf js c = rbind (total_working_set js c) (\<lambda>working_set_total. shrink cf js working_set_total c)"

definition new_job :: "config \<Rightarrow> jobs \<Rightarrow> string \<Rightarrow> cache \<Rightarrow> cache res" where
  "new_job cf js job_name c =
     (if job_name \<notin> set (cache_contents c) \<and> job_name \<notin> set (cache_warming c) then
        if cache_warmup_time cf = 0 then adjust_size cf js (c\<lparr>cache_contents := job_name # cache_contents c\<rparr>)
        else Inr (c\<lparr>cache_warming := cache_warming c @ [job_name],
                    cache_warming_counter := (cache_warming_counter c)(job_name \<mapsto> cache_warmup_time cf)\<rparr>)
      else Inr c)"

definition get_cache_state :: "string \<Rightarrow> cache \<Rightarrow> char" where
  "get_cache_state job_name c = (if job_name \<in> set (cache_contents c) then CHR ''w'' else CHR '' '')"

definition get_rate :: "config \<Rightarrow> string \<Rightarrow> cache \<Rightarrow> int" where
  "get_rate cf job_name c = (if job_name \<in> set (cache_contents c) then cache_rate_warm cf else cache_rate_cold cf)"

definition update_warming :: "config \<Rightarrow> jobs \<Rightarrow> string \<Rightarrow> cache \<Rightarrow> cache res" where
  "update_warming cf js job_name c =
     (if job_name \<in> set (cache_warming c) then
        rbind (py_lookup (cache_warming_counter c) job_name) (\<lambda>n.
        let c1 = c\<lparr>cache_warming_counter := (cache_warming_counter c)(job_name \<mapsto> n - 1)\<rparr>
        in if n - 1 \<le> 0
           then adjust_size cf js (c1\<lparr>cache_warming := remove1 job_name (cache_warming c1),
                                      cache_contents := job_name # cache_contents c1\<rparr>)
           else Inr c1)
      else Inr c)"

section \<open>The scheduler\<close>

datatype cpu_state = STATE_IDLE | STATE_RUNNING

record sched =
  jobs :: jobs
  job_name_list :: "string list"
  per_cpu_sched_queue :: "nat \<Rightarrow> string list"
  sched_state :: "nat \<Rightarrow> cpu_state"
  sched_current :: "nat \<Rightarrow> string"
  stats_ran :: "nat \<Rightarrow> nat"
  stats_ran_warm :: "nat \<Rightarrow> nat"
  caches :: "nat \<Rightarrow> cache"
  system_time :: int
  jobs_finished :: nat
  rng :: draws

definition queue_of :: "config \<Rightarrow> nat \<Rightarrow> nat" where
  "queue_of cf cpu = (if per_cpu_queues cf then cpu else 0)"

definition runnable_on :: "nat \<Rightarrow> job \<Rightarrow> bool" where
  "runnable_on cpu j \<longleftrightarrow> affinity j = [] \<or> int cpu \<in> set (affinity j)"

text \<open>The first job of a list that satisfies a test, with its position.\<close>

fun first_job :: "jobs \<Rightarrow> (job \<Rightarrow> bool) \<Rightarrow> nat \<Rightarrow> string list \<Rightarrow> (nat \<times> string) option res" where
  "first_job js p i [] = Inr None"
| "first_job js p i (x # xs) =
     rbind (py_lookup js x) (\<lambda>j. if p j then Inr (Some (i, x)) else first_job js p (Suc i) xs)"

subsection \<open>Construction\<close>

text \<open>The job description made of random numbers when none is given.\<close>

fun random_job_list :: "nat \<Rightarrow> nat \<Rightarrow> int \<Rightarrow> int \<Rightarrow> string \<Rightarrow> draws \<Rightarrow> (string \<times> draws) res" where
  "random_job_list 0 j max_run max_wset job_list rs = Inr (job_list, rs)"
| "random_job_list (Suc n) j max_run max_wset job_list rs =
     rbind (draw rs) (\<lambda>(x, rs1).
     rbind (draw rs1) (\<lambda>(y, rs2).
       let run = py_trunc (x * of_int max_run / 10) * 10;
           working_set = py_trunc (y * of_int max_wset / 10) * 10;
           entry = py_str (int j) @ '':'' @ py_str run @ '':'' @ py_str working_set
       in random_job_list n (Suc j) max_run max_wset
            (if job_list = [] then entry else job_list @ '','' @ entry) rs2))"

definition add_job :: "string \<Rightarrow> jobs \<times> string list \<Rightarrow> (jobs \<times> string list) res" where
  "add_job entry = (\<lambda>(js, names).
     case split_on CHR '':'' entry of
       [job_name, r, w] \<Rightarrow>
         rbind (py_int r) (\<lambda>run. rbind (py_int w) (\<lambda>wset.
           let js' = js(job_name \<mapsto> \<lparr>run_time = run, working_set_size = wset, affinity = [], time_left = run\<rparr>)
           in if job_name \<in> set names then Inl SystemExit else Inr (js', names @ [job_name])))
     | _ \<Rightarrow> Inl SystemExit)"

definition add_cpu :: "config \<Rightarrow> string \<Rightarrow> string \<Rightarrow> jobs \<Rightarrow> jobs res" where
  "add_cpu cf job_name cpu js =
     rbind (py_lookup js job_name) (\<lambda>j.
     rbind (py_int cpu) (\<lambda>c.
       if c < 0 \<or> c \<ge> int (num_cpus cf) then Inl SystemExit
       else Inr (js(job_name \<mapsto> j\<lparr>affinity := affinity j @ [c]\<rparr>))))"

definition add_affinity :: "config \<Rightarrow> string list \<Rightarrow> string \<Rightarrow> jobs \<Rightarrow> jobs res" where
  "add_affinity cf names entry js =
     (case split_on CHR '':'' entry of
        [job_name, cpus] \<Rightarrow>
          if job_name \<notin> set names then Inl SystemExit
          else rfold (add_cpu cf job_name) (split_on CHR ''.'' cpus) js
      | _ \<Rightarrow> Inl SystemExit)"

text \<open>One round of the loop that deals the jobs to the queues of the CPUs.\<close>

definition deal_one :: "jobs \<Rightarrow> nat \<Rightarrow> string list \<times> (nat \<Rightarrow> string list) \<Rightarrow> (string list \<times> (nat \<Rightarrow> string list)) res" where
  "deal_one js cpu = (\<lambda>(rest, q).
     rbind (first_job js (runnable_on cpu) 0 rest) (\<lambda>r.
       case r of None \<Rightarrow> Inr (rest, q)
       | Some (i, x) \<Rightarrow> Inr (remove1 x rest, q(cpu := q cpu @ [x]))))"

definition deal_round :: "config \<Rightarrow> jobs \<Rightarrow> string list \<times> (nat \<Rightarrow> string list) \<Rightarrow> (string list \<times> (nat \<Rightarrow> string list)) res" where
  "deal_round cf js = rfold (deal_one js) [0..<num_cpus cf]"

definition undealt :: "string list \<times> (nat \<Rightarrow> string list) \<Rightarrow> bool" where
  "undealt d \<longleftrightarrow> fst d \<noteq> []"

definition sched_queues :: "nat \<Rightarrow> config \<Rightarrow> jobs \<Rightarrow> string list \<Rightarrow> (nat \<Rightarrow> string list) res option" where
  "sched_queues fuel cf js names =
     (if per_cpu_queues cf
      then map_option (\<lambda>r. rbind r (\<lambda>d. Inr (snd d))) (loop fuel undealt (deal_round cf js) (names, \<lambda>_. []))
      else Some (Inr ((\<lambda>_. [])(0 := names))))"

text \<open>The descriptions read by the constructor.\<close>

definition read_jobs :: "config \<Rightarrow> string \<Rightarrow> string \<Rightarrow> (jobs \<times> string list) res" where
  "read_jobs cf job_list affin =
     rbind (rfold add_job (split_on CHR '','' job_list) (Map.empty, [])) (\<lambda>(js, names).
     rbind (if affin = [] then Inr js else rfold (add_affinity cf names) (split_on CHR '','' affin) js) (\<lambda>js'.
       Inr (js', names)))"

definition sched_start :: "jobs \<Rightarrow> string list \<Rightarrow> (nat \<Rightarrow> string list) \<Rightarrow> draws \<Rightarrow> sched" where
  "sched_start js names q rs =
     \<lparr>jobs = js, job_name_list = names, per_cpu_sched_queue = q,
      sched_state = (\<lambda>_. STATE_IDLE), sched_current = (\<lambda>_. []),
      stats_ran = (\<lambda>_. 0), stats_ran_warm = (\<lambda>_. 0), caches = (\<lambda>_. cache_init),
      system_time = 0, jobs_finished = 0, rng = rs\<rparr>"

definition scheduler_init :: "nat \<Rightarrow> config \<Rightarrow> string \<Rightarrow> string \<Rightarrow> nat \<Rightarrow> int \<Rightarrow> int \<Rightarrow> draws \<Rightarrow> sched res option" where
  "scheduler_init fuel cf job_list affin job_num max_run max_wset rs =
     (case rbind (if job_list = [] then random_job_list job_num 0 max_run max_wset [] rs else Inr (job_list, rs))
             (\<lambda>(jl, rs'). rbind (read_jobs cf jl affin) (\<lambda>(js, names). Inr (js, names, rs'))) of
        Inl e \<Rightarrow> Some (Inl e)
      | Inr (js, names, rs') \<Rightarrow>
          map_option (\<lambda>r. rbind r (\<lambda>q. Inr (sched_start js names q rs'))) (sched_queues fuel cf js names))"

subsection \<open>A tick\<close>

definition handle_one_interrupt :: "config \<Rightarrow> bool \<Rightarrow> nat \<Rightarrow> sched \<Rightarrow> sched" where
  "handle_one_interrupt cf interrupt cpu s =
     (if interrupt \<and> sched_state s cpu = STATE_RUNNING then
        let job_name = sched_current s cpu; q = queue_of cf cpu
        in s\<lparr>sched_state := (sched_state s)(cpu := STATE_IDLE),
             sched_current := (sched_current s)(cpu := []),
             per_cpu_sched_queue := (per_cpu_sched_queue s)(q := per_cpu_sched_queue s q @ [job_name])\<rparr>
      else s)"

definition handle_interrupts :: "config \<Rightarrow> sched \<Rightarrow> sched res" where
  "handle_interrupts cf s =
     (if time_slice cf = 0 then Inl ZeroDivisionError
      else let interrupt = (system_time s mod time_slice cf = 0 \<and> system_time s > 0)
           in Inr (fold (handle_one_interrupt cf interrupt) [0..<num_cpus cf] s))"

definition get_job :: "config \<Rightarrow> nat \<Rightarrow> sched \<Rightarrow> sched res" where
  "get_job cf cpu s =
     (let q = queue_of cf cpu; sched_queue = per_cpu_sched_queue s q in
      rbind (first_job (jobs s) (runnable_on cpu) 0 sched_queue) (\<lambda>r.
        case r of None \<Rightarrow> Inr s
        | Some (job_index, job_name) \<Rightarrow>
            rbind (new_job cf (jobs s) job_name (caches s cpu)) (\<lambda>c.
              Inr (s\<lparr>per_cpu_sched_queue := (per_cpu_sched_queue s)(q := remove_nth job_index sched_queue),
                     sched_state := (sched_state s)(cpu := STATE_RUNNING),
                     sched_current := (sched_current s)(cpu := job_name),
                     caches := (caches s)(cpu := c)\<rparr>))))"

fun shuffle_from :: "nat \<Rightarrow> 'a list \<Rightarrow> draws \<Rightarrow> ('a list \<times> draws) res" where
  "shuffle_from 0 xs rs = Inr (xs, rs)"
| "shuffle_from (Suc i) xs rs =
     rbind (draw rs) (\<lambda>(x, rs').
       let j = nat (rand_below x (int i + 2))
       in shuffle_from i (xs[j := xs ! Suc i, Suc i := xs ! j]) rs')"

definition cpu_order :: "config \<Rightarrow> draws \<Rightarrow> (nat list \<times> draws) res" where
  "cpu_order cf rs =
     (if random_order cf then shuffle_from (num_cpus cf - 1) [0..<num_cpus cf] rs else Inr ([0..<num_cpus cf], rs))"

definition assign_one :: "config \<Rightarrow> nat \<Rightarrow> sched \<Rightarrow> sched res" where
  "assign_one cf cpu s = (if sched_state s cpu = STATE_IDLE then get_job cf cpu s else Inr s)"

definition assign_jobs :: "config \<Rightarrow> sched \<Rightarrow> sched res" where
  "assign_jobs cf s =
     rbind (cpu_order cf (rng s)) (\<lambda>(cpu_list, rs). rfold (assign_one cf) cpu_list (s\<lparr>rng := rs\<rparr>))"

text \<open>
  \<open>cpu in self.jobs[job_name]\<close> searches the fields of the tuple: a CPU number can only equal the run time
  or the working set size.
\<close>

definition in_job_tuple :: "nat \<Rightarrow> job \<Rightarrow> bool" where
  "in_job_tuple cpu j \<longleftrightarrow> int cpu = run_time j \<or> int cpu = working_set_size j"

definition stealable :: "nat \<Rightarrow> job \<Rightarrow> bool" where
  "stealable cpu j \<longleftrightarrow> affinity j = [] \<or> in_job_tuple cpu j"

definition random_choice :: "'a list \<Rightarrow> draws \<Rightarrow> ('a \<times> draws) res" where
  "random_choice xs rs =
     rbind (draw rs) (\<lambda>(x, rs'). rbind (py_nth xs (rand_below x (int (length xs)))) (\<lambda>y. Inr (y, rs')))"

definition steal_one :: "config \<Rightarrow> nat \<Rightarrow> sched \<Rightarrow> sched res" where
  "steal_one cf cpu s =
     (if per_cpu_sched_queue s cpu = [] then
        rbind (random_choice (remove1 cpu [0..<num_cpus cf]) (rng s)) (\<lambda>(other_cpu, rs).
        let s1 = s\<lparr>rng := rs\<rparr>; q = per_cpu_sched_queue s in
        rbind (first_job (jobs s) (stealable cpu) 0 (q other_cpu)) (\<lambda>r.
          case r of None \<Rightarrow> Inr s1
          | Some (i, job_name) \<Rightarrow>
              Inr (s1\<lparr>per_cpu_sched_queue := q(other_cpu := remove1 job_name (q other_cpu), cpu := q cpu @ [job_name])\<rparr>)))
      else Inr s)"

definition steal_jobs :: "config \<Rightarrow> sched \<Rightarrow> sched res" where
  "steal_jobs cf s =
     (if \<not> per_cpu_queues cf \<or> peek_interval cf \<le> 0 then Inr s
      else if system_time s > 0 \<and> system_time s mod peek_interval cf = 0
      then rfold (steal_one cf) [0..<num_cpus cf] s
      else Inr s)"

definition run_one_tick :: "config \<Rightarrow> nat \<Rightarrow> sched \<Rightarrow> sched res" where
  "run_one_tick cf cpu s =
     (let job_name = sched_current s cpu in
      rbind (py_lookup (jobs s) job_name) (\<lambda>job.
      let current_rate = get_rate cf job_name (caches s cpu);
          left = (if time_left job - current_rate < 0 then 0 else time_left job - current_rate);
          s1 = s\<lparr>stats_ran := (stats_ran s)(cpu := stats_ran s cpu + 1),
                 stats_ran_warm := (if current_rate > 1 then (stats_ran_warm s)(cpu := stats_ran_warm s cpu + 1)
                                    else stats_ran_warm s),
                 jobs := (jobs s)(job_name \<mapsto> job\<lparr>time_left := left\<rparr>)\<rparr>
      in rbind (update_warming cf (jobs s1) job_name (caches s1 cpu)) (\<lambda>c.
         let s2 = s1\<lparr>caches := (caches s1)(cpu := c)\<rparr>
         in Inr (if left \<le> 0
                 then s2\<lparr>sched_state := (sched_state s2)(cpu := STATE_IDLE),
                         sched_current := (sched_current s2)(cpu := []),
                         jobs_finished := jobs_finished s2 + 1\<rparr>
                 else s2))))"

definition run_cpu :: "config \<Rightarrow> nat \<Rightarrow> sched \<Rightarrow> sched res" where
  "run_cpu cf cpu s = (if sched_state s cpu = STATE_RUNNING then run_one_tick cf cpu s else Inr s)"

definition run_jobs :: "config \<Rightarrow> sched \<Rightarrow> sched res" where
  "run_jobs cf = rfold (run_cpu cf) [0..<num_cpus cf]"

definition tick :: "config \<Rightarrow> sched \<Rightarrow> sched res" where
  "tick cf s =
     rbind (handle_interrupts cf s) (\<lambda>s1.
     rbind (steal_jobs cf s1) (\<lambda>s2.
     rbind (assign_jobs cf s2) (\<lambda>s3.
     rbind (run_jobs cf s3) (\<lambda>s4. Inr (s4\<lparr>system_time := system_time s4 + 1\<rparr>)))))"

definition unfinished :: "sched \<Rightarrow> bool" where
  "unfinished s \<longleftrightarrow> jobs_finished s < length (job_name_list s)"

definition run :: "nat \<Rightarrow> config \<Rightarrow> sched \<Rightarrow> sched res option" where
  "run fuel cf s = loop fuel unfinished (tick cf) (s\<lparr>system_time := 0, jobs_finished := 0\<rparr>)"

section \<open>The caches\<close>

definition ws :: "jobs \<Rightarrow> string list \<Rightarrow> int" where
  "ws js xs = (\<Sum>x \<leftarrow> xs. working_set_size (the (js x)))"

definition cache_shape :: "jobs \<Rightarrow> cache \<Rightarrow> bool" where
  "cache_shape js c \<longleftrightarrow> distinct (cache_contents c @ cache_warming c) \<and>
     set (cache_contents c) \<union> set (cache_warming c) \<subseteq> dom js \<and> set (cache_warming c) \<subseteq> dom (cache_warming_counter c)"

definition cache_ok :: "config \<Rightarrow> jobs \<Rightarrow> cache \<Rightarrow> bool" where
  "cache_ok cf js c \<longleftrightarrow> cache_shape js c \<and> ws js (cache_contents c) \<le> cache_size cf"

lemma sum_working_sets_ok: "set xs \<subseteq> dom js \<Longrightarrow> sum_working_sets js xs = Inr (ws js xs)"
proof (induction xs)
  case (Cons x xs)
  then obtain j where "js x = Some j" by auto
  with Cons show ?case by (auto simp: ws_def py_lookup_def)
qed (simp add: ws_def)

lemma shrink_ok:
  "0 \<le> cache_size cf \<Longrightarrow> cache_shape js c \<Longrightarrow> w = ws js (cache_contents c) \<Longrightarrow>
   \<exists>c'. shrink cf js w c = Inr c' \<and> cache_ok cf js c'"
proof (induction cf js w c rule: shrink.induct)
  case (1 cf js w c)
  show ?case
  proof (cases "w > cache_size cf")
    case True
    have ne: "cache_contents c \<noteq> []" using True 1(2,4) by (auto simp: ws_def)
    then obtain xs x where c: "cache_contents c = xs @ [x]" by (metis rev_exhaust)
    then obtain j where j: "js x = Some j" using 1(3) by (auto simp: cache_shape_def)
    let ?c = "c\<lparr>cache_contents := xs, cache_warming := cache_warming c @ [x],
      cache_warming_counter := (cache_warming_counter c)(x \<mapsto> cache_warmup_time cf)\<rparr>"
    have "cache_shape js ?c" using 1(3) c by (auto simp: cache_shape_def)
    moreover have "w - working_set_size j = ws js xs" using 1(4) c j by (simp add: ws_def)
    ultimately have "\<exists>c'. shrink cf js (w - working_set_size j) ?c = Inr c' \<and> cache_ok cf js c'"
      using 1(1) [OF True ne refl refl] 1(2) c j by simp
    then show ?thesis using True c j by (simp add: shrink.simps [of cf js w] py_lookup_def)
  qed (use 1(3,4) in \<open>simp add: shrink.simps [of cf js "ws js (cache_contents c)"] cache_ok_def\<close>)
qed

lemma adjust_size_ok:
  "0 \<le> cache_size cf \<Longrightarrow> cache_shape js c \<Longrightarrow> \<exists>c'. adjust_size cf js c = Inr c' \<and> cache_ok cf js c'"
  using sum_working_sets_ok [of "cache_contents c" js] shrink_ok [of cf js c]
  by (simp add: adjust_size_def total_working_set_def cache_shape_def)

lemma new_job_ok:
  assumes "0 \<le> cache_size cf" and "cache_ok cf js c" and "x \<in> dom js"
  shows "\<exists>c'. new_job cf js x c = Inr c' \<and> cache_ok cf js c'"
proof -
  have "cache_shape js (c\<lparr>cache_contents := x # cache_contents c\<rparr>)" if "x \<notin> set (cache_contents c)" "x \<notin> set (cache_warming c)"
    using that assms(2,3) by (auto simp: cache_ok_def cache_shape_def)
  from adjust_size_ok [OF assms(1) this] show ?thesis
    using assms(2,3) by (auto simp: new_job_def cache_ok_def cache_shape_def)
qed

lemma update_warming_ok:
  assumes "0 \<le> cache_size cf" and "cache_ok cf js c"
  shows "\<exists>c'. update_warming cf js x c = Inr c' \<and> cache_ok cf js c'"
proof (cases "x \<in> set (cache_warming c)")
  case True
  then obtain n where n: "cache_warming_counter c x = Some n" using assms(2) by (auto simp: cache_ok_def cache_shape_def)
  let ?c1 = "c\<lparr>cache_warming_counter := (cache_warming_counter c)(x \<mapsto> n - 1)\<rparr>"
  let ?c2 = "?c1\<lparr>cache_warming := remove1 x (cache_warming c), cache_contents := x # cache_contents c\<rparr>"
  have "cache_ok cf js ?c1" using assms(2) by (auto simp: cache_ok_def cache_shape_def)
  moreover have "cache_shape js ?c2" using assms(2) True by (auto simp: cache_ok_def cache_shape_def dest: notin_set_remove1)
  note adjust_size_ok [OF assms(1) this]
  ultimately show ?thesis using True n by (auto simp: update_warming_def py_lookup_def Let_def)
qed (use assms(2) in \<open>simp add: update_warming_def\<close>)

text \<open>A tick changes nothing of a job but its remaining time.\<close>

definition same_jobs :: "jobs \<Rightarrow> jobs \<Rightarrow> bool" where
  "same_jobs js js' \<longleftrightarrow> dom js' = dom js \<and>
     (\<forall>x. working_set_size (the (js' x)) = working_set_size (the (js x)) \<and> affinity (the (js' x)) = affinity (the (js x)))"

lemma same_jobs_refl [simp]: "same_jobs js js"
  by (simp add: same_jobs_def)

lemma same_jobs_left: "js x = Some j \<Longrightarrow> same_jobs js (js(x \<mapsto> j\<lparr>time_left := l\<rparr>))"
  by (auto simp: same_jobs_def)

lemma same_jobs_cache: "same_jobs js js' \<Longrightarrow> cache_ok cf js' c = cache_ok cf js c"
  by (simp add: same_jobs_def cache_ok_def cache_shape_def ws_def)

lemma same_jobs_runnable: "same_jobs js js' \<Longrightarrow> runnable_on c (the (js' x)) = runnable_on c (the (js x))"
  by (simp add: same_jobs_def runnable_on_def)

section \<open>Where the jobs are\<close>

definition queued :: "nat \<Rightarrow> (nat \<Rightarrow> string list) \<Rightarrow> string multiset" where
  "queued n Q = (\<Sum>c<n. mset (Q c))"

definition active :: "nat \<Rightarrow> (nat \<Rightarrow> cpu_state) \<Rightarrow> (nat \<Rightarrow> string) \<Rightarrow> string multiset" where
  "active n st cur = (\<Sum>c<n. if st c = STATE_RUNNING then {#cur c#} else {#})"

definition in_play :: "config \<Rightarrow> sched \<Rightarrow> string multiset" where
  "in_play cf s = queued (num_cpus cf) (per_cpu_sched_queue s) + active (num_cpus cf) (sched_state s) (sched_current s)"

lemma queued_split: "c < n \<Longrightarrow> queued n (Q(c := l)) = mset l + (\<Sum>i \<in> {..<n} - {c}. mset (Q i))"
  unfolding queued_def by (subst sum.remove [of _ c]) auto

lemma queued_upd: "c < n \<Longrightarrow> queued n (Q(c := l)) + mset (Q c) = queued n Q + mset l"
  using queued_split [of c n Q l] queued_split [of c n Q "Q c"] by simp

lemma queued_mem: "c < n \<Longrightarrow> x \<in> set (Q c) \<Longrightarrow> x \<in># queued n Q"
  using queued_split [of c n Q "Q c"] by simp

lemma in_queued: "x \<in># queued n Q \<longleftrightarrow> (\<exists>c<n. x \<in> set (Q c))"
  by (auto simp: queued_def set_mset_sum)

lemma active_split:
  "c < n \<Longrightarrow> active n (st(c := v)) (cur(c := x)) =
     (if v = STATE_RUNNING then {#x#} else {#}) + (\<Sum>i \<in> {..<n} - {c}. if st i = STATE_RUNNING then {#cur i#} else {#})"
proof -
  assume c: "c < n"
  have "(\<Sum>i \<in> {..<n} - {c}. if (st(c := v)) i = STATE_RUNNING then {#(cur(c := x)) i#} else {#}) =
      (\<Sum>i \<in> {..<n} - {c}. if st i = STATE_RUNNING then {#cur i#} else {#})"
    by (rule sum.cong) auto
  then show ?thesis using c by (simp add: active_def sum.remove [of _ c] del: fun_upd_apply) simp
qed

lemma active_start:
  "c < n \<Longrightarrow> st c = STATE_IDLE \<Longrightarrow> active n (st(c := STATE_RUNNING)) (cur(c := x)) = add_mset x (active n st cur)"
  using active_split [of c n st STATE_RUNNING cur x] active_split [of c n st "st c" cur "cur c"] by (simp add: fun_upd_idem)

lemma active_stop:
  "c < n \<Longrightarrow> st c = STATE_RUNNING \<Longrightarrow> active n st cur = add_mset (cur c) (active n (st(c := STATE_IDLE)) (cur(c := [])))"
  using active_split [of c n st STATE_IDLE cur "[]"] active_split [of c n st "st c" cur "cur c"] by (simp add: fun_upd_idem)

lemma in_active: "x \<in># active n st cur \<longleftrightarrow> (\<exists>c<n. st c = STATE_RUNNING \<and> cur c = x)"
  by (auto simp: active_def set_mset_sum split: if_splits)


section \<open>The invariant\<close>

definition config_ok :: "config \<Rightarrow> bool" where
  "config_ok cf \<longleftrightarrow> 0 < num_cpus cf \<and> time_slice cf \<noteq> 0 \<and> 0 \<le> cache_size cf \<and>
     1 \<le> cache_rate_cold cf \<and> 1 \<le> cache_rate_warm cf \<and> (per_cpu_queues cf \<longrightarrow> 0 < peek_interval cf \<longrightarrow> 2 \<le> num_cpus cf)"

definition jobs_ok :: "config \<Rightarrow> jobs \<Rightarrow> string list \<Rightarrow> bool" where
  "jobs_ok cf js names \<longleftrightarrow> distinct names \<and> dom js = set names \<and>
     (\<forall>x. \<forall>c \<in> set (affinity (the (js x))). x \<in> dom js \<longrightarrow> 0 \<le> c \<and> c < int (num_cpus cf))"

definition multi_ok :: "config \<Rightarrow> sched \<Rightarrow> bool" where
  "multi_ok cf s \<longleftrightarrow> jobs_ok cf (jobs s) (job_name_list s) \<and>
     in_play cf s \<subseteq># mset (job_name_list s) \<and>
     size (in_play cf s) + jobs_finished s = length (job_name_list s) \<and>
     (\<forall>x \<in> set (job_name_list s). x \<notin># in_play cf s \<longrightarrow> time_left (the (jobs s x)) = 0) \<and>
     (\<forall>c < num_cpus cf. cache_ok cf (jobs s) (caches s c)) \<and>
     (\<forall>c < num_cpus cf. sched_state s c = STATE_RUNNING \<longrightarrow> runnable_on c (the (jobs s (sched_current s c)))) \<and>
     (\<not> per_cpu_queues cf \<longrightarrow> (\<forall>q. q \<noteq> 0 \<longrightarrow> per_cpu_sched_queue s q = [])) \<and> draws_ok (rng s)"

text \<open>With per-CPU queues, every job waits in the queue of a CPU that may run it.\<close>

definition placed :: "config \<Rightarrow> jobs \<Rightarrow> (nat \<Rightarrow> string list) \<Rightarrow> bool" where
  "placed cf js Q \<longleftrightarrow> (per_cpu_queues cf \<longrightarrow> (\<forall>c < num_cpus cf. \<forall>x \<in> set (Q c). runnable_on c (the (js x))))"

text \<open>Stealing is off, or no job is bound to particular CPUs.\<close>

definition steals_safe :: "config \<Rightarrow> jobs \<Rightarrow> bool" where
  "steals_safe cf js \<longleftrightarrow> (per_cpu_queues cf \<and> 0 < peek_interval cf \<longrightarrow> (\<forall>x \<in> dom js. affinity (the (js x)) = []))"

lemma queue_of_less: "0 < num_cpus cf \<Longrightarrow> c < num_cpus cf \<Longrightarrow> queue_of cf c < num_cpus cf"
  by (simp add: queue_of_def)

lemma in_play_job: "multi_ok cf s \<Longrightarrow> x \<in># in_play cf s \<Longrightarrow> x \<in> dom (jobs s)"
  unfolding multi_ok_def jobs_ok_def by (metis mset_subset_eqD set_mset_mset)

lemma queued_job: "multi_ok cf s \<Longrightarrow> c < num_cpus cf \<Longrightarrow> x \<in> set (per_cpu_sched_queue s c) \<Longrightarrow> x \<in> dom (jobs s)"
  by (rule in_play_job) (auto simp: in_play_def in_queued)

lemma running_job: "multi_ok cf s \<Longrightarrow> c < num_cpus cf \<Longrightarrow> sched_state s c = STATE_RUNNING \<Longrightarrow> sched_current s c \<in> dom (jobs s)"
  by (rule in_play_job) (auto simp: in_play_def in_active)

text \<open>\<open>moved cf s t\<close>: from \<open>s\<close> to \<open>t\<close> jobs only changed places.\<close>

definition moved :: "config \<Rightarrow> sched \<Rightarrow> sched \<Rightarrow> bool" where
  "moved cf s t \<longleftrightarrow> multi_ok cf t \<and> in_play cf t = in_play cf s \<and> jobs t = jobs s \<and> job_name_list t = job_name_list s \<and>
     system_time t = system_time s \<and>
     (steals_safe cf (jobs s) \<longrightarrow> placed cf (jobs s) (per_cpu_sched_queue s) \<longrightarrow> placed cf (jobs t) (per_cpu_sched_queue t))"

lemma moved_refl: "multi_ok cf s \<Longrightarrow> moved cf s s"
  by (simp add: moved_def)

lemma moved_trans: "moved cf s t \<Longrightarrow> moved cf t u \<Longrightarrow> moved cf s u"
  by (auto simp: moved_def)

lemma moved_ok: "moved cf s t \<Longrightarrow> multi_ok cf t"
  by (simp add: moved_def)

lemma first_job_Some:
  "first_job js p k xs = Inr (Some (i, x)) \<Longrightarrow>
   k \<le> i \<and> i - k < length xs \<and> xs ! (i - k) = x \<and> x \<in> set xs \<and> p (the (js x))"
proof (induction xs arbitrary: k)
  case (Cons y ys)
  show ?case
  proof (cases "p (the (js y))")
    case True
    then show ?thesis using Cons.prems by auto
  next
    case False
    then have "first_job js p (Suc k) ys = Inr (Some (i, x))" using Cons.prems by auto
    from Cons.IH [OF this] show ?thesis by (auto simp: nth_Cons' Suc_diff_le [symmetric])
  qed
qed simp

lemma first_job_None: "first_job js p k xs = Inr None \<Longrightarrow> \<forall>x \<in> set xs. \<not> p (the (js x))"
  by (induction xs arbitrary: k) (auto split: if_splits)

lemma first_job_total: "set xs \<subseteq> dom js \<Longrightarrow> \<exists>r. first_job js p k xs = Inr r"
proof (induction xs arbitrary: k)
  case (Cons y ys)
  obtain j where "js y = Some j" using Cons.prems by auto
  with Cons show ?case by (cases "p j") (simp_all add: py_lookup_def del: rbind_Inr_iff)
qed simp

section \<open>Jobs change places\<close>

lemma interrupt_moved:
  assumes ok: "multi_ok cf s" and n: "0 < num_cpus cf" and c: "c < num_cpus cf"
  shows "moved cf s (handle_one_interrupt cf b c s)"
proof (cases "b \<and> sched_state s c = STATE_RUNNING")
  case True
  let ?q = "queue_of cf c" and ?x = "sched_current s c" and ?t = "handle_one_interrupt cf b c s"
  have q: "?q < num_cpus cf" using n c by (rule queue_of_less)
  have play: "in_play cf ?t = in_play cf s"
    using queued_upd [OF q, of "per_cpu_sched_queue s" "per_cpu_sched_queue s ?q @ [?x]"]
      active_stop [OF c, of "sched_state s" "sched_current s"] True
    by (simp add: in_play_def handle_one_interrupt_def Let_def)
  have run: "runnable_on c (the (jobs s ?x))" using ok c True by (simp add: multi_ok_def)
  have ok': "multi_ok cf ?t"
    using ok unfolding multi_ok_def play by (auto simp: handle_one_interrupt_def Let_def queue_of_def)
  show ?thesis
    unfolding moved_def play using ok' run True
    by (auto simp: handle_one_interrupt_def Let_def placed_def queue_of_def)
next
  case False
  then have "handle_one_interrupt cf b c s = s" by (auto simp: handle_one_interrupt_def)
  then show ?thesis using moved_refl [OF ok] by simp
qed

lemma interrupts_moved:
  assumes "multi_ok cf s" and "0 < num_cpus cf" and "set cs \<subseteq> {..<num_cpus cf}"
  shows "moved cf s (fold (handle_one_interrupt cf b) cs s)"
  using assms(1,3)
proof (induction cs arbitrary: s)
  case (Cons c cs)
  have "moved cf s (handle_one_interrupt cf b c s)" using interrupt_moved [OF Cons.prems(1) assms(2)] Cons.prems(2) by simp
  with Cons.IH [OF moved_ok [OF this]] Cons.prems(2) show ?case by (auto intro: moved_trans)
qed (simp add: moved_refl)


lemma get_job_total:
  assumes ok: "multi_ok cf s" and cf: "config_ok cf" and c: "c < num_cpus cf" and idle: "sched_state s c = STATE_IDLE"
  shows "\<exists>t. get_job cf c s = Inr t \<and> moved cf s t"
proof -
  let ?q = "queue_of cf c"
  let ?Q = "per_cpu_sched_queue s ?q"
  have q: "?q < num_cpus cf" using cf c by (auto simp: config_ok_def queue_of_def)
  obtain r where r: "first_job (jobs s) (runnable_on c) 0 ?Q = Inr r"
    using first_job_total [of ?Q "jobs s"] queued_job [OF ok q] by blast
  show ?thesis
  proof (cases r)
    case None
    then show ?thesis using r moved_refl [OF ok] by (simp add: get_job_def Let_def)
  next
    case (Some p)
    obtain i x where p: "p = (i, x)" by fastforce
    have i: "i < length ?Q" "?Q ! i = x" "x \<in> set ?Q" "runnable_on c (the (jobs s x))"
      using first_job_Some [of "jobs s" "runnable_on c" 0 ?Q i x] r Some p by auto
    have ca: "cache_ok cf (jobs s) (caches s c)" using ok c by (simp add: multi_ok_def)
    obtain c' where c': "new_job cf (jobs s) x (caches s c) = Inr c'" "cache_ok cf (jobs s) c'"
      using new_job_ok [OF _ ca queued_job [OF ok q i(3)]] cf by (auto simp: config_ok_def)
    let ?t = "s\<lparr>per_cpu_sched_queue := (per_cpu_sched_queue s)(?q := remove_nth i ?Q),
      sched_state := (sched_state s)(c := STATE_RUNNING), sched_current := (sched_current s)(c := x), caches := (caches s)(c := c')\<rparr>"
    have t: "get_job cf c s = Inr ?t" using r Some p c' by (simp add: get_job_def Let_def)
    have play: "in_play cf ?t = in_play cf s"
      using queued_upd [OF q, of "per_cpu_sched_queue s" "remove_nth i ?Q"] mset_remove_nth [OF i(1)] i(2)
        active_start [OF c, of "sched_state s" "sched_current s" x] idle
      by (simp add: in_play_def)
    have ok': "multi_ok cf ?t"
      using ok c'(2) i(4) unfolding multi_ok_def play by (auto simp: queue_of_def)
    have "placed cf (jobs ?t) (per_cpu_sched_queue ?t)" if "placed cf (jobs s) (per_cpu_sched_queue s)"
      using that set_remove_nth_subset [of i ?Q] by (auto simp: placed_def queue_of_def)
    then have "moved cf s ?t" unfolding moved_def play using ok' by simp
    with t show ?thesis by blast
  qed
qed

lemma assign_one_moved:
  "multi_ok cf s \<Longrightarrow> config_ok cf \<Longrightarrow> c < num_cpus cf \<Longrightarrow> \<exists>t. assign_one cf c s = Inr t \<and> moved cf s t"
  using get_job_total [of cf s c] moved_refl [of cf s] by (cases "sched_state s c") (auto simp: assign_one_def)

lemma shuffle_ok:
  "draws_ok rs \<Longrightarrow> i < length xs \<or> i = 0 \<Longrightarrow>
   unless_dry (shuffle_from i xs rs) (\<lambda>(ys, rs'). mset ys = mset xs \<and> draws_ok rs')"
proof (induction i xs rs rule: shuffle_from.induct)
  case (2 i xs rs)
  show ?case
  proof (cases rs)
    case (Cons x rs')
    have x: "0 \<le> x" "x < 1" and rs': "draws_ok rs'" using 2(2) Cons by (auto simp: draws_ok_def)
    let ?j = "nat (rand_below x (int i + 2))"
    have j: "?j < length xs" using rand_below_bounds [OF x, of "int i + 2"] 2(3) by auto
    have "mset (xs[?j := xs ! Suc i, Suc i := xs ! ?j]) = mset xs" using j 2(3) by (simp add: mset_swap)
    then show ?thesis using 2(1) [of "(x, rs')" x rs' ?j] 2(3) rs' Cons by (simp add: Let_def)
  qed (simp add: unless_dry_def)
qed simp

lemma cpu_order_ok:
  assumes "draws_ok rs"
  shows "unless_dry (cpu_order cf rs) (\<lambda>(cs, rs'). set cs = {..<num_cpus cf} \<and> draws_ok rs')"
proof (cases "random_order cf")
  case True
  show ?thesis
    unfolding cpu_order_def
    by (simp only: True if_True, rule unless_dry_mono2 [OF shuffle_ok [OF assms]])
      (auto dest: mset_eq_setD simp del: mset_upt)
qed (use assms in \<open>auto simp: cpu_order_def\<close>)


lemma assign_all_moved:
  assumes "multi_ok cf s" and cf: "config_ok cf" and "set cs \<subseteq> {..<num_cpus cf}"
  shows "\<exists>t. rfold (assign_one cf) cs s = Inr t \<and> moved cf s t"
proof (rule rfold_total)
  show "moved cf s s" using assms(1) by (rule moved_refl)
  show "\<exists>v. assign_one cf c u = Inr v \<and> moved cf s v" if "c \<in> set cs" "moved cf s u" for c u
    using assign_one_moved [OF moved_ok [OF that(2)] cf, of c] assms(3) that moved_trans by blast
qed

text \<open>Dispatch leaves all CPUs idle only when no CPU may run any job of its queue.\<close>

lemma assign_one_progress:
  assumes "assign_one cf c s = Inr t"
  shows "sched_state t c = STATE_RUNNING \<or>
    (t = s \<and> (\<forall>x \<in> set (per_cpu_sched_queue s (queue_of cf c)). \<not> runnable_on c (the (jobs s x))))"
    and "sched_state s d = STATE_RUNNING \<Longrightarrow> sched_state t d = STATE_RUNNING"
proof -
  let ?Q = "per_cpu_sched_queue s (queue_of cf c)"
  have "(t = s \<and> (\<forall>x \<in> set ?Q. \<not> runnable_on c (the (jobs s x)))) \<or> sched_state t = (sched_state s)(c := STATE_RUNNING)"
    if idle: "sched_state s c = STATE_IDLE"
  proof -
    obtain r where r: "first_job (jobs s) (runnable_on c) 0 ?Q = Inr r"
      using assms idle by (auto simp: assign_one_def get_job_def Let_def)
    then show ?thesis
      using assms idle first_job_None [of "jobs s" "runnable_on c" 0 ?Q]
      by (cases r) (auto simp: assign_one_def get_job_def Let_def)
  qed
  moreover have "t = s" if "sched_state s c = STATE_RUNNING" using assms that by (simp add: assign_one_def)
  ultimately show "sched_state t c = STATE_RUNNING \<or> (t = s \<and> (\<forall>x \<in> set ?Q. \<not> runnable_on c (the (jobs s x))))"
    and "sched_state s d = STATE_RUNNING \<Longrightarrow> sched_state t d = STATE_RUNNING"
    by (cases "sched_state s c"; auto)+
qed

lemma assign_progress:
  assumes "rfold (assign_one cf) cs s = Inr t" and "set cs \<subseteq> {..<num_cpus cf}"
  shows "(\<exists>c < num_cpus cf. sched_state t c = STATE_RUNNING) \<or>
    (\<forall>c \<in> set cs. \<forall>x \<in> set (per_cpu_sched_queue s (queue_of cf c)). \<not> runnable_on c (the (jobs s x)))"
  using assms
proof (induction cs arbitrary: s)
  case (Cons c cs)
  then obtain u where u: "assign_one cf c s = Inr u" "rfold (assign_one cf) cs u = Inr t" by auto
  note pr = assign_one_progress [OF u(1)]
  show ?case
  proof (cases "sched_state u c = STATE_RUNNING")
    case True
    have "sched_state t c = STATE_RUNNING"
      by (rule rfold_invariant [OF u(2), of "\<lambda>v. sched_state v c = STATE_RUNNING"]) (use True assign_one_progress(2) in auto)
    then show ?thesis using Cons.prems(2) by auto
  next
    case False
    then show ?thesis using Cons.IH [OF u(2)] Cons.prems(2) pr(1) by auto
  qed
qed simp

lemma random_choice_ok:
  assumes "draws_ok rs" and "xs \<noteq> []"
  shows "unless_dry (random_choice xs rs) (\<lambda>(y, rs'). y \<in> set xs \<and> draws_ok rs')"
proof (cases rs)
  case (Cons x rs')
  have x: "0 \<le> x" "x < 1" "draws_ok rs'" using assms(1) Cons by (auto simp: draws_ok_def)
  have "0 \<le> rand_below x (int (length xs))" "rand_below x (int (length xs)) < int (length xs)"
    using rand_below_bounds [OF x(1,2), of "int (length xs)"] assms(2) by auto
  then show ?thesis using x(3) Cons by (simp add: random_choice_def py_nth_def)
qed (simp add: random_choice_def unless_dry_def)

lemma moved_rng: "multi_ok cf s \<Longrightarrow> draws_ok rs \<Longrightarrow> moved cf s (s\<lparr>rng := rs\<rparr>)"
  by (simp add: moved_def multi_ok_def in_play_def)

lemma add_mset_shift: "A = add_mset x B \<Longrightarrow> B + add_mset x R = D + R \<Longrightarrow> A = D"
  by simp

lemma steal_moved:
  assumes ok: "multi_ok cf s" and per: "per_cpu_queues cf" "0 < peek_interval cf" and o: "o' < num_cpus cf" "o' \<noteq> c" and c: "c < num_cpus cf"
    and empty: "per_cpu_sched_queue s c = []" and x: "x \<in> set (per_cpu_sched_queue s o')" and rs: "draws_ok rs"
  shows "moved cf s (s\<lparr>rng := rs, per_cpu_sched_queue := (per_cpu_sched_queue s)(o' := remove1 x (per_cpu_sched_queue s o'), c := [x])\<rparr>)"
    (is "moved cf s ?t")
proof -
  let ?Q = "per_cpu_sched_queue s" and ?n = "num_cpus cf"
  have "queued ?n (?Q(o' := remove1 x (?Q o'), c := [x])) = add_mset x (queued ?n (?Q(o' := remove1 x (?Q o'))))"
    using queued_upd [OF c, of "?Q(o' := remove1 x (?Q o'))" "[x]"] o(2) empty by simp
  moreover have "queued ?n (?Q(o' := remove1 x (?Q o'))) + add_mset x (mset (remove1 x (?Q o'))) = queued ?n ?Q + mset (remove1 x (?Q o'))"
    using queued_upd [OF o(1), of ?Q "remove1 x (?Q o')"] x by simp
  ultimately have "queued ?n (?Q(o' := remove1 x (?Q o'), c := [x])) = queued ?n ?Q" by (rule add_mset_shift)
  then have play: "in_play cf ?t = in_play cf s" by (simp add: in_play_def)
  have ok': "multi_ok cf ?t" using ok rs per unfolding multi_ok_def play by simp
  have "placed cf (jobs s) ((per_cpu_sched_queue s)(o' := remove1 x (per_cpu_sched_queue s o'), c := [x]))"
    if "steals_safe cf (jobs s)" "placed cf (jobs s) ?Q"
  proof -
    have "runnable_on c (the (jobs s x))"
      using that(1) queued_job [OF ok o(1) x] per by (auto simp: steals_safe_def runnable_on_def)
    moreover have "\<forall>y \<in> set (?Q o'). runnable_on o' (the (jobs s y))" using that(2) o(1) per(1) by (simp add: placed_def)
    ultimately show ?thesis
      using that(2) set_remove1_subset [of x "?Q o'"] by (auto simp: placed_def)
  qed
  then show ?thesis unfolding moved_def play using ok' by simp
qed

lemma steal_one_moved:
  assumes ok: "multi_ok cf s" and per: "per_cpu_queues cf" "0 < peek_interval cf" and n: "2 \<le> num_cpus cf" and c: "c < num_cpus cf"
  shows "unless_dry (steal_one cf c s) (moved cf s)"
proof (cases "per_cpu_sched_queue s c = []")
  case True
  have rs: "draws_ok (rng s)" using ok by (simp add: multi_ok_def)
  have others: "set (remove1 c [0..<num_cpus cf]) = {..<num_cpus cf} - {c}" by (simp add: set_remove1_eq atLeast0LessThan)
  have "(if c = 0 then 1 else 0) \<in> {..<num_cpus cf} - {c}" using n by auto
  then have ne: "remove1 c [0..<num_cpus cf] \<noteq> []" using others by (metis empty_iff list.set(1))
  have "unless_dry (rbind (random_choice (remove1 c [0..<num_cpus cf]) (rng s)) (\<lambda>(other_cpu, rs).
      let s1 = s\<lparr>rng := rs\<rparr>; q = per_cpu_sched_queue s in
      rbind (first_job (jobs s) (stealable c) 0 (q other_cpu)) (\<lambda>r.
        case r of None \<Rightarrow> Inr s1
        | Some (i, job_name) \<Rightarrow>
            Inr (s1\<lparr>per_cpu_sched_queue := q(other_cpu := remove1 job_name (q other_cpu), c := q c @ [job_name])\<rparr>)))) (moved cf s)"
  proof (rule unless_dry_bind2 [OF random_choice_ok [OF rs ne]], elim conjE)
    fix d rs'
    assume "d \<in> set (remove1 c [0..<num_cpus cf])" and rs': "draws_ok rs'"
    then have d: "d < num_cpus cf" "d \<noteq> c" using others by auto
    obtain r where r: "first_job (jobs s) (stealable c) 0 (per_cpu_sched_queue s d) = Inr r"
      using first_job_total [of "per_cpu_sched_queue s d" "jobs s"] queued_job [OF ok d(1)] by blast
    show "unless_dry (let s1 = s\<lparr>rng := rs'\<rparr>; q = per_cpu_sched_queue s in
      rbind (first_job (jobs s) (stealable c) 0 (q d)) (\<lambda>r.
        case r of None \<Rightarrow> Inr s1
        | Some (i, job_name) \<Rightarrow>
            Inr (s1\<lparr>per_cpu_sched_queue := q(d := remove1 job_name (q d), c := q c @ [job_name])\<rparr>))) (moved cf s)"
    proof (cases r)
      case None
      then show ?thesis using r moved_rng [OF ok rs'] by (simp add: Let_def)
    next
      case (Some p)
      obtain i x where p: "p = (i, x)" by fastforce
      then have "x \<in> set (per_cpu_sched_queue s d)" using first_job_Some [of "jobs s" "stealable c" 0 _ i x] r Some by blast
      from steal_moved [OF ok per d c True this rs'] show ?thesis using r Some p True by (simp add: Let_def)
    qed
  qed
  then show ?thesis using True by (simp add: steal_one_def)
qed (use moved_refl [OF ok] in \<open>simp add: steal_one_def\<close>)


lemma steal_jobs_moved:
  assumes ok: "multi_ok cf s" and cf: "config_ok cf"
  shows "unless_dry (steal_jobs cf s) (moved cf s)"
proof (cases "per_cpu_queues cf \<and> 0 < peek_interval cf \<and> system_time s > 0 \<and> system_time s mod peek_interval cf = 0")
  case True
  have n: "2 \<le> num_cpus cf" using cf True by (simp add: config_ok_def)
  have "unless_dry (rfold (steal_one cf) [0..<num_cpus cf] s) (moved cf s)"
  proof (rule unless_dry_rfold)
    show "moved cf s s" using ok by (rule moved_refl)
    show "unless_dry (steal_one cf c u) (moved cf s)" if "c \<in> set [0..<num_cpus cf]" "moved cf s u" for c u
      using steal_one_moved [OF moved_ok [OF that(2)], of c] True n that
      by (auto intro: moved_trans elim: unless_dry_mono)
  qed
  then show ?thesis using True by (simp add: steal_jobs_def)
qed (use moved_refl [OF ok] in \<open>auto simp: steal_jobs_def\<close>)

section \<open>Jobs run\<close>

definition weight :: "jobs \<Rightarrow> string \<Rightarrow> nat" where
  "weight js x = nat (max 1 (time_left (the (js x))))"

lemma weight_pos: "1 \<le> weight js x"
  by (simp add: weight_def)

definition work :: "config \<Rightarrow> sched \<Rightarrow> nat" where
  "work cf s = (\<Sum>x \<in># in_play cf s. weight (jobs s) x)"

lemma moved_work: "moved cf s t \<Longrightarrow> work cf t = work cf s"
  by (simp add: moved_def work_def)

text \<open>\<open>has_run cf s t k\<close>: jobs have run, and the remaining work went down by at least \<open>k\<close>.\<close>

definition has_run :: "config \<Rightarrow> sched \<Rightarrow> sched \<Rightarrow> nat \<Rightarrow> bool" where
  "has_run cf s t k \<longleftrightarrow> multi_ok cf t \<and> same_jobs (jobs s) (jobs t) \<and> job_name_list t = job_name_list s \<and>
     per_cpu_sched_queue t = per_cpu_sched_queue s \<and> work cf t + k \<le> work cf s"

lemma in_play_once:
  assumes "multi_ok cf s" and "in_play cf s = add_mset x R"
  shows "x \<notin># R"
proof -
  have "distinct (job_name_list s)" "add_mset x R \<subseteq># mset (job_name_list s)"
    using assms by (simp_all add: multi_ok_def jobs_ok_def)
  then have "Multiset.count (add_mset x R) x \<le> 1"
    using mset_subset_eq_count [of "add_mset x R" "mset (job_name_list s)" x] by (simp add: distinct_count_atmost_1 split: if_splits)
  then show ?thesis by (simp add: not_in_iff)
qed

lemma work_split:
  assumes "multi_ok cf s" and "in_play cf s = add_mset x R"
  shows "work cf s = weight (jobs s) x + (\<Sum>y \<in># R. weight (jobs s) y)"
    and "(\<Sum>y \<in># R. weight ((jobs s)(x \<mapsto> j)) y) = (\<Sum>y \<in># R. weight (jobs s) y)"
proof -
  show "work cf s = weight (jobs s) x + (\<Sum>y \<in># R. weight (jobs s) y)" using assms(2) by (simp add: work_def)
  show "(\<Sum>y \<in># R. weight ((jobs s)(x \<mapsto> j)) y) = (\<Sum>y \<in># R. weight (jobs s) y)"
    using in_play_once [OF assms] by (auto simp: weight_def intro!: arg_cong [of _ _ sum_mset] image_mset_cong)
qed

lemma run_one_tick_ran:
  assumes ok: "multi_ok cf s" and cf: "config_ok cf" and c: "c < num_cpus cf" and run: "sched_state s c = STATE_RUNNING"
  shows "\<exists>t. run_one_tick cf c s = Inr t \<and> has_run cf s t 1 \<and> (\<forall>d. d \<noteq> c \<longrightarrow> sched_state t d = sched_state s d)"
proof -
  let ?x = "sched_current s c"
  obtain j where j: "jobs s ?x = Some j" using running_job [OF ok c run] by auto
  define rate where "rate = get_rate cf ?x (caches s c)"
  have rate: "1 \<le> rate" using cf by (simp add: rate_def get_rate_def config_ok_def)
  define left where "left = (if time_left j - rate < 0 then 0 else time_left j - rate)"
  let ?js = "(jobs s)(?x \<mapsto> j\<lparr>time_left := left\<rparr>)"
  have same: "same_jobs (jobs s) ?js" using j by (rule same_jobs_left)
  have "cache_ok cf ?js (caches s c)" using ok c same_jobs_cache [OF same] by (simp add: multi_ok_def)
  then obtain c' where c': "update_warming cf ?js ?x (caches s c) = Inr c'" "cache_ok cf ?js c'"
    using update_warming_ok cf by (metis config_ok_def)
  define R where "R = queued (num_cpus cf) (per_cpu_sched_queue s) +
    active (num_cpus cf) ((sched_state s)(c := STATE_IDLE)) ((sched_current s)(c := []))"
  have play: "in_play cf s = add_mset ?x R" using active_stop [of c "num_cpus cf" "sched_state s" "sched_current s"] c run by (simp add: in_play_def R_def)
  note split = work_split [OF ok play]
  let ?u = "s\<lparr>stats_ran := (stats_ran s)(c := stats_ran s c + 1),
    stats_ran_warm := (if rate > 1 then (stats_ran_warm s)(c := stats_ran_warm s c + 1) else stats_ran_warm s),
    jobs := ?js, caches := (caches s)(c := c')\<rparr>"
  let ?v = "?u\<lparr>sched_state := (sched_state s)(c := STATE_IDLE), sched_current := (sched_current s)(c := []), jobs_finished := jobs_finished s + 1\<rparr>"
  have t: "run_one_tick cf c s = Inr (if left \<le> 0 then ?v else ?u)"
  proof -
    have "py_lookup (jobs s) ?x = Inr j" using j by simp
    then show ?thesis
      unfolding run_one_tick_def Let_def by (simp only: rbind.simps rate_def [symmetric] left_def [symmetric]) (simp add: c' del: rbind_Inr_iff)
  qed
  have jobs: "jobs_ok cf ?js (job_name_list s)"
    using ok same by (simp add: multi_ok_def jobs_ok_def same_jobs_def)
  have okD: "in_play cf s \<subseteq># mset (job_name_list s)" "size (in_play cf s) + jobs_finished s = length (job_name_list s)"
    "\<And>y. y \<in> set (job_name_list s) \<Longrightarrow> y \<notin># in_play cf s \<Longrightarrow> time_left (the (jobs s y)) = 0"
    using ok by (simp_all add: multi_ok_def)
  have rest: "(\<forall>d < num_cpus cf. cache_ok cf ?js (((caches s)(c := c')) d)) \<and>
     (\<forall>d < num_cpus cf. sched_state s d = STATE_RUNNING \<longrightarrow> runnable_on d (the (?js (sched_current s d)))) \<and>
     (\<not> per_cpu_queues cf \<longrightarrow> (\<forall>q. q \<noteq> 0 \<longrightarrow> per_cpu_sched_queue s q = [])) \<and> draws_ok (rng s)"
    using ok c'(2) same_jobs_cache [OF same] same_jobs_runnable [OF same] by (auto simp: multi_ok_def simp del: fun_upd_apply) (auto split: if_splits)
  have pu: "in_play cf ?u = add_mset ?x R" and pv: "in_play cf ?v = R" using play by (simp_all add: in_play_def R_def)
  show ?thesis
  proof (cases "left \<le> 0")
    case True
    then have l0: "left = 0" by (simp add: left_def split: if_splits)
    have sub: "R \<subseteq># mset (job_name_list s)" using okD(1) play by (metis mset_subset_eq_insertD subset_mset.less_imp_le)
    have "multi_ok cf ?v"
      unfolding multi_ok_def pv using jobs sub okD(2,3) rest play l0 by (auto simp: split: if_splits)
    moreover have "work cf ?v + 1 \<le> work cf s"
    proof -
      have "work cf ?v = (\<Sum>y \<in># R. weight ?js y)" unfolding work_def pv by simp
      then show ?thesis using split(1) split(2) [of "j\<lparr>time_left := left\<rparr>"] weight_pos [of "jobs s" ?x] by simp
    qed
    ultimately show ?thesis using t True same by (simp add: has_run_def)
  next
    case False
    then have l: "left = time_left j - rate" "0 < left" by (auto simp: left_def split: if_splits)
    have "multi_ok cf ?u"
      unfolding multi_ok_def pu using jobs okD rest play by auto
    moreover have "work cf ?u + 1 \<le> work cf s"
    proof -
      have "work cf ?u = weight ?js ?x + (\<Sum>y \<in># R. weight ?js y)" unfolding work_def pu by simp
      moreover have "weight ?js ?x + 1 \<le> weight (jobs s) ?x" using l rate j by (simp add: weight_def)
      ultimately show ?thesis using split(1) split(2) [of "j\<lparr>time_left := left\<rparr>"] by simp
    qed
    ultimately show ?thesis using t False same by (simp add: has_run_def)
  qed
qed


lemma ran_trans: "has_run cf s t k \<Longrightarrow> has_run cf t u l \<Longrightarrow> has_run cf s u (k + l)"
  by (auto simp: has_run_def same_jobs_def)

lemma run_cpus_ran:
  assumes "multi_ok cf s" and cf: "config_ok cf" and "distinct cs" and "set cs \<subseteq> {..<num_cpus cf}"
  shows "\<exists>t. rfold (run_cpu cf) cs s = Inr t \<and> has_run cf s t (if \<exists>c \<in> set cs. sched_state s c = STATE_RUNNING then 1 else 0)"
  using assms(1,3,4)
proof (induction cs arbitrary: s)
  case Nil
  then show ?case by (simp add: has_run_def)
next
  case (Cons c cs)
  have c: "c < num_cpus cf" using Cons.prems(3) by simp
  show ?case
  proof (cases "sched_state s c = STATE_RUNNING")
    case True
    obtain u where u: "run_one_tick cf c s = Inr u" "has_run cf s u 1" using run_one_tick_ran [OF Cons.prems(1) cf c True] by blast
    then have "multi_ok cf u" by (simp add: has_run_def)
    from Cons.IH [OF this] Cons.prems(2,3) obtain t k where t: "rfold (run_cpu cf) cs u = Inr t" "has_run cf u t k" by auto
    have "has_run cf s t 1" using ran_trans [OF u(2) t(2)] by (simp add: has_run_def)
    moreover have "run_cpu cf c s = Inr u" using True u(1) by (simp add: run_cpu_def)
    ultimately show ?thesis using True t(1) by simp
  next
    case False
    then have "run_cpu cf c s = Inr s" by (simp add: run_cpu_def)
    then show ?thesis using Cons.IH [OF Cons.prems(1)] Cons.prems(2,3) False by simp
  qed
qed

lemma run_jobs_ran:
  assumes "multi_ok cf s" and "config_ok cf"
  shows "\<exists>t. run_jobs cf s = Inr t \<and> has_run cf s t (if \<exists>c < num_cpus cf. sched_state s c = STATE_RUNNING then 1 else 0)"
  using run_cpus_ran [OF assms, of "[0..<num_cpus cf]"] by (simp add: run_jobs_def atLeast0LessThan Bex_def)

text \<open>A job that waits in a proper queue can be run by some CPU that looks there.\<close>

lemma placed_runnable:
  assumes ok: "multi_ok cf s" and cf: "config_ok cf" and pl: "placed cf (jobs s) (per_cpu_sched_queue s)"
    and x: "x \<in># queued (num_cpus cf) (per_cpu_sched_queue s)"
  obtains c where "c < num_cpus cf" and "x \<in> set (per_cpu_sched_queue s (queue_of cf c))" and "runnable_on c (the (jobs s x))"
proof -
  obtain c where c: "c < num_cpus cf" "x \<in> set (per_cpu_sched_queue s c)" using x by (auto simp: in_queued)
  show ?thesis
  proof (cases "per_cpu_queues cf")
    case True
    then show ?thesis using that c pl by (simp add: placed_def queue_of_def)
  next
    case False
    then have "c = 0" using ok c(2) by (auto simp: multi_ok_def)
    have dom: "x \<in> dom (jobs s)" using queued_job [OF ok c] .
    let ?a = "affinity (the (jobs s x))"
    show ?thesis
    proof (cases ?a)
      case Nil
      then show ?thesis using that [of 0] c \<open>c = 0\<close> False by (simp add: queue_of_def runnable_on_def)
    next
      case (Cons a l)
      then have "0 \<le> a" "a < int (num_cpus cf)" using ok dom by (auto simp: multi_ok_def jobs_ok_def)
      then show ?thesis using that [of "nat a"] c \<open>c = 0\<close> False Cons by (simp add: queue_of_def runnable_on_def)
    qed
  qed
qed

lemma assign_jobs_moved:
  assumes ok: "multi_ok cf s" and cf: "config_ok cf"
  shows "unless_dry (assign_jobs cf s) (\<lambda>t. moved cf s t \<and>
    (placed cf (jobs s) (per_cpu_sched_queue s) \<longrightarrow> in_play cf s \<noteq> {#} \<longrightarrow> (\<exists>c < num_cpus cf. sched_state t c = STATE_RUNNING)))"
  unfolding assign_jobs_def
proof (rule unless_dry_bind2 [OF cpu_order_ok], use ok in \<open>simp add: multi_ok_def\<close>, elim conjE)
  fix cs rs
  assume cs: "set cs = {..<num_cpus cf}" and rs: "draws_ok rs"
  let ?u = "s\<lparr>rng := rs\<rparr>"
  have mu: "moved cf s ?u" by (rule moved_rng [OF ok rs])
  obtain t where t: "rfold (assign_one cf) cs ?u = Inr t" "moved cf ?u t"
    using assign_all_moved [OF moved_ok [OF mu] cf] cs by blast
  have "\<exists>c < num_cpus cf. sched_state t c = STATE_RUNNING"
    if pl: "placed cf (jobs s) (per_cpu_sched_queue s)" and ne: "in_play cf s \<noteq> {#}"
  proof (cases "\<exists>c < num_cpus cf. sched_state s c = STATE_RUNNING")
    case True
    then obtain c where c: "c < num_cpus cf" "sched_state s c = STATE_RUNNING" by blast
    have "sched_state t c = STATE_RUNNING"
      by (rule rfold_invariant [OF t(1), of "\<lambda>v. sched_state v c = STATE_RUNNING"]) (use c assign_one_progress(2) in auto)
    with c(1) show ?thesis by blast
  next
    case False
    then have "active (num_cpus cf) (sched_state s) (sched_current s) = {#}" using in_active by (metis multiset_nonemptyE)
    then obtain x where "x \<in># queued (num_cpus cf) (per_cpu_sched_queue s)" using ne by (auto simp: in_play_def)
    from placed_runnable [OF ok cf pl this] obtain c where "c < num_cpus cf" "x \<in> set (per_cpu_sched_queue s (queue_of cf c))"
      "runnable_on c (the (jobs s x))" .
    with assign_progress [OF t(1)] cs show ?thesis by auto
  qed
  with moved_trans [OF mu t(2)] show "unless_dry (rfold (assign_one cf) cs ?u) (\<lambda>t. moved cf s t \<and>
    (placed cf (jobs s) (per_cpu_sched_queue s) \<longrightarrow> in_play cf s \<noteq> {#} \<longrightarrow> (\<exists>c < num_cpus cf. sched_state t c = STATE_RUNNING)))"
    by (simp add: t(1))
qed

lemma unfinished_in_play: "multi_ok cf s \<Longrightarrow> unfinished s \<longleftrightarrow> in_play cf s \<noteq> {#}"
proof -
  assume "multi_ok cf s"
  then have "size (in_play cf s) + jobs_finished s = length (job_name_list s)" by (simp add: multi_ok_def)
  moreover have "0 < size (in_play cf s) \<longleftrightarrow> in_play cf s \<noteq> {#}" by (simp add: nonempty_has_size)
  ultimately show ?thesis by (auto simp: unfinished_def)
qed

lemma same_jobs_placed: "same_jobs js js' \<Longrightarrow> placed cf js' Q = placed cf js Q"
  using same_jobs_runnable by (simp add: placed_def)

lemma same_jobs_steals: "same_jobs js js' \<Longrightarrow> steals_safe cf js' = steals_safe cf js"
  by (simp add: steals_safe_def same_jobs_def)

definition orderly :: "config \<Rightarrow> sched \<Rightarrow> bool" where
  "orderly cf s \<longleftrightarrow> steals_safe cf (jobs s) \<and> placed cf (jobs s) (per_cpu_sched_queue s)"

lemma moved_orderly: "moved cf s t \<Longrightarrow> orderly cf s \<Longrightarrow> orderly cf t"
  by (auto simp: moved_def orderly_def)

lemma ran_orderly: "has_run cf s t k \<Longrightarrow> orderly cf t = orderly cf s"
  unfolding has_run_def orderly_def by (metis same_jobs_placed same_jobs_steals)

lemma multi_tick_ok:
  assumes ok: "multi_ok cf s" and cf: "config_ok cf"
  shows "unless_dry (tick cf s) (\<lambda>t. multi_ok cf t \<and> job_name_list t = job_name_list s \<and>
    (orderly cf s \<longrightarrow> orderly cf t) \<and> (orderly cf s \<longrightarrow> unfinished s \<longrightarrow> work cf t < work cf s))"
proof -
  define b where "b = (system_time s mod time_slice cf = 0 \<and> system_time s > 0)"
  let ?s1 = "fold (handle_one_interrupt cf b) [0..<num_cpus cf] s"
  have h: "handle_interrupts cf s = Inr ?s1" using cf by (simp add: handle_interrupts_def config_ok_def Let_def b_def)
  have m1: "moved cf s ?s1" by (rule interrupts_moved [OF ok]) (use cf in \<open>auto simp: config_ok_def\<close>)
  have "unless_dry (rbind (steal_jobs cf ?s1) (\<lambda>s2. rbind (assign_jobs cf s2) (\<lambda>s3.
      rbind (run_jobs cf s3) (\<lambda>s4. Inr (s4\<lparr>system_time := system_time s4 + 1\<rparr>))))) (\<lambda>t. multi_ok cf t \<and> job_name_list t = job_name_list s \<and>
    (orderly cf s \<longrightarrow> orderly cf t) \<and> (orderly cf s \<longrightarrow> unfinished s \<longrightarrow> work cf t < work cf s))"
  proof (rule unless_dry_bind [OF steal_jobs_moved [OF moved_ok [OF m1] cf]], rule unless_dry_bind, rule assign_jobs_moved [OF moved_ok cf], assumption)
    fix s2 s3
    assume "moved cf ?s1 s2" and s3: "moved cf s2 s3 \<and> (placed cf (jobs s2) (per_cpu_sched_queue s2) \<longrightarrow> in_play cf s2 \<noteq> {#} \<longrightarrow>
      (\<exists>c < num_cpus cf. sched_state s3 c = STATE_RUNNING))"
    then have m2: "moved cf s s2" and m3: "moved cf s s3" using moved_trans m1 by blast+
    obtain t where t: "run_jobs cf s3 = Inr t"
      "has_run cf s3 t (if \<exists>c < num_cpus cf. sched_state s3 c = STATE_RUNNING then 1 else 0)"
      using run_jobs_ran [OF moved_ok [OF m3] cf] by blast
    let ?t = "t\<lparr>system_time := system_time t + 1\<rparr>"
    have time: "multi_ok cf ?t = multi_ok cf t" "work cf ?t = work cf t" "orderly cf ?t = orderly cf t"
      by (simp_all add: multi_ok_def work_def orderly_def in_play_def)
    have w: "work cf t < work cf s" if "orderly cf s" "unfinished s"
    proof -
      have "in_play cf s2 \<noteq> {#}" using that(2) unfinished_in_play [OF ok] m2 by (simp add: moved_def)
      moreover have "placed cf (jobs s2) (per_cpu_sched_queue s2)" using moved_orderly [OF m2 that(1)] by (simp add: orderly_def)
      ultimately have "has_run cf s3 t 1" using s3 t(2) by auto
      then show ?thesis using moved_work [OF m3] by (simp add: has_run_def)
    qed
    have "orderly cf t" if "orderly cf s" using ran_orderly [OF t(2)] moved_orderly [OF m3 that] by simp
    moreover have "multi_ok cf t" "job_name_list t = job_name_list s" using t(2) m3 by (simp_all add: has_run_def moved_def)
    ultimately show "unless_dry (rbind (run_jobs cf s3) (\<lambda>s4. Inr (s4\<lparr>system_time := system_time s4 + 1\<rparr>)))
      (\<lambda>t. multi_ok cf t \<and> job_name_list t = job_name_list s \<and> (orderly cf s \<longrightarrow> orderly cf t) \<and> (orderly cf s \<longrightarrow> unfinished s \<longrightarrow> work cf t < work cf s))"
      using w by (simp add: t(1) time)
  qed
  then show ?thesis by (simp add: tick_def h)
qed

interpretation ticks: drawing_loop unfinished "tick cf"
  "\<lambda>s. config_ok cf \<and> multi_ok cf s \<and> orderly cf s \<and> job_name_list s = names" "work cf" for cf names
  by unfold_locales (auto elim!: unless_dry_mono [OF multi_tick_ok])


section \<open>Construction of the scheduler\<close>

definition deal_ok :: "config \<Rightarrow> jobs \<Rightarrow> string list \<Rightarrow> string list \<times> (nat \<Rightarrow> string list) \<Rightarrow> bool" where
  "deal_ok cf js names d \<longleftrightarrow> mset (fst d) + queued (num_cpus cf) (snd d) = mset names \<and>
     (\<forall>c < num_cpus cf. \<forall>x \<in> set (snd d c). runnable_on c (the (js x)))"

lemma deal_one_ok:
  assumes ok: "deal_ok cf js names d" and dom: "set names \<subseteq> dom js" and c: "c < num_cpus cf"
  shows "\<exists>d'. deal_one js c d = Inr d' \<and> deal_ok cf js names d' \<and>
    (length (fst d') < length (fst d) \<or> (d' = d \<and> (\<forall>x \<in> set (fst d). \<not> runnable_on c (the (js x)))))"
proof -
  obtain rest Q where d: "d = (rest, Q)" by fastforce
  have "set_mset (mset rest + queued (num_cpus cf) Q) = set names" using ok by (simp add: deal_ok_def d)
  then have "set rest \<subseteq> dom js" using dom by auto
  then obtain r where r: "first_job js (runnable_on c) 0 rest = Inr r" using first_job_total by blast
  show ?thesis
  proof (cases r)
    case None
    then show ?thesis using r ok first_job_None [of js "runnable_on c" 0 rest] by (simp add: d deal_one_def)
  next
    case (Some p)
    obtain i x where p: "p = (i, x)" by fastforce
    have x: "x \<in> set rest" "runnable_on c (the (js x))"
      using first_job_Some [of js "runnable_on c" 0 rest i x] r Some p by auto
    have "mset (remove1 x rest) + queued (num_cpus cf) (Q(c := Q c @ [x])) = mset rest + queued (num_cpus cf) Q"
      using queued_upd [OF c, of Q "Q c @ [x]"] x(1) by (simp add: union_commute)
    then have "deal_ok cf js names (remove1 x rest, Q(c := Q c @ [x]))" using ok x(2) by (auto simp: deal_ok_def d)
    moreover have "length (remove1 x rest) < length rest" using x(1) length_pos_if_in_set [of x rest] by (simp add: length_remove1)
    ultimately show ?thesis using r Some p by (simp add: d deal_one_def)
  qed
qed

lemma deal_round_ok:
  assumes ok: "deal_ok cf js names d" and dom: "set names \<subseteq> dom js" and "set cs \<subseteq> {..<num_cpus cf}"
  shows "\<exists>d'. rfold (deal_one js) cs d = Inr d' \<and> deal_ok cf js names d' \<and>
    (length (fst d') < length (fst d) \<or> (d' = d \<and> (\<forall>c \<in> set cs. \<forall>x \<in> set (fst d). \<not> runnable_on c (the (js x)))))"
  using assms(1,3)
proof (induction cs arbitrary: d)
  case (Cons c cs)
  obtain e where e: "deal_one js c d = Inr e" "deal_ok cf js names e"
    "length (fst e) < length (fst d) \<or> (e = d \<and> (\<forall>x \<in> set (fst d). \<not> runnable_on c (the (js x))))"
    using deal_one_ok [OF Cons.prems(1) dom, of c] Cons.prems(2) by auto
  from Cons.IH [OF e(2)] Cons.prems(2) e show ?case by auto
qed simp

text \<open>Dealing ends: in every round some CPU takes a job.\<close>

interpretation dealing: guarded_loop undealt "deal_round cf js"
  "\<lambda>d. config_ok cf \<and> jobs_ok cf js names \<and> deal_ok cf js names d" "\<lambda>d. length (fst d)" for cf js names
proof
  fix d
  assume inv: "config_ok cf \<and> jobs_ok cf js names \<and> deal_ok cf js names d" and g: "undealt d"
  then have dom: "set names \<subseteq> dom js" by (simp add: jobs_ok_def)
  obtain d' where d': "deal_round cf js d = Inr d'" "deal_ok cf js names d'"
    "length (fst d') < length (fst d) \<or> (\<forall>c < num_cpus cf. \<forall>x \<in> set (fst d). \<not> runnable_on c (the (js x)))"
    using deal_round_ok [OF _ dom, of cf d "[0..<num_cpus cf]"] inv
    by (simp only: deal_round_def set_upt atLeast0LessThan) blast
  obtain x where x: "x \<in> set (fst d)" using g by (cases "fst d") (auto simp: undealt_def)
  have "set_mset (mset (fst d) + queued (num_cpus cf) (snd d)) = set names" using inv by (simp add: deal_ok_def)
  then have "x \<in> dom js" using x dom by auto
  have "\<exists>c < num_cpus cf. runnable_on c (the (js x))"
  proof (cases "affinity (the (js x))")
    case Nil
    then show ?thesis using inv by (auto simp: runnable_on_def config_ok_def)
  next
    case (Cons a l)
    then have "0 \<le> a" "a < int (num_cpus cf)" using inv \<open>x \<in> dom js\<close> by (auto simp: jobs_ok_def)
    then show ?thesis using Cons by (intro exI [of _ "nat a"]) (simp add: runnable_on_def)
  qed
  with d'(3) x have "length (fst d') < length (fst d)" by blast
  with d' inv show "\<exists>t. deal_round cf js d = Inr t \<and> config_ok cf \<and> jobs_ok cf js names \<and> deal_ok cf js names t"
    and "\<And>t. deal_round cf js d = Inr t \<Longrightarrow> length (fst t) < length (fst d)" by auto
qed

lemma sched_queues_ok:
  assumes cf: "config_ok cf" and js: "jobs_ok cf js names"
  shows "\<exists>r. sched_queues (Suc (length names)) cf js names = Some r"
    and "sched_queues fuel cf js names = Some (Inr Q) \<Longrightarrow> queued (num_cpus cf) Q = mset names \<and> placed cf js Q \<and>
      (\<not> per_cpu_queues cf \<longrightarrow> (\<forall>q. q \<noteq> 0 \<longrightarrow> Q q = []))"
proof -
  let ?d = "(names, \<lambda>_. [])"
  have init: "config_ok cf \<and> jobs_ok cf js names \<and> deal_ok cf js names ?d"
    using cf js by (simp add: deal_ok_def queued_def)
  note ret = dealing.loop_returns [OF init]
  show "\<exists>r. sched_queues (Suc (length names)) cf js names = Some r"
    using ret [of "Suc (length names)"] by (auto simp: sched_queues_def)
  show "queued (num_cpus cf) Q = mset names \<and> placed cf js Q \<and> (\<not> per_cpu_queues cf \<longrightarrow> (\<forall>q. q \<noteq> 0 \<longrightarrow> Q q = []))"
    if run: "sched_queues fuel cf js names = Some (Inr Q)"
  proof (cases "per_cpu_queues cf")
    case True
    then obtain d where d: "loop fuel undealt (deal_round cf js) ?d = Some (Inr d)" "Q = snd d"
      using run by (auto simp: sched_queues_def)
    obtain t where t: "loop (Suc (length names)) undealt (deal_round cf js) ?d = Some (Inr t)" "deal_ok cf js names t" "\<not> undealt t"
      using ret [of "Suc (length names)"] by auto
    have "t = d"
      using loop_mono [OF d(1), of "max fuel (Suc (length names))"] loop_mono [OF t(1), of "max fuel (Suc (length names))"] by simp
    then show ?thesis using t d(2) True by (simp add: deal_ok_def undealt_def placed_def)
  next
    case False
    then have "Q = (\<lambda>_. [])(0 := names)" using run by (simp add: sched_queues_def)
    moreover have "queued (num_cpus cf) ((\<lambda>_. [])(0 := names)) = mset names"
      using queued_upd [of 0 "num_cpus cf" "\<lambda>_. []" names] cf by (simp add: config_ok_def queued_def)
    ultimately show ?thesis using False by (simp add: placed_def)
  qed
qed

lemma add_job_entry_ok:
  assumes "add_job e (js, names) = Inr (js', names')"
    and "distinct names" "dom js = set names" "\<forall>x \<in> dom js. affinity (the (js x)) = []"
  shows "distinct names' \<and> dom js' = set names' \<and> (\<forall>x \<in> dom js'. affinity (the (js' x)) = [])"
proof -
  obtain n j where "js' = js(n \<mapsto> j)" "names' = names @ [n]" "n \<notin> set names" "affinity j = []"
    using assms(1) by (auto simp: add_job_def Let_def split: list.splits if_splits)
  with assms(2-4) show ?thesis by simp
qed

lemma add_cpu_ok:
  assumes "add_cpu cf x c js = Inr js'" and "jobs_ok cf js names"
  shows "jobs_ok cf js' names"
proof -
  obtain j n where j: "js x = Some j" "js' = js(x \<mapsto> j\<lparr>affinity := affinity j @ [n]\<rparr>)" and n: "0 \<le> n" "n < int (num_cpus cf)"
    using assms(1) by (auto simp: add_cpu_def split: if_splits)
  have old: "0 \<le> c \<and> c < int (num_cpus cf)" if "y \<in> dom js" "c \<in> set (affinity (the (js y)))" for y c
    using assms(2) that by (auto simp: jobs_ok_def)
  have dom: "dom js = set names" "distinct names" "x \<in> dom js" using assms(2) j(1) by (auto simp: jobs_ok_def)
  have "0 \<le> c \<and> c < int (num_cpus cf)" if "y \<in> dom js" "c \<in> set (affinity (the (js' y)))" for y c
    using that old [of y c] n j by (cases "y = x") auto
  moreover have "dom js' = dom js" using j dom(3) by auto
  ultimately show ?thesis using dom by (auto simp: jobs_ok_def)
qed

lemma add_affinity_ok:
  assumes "add_affinity cf names e js = Inr js'" and "jobs_ok cf js names"
  shows "jobs_ok cf js' names"
  using assms rfold_invariant [of "add_cpu cf _" _ js js' "\<lambda>js. jobs_ok cf js names"] add_cpu_ok
  by (auto simp: add_affinity_def split: list.splits if_splits)

lemma read_jobs_ok:
  assumes "read_jobs cf jl af = Inr (js, names)"
  shows "jobs_ok cf js names"
proof -
  let ?P = "\<lambda>(js, names). distinct names \<and> dom js = set names \<and> (\<forall>x \<in> dom js. affinity (the (js x)) = [])"
  obtain js0 where js0: "rfold add_job (split_on CHR '','' jl) (Map.empty, []) = Inr (js0, names)"
    "(if af = [] then Inr js0 else rfold (add_affinity cf names) (split_on CHR '','' af) js0) = Inr js"
    using assms by (auto simp: read_jobs_def)
  have "?P (js0, names)"
  proof (rule rfold_invariant [OF js0(1), of ?P])
    show "?P v" if "?P u" "add_job e u = Inr v" for e u v
      using that add_job_entry_ok [of e "fst u" "snd u" "fst v" "snd v"] by (cases u; cases v) simp
  qed simp
  then have "jobs_ok cf js0 names" by (simp add: jobs_ok_def)
  then show ?thesis
    using js0(2) rfold_invariant [of "add_affinity cf names" _ js0 js "\<lambda>js. jobs_ok cf js names"] add_affinity_ok
    by (auto split: if_splits)
qed


lemma random_job_list_draws:
  "draws_ok rs \<Longrightarrow> random_job_list n j mr mw jl rs = Inr (jl', rs') \<Longrightarrow> draws_ok rs'"
proof (induction n arbitrary: j jl rs)
  case (Suc n)
  then obtain x y rs2 jl2 where "rs = x # y # rs2" "random_job_list n (Suc j) mr mw jl2 rs2 = Inr (jl', rs')"
    by (cases rs; cases "tl rs") (auto simp: Let_def)
  moreover from this(1) Suc.prems(1) have "draws_ok rs2" by (simp add: draws_ok_def)
  ultimately show ?case using Suc.IH by blast
qed simp

lemma sched_start_ok:
  assumes "jobs_ok cf js names" and "queued (num_cpus cf) Q = mset names" and "draws_ok rs" and "config_ok cf"
    and "\<not> per_cpu_queues cf \<longrightarrow> (\<forall>q. q \<noteq> 0 \<longrightarrow> Q q = [])"
  shows "multi_ok cf (sched_start js names Q rs)"
proof -
  have play: "in_play cf (sched_start js names Q rs) = mset names"
    using assms(2) by (simp add: in_play_def sched_start_def active_def)
  show ?thesis
    unfolding multi_ok_def play using assms
    by (simp add: sched_start_def cache_ok_def cache_shape_def cache_init_def ws_def config_ok_def)
qed

lemma scheduler_init_ok:
  assumes cf: "config_ok cf" and rs: "draws_ok rs"
  shows "\<exists>fuel r. scheduler_init fuel cf jl af k mr mw rs = Some r"
    and "scheduler_init fuel cf jl af k mr mw rs = Some (Inr s) \<Longrightarrow>
      multi_ok cf s \<and> placed cf (jobs s) (per_cpu_sched_queue s) \<and> s\<lparr>system_time := 0, jobs_finished := 0\<rparr> = s"
proof -
  define m where "m = rbind (if jl = [] then random_job_list k 0 mr mw [] rs else Inr (jl, rs))
    (\<lambda>(jl, rs'). rbind (read_jobs cf jl af) (\<lambda>(js, names). Inr (js, names, rs')))"
  have m: "jobs_ok cf js names \<and> draws_ok rs'" if "m = Inr (js, names, rs')" for js names rs'
    using that rs random_job_list_draws [OF rs] read_jobs_ok [of cf _ af js names] by (auto simp: m_def split: if_splits)
  have init: "scheduler_init f cf jl af k mr mw rs = (case m of Inl e \<Rightarrow> Some (Inl e) | Inr (js, names, rs') \<Rightarrow>
      map_option (\<lambda>r. rbind r (\<lambda>q. Inr (sched_start js names q rs'))) (sched_queues f cf js names))" for f
    by (simp add: scheduler_init_def m_def)
  show "\<exists>fuel r. scheduler_init fuel cf jl af k mr mw rs = Some r"
  proof (cases m)
    case (Inr p)
    obtain js names rs' where p: "p = (js, names, rs')" using prod_cases3 by blast
    from sched_queues_ok(1) [OF cf, of js names] m Inr p show ?thesis
      by (intro exI [of _ "Suc (length names)"]) (auto simp: init)
  qed (simp add: init)
  show "multi_ok cf s \<and> placed cf (jobs s) (per_cpu_sched_queue s) \<and> s\<lparr>system_time := 0, jobs_finished := 0\<rparr> = s"
    if run: "scheduler_init fuel cf jl af k mr mw rs = Some (Inr s)"
  proof -
    obtain js names rs' Q where Q: "m = Inr (js, names, rs')" "sched_queues fuel cf js names = Some (Inr Q)" "s = sched_start js names Q rs'"
      using run by (auto simp: init split: sum.splits)
    have js: "jobs_ok cf js names" "draws_ok rs'" using m Q(1) by auto
    note q = sched_queues_ok(2) [OF cf js(1) Q(2)]
    have "multi_ok cf s" unfolding Q(3) using q js cf by (intro sched_start_ok) auto
    then show ?thesis using q Q(3) by (simp add: sched_start_def)
  qed
qed

section \<open>Reachable states\<close>

inductive reaches :: "config \<Rightarrow> sched \<Rightarrow> sched \<Rightarrow> bool" for cf and s where
  here: "reaches cf s s"
| later: "reaches cf s t \<Longrightarrow> unfinished t \<Longrightarrow> tick cf t = Inr u \<Longrightarrow> reaches cf s u"

lemma reaches_ok:
  assumes "reaches cf s t" and cf: "config_ok cf" and "multi_ok cf s"
  shows "multi_ok cf t \<and> job_name_list t = job_name_list s"
  using assms(1)
proof induction
  case (later t u)
  then show ?case using multi_tick_ok [of cf t] cf by (auto simp: unless_dry_def)
qed (use assms(3) in simp)

lemma ws_member: "\<forall>y \<in> set xs. 0 \<le> working_set_size (the (js y)) \<Longrightarrow> x \<in> set xs \<Longrightarrow> working_set_size (the (js x)) \<le> ws js xs"
  unfolding ws_def by (rule member_le_sum_list) auto

section \<open>Properties\<close>

text \<open>A small machine on which the properties are tried: the working set of job \<open>b\<close> is larger than a cache.\<close>

definition demo_config :: config where
  "demo_config = \<lparr>per_cpu_queues = True, peek_interval = 0, num_cpus = 2, time_slice = 2, random_order = True,
     cache_size = 15, cache_rate_cold = 1, cache_rate_warm = 2, cache_warmup_time = 1\<rparr>"

definition demo_init :: "sched res option" where
  "demo_init = scheduler_init 3 demo_config ''a:3:10,b:2:20'' ''b:1'' 0 0 0 (replicate 9 (1/2))"

lemma demo_run:
  obtains s t u where "demo_init = Some (Inr s)" and "run 6 demo_config s = Some (Inr t)" and "jobs_finished t = 2"
    and "unfinished s" and "tick demo_config s = Inr u" and "sched_current u 1 = ''b''"
proof -
  have "case demo_init of Some (Inr s) \<Rightarrow> unfinished s \<and>
      (case run 6 demo_config s of Some (Inr t) \<Rightarrow> jobs_finished t = 2 | _ \<Rightarrow> False) \<and>
      (case tick demo_config s of Inr u \<Rightarrow> sched_current u 1 = ''b'' | _ \<Rightarrow> False) | _ \<Rightarrow> False"
    by code_simp
  from returned_case [OF this] obtain s where s: "demo_init = Some (Inr s)" "unfinished s"
    "case run 6 demo_config s of Some (Inr t) \<Rightarrow> jobs_finished t = 2 | _ \<Rightarrow> False"
    "case tick demo_config s of Inr u \<Rightarrow> sched_current u 1 = ''b'' | _ \<Rightarrow> False" by blast
  with returned_case [OF s(3)] result_case [OF s(4)] that show ?thesis by blast
qed

lemma demo_ok: "config_ok demo_config" "draws_ok (replicate 9 (1/2))"
  by (simp_all add: config_ok_def demo_config_def draws_ok_def)

text \<open>
  C16: The simulation ends. For a machine with at least one CPU, a non-zero quantum, a cache of
  non-negative size and positive rates (and two CPUs when they may steal from each other), the dealing
  of the jobs to the queues ends, and if stealing is off or no job is bound to CPUs, the main loop ends
  after at most one tick for each unit of work: all jobs are counted as finished, no job has time left and
  every CPU is idle. No exception occurs on the way.
\<close>

theorem multi_completes:
  assumes "config_ok cf" and "draws_ok rs"
  shows "(\<exists>fuel r. scheduler_init fuel cf jl af k mr mw rs = Some r) \<and>
    (\<forall>fuel s. scheduler_init fuel cf jl af k mr mw rs = Some (Inr s) \<longrightarrow> steals_safe cf (jobs s) \<longrightarrow>
      (\<exists>r. run (Suc (work cf s)) cf s = Some r \<and>
        unless_dry r (\<lambda>t. jobs_finished t = length (job_name_list s) \<and>
          (\<forall>x \<in> set (job_name_list s). time_left (the (jobs t x)) = 0) \<and>
          (\<forall>c < num_cpus cf. sched_state t c = STATE_IDLE))))"
proof (intro conjI allI impI)
  show "\<exists>fuel r. scheduler_init fuel cf jl af k mr mw rs = Some r" by (rule scheduler_init_ok(1) [OF assms])
  fix fuel s
  assume init: "scheduler_init fuel cf jl af k mr mw rs = Some (Inr s)" and safe: "steals_safe cf (jobs s)"
  note ok = scheduler_init_ok(2) [OF assms init]
  let ?inv = "\<lambda>t. config_ok cf \<and> multi_ok cf t \<and> orderly cf t \<and> job_name_list t = job_name_list s"
  have "?inv s" using ok safe assms(1) by (simp add: orderly_def)
  from ticks.loop_ends [OF this, of "Suc (work cf s)"]
  obtain r where r: "run (Suc (work cf s)) cf s = Some r" "unless_dry r (\<lambda>t. ?inv t \<and> \<not> unfinished t)"
    using ok by (auto simp: run_def)
  have "jobs_finished t = length (job_name_list s) \<and> (\<forall>x \<in> set (job_name_list s). time_left (the (jobs t x)) = 0) \<and>
      (\<forall>c < num_cpus cf. sched_state t c = STATE_IDLE)" if t: "?inv t \<and> \<not> unfinished t" for t
  proof -
    have play: "in_play cf t = {#}" using unfinished_in_play [of cf t] t by blast
    then have "sched_state t c = STATE_IDLE" if "c < num_cpus cf" for c
      using in_active [of "sched_current t c" "num_cpus cf" "sched_state t" "sched_current t"] that
      by (cases "sched_state t c") (auto simp: in_play_def)
    then show ?thesis using t play by (simp add: multi_ok_def)
  qed
  with r show "\<exists>r. run (Suc (work cf s)) cf s = Some r \<and> unless_dry r (\<lambda>t. jobs_finished t = length (job_name_list s) \<and>
      (\<forall>x \<in> set (job_name_list s). time_left (the (jobs t x)) = 0) \<and> (\<forall>c < num_cpus cf. sched_state t c = STATE_IDLE))"
    by (blast intro: unless_dry_mono)
qed

theorem multi_completes_witness:
  "\<exists>s t. demo_init = Some (Inr s) \<and> run (Suc (work demo_config s)) demo_config s = Some (Inr t) \<and> jobs_finished t = 2 \<and>
     sched_state t 0 = STATE_IDLE"
proof -
  obtain s t where s: "demo_init = Some (Inr s)" and t: "run 6 demo_config s = Some (Inr t)" "jobs_finished t = 2" by (rule demo_run)
  have "steals_safe demo_config (jobs s)" by (simp add: steals_safe_def demo_config_def)
  from multi_completes [OF demo_ok, THEN conjunct2, THEN spec, THEN spec, THEN mp, OF s [unfolded demo_init_def], THEN mp, OF this]
  obtain r where r: "run (Suc (work demo_config s)) demo_config s = Some r" "unless_dry r (\<lambda>t. jobs_finished t = length (job_name_list s) \<and>
      (\<forall>x \<in> set (job_name_list s). time_left (the (jobs t x)) = 0) \<and> (\<forall>c < num_cpus demo_config. sched_state t c = STATE_IDLE))"
    by blast
  have "r = Inr t"
    using loop_mono [OF t(1) [unfolded run_def], of "max 6 (Suc (work demo_config s))"]
      loop_mono [OF r(1) [unfolded run_def], of "max 6 (Suc (work demo_config s))"] by simp
  then have "sched_state t 0 = STATE_IDLE" using r(2) by (simp add: demo_config_def)
  then show ?thesis using s t(2) r(1) \<open>r = Inr t\<close> by blast
qed

text \<open>
  C20: At every point of a run each unfinished job is in exactly one place: the names waiting in the queues
  and the names on the CPUs together form a part of the list of jobs without repetition, the jobs missing
  from it are as many as \<open>jobs_finished\<close> says, and they have no time left. A CPU only runs a job whose
  affinity allows it, whatever has been stolen.
\<close>

theorem multi_one_place:
  assumes "config_ok cf" and "draws_ok rs" and "scheduler_init fuel cf jl af k mr mw rs = Some (Inr s)" and "reaches cf s t"
  shows "distinct (job_name_list s) \<and> in_play cf t \<subseteq># mset (job_name_list s) \<and>
    size (in_play cf t) + jobs_finished t = length (job_name_list s) \<and>
    (\<forall>x \<in> set (job_name_list s). x \<notin># in_play cf t \<longrightarrow> time_left (the (jobs t x)) = 0) \<and>
    (\<forall>c < num_cpus cf. sched_state t c = STATE_RUNNING \<longrightarrow> runnable_on c (the (jobs t (sched_current t c))))"
proof -
  have "multi_ok cf s" using scheduler_init_ok(2) [OF assms(1-3)] by blast
  with reaches_ok [OF assms(4,1)] have "multi_ok cf t" "job_name_list t = job_name_list s" by blast+
  then show ?thesis by (simp add: multi_ok_def jobs_ok_def)
qed

theorem multi_one_place_witness:
  "\<exists>s t. demo_init = Some (Inr s) \<and> reaches demo_config s t \<and> sched_current t 1 = ''b'' \<and> in_play demo_config t \<subseteq># mset (job_name_list s)"
proof -
  obtain s u where s: "demo_init = Some (Inr s)" "unfinished s" "tick demo_config s = Inr u" "sched_current u 1 = ''b''" by (rule demo_run)
  have "reaches demo_config s u" by (rule reaches.later [OF reaches.here s(2,3)])
  with multi_one_place [OF demo_ok s(1) [unfolded demo_init_def] this] s show ?thesis by blast
qed

text \<open>
  The caches never hold more than they can: at every point of a run the working sets of the jobs in the
  cache of a CPU sum up to at most the size of the cache. So when working sets are not negative, a job whose
  working set is larger than the cache always runs at the cold rate; the comment in class \<open>cache\<close> that a single
  job may be too big does not describe the code, which evicts that job as well.
\<close>

theorem multi_cache_fits:
  assumes "config_ok cf" and "draws_ok rs" and "scheduler_init fuel cf jl af k mr mw rs = Some (Inr s)" and "reaches cf s t"
    and "c < num_cpus cf"
  shows "\<exists>w. total_working_set (jobs t) (caches t c) = Inr w \<and> w \<le> cache_size cf \<and>
    ((\<forall>x \<in> dom (jobs t). 0 \<le> working_set_size (the (jobs t x))) \<longrightarrow>
     (\<forall>x. cache_size cf < working_set_size (the (jobs t x)) \<longrightarrow> get_rate cf x (caches t c) = cache_rate_cold cf))"
proof -
  let ?xs = "cache_contents (caches t c)"
  have "multi_ok cf s" using scheduler_init_ok(2) [OF assms(1-3)] by blast
  with reaches_ok [OF assms(4,1)] have "cache_ok cf (jobs t) (caches t c)" using assms(5) by (simp add: multi_ok_def)
  then have w: "ws (jobs t) ?xs \<le> cache_size cf" and d: "set ?xs \<subseteq> dom (jobs t)" by (auto simp: cache_ok_def cache_shape_def)
  have "get_rate cf x (caches t c) = cache_rate_cold cf"
    if "\<forall>x \<in> dom (jobs t). 0 \<le> working_set_size (the (jobs t x))" "cache_size cf < working_set_size (the (jobs t x))" for x
    using ws_member [of ?xs "jobs t" x] that w d by (fastforce simp: get_rate_def)
  with w sum_working_sets_ok [OF d] show ?thesis by (simp add: total_working_set_def)
qed

theorem multi_cache_fits_witness:
  "\<exists>s t w. demo_init = Some (Inr s) \<and> reaches demo_config s t \<and> sched_current t 1 = ''b'' \<and>
     total_working_set (jobs t) (caches t 1) = Inr w \<and> w \<le> 15"
proof -
  obtain s u where s: "demo_init = Some (Inr s)" "unfinished s" "tick demo_config s = Inr u" "sched_current u 1 = ''b''" by (rule demo_run)
  have "reaches demo_config s u" by (rule reaches.later [OF reaches.here s(2,3)])
  with multi_cache_fits [OF demo_ok s(1) [unfolded demo_init_def] this, of 1] s show ?thesis
    by (auto simp: demo_config_def)
qed

section \<open>Starvation by stealing\<close>

text \<open>The options \<open>-p -n 2 -q 1 -P 1 -L a:100:0 -A a:1\<close>, with the other options at their defaults.\<close>

definition starve_config :: config where
  "starve_config = \<lparr>per_cpu_queues = True, peek_interval = 1, num_cpus = 2, time_slice = 1, random_order = False,
     cache_size = 100, cache_rate_cold = 1, cache_rate_warm = 2, cache_warmup_time = 10\<rparr>"

text \<open>Job \<open>a\<close> may only run on CPU 1 but waits in the queue of CPU 0.\<close>

definition stuck :: "sched \<Rightarrow> bool" where
  "stuck s \<longleftrightarrow> sched_state s 0 = STATE_IDLE \<and> sched_state s 1 = STATE_IDLE \<and>
     per_cpu_sched_queue s 0 = [''a''] \<and> per_cpu_sched_queue s 1 = [] \<and>
     (\<exists>l. jobs s ''a'' = Some \<lparr>run_time = 100, working_set_size = 0, affinity = [1], time_left = l\<rparr>) \<and>
     jobs_finished s = 0 \<and> job_name_list s = [''a''] \<and> draws_ok (rng s)"

lemma choice_one: "draws_ok rs \<Longrightarrow> unless_dry (random_choice [x] rs) (\<lambda>(y, rs'). y = x \<and> draws_ok rs')"
  using random_choice_ok [of rs "[x]"] by simp

lemma cpus2: "[0..<2] = [0, 1 :: nat]"
  by (simp add: upt_rec)

lemma stuck_steal0: "stuck s \<Longrightarrow> steal_one starve_config 0 s = Inr s"
  by (simp add: stuck_def steal_one_def)

lemma stuck_steal1:
  assumes "stuck s"
  shows "unless_dry (steal_one starve_config 1 s) stuck"
proof -
  obtain l where l: "jobs s ''a'' = Some \<lparr>run_time = 100, working_set_size = 0, affinity = [1], time_left = l\<rparr>"
    using assms by (auto simp: stuck_def)
  have "unless_dry (rbind (random_choice [0 :: nat] (rng s)) (\<lambda>(other, rs).
      let s1 = s\<lparr>rng := rs\<rparr>; q = per_cpu_sched_queue s in
      rbind (first_job (jobs s) (stealable 1) 0 (q other)) (\<lambda>r.
        case r of None \<Rightarrow> Inr s1
        | Some (i, job_name) \<Rightarrow>
            Inr (s1\<lparr>per_cpu_sched_queue := q(other := remove1 job_name (q other), 1 := q 1 @ [job_name])\<rparr>)))) stuck"
    by (rule unless_dry_bind2 [OF choice_one])
      (use assms l in \<open>auto simp: stuck_def stealable_def in_job_tuple_def py_lookup_def\<close>)
  then show ?thesis using assms by (simp add: steal_one_def stuck_def starve_config_def cpus2)
qed

lemma stuck_idle:
  assumes "stuck u"
  shows "assign_jobs starve_config u = Inr u" and "run_jobs starve_config u = Inr u"
  using assms by (auto simp: stuck_def assign_jobs_def cpu_order_def starve_config_def cpus2 assign_one_def get_job_def
      queue_of_def runnable_on_def py_lookup_def Let_def run_jobs_def run_cpu_def simp del: rbind_Inr_iff)

lemma stuck_dispatch:
  assumes "unless_dry m stuck"
  shows "unless_dry (rbind m (\<lambda>s2. rbind (assign_jobs starve_config s2) (\<lambda>s3.
    rbind (run_jobs starve_config s3) (\<lambda>s4. Inr (s4\<lparr>system_time := system_time s4 + 1\<rparr>))))) stuck"
  by (rule unless_dry_bind [OF assms]) (simp add: stuck_idle, simp add: stuck_def)

lemma starve_stuck_tick:
  assumes st: "stuck s"
  shows "unless_dry (tick starve_config s) stuck"
proof -
  have h: "handle_interrupts starve_config s = Inr s"
    using st by (simp add: handle_interrupts_def starve_config_def cpus2 handle_one_interrupt_def stuck_def Let_def)
  have steal: "unless_dry (steal_jobs starve_config s) stuck"
  proof -
    have "unless_dry (rfold (steal_one starve_config) [0, 1] s) stuck"
      by (rule unless_dry_rfold) (use st stuck_steal0 stuck_steal1 in auto)
    then show ?thesis using st by (simp add: steal_jobs_def cpus2 starve_config_def)
  qed
  show ?thesis unfolding tick_def h rbind.simps by (rule stuck_dispatch [OF steal])
qed

lemma stuck_forever: "stuck s \<Longrightarrow> loop n unfinished (tick starve_config) s \<noteq> Some (Inr t)"
proof (induction n arbitrary: s)
  case (Suc n)
  have "unfinished s" using Suc.prems by (simp add: stuck_def unfinished_def)
  then show ?case using starve_stuck_tick [OF Suc.prems] Suc.IH by (auto simp: unless_dry_def)
qed simp


definition first_run :: "sched \<Rightarrow> bool" where
  "first_run s \<longleftrightarrow> sched_state s 0 = STATE_IDLE \<and> sched_state s 1 = STATE_RUNNING \<and> sched_current s 1 = ''a'' \<and>
     per_cpu_sched_queue s 0 = [] \<and> per_cpu_sched_queue s 1 = [] \<and>
     (\<exists>l. jobs s ''a'' = Some \<lparr>run_time = 100, working_set_size = 0, affinity = [1], time_left = l\<rparr>) \<and>
     jobs_finished s = 0 \<and> job_name_list s = [''a''] \<and> system_time s = 1 \<and> draws_ok (rng s)"

lemma first_run_tick:
  assumes fr: "first_run s"
  shows "unless_dry (tick starve_config s) stuck"
proof -
  obtain l where l: "jobs s ''a'' = Some \<lparr>run_time = 100, working_set_size = 0, affinity = [1], time_left = l\<rparr>"
    using fr by (auto simp: first_run_def)
  let ?u = "s\<lparr>sched_state := (sched_state s)(1 := STATE_IDLE), sched_current := (sched_current s)(1 := []),
    per_cpu_sched_queue := (per_cpu_sched_queue s)(1 := [''a''])\<rparr>"
  have h: "handle_interrupts starve_config s = Inr ?u"
    using fr by (simp add: handle_interrupts_def starve_config_def cpus2 handle_one_interrupt_def first_run_def Let_def queue_of_def)
  have "unless_dry (rbind (random_choice [1 :: nat] (rng s)) (\<lambda>(other, rs).
      let s1 = ?u\<lparr>rng := rs\<rparr>; q = per_cpu_sched_queue ?u in
      rbind (first_job (jobs s) (stealable 0) 0 (q other)) (\<lambda>r.
        case r of None \<Rightarrow> Inr s1
        | Some (i, job_name) \<Rightarrow>
            Inr (s1\<lparr>per_cpu_sched_queue := q(other := remove1 job_name (q other), 0 := q 0 @ [job_name])\<rparr>)))) stuck"
    by (rule unless_dry_bind2 [OF choice_one])
      (use fr l in \<open>auto simp: first_run_def stuck_def stealable_def in_job_tuple_def py_lookup_def\<close>)
  then have steal0: "unless_dry (steal_one starve_config 0 ?u) stuck"
    using fr by (simp add: steal_one_def first_run_def starve_config_def cpus2)
  have steal1: "unless_dry (rfold (steal_one starve_config) [1] v) stuck" if "stuck v" for v
    by (rule unless_dry_rfold) (use that stuck_steal1 in auto)
  have "unless_dry (rfold (steal_one starve_config) [0, 1] ?u) stuck"
    by (subst rfold.simps(2)) (rule unless_dry_bind [OF steal0 steal1])
  then have "unless_dry (steal_jobs starve_config ?u) stuck"
    using fr by (simp add: steal_jobs_def starve_config_def cpus2 first_run_def)
  from stuck_dispatch [OF this] show ?thesis by (simp add: tick_def h)
qed

definition starve_start :: "draws \<Rightarrow> sched" where
  "starve_start rs = sched_start [''a'' \<mapsto> \<lparr>run_time = 100, working_set_size = 0, affinity = [1], time_left = 100\<rparr>]
     [''a''] ((\<lambda>_. [])(1 := [''a''])) rs"

lemma starve_init: "scheduler_init 2 starve_config ''a:100:0'' ''a:1'' 0 0 0 rs = Some (Inr (starve_start rs))"
proof -
  have p: "split_on CHR '','' ''a:100:0'' = [''a:100:0'']" "split_on CHR '':'' ''a:100:0'' = [''a'', ''100'', ''0'']"
    "split_on CHR '','' ''a:1'' = [''a:1'']" "split_on CHR '':'' ''a:1'' = [''a'', ''1'']" "split_on CHR ''.'' ''1'' = [''1'']"
    "py_int ''100'' = Inr 100" "py_int ''0'' = Inr 0" "py_int ''1'' = Inr 1" by code_simp+
  show ?thesis
    by (simp add: scheduler_init_def read_jobs_def p add_job_def add_affinity_def add_cpu_def Let_def py_lookup_def sched_queues_def
        starve_config_def undealt_def deal_round_def cpus2 deal_one_def runnable_on_def starve_start_def numeral_2_eq_2 del: rbind_Inr_iff)
qed

lemma starve_first: "draws_ok rs \<Longrightarrow> \<exists>s. tick starve_config (starve_start rs) = Inr s \<and> first_run s"
  by (simp add: tick_def handle_interrupts_def starve_config_def cpus2 handle_one_interrupt_def steal_jobs_def assign_jobs_def cpu_order_def
      assign_one_def get_job_def starve_start_def sched_start_def queue_of_def runnable_on_def py_lookup_def Let_def new_job_def cache_init_def
      run_jobs_def run_cpu_def run_one_tick_def get_rate_def update_warming_def first_run_def remove_nth_def del: rbind_Inr_iff)

text \<open>
  Stealing can stop the simulation for ever. With \<open>-p -n 2 -q 1 -P 1 -L a:100:0 -A a:1\<close> job \<open>a\<close> may run on CPU 1
  only; after its first quantum CPU 0 steals it, because the test \<open>cpu in self.jobs[job_name]\<close> looks for 0
  in the whole tuple and finds the working set size instead of asking the affinity. Neither CPU can take the job
  from there: for no number of rounds and no random numbers does the main loop return.
\<close>

theorem multi_steal_starves:
  assumes "draws_ok rs"
  shows "\<exists>s. scheduler_init 2 starve_config ''a:100:0'' ''a:1'' 0 0 0 rs = Some (Inr s) \<and> (\<forall>n t. run n starve_config s \<noteq> Some (Inr t))"
proof (intro exI conjI allI)
  show "scheduler_init 2 starve_config ''a:100:0'' ''a:1'' 0 0 0 rs = Some (Inr (starve_start rs))" by (rule starve_init)
  fix n t
  obtain u where u: "tick starve_config (starve_start rs) = Inr u" "first_run u" using starve_first [OF assms] by blast
  have unf: "unfinished (starve_start rs)" "unfinished u" using u(2) by (simp_all add: unfinished_def starve_start_def sched_start_def first_run_def)
  have "loop k unfinished (tick starve_config) u \<noteq> Some (Inr t)" for k
    using first_run_tick [OF u(2)] unf(2) stuck_forever by (cases k) (auto simp: unless_dry_def)
  moreover have "(starve_start rs)\<lparr>system_time := 0, jobs_finished := 0\<rparr> = starve_start rs" by (simp add: starve_start_def sched_start_def)
  ultimately show "run n starve_config (starve_start rs) \<noteq> Some (Inr t)"
    using u(1) unf(1) by (cases n) (auto simp: run_def)
qed

theorem multi_steal_starves_witness:
  "\<exists>s. scheduler_init 2 starve_config ''a:100:0'' ''a:1'' 0 0 0 [0, 1/2, 0, 1/3] = Some (Inr s) \<and> run 50 starve_config s \<noteq> Some (Inr s)"
  using multi_steal_starves [of "[0, 1/2, 0, 1/3]"] by (auto simp: draws_ok_def)

end
