(* ===== verification/EventSim.thy ===== *)
theory EventSim
  imports Prelude "HOL-Library.Product_Lexorder"
begin

text \<open>
  The discrete-event simulation of a supermarket,
  \<open>src/Sem5/Rechnernetze/Praxis/Aufgabe1_EventList/src\<close>: the event list (\<open>EventList.py\<close>), the customers
  (\<open>KundIn.py\<close>), the stations (\<open>Station.py\<close>), the logger (\<open>Logger.py\<close>) and the main program
  (\<open>Supermarkt.py\<close>).

  Objects live in a store: a customer or a station is referred to by its position in \<open>kunden\<close> or
  \<open>stations\<close>, so that the queues and events share the objects as in the source. The bound methods that an event
  carries are the constructors of \<open>action\<close>; \<open>eArgs\<close> is always empty. \<open>heapq\<close> is used through
  \<open>heappush\<close> and \<open>heappop\<close> only, so the heap is represented by the sorted list of its elements.
\<close>

section \<open>Event list\<close>

datatype action = Begin nat | Arrive nat | KundeLeave nat | StationLeave nat

datatype event = Event (eTime: int) (ePrio: nat) (eNum: nat) (eFun: action)

text \<open>Tuples are compared from the left; the numbers are unique, so a comparison ends there.\<close>

definition ekey :: "event \<Rightarrow> int \<times> nat \<times> nat" where
  "ekey e = (eTime e, ePrio e, eNum e)"

definition push :: "event \<Rightarrow> event list \<Rightarrow> event list" where
  "push e q = insort_key ekey e q"

fun pop :: "event list \<Rightarrow> (event \<times> event list) option" where
  "pop [] = None"
| "pop (e # q) = Some (e, q)"

section \<open>Customers, stations and the state\<close>

text \<open>A stop of a customer: way to the station, tolerated queue length, number of items, station.\<close>

type_synonym stop = "int \<times> int \<times> int \<times> nat"

record kundin =
  station_list :: "stop list"
  time_between_customers :: int
  kind_name :: string
  number :: nat
  full_purchase :: bool
  skipped_station :: bool
  time_begin :: int
  time_end :: int

record station =
  station_name :: string
  item_time :: int
  customer_queue :: "nat list"
  amount_customer :: nat
  amount_skipped_customer :: nat

record sim =
  event_queue :: "event list"
  event_number :: nat
  simulation_time :: int
  customer_list :: "nat list"
  kunden :: "kundin list"
  stations :: "station list"

definition new_kundin :: "stop list \<Rightarrow> int \<Rightarrow> string \<Rightarrow> int \<Rightarrow> kundin" where
  "new_kundin sl tbc ty now =
     \<lparr>station_list = sl, time_between_customers = tbc, kind_name = ty, number = 1, full_purchase = False,
      skipped_station = False, time_begin = now, time_end = now\<rparr>"

definition new_station :: "string \<Rightarrow> int \<Rightarrow> station" where
  "new_station nm t = \<lparr>station_name = nm, item_time = t, customer_queue = [], amount_customer = 0, amount_skipped_customer = 0\<rparr>"

text \<open>An event with the next number, pushed on the heap.\<close>

definition new_event :: "int \<Rightarrow> nat \<Rightarrow> action \<Rightarrow> sim \<Rightarrow> sim" where
  "new_event t p a s =
     s\<lparr>event_number := event_number s + 1, event_queue := push (Event t p (event_number s + 1) a) (event_queue s)\<rparr>"

definition set_kunde :: "nat \<Rightarrow> (kundin \<Rightarrow> kundin) \<Rightarrow> sim \<Rightarrow> sim" where
  "set_kunde c f s = s\<lparr>kunden := (kunden s)[c := f (kunden s ! c)]\<rparr>"

definition set_station :: "nat \<Rightarrow> (station \<Rightarrow> station) \<Rightarrow> sim \<Rightarrow> sim" where
  "set_station i f s = s\<lparr>stations := (stations s)[i := f (stations s ! i)]\<rparr>"

section \<open>Stations\<close>

definition add_customer :: "station \<Rightarrow> station" where
  "add_customer st = st\<lparr>amount_customer := amount_customer st + 1\<rparr>"

definition add_skipped :: "station \<Rightarrow> station" where
  "add_skipped st = st\<lparr>amount_skipped_customer := amount_skipped_customer st + 1\<rparr>"

definition serve :: "nat \<Rightarrow> sim \<Rightarrow> sim res" where
  "serve i s =
     (case customer_queue (stations s ! i) of
        [] \<Rightarrow> Inr s
      | customer # _ \<Rightarrow>
          rbind (py_nth (station_list (kunden s ! customer)) 0) (\<lambda>(way, tol, items, st).
          let t = simulation_time s + items * item_time (stations s ! i)
          in Inr (new_event t 1 (StationLeave i) (new_event t 1 (KundeLeave customer) s))))"

definition queue :: "nat \<Rightarrow> nat \<Rightarrow> sim \<Rightarrow> sim res" where
  "queue i customer s =
     (let s1 = set_station i (\<lambda>st. add_customer (st\<lparr>customer_queue := customer_queue st @ [customer]\<rparr>)) s
      in if length (customer_queue (stations s1 ! i)) \<le> 1 then serve i s1 else Inr s1)"

definition station_leave :: "nat \<Rightarrow> sim \<Rightarrow> sim res" where
  "station_leave i s =
     rbind (py_pop (customer_queue (stations s ! i)) 0) (\<lambda>(customer, rest).
       serve i (set_station i (\<lambda>st. st\<lparr>customer_queue := rest\<rparr>) s))"

section \<open>Customers\<close>

definition begin_shopping :: "nat \<Rightarrow> sim \<Rightarrow> sim res" where
  "begin_shopping c s =
     (let k = kunden s ! c;
          next_customer = (new_kundin (station_list k) (time_between_customers k) (kind_name k) (simulation_time s))\<lparr>number := number k + 1\<rparr>;
          s1 = s\<lparr>customer_list := customer_list s @ [c], kunden := kunden s @ [next_customer]\<rparr>
      in rbind (py_nth (station_list k) 0) (\<lambda>(time_to_station, tol, items, st).
           Inr (new_event (simulation_time s + time_to_station) 3 (Arrive c)
                 (new_event (simulation_time s + time_between_customers k) 2 (Begin (length (kunden s))) s1))))"

definition arrive :: "nat \<Rightarrow> sim \<Rightarrow> sim res" where
  "arrive c s =
     (let s1 = set_kunde c (\<lambda>k. k\<lparr>time_end := simulation_time s\<rparr>) s in
      rbind (py_nth (station_list (kunden s1 ! c)) 0) (\<lambda>(way, tol, items, i).
        if int (length (customer_queue (stations s1 ! i))) \<le> tol then queue i c s1
        else Inr (new_event (simulation_time s + way) 3 (Arrive c)
                   (set_kunde c (\<lambda>k. k\<lparr>skipped_station := True, station_list := tl (station_list k)\<rparr>)
                     (set_station i add_skipped s1)))))"

definition leave :: "nat \<Rightarrow> sim \<Rightarrow> sim res" where
  "leave c s =
     (let s1 = set_kunde c (\<lambda>k. k\<lparr>time_end := simulation_time s\<rparr>) s in
      case station_list (kunden s1 ! c) of
        [] \<Rightarrow> Inr s1
      | _ # rest \<Rightarrow>
          let s2 = set_kunde c (\<lambda>k. k\<lparr>station_list := rest\<rparr>) s1 in
          case rest of
            [] \<Rightarrow> Inr (set_kunde c (\<lambda>k. k\<lparr>full_purchase := \<not> skipped_station k\<rparr>) s2)
          | (way, _) # _ \<Rightarrow> Inr (new_event (simulation_time s + way) 3 (Arrive c) s2))"

section \<open>The main loop\<close>

fun perform :: "action \<Rightarrow> sim \<Rightarrow> sim res" where
  "perform (Begin c) s = begin_shopping c s"
| "perform (Arrive c) s = arrive c s"
| "perform (KundeLeave c) s = leave c s"
| "perform (StationLeave i) s = station_leave i s"

definition step :: "sim \<Rightarrow> sim res" where
  "step s =
     (case pop (event_queue s) of
        None \<Rightarrow> Inl AttributeError
      | Some (e, q) \<Rightarrow> perform (eFun e) (s\<lparr>event_queue := q, simulation_time := eTime e\<rparr>))"

definition goes_on :: "int \<Rightarrow> sim \<Rightarrow> bool" where
  "goes_on limit s \<longleftrightarrow> event_queue s \<noteq> [] \<and> simulation_time s < limit"

definition start :: "nat \<Rightarrow> int \<Rightarrow> sim \<Rightarrow> sim res option" where
  "start fuel limit s = loop fuel (goes_on limit) step s"

text \<open>The supermarket of \<open>Supermarkt.py\<close>: bakery, butcher, cheese counter and checkout.\<close>

definition supermarkt :: sim where
  "supermarkt =
     new_event 1 2 (Begin 1) (new_event 0 2 (Begin 0)
       \<lparr>event_queue = [], event_number = 0, simulation_time = 0, customer_list = [],
        kunden = [new_kundin [(10, 10, 10, 0), (30, 10, 5, 1), (45, 5, 3, 2), (60, 20, 30, 3)] 200 ''A'' 0,
                  new_kundin [(30, 5, 2, 1), (30, 20, 3, 3), (20, 20, 3, 0)] 60 ''B'' 0],
        stations = [new_station (CHR ''B'' # CHR 0xE4 # ''cker'') 10, new_station ''Metzger'' 30,
                    new_station (CHR ''K'' # CHR 0xE4 # ''se'') 60, new_station ''Kasse'' 5]\<rparr>)"

section \<open>The logger\<close>

record totals =
  customers :: nat
  shopping_time :: int
  full_purchase_customers :: nat
  full_purchase_shopping_time :: int

definition count_customer :: "kundin \<Rightarrow> totals \<Rightarrow> totals" where
  "count_customer k t =
     (let time_shopping = time_end k - time_begin k;
          t1 = t\<lparr>customers := customers t + 1, shopping_time := shopping_time t + time_shopping\<rparr>
      in if full_purchase k
         then t1\<lparr>full_purchase_customers := full_purchase_customers t1 + 1,
                 full_purchase_shopping_time := full_purchase_shopping_time t1 + time_shopping\<rparr>
         else t1)"

definition average :: "int \<Rightarrow> nat \<Rightarrow> rat res" where
  "average n m = (if m = 0 then Inl ZeroDivisionError else Inr (of_int n / of_nat m))"

definition get_drop_percentage :: "station \<Rightarrow> rat res" where
  "get_drop_percentage st =
     rbind (average (int (amount_skipped_customer st)) (amount_customer st + amount_skipped_customer st)) (\<lambda>q. Inr (q * 100))"

fun drop_percentages :: "station list \<Rightarrow> rat list res" where
  "drop_percentages [] = Inr []"
| "drop_percentages (st # sts) = rbind (get_drop_percentage st) (\<lambda>p. rbind (drop_percentages sts) (\<lambda>ps. Inr (p # ps)))"

text \<open>The numbers in the report: duration, customers, full purchases, the two averages, the drop rates.\<close>

definition log :: "sim \<Rightarrow> (int \<times> nat \<times> nat \<times> rat \<times> rat \<times> rat list) res" where
  "log s =
     (let t = fold (\<lambda>c. count_customer (kunden s ! c)) (customer_list s)
                \<lparr>customers = 0, shopping_time = 0, full_purchase_customers = 0, full_purchase_shopping_time = 0\<rparr>
      in rbind (average (shopping_time t) (customers t)) (\<lambda>a.
         rbind (average (full_purchase_shopping_time t) (full_purchase_customers t)) (\<lambda>f.
         rbind (drop_percentages (stations s)) (\<lambda>ps.
           Inr (simulation_time s, customers t, full_purchase_customers t, a, f, ps)))))"

section \<open>Priority queues\<close>

text \<open>What the simulation relies on from \<open>heapq\<close>.\<close>

locale priority_queue =
  fixes enter :: "'e \<Rightarrow> 'q \<Rightarrow> 'q" and take_min :: "'q \<Rightarrow> ('e \<times> 'q) option"
    and elems :: "'q \<Rightarrow> 'e multiset" and rank :: "'e \<Rightarrow> 'k :: linorder" and heap :: "'q \<Rightarrow> bool"
  assumes enter_heap: "heap q \<Longrightarrow> heap (enter e q)"
    and enter_elems: "elems (enter e q) = add_mset e (elems q)"
    and take_min_None: "take_min q = None \<longleftrightarrow> elems q = {#}"
    and take_min_heap: "heap q \<Longrightarrow> take_min q = Some (e, r) \<Longrightarrow> heap r"
    and take_min_elems: "take_min q = Some (e, r) \<Longrightarrow> elems q = add_mset e (elems r)"
    and take_min_least: "heap q \<Longrightarrow> take_min q = Some (e, r) \<Longrightarrow> f \<in># elems r \<Longrightarrow> rank e \<le> rank f"
begin

lemma least_leaves_first:
  assumes "heap q" and "f \<in># elems q"
  obtains e r where "take_min q = Some (e, r)" and "heap r" and "rank e \<le> rank f"
proof -
  obtain e r where t: "take_min q = Some (e, r)"
    using assms(2) take_min_None [of q] by (cases "take_min q") auto
  have "f = e \<or> f \<in># elems r" using assms(2) take_min_elems [OF t] by auto
  then have "rank e \<le> rank f" using take_min_least [OF assms(1) t] by auto
  with t take_min_heap [OF assms(1) t] show ?thesis by (rule that)
qed

end

lemma mset_push: "mset (push e q) = add_mset e (mset q)"
  by (simp add: push_def)

interpretation events: priority_queue push pop mset ekey "\<lambda>q. sorted (map ekey q)"
proof
  show "sorted (map ekey (push e q))" if "sorted (map ekey q)" for e q
    using that by (simp add: push_def sorted_insort_key)
  show "pop q = None \<longleftrightarrow> mset q = {#}" for q by (cases q) auto
  show "sorted (map ekey r)" if "sorted (map ekey q)" "pop q = Some (e, r)" for q e r using that by (cases q) auto
  show "mset q = add_mset e (mset r)" if "pop q = Some (e, r)" for q e r using that by (cases q) auto
  show "ekey e \<le> ekey f" if "sorted (map ekey q)" "pop q = Some (e, r)" "f \<in># mset r" for q e r f using that by (cases q) auto
qed (rule mset_push)

end
