(* ===== verification/EventInv.thy ===== *)
theory EventInv
  imports EventSim
begin

text \<open>
  The invariant of the supermarket simulation and the measure of the work that is left, stated over the number of stations and
  customers, the set of events, the queues and the shopping lists. The transitions are those of the program: a customer begins,
  arrives at an empty or a busy station, passes a station, is served, leaves for the next station or for home.
\<close>

section \<open>The invariant\<close>

datatype owner = Kunde nat | Stat nat

fun owner_of :: "action \<Rightarrow> owner" where
  "owner_of (Begin c) = Kunde c"
| "owner_of (Arrive c) = Kunde c"
| "owner_of (KundeLeave c) = Kunde c"
| "owner_of (StationLeave i) = Stat i"

definition target :: "stop list \<Rightarrow> nat" where
  "target l = snd (snd (snd (hd l)))"

text \<open>
  The state is described by the number \<open>N\<close> of stations and \<open>K\<close> of customers, the set \<open>E\<close> of events, the queue \<open>Q i\<close> of each
  station, the stops \<open>L c\<close> each customer still has, the time and the number of events so far.
\<close>

definition event_ok :: "nat \<Rightarrow> nat \<Rightarrow> event set \<Rightarrow> (nat \<Rightarrow> nat list) \<Rightarrow> (nat \<Rightarrow> stop list) \<Rightarrow> event \<Rightarrow> bool" where
  "event_ok N K E Q L e \<longleftrightarrow> (case eFun e of
     Begin c \<Rightarrow> c < K \<and> L c \<noteq> [] \<and> (\<forall>i<N. c \<notin> set (Q i))
   | Arrive c \<Rightarrow> c < K \<and> ePrio e = 3
   | KundeLeave c \<Rightarrow> c < K \<and> ePrio e = 1 \<and> L c \<noteq> [] \<and> target (L c) < N \<and> Q (target (L c)) \<noteq> [] \<and> hd (Q (target (L c))) = c \<and>
       (\<exists>f \<in> E. eFun f = StationLeave (target (L c)) \<and> eTime f = eTime e \<and> ePrio f = 1 \<and> eNum e < eNum f)
   | StationLeave i \<Rightarrow> i < N \<and> Q i \<noteq> [] \<and> ePrio e = 1)"

text \<open>The customer at the head of a queue is being served, or has just left and is on the way to the next station.\<close>

definition head_ok :: "event set \<Rightarrow> nat \<Rightarrow> nat \<Rightarrow> bool" where
  "head_ok E i c \<longleftrightarrow> (\<forall>e \<in> E. owner_of (eFun e) = Kunde c \<longrightarrow> eFun e = KundeLeave c \<or>
     (eFun e = Arrive c \<and> (\<forall>f \<in> E. eFun f = StationLeave i \<longrightarrow> ekey f < ekey e)))"

definition waits :: "event set \<Rightarrow> (nat \<Rightarrow> stop list) \<Rightarrow> nat \<Rightarrow> nat \<Rightarrow> bool" where
  "waits E L i c \<longleftrightarrow> L c \<noteq> [] \<and> target (L c) = i \<and> (\<forall>e \<in> E. owner_of (eFun e) \<noteq> Kunde c)"

definition queue_ok :: "nat \<Rightarrow> event set \<Rightarrow> (nat \<Rightarrow> stop list) \<Rightarrow> nat \<Rightarrow> nat list \<Rightarrow> bool" where
  "queue_ok K E L i q \<longleftrightarrow> distinct q \<and> set q \<subseteq> {..<K} \<and>
     (q \<noteq> [] \<longrightarrow> (\<exists>f \<in> E. eFun f = StationLeave i) \<and> head_ok E i (hd q)) \<and> (\<forall>c \<in> set (tl q). waits E L i c)"

definition sim_inv :: "nat \<Rightarrow> nat \<Rightarrow> event set \<Rightarrow> (nat \<Rightarrow> nat list) \<Rightarrow> (nat \<Rightarrow> stop list) \<Rightarrow> int \<Rightarrow> nat \<Rightarrow> bool" where
  "sim_inv N K E Q L now num \<longleftrightarrow> (\<forall>e \<in> E. event_ok N K E Q L e) \<and> (\<forall>i<N. queue_ok K E L i (Q i)) \<and>
     (\<forall>i<N. \<forall>j<N. \<forall>c \<in> set (Q i). c \<in> set (Q j) \<longrightarrow> i = j) \<and>
     (\<forall>e \<in> E. \<forall>f \<in> E. owner_of (eFun e) = owner_of (eFun f) \<longrightarrow> e = f) \<and>
     (\<forall>e \<in> E. now \<le> eTime e \<and> eNum e \<le> num)"

lemma sim_invD:
  assumes "sim_inv N K E Q L now num"
  shows "e \<in> E \<Longrightarrow> event_ok N K E Q L e" and "i < N \<Longrightarrow> queue_ok K E L i (Q i)"
    and "i < N \<Longrightarrow> j < N \<Longrightarrow> c \<in> set (Q i) \<Longrightarrow> c \<in> set (Q j) \<Longrightarrow> i = j"
    and "e \<in> E \<Longrightarrow> f \<in> E \<Longrightarrow> owner_of (eFun e) = owner_of (eFun f) \<Longrightarrow> e = f"
    and "e \<in> E \<Longrightarrow> now \<le> eTime e" and "e \<in> E \<Longrightarrow> eNum e \<le> num"
  using assms unfolding sim_inv_def by blast+

lemma sim_invI:
  assumes "\<And>e. e \<in> E \<Longrightarrow> event_ok N K E Q L e" and "\<And>i. i < N \<Longrightarrow> queue_ok K E L i (Q i)"
    and "\<And>i j c. i < N \<Longrightarrow> j < N \<Longrightarrow> c \<in> set (Q i) \<Longrightarrow> c \<in> set (Q j) \<Longrightarrow> i = j"
    and "\<And>e f. e \<in> E \<Longrightarrow> f \<in> E \<Longrightarrow> owner_of (eFun e) = owner_of (eFun f) \<Longrightarrow> e = f"
    and "\<And>e. e \<in> E \<Longrightarrow> now \<le> eTime e \<and> eNum e \<le> num"
  shows "sim_inv N K E Q L now num"
  using assms unfolding sim_inv_def by auto

lemma tl_mem: "x \<in> set (tl q) \<Longrightarrow> x \<in> set q"
  by (cases q) auto

text \<open>Facts about the event that is taken from the heap.\<close>

definition taken :: "nat \<Rightarrow> nat \<Rightarrow> event \<Rightarrow> event set \<Rightarrow> (nat \<Rightarrow> nat list) \<Rightarrow> (nat \<Rightarrow> stop list) \<Rightarrow> int \<Rightarrow> nat \<Rightarrow> bool" where
  "taken N K e E Q L now num \<longleftrightarrow> sim_inv N K (insert e E) Q L now num \<and> e \<notin> E \<and> (\<forall>f \<in> E. ekey e \<le> ekey f)"

lemma taken_owner: "taken N K e E Q L now num \<Longrightarrow> f \<in> E \<Longrightarrow> owner_of (eFun f) \<noteq> owner_of (eFun e)"
  unfolding taken_def using sim_invD(4) [of N K "insert e E" Q L now num e f] by auto

lemma taken_time: "taken N K e E Q L now num \<Longrightarrow> f \<in> E \<Longrightarrow> eTime e \<le> eTime f \<and> eNum f \<le> num"
  unfolding taken_def using sim_invD(6) [of N K "insert e E" Q L now num f] by (auto simp: ekey_def)

lemma taken_arrive_free:
  assumes t: "taken N K e E Q L now num" and a: "eFun e = Arrive c" and i: "i < N"
  shows "c \<notin> set (Q i)"
proof
  assume c: "c \<in> set (Q i)"
  have inv: "sim_inv N K (insert e E) Q L now num" using t by (simp add: taken_def)
  have q: "queue_ok K (insert e E) L i (Q i)" by (rule sim_invD(2) [OF inv i])
  have "c \<notin> set (tl (Q i))" using q a by (auto simp: queue_ok_def waits_def)
  then have hd: "Q i \<noteq> []" "c = hd (Q i)" using c by (cases "Q i"; auto)+
  then obtain f where f: "f \<in> insert e E" "eFun f = StationLeave i" using q by (auto simp: queue_ok_def)
  then have "ekey f < ekey e" using q hd a by (auto simp: queue_ok_def head_ok_def)
  moreover have "f \<in> E" using f a by auto
  ultimately show False using t by (auto simp: taken_def)
qed

lemma taken_leave:
  assumes t: "taken N K e E Q L now num" and a: "eFun e = KundeLeave c"
  shows "c < K" and "L c \<noteq> []" and "target (L c) < N" and "Q (target (L c)) \<noteq> []" and "hd (Q (target (L c))) = c"
    and "\<exists>f \<in> E. eFun f = StationLeave (target (L c)) \<and> eTime f = eTime e \<and> ePrio f = 1"
proof -
  have "event_ok N K (insert e E) Q L e" using t sim_invD(1) by (auto simp: taken_def)
  then show "c < K" "L c \<noteq> []" "target (L c) < N" "Q (target (L c)) \<noteq> []" "hd (Q (target (L c))) = c"
    "\<exists>f \<in> E. eFun f = StationLeave (target (L c)) \<and> eTime f = eTime e \<and> ePrio f = 1"
    using a by (auto simp: event_ok_def)
qed

lemma taken_station:
  assumes t: "taken N K e E Q L now num" and a: "eFun e = StationLeave i"
  shows "i < N" and "Q i \<noteq> []" and "f \<in> E \<Longrightarrow> owner_of (eFun f) = Kunde (hd (Q i)) \<Longrightarrow> eFun f = Arrive (hd (Q i))"
proof -
  have inv: "sim_inv N K (insert e E) Q L now num" using t by (simp add: taken_def)
  have "event_ok N K (insert e E) Q L e" using sim_invD(1) [OF inv] by simp
  then show i: "i < N" "Q i \<noteq> []" using a by (auto simp: event_ok_def)
  show "eFun f = Arrive (hd (Q i))" if f: "f \<in> E" "owner_of (eFun f) = Kunde (hd (Q i))"
  proof (rule ccontr)
    assume "eFun f \<noteq> Arrive (hd (Q i))"
    then have fl: "eFun f = KundeLeave (hd (Q i))"
      using sim_invD(2) [OF inv i(1)] i(2) f by (auto simp: queue_ok_def head_ok_def)
    then obtain j g where j: "j < N" "Q j \<noteq> []" "hd (Q j) = hd (Q i)" and g: "g \<in> insert e E" "eFun g = StationLeave j"
        "eTime g = eTime f" "ePrio g = 1" "eNum f < eNum g" "ePrio f = 1"
      using sim_invD(1) [OF inv, of f] f(1) by (auto simp: event_ok_def)
    have "hd (Q i) \<in> set (Q j)" using hd_in_set [OF j(2)] j(3) by simp
    then have "j = i" using sim_invD(3) [OF inv j(1) i(1)] i(2) by simp
    then have "g = e" using sim_invD(4) [OF inv g(1), of e] g(2) a by simp
    then have "ekey f < ekey e" using g by (simp add: ekey_def)
    then show False using t f(1) by (auto simp: taken_def)
  qed
qed

text \<open>The remaining events keep their properties when the state changes elsewhere.\<close>

lemma event_ok_keep:
  assumes "event_ok N K (insert e E) Q L f" and "f \<in> E" and "E \<subseteq> E'" and "K \<le> K'"
    and "\<And>c. eFun f = KundeLeave c \<Longrightarrow> L' c = L c \<and> Q' (target (L c)) \<noteq> [] \<and> hd (Q' (target (L c))) = hd (Q (target (L c))) \<and>
      eFun e \<noteq> StationLeave (target (L c))"
    and "\<And>c. eFun f = Begin c \<Longrightarrow> L' c = L c \<and> (\<forall>i<N. c \<notin> set (Q' i))"
    and "\<And>i. eFun f = StationLeave i \<Longrightarrow> Q' i \<noteq> []"
  shows "event_ok N K' E' Q' L' f"
proof (cases "eFun f")
  case (KundeLeave c)
  then obtain g where "g \<in> E" "eFun g = StationLeave (target (L c))" "eTime g = eTime f" "ePrio g = 1" "eNum f < eNum g"
    using assms(1) assms(5) [OF KundeLeave] by (auto simp: event_ok_def)
  then show ?thesis using KundeLeave assms(1,3,4) assms(5) [OF KundeLeave] by (auto simp: event_ok_def)
qed (use assms in \<open>auto simp: event_ok_def\<close>)

lemma queue_ok_keep:
  assumes "queue_ok K (insert e E) L i q" and "K \<le> K'" and "eFun e \<noteq> StationLeave i"
    and "\<And>c. c \<in> set q \<Longrightarrow> L' c = L c \<or> c \<notin> set (tl q)" and "E \<subseteq> E'"
    and "\<And>f. f \<in> E' \<Longrightarrow> f \<notin> E \<Longrightarrow> eFun f \<noteq> StationLeave i \<and> (\<forall>c \<in> set (tl q). owner_of (eFun f) \<noteq> Kunde c)"
    and "\<And>f. f \<in> E' \<Longrightarrow> f \<notin> E \<Longrightarrow> q \<noteq> [] \<Longrightarrow> owner_of (eFun f) = Kunde (hd q) \<Longrightarrow>
      eFun f = Arrive (hd q) \<and> (\<forall>g \<in> E. eFun g = StationLeave i \<longrightarrow> ekey g < ekey f)"
  shows "queue_ok K' E' L' i q"
proof -
  have w: "waits E' L' i c" if "c \<in> set (tl q)" for c
  proof -
    have "c \<in> set q" using that by (cases q) auto
    then show ?thesis using assms(1) assms(4) [of c] assms(6) that by (auto simp: queue_ok_def waits_def)
  qed
  have h: "head_ok E' i (hd q)" if "q \<noteq> []"
    using assms(1,5,6,7) that unfolding queue_ok_def head_ok_def by (metis insertCI)
  have "\<exists>f \<in> E'. eFun f = StationLeave i" if "q \<noteq> []"
    using assms(1,3,5) that by (auto simp: queue_ok_def)
  with w h assms(1,2) show ?thesis by (auto simp: queue_ok_def)
qed

section \<open>The transitions\<close>

lemma taken_inv: "taken N K e E Q L now num \<Longrightarrow> sim_inv N K (insert e E) Q L now num"
  by (simp add: taken_def)

lemma trans_begin:
  assumes t: "taken N K e E Q L now num" and a: "eFun e = Begin c" and "eTime e \<le> t1" "eTime e \<le> t2"
  shows "sim_inv N (Suc K) (insert (Event t2 3 (num + 2) (Arrive c)) (insert (Event t1 2 (num + 1) (Begin K)) E)) Q (L(K := L c))
    (eTime e) (num + 2)" (is "sim_inv _ _ ?E _ ?L _ _")
proof -
  note inv = taken_inv [OF t]
  have c: "c < K" "L c \<noteq> []" "\<And>i. i < N \<Longrightarrow> c \<notin> set (Q i)" using sim_invD(1) [OF inv, of e] a by (auto simp: event_ok_def)
  have qK: "\<And>i. i < N \<Longrightarrow> set (Q i) \<subseteq> {..<K}" using sim_invD(2) [OF inv] by (auto simp: queue_ok_def)
  have nK: "K \<notin> set (Q i)" if "i < N" for i using qK [OF that] by auto
  have fresh: "owner_of (eFun f) \<noteq> Kunde c" "owner_of (eFun f) \<noteq> Kunde K" if "f \<in> E" for f
  proof -
    show "owner_of (eFun f) \<noteq> Kunde c" using taken_owner [OF t that] a by simp
    show "owner_of (eFun f) \<noteq> Kunde K" using sim_invD(1) [OF inv, of f] that by (cases "eFun f") (auto simp: event_ok_def)
  qed
  show ?thesis
  proof (rule sim_invI)
    fix f assume f: "f \<in> ?E"
    show "event_ok N (Suc K) ?E Q ?L f"
    proof (cases "f \<in> E")
      case True
      have K: "c' \<noteq> K" if "owner_of (eFun f) = Kunde c'" for c' using fresh(2) [OF True] that by auto
      show ?thesis
        by (rule event_ok_keep [OF _ True, of N K e Q L]) (use sim_invD(1) [OF inv, of f] True K a in \<open>auto simp: event_ok_def\<close>)
    qed (use f c nK in \<open>auto simp: event_ok_def\<close>)
    show "eTime e \<le> eTime f \<and> eNum f \<le> num + 2" using f taken_time [OF t] assms(3,4) by force
    fix g assume "g \<in> ?E" "owner_of (eFun f) = owner_of (eFun g)"
    then show "f = g" using f fresh c(1) sim_invD(4) [OF inv, of f g] by (auto dest: sym)
  next
    fix i assume i: "i < N"
    have "hd (Q i) \<noteq> c \<and> hd (Q i) < K" if "Q i \<noteq> []" using c(3) [OF i] qK [OF i] that by (metis hd_in_set lessThan_iff subsetD)
    then show "queue_ok (Suc K) ?E ?L i (Q i)"
      by (intro queue_ok_keep [OF sim_invD(2) [OF inv i], of "Suc K"])
        (use a c(3) [OF i] nK [OF i] tl_mem [of _ "Q i"] qK [OF i] in \<open>auto dest: sym\<close>)
  qed (use sim_invD(3) [OF inv] in auto)
qed

lemma station_event:
  assumes inv: "sim_inv N K E Q L now num" and f: "f \<in> E" "eFun f = StationLeave i"
  shows "i < N \<and> Q i \<noteq> []"
  using sim_invD(1) [OF inv f(1)] f(2) by (simp add: event_ok_def)

text \<open>A customer is served: both leave events are put on the heap.\<close>

lemma trans_serve:
  assumes ev: "\<And>f. f \<in> E \<Longrightarrow> event_ok N K E Q L f" and qs: "\<And>j. j < N \<Longrightarrow> j \<noteq> i \<Longrightarrow> queue_ok K E L j (Q j)"
    and dj: "\<And>j k d. j < N \<Longrightarrow> k < N \<Longrightarrow> d \<in> set (Q j) \<Longrightarrow> d \<in> set (Q k) \<Longrightarrow> j = k"
    and own: "\<And>f g. f \<in> E \<Longrightarrow> g \<in> E \<Longrightarrow> owner_of (eFun f) = owner_of (eFun g) \<Longrightarrow> f = g"
    and time: "\<And>f. f \<in> E \<Longrightarrow> now \<le> eTime f \<and> eNum f \<le> num" and t1: "now \<le> t1"
    and i: "i < N" "Q i = c # q" "distinct (Q i)" "set (Q i) \<subseteq> {..<K}" and c: "L c \<noteq> []" "target (L c) = i"
    and new: "\<And>f. f \<in> E \<Longrightarrow> owner_of (eFun f) \<noteq> Kunde c \<and> eFun f \<noteq> StationLeave i"
    and wait: "\<And>d. d \<in> set q \<Longrightarrow> waits E L i d"
  shows "sim_inv N K (insert (Event t1 1 (num + 2) (StationLeave i)) (insert (Event t1 1 (num + 1) (KundeLeave c)) E)) Q L now (num + 2)"
    (is "sim_inv _ _ (insert ?s (insert ?k E)) _ _ _ _")
proof (rule sim_invI)
  let ?E = "insert ?s (insert ?k E)"
  fix f assume f: "f \<in> ?E"
  have si: "owner_of (eFun g) \<noteq> Stat i" if "g \<in> E" for g using new [OF that] by (cases "eFun g") auto
  show "event_ok N K ?E Q L f"
  proof (cases "f \<in> E")
    case True
    show ?thesis using ev [OF True] by (cases "eFun f") (auto simp: event_ok_def)
  next
    case False
    then show ?thesis using f i c by (auto simp: event_ok_def)
  qed
  show "now \<le> eTime f \<and> eNum f \<le> num + 2" using f time t1 by force
  fix g assume "g \<in> ?E" "owner_of (eFun f) = owner_of (eFun g)"
  then show "f = g" using f new si own by (auto dest: sym)
next
  let ?E = "insert ?s (insert ?k E)"
  fix j assume j: "j < N"
  show "queue_ok K ?E L j (Q j)"
  proof (cases "j = i")
    case True
    have "waits ?E L i d" if "d \<in> set q" for d using wait [OF that] that i(2,3) by (auto simp: waits_def)
    moreover have "head_ok ?E i c" using new by (auto simp: head_ok_def)
    ultimately show ?thesis using True i by (auto simp: queue_ok_def)
  next
    case False
    have nc: "c \<notin> set (Q j)" using dj [OF i(1) j, of c] i(2) False by auto
    have q: "queue_ok K E L j (Q j)" by (rule qs [OF j False])
    have "waits ?E L j d" if "d \<in> set (tl (Q j))" for d
      using q that nc list.set_sel(2) [of "Q j" d] by (cases "Q j = []") (auto simp: queue_ok_def waits_def)
    moreover have "head_ok ?E j (hd (Q j))" if "Q j \<noteq> []"
      using q that nc False hd_in_set [OF that] by (auto simp: queue_ok_def head_ok_def)
    ultimately show ?thesis using q by (auto simp: queue_ok_def)
  qed
qed (rule dj)

lemma trans_arrive_empty:
  assumes t: "taken N K e E Q L now num" and a: "eFun e = Arrive c" and i: "i < N" "Q i = []" and c: "L c \<noteq> []" "target (L c) = i"
    and t1: "eTime e \<le> t1"
  shows "sim_inv N K (insert (Event t1 1 (num + 2) (StationLeave i)) (insert (Event t1 1 (num + 1) (KundeLeave c)) E))
    (Q(i := [c])) L (eTime e) (num + 2)"
proof -
  note inv = taken_inv [OF t]
  have cK: "c < K" using sim_invD(1) [OF inv, of e] a by (auto simp: event_ok_def)
  have free: "c \<notin> set (Q j)" if "j < N" for j by (rule taken_arrive_free [OF t a that])
  have nst: "eFun f \<noteq> StationLeave i" if "f \<in> E" for f using station_event [OF inv, of f i] that i(2) by auto
  have noc: "owner_of (eFun f) \<noteq> Kunde c" if "f \<in> E" for f using taken_owner [OF t that] a by simp
  show ?thesis
  proof (rule trans_serve)
    show "event_ok N K E (Q(i := [c])) L f" if "f \<in> E" for f
      by (rule event_ok_keep [OF _ that subset_refl order_refl, of N K e Q L])
        (use sim_invD(1) [OF inv, of f] that a nst [OF that] noc [OF that] i in \<open>auto simp: event_ok_def\<close>)
    show "queue_ok K E L j ((Q(i := [c])) j)" if "j < N" "j \<noteq> i" for j
    proof -
      have "queue_ok K E L j (Q j)" by (rule queue_ok_keep [OF sim_invD(2) [OF inv that(1)]]) (use a in auto)
      then show ?thesis using that by simp
    qed
    show "j = k" if "j < N" "k < N" "d \<in> set ((Q(i := [c])) j)" "d \<in> set ((Q(i := [c])) k)" for j k d
      using that sim_invD(3) [OF inv, of j k d] free by (auto split: if_splits)
  qed (use taken_time [OF t] noc nst t1 i c cK sim_invD(4) [OF inv] in auto)
qed

lemma trans_arrive_wait:
  assumes t: "taken N K e E Q L now num" and a: "eFun e = Arrive c" and i: "i < N" "Q i \<noteq> []" and c: "L c \<noteq> []" "target (L c) = i"
  shows "sim_inv N K E (Q(i := Q i @ [c])) L (eTime e) num"
proof -
  note inv = taken_inv [OF t]
  have cK: "c < K" using sim_invD(1) [OF inv, of e] a by (auto simp: event_ok_def)
  have free: "c \<notin> set (Q j)" if "j < N" for j by (rule taken_arrive_free [OF t a that])
  have noc: "owner_of (eFun f) \<noteq> Kunde c" if "f \<in> E" for f using taken_owner [OF t that] a by simp
  have old: "queue_ok K E L j (Q j)" if "j < N" for j
    by (rule queue_ok_keep [OF sim_invD(2) [OF inv that]]) (use a in auto)
  show ?thesis
  proof (rule sim_invI)
    show "event_ok N K E (Q(i := Q i @ [c])) L f" if "f \<in> E" for f
      by (rule event_ok_keep [OF _ that subset_refl order_refl, of N K e Q L])
        (use sim_invD(1) [OF inv, of f] that a noc [OF that] i in \<open>auto simp: event_ok_def\<close>)
    show "queue_ok K E L j ((Q(i := Q i @ [c])) j)" if "j < N" for j
      using old [OF that] free [OF that] cK c noc i(2) by (auto simp: queue_ok_def waits_def)
    show "j = k" if "j < N" "k < N" "d \<in> set ((Q(i := Q i @ [c])) j)" "d \<in> set ((Q(i := Q i @ [c])) k)" for j k d
      using that sim_invD(3) [OF inv, of j k d] free by (auto split: if_splits)
  qed (use taken_time [OF t] sim_invD(4) [OF inv] in auto)
qed

lemma event_ok_route:
  assumes "event_ok N K (insert e E) Q L f" and "owner_of (eFun f) \<noteq> Kunde c" and "\<And>j. eFun e \<noteq> StationLeave j" and "E \<subseteq> E'"
  shows "event_ok N K E' Q (L(c := l)) f"
proof (cases "eFun f")
  case (KundeLeave d)
  then have "d \<noteq> c" using assms(2) by simp
  obtain g where "g \<in> E" "eFun g = StationLeave (target (L d))" "eTime g = eTime f" "ePrio g = 1" "eNum f < eNum g"
    using assms(1,3) KundeLeave by (auto simp: event_ok_def)
  then show ?thesis using KundeLeave assms(1,4) \<open>d \<noteq> c\<close> by (auto simp: event_ok_def)
qed (use assms(1,2) in \<open>auto simp: event_ok_def\<close>)

lemma trans_on_the_way:
  assumes t: "taken N K e E Q L now num" and a: "owner_of (eFun e) = Kunde c" and t1: "eTime e \<le> t1" and cK: "c < K"
    and nwait: "\<And>j. j < N \<Longrightarrow> c \<notin> set (tl (Q j))"
    and before: "\<And>j f. j < N \<Longrightarrow> Q j \<noteq> [] \<Longrightarrow> hd (Q j) = c \<Longrightarrow> f \<in> E \<Longrightarrow> eFun f = StationLeave j \<Longrightarrow> eTime f = eTime e \<and> ePrio f = 1"
  shows "sim_inv N K (insert (Event t1 3 (num + 1) (Arrive c)) E) Q (L(c := tl (L c))) (eTime e) (num + 1)"
proof -
  note inv = taken_inv [OF t]
  let ?n = "Event t1 3 (num + 1) (Arrive c)"
  have noc: "owner_of (eFun f) \<noteq> Kunde c" if "f \<in> E" for f using taken_owner [OF t that] a by simp
  have est: "eFun e \<noteq> StationLeave j" for j using a by auto
  show ?thesis
  proof (rule sim_invI)
    fix f assume f: "f \<in> insert ?n E"
    show "event_ok N K (insert ?n E) Q (L(c := tl (L c))) f"
    proof (cases "f \<in> E")
      case True
      show ?thesis by (rule event_ok_route [OF sim_invD(1) [OF inv] noc [OF True]]) (use True est in auto)
    qed (use f cK in \<open>auto simp: event_ok_def\<close>)
    show "eTime e \<le> eTime f \<and> eNum f \<le> num + 1" using f taken_time [OF t] t1 by force
    fix g assume "g \<in> insert ?n E" "owner_of (eFun f) = owner_of (eFun g)"
    then show "f = g" using f noc sim_invD(4) [OF inv, of f g] by (auto dest: sym)
  next
    fix j assume j: "j < N"
    have "ekey g < ekey ?n" if "Q j \<noteq> []" "hd (Q j) = c" "g \<in> E" "eFun g = StationLeave j" for g
      using before [OF j that] t1 by (auto simp: ekey_def)
    then show "queue_ok K (insert ?n E) (L(c := tl (L c))) j (Q j)"
      by (intro queue_ok_keep [OF sim_invD(2) [OF inv j]]) (use est nwait [OF j] in auto)
  qed (use sim_invD(3) [OF inv] in auto)
qed

lemma trans_home:
  assumes t: "taken N K e E Q L now num" and a: "owner_of (eFun e) = Kunde c" and nwait: "\<And>j. j < N \<Longrightarrow> c \<notin> set (tl (Q j))"
  shows "sim_inv N K E Q (L(c := tl (L c))) (eTime e) num"
proof -
  note inv = taken_inv [OF t]
  have noc: "owner_of (eFun f) \<noteq> Kunde c" if "f \<in> E" for f using taken_owner [OF t that] a by simp
  have est: "eFun e \<noteq> StationLeave j" for j using a by auto
  show ?thesis
  proof (rule sim_invI)
    fix f assume f: "f \<in> E"
    show "event_ok N K E Q (L(c := tl (L c))) f"
      by (rule event_ok_route [OF sim_invD(1) [OF inv] noc [OF f]]) (use f est in auto)
  next
    fix j assume j: "j < N"
    show "queue_ok K E (L(c := tl (L c))) j (Q j)"
      by (rule queue_ok_keep [OF sim_invD(2) [OF inv j]]) (use est nwait [OF j] in auto)
  qed (use sim_invD(3,4) [OF inv] taken_time [OF t] in auto)
qed

text \<open>A customer who leaves is at the head of one queue and waits in none.\<close>

lemma leaver_place:
  assumes t: "taken N K e E Q L now num" and a: "eFun e = KundeLeave c" and j: "j < N"
  shows "c \<notin> set (tl (Q j))"
    and "Q j \<noteq> [] \<Longrightarrow> hd (Q j) = c \<Longrightarrow> f \<in> E \<Longrightarrow> eFun f = StationLeave j \<Longrightarrow> eTime f = eTime e \<and> ePrio f = 1"
proof -
  note inv = taken_inv [OF t] and lv = taken_leave [OF t a]
  have mem: "c \<in> set (Q (target (L c)))" using hd_in_set [OF lv(4)] lv(5) by simp
  show "c \<notin> set (tl (Q j))"
  proof
    assume c: "c \<in> set (tl (Q j))"
    then have "j = target (L c)" using sim_invD(3) [OF inv j lv(3) tl_mem mem] by simp
    moreover have "distinct (Q j)" using sim_invD(2) [OF inv j] by (simp add: queue_ok_def)
    ultimately show False using c lv(4,5) by (cases "Q j") auto
  qed
  show "eTime f = eTime e \<and> ePrio f = 1" if "Q j \<noteq> []" "hd (Q j) = c" "f \<in> E" "eFun f = StationLeave j"
  proof -
    have "j = target (L c)" using sim_invD(3) [OF inv j lv(3) _ mem] hd_in_set [OF that(1)] that(2) by simp
    then obtain g where "g \<in> E" "eFun g = StationLeave j" "eTime g = eTime e" "ePrio g = 1" using lv(6) by auto
    moreover then have "g = f" using sim_invD(4) [OF inv, of g f] that by simp
    ultimately show ?thesis by simp
  qed
qed

lemma trans_station:
  assumes t: "taken N K e E Q L now num" and a: "eFun e = StationLeave i"
  shows "f \<in> E \<Longrightarrow> event_ok N K E (Q(i := tl (Q i))) L f"
    and "j < N \<Longrightarrow> j \<noteq> i \<Longrightarrow> queue_ok K E L j (Q j)"
    and "j < N \<Longrightarrow> k < N \<Longrightarrow> d \<in> set ((Q(i := tl (Q i))) j) \<Longrightarrow> d \<in> set ((Q(i := tl (Q i))) k) \<Longrightarrow> j = k"
    and "f \<in> E \<Longrightarrow> eFun f \<noteq> StationLeave i" and "d \<in> set (tl (Q i)) \<Longrightarrow> waits E L i d"
proof -
  note inv = taken_inv [OF t] and st = taken_station [OF t a]
  show no: "eFun f \<noteq> StationLeave i" if "f \<in> E" for f using taken_owner [OF t that] a by auto
  show "waits E L i d" if "d \<in> set (tl (Q i))" for d
    using sim_invD(2) [OF inv st(1)] that by (auto simp: queue_ok_def waits_def)
  show "queue_ok K E L j (Q j)" if "j < N" "j \<noteq> i" for j
    by (rule queue_ok_keep [OF sim_invD(2) [OF inv that(1)]]) (use a that in auto)
  show "j = k" if "j < N" "k < N" "d \<in> set ((Q(i := tl (Q i))) j)" "d \<in> set ((Q(i := tl (Q i))) k)" for j k d
    using that sim_invD(3) [OF inv, of j k d] tl_mem [of d "Q i"] by (auto split: if_splits)
  show "event_ok N K E (Q(i := tl (Q i))) L f" if f: "f \<in> E" for f
  proof (rule event_ok_keep [OF sim_invD(1) [OF inv] f subset_refl order_refl])
    show "f \<in> insert e E" using f by simp
    show "L c = L c \<and> (Q(i := tl (Q i))) (target (L c)) \<noteq> [] \<and> hd ((Q(i := tl (Q i))) (target (L c))) = hd (Q (target (L c))) \<and>
        eFun e \<noteq> StationLeave (target (L c))" if c: "eFun f = KundeLeave c" for c
    proof -
      have ok: "Q (target (L c)) \<noteq> []" "hd (Q (target (L c))) = c" using sim_invD(1) [OF inv, of f] f c by (auto simp: event_ok_def)
      have "target (L c) \<noteq> i" using st(3) [OF f] c ok by auto
      then show ?thesis using ok a by simp
    qed
    show "L c = L c \<and> (\<forall>j<N. c \<notin> set ((Q(i := tl (Q i))) j))" if "eFun f = Begin c" for c
      using sim_invD(1) [OF inv, of f] f that tl_mem [of c "Q i"] by (auto simp: event_ok_def)
    show "(Q(i := tl (Q i))) j \<noteq> []" if "eFun f = StationLeave j" for j
      using sim_invD(1) [OF inv, of f] f that no [OF f] by (auto simp: event_ok_def)
  qed
qed

lemma trans_station_last:
  assumes t: "taken N K e E Q L now num" and a: "eFun e = StationLeave i" and q: "tl (Q i) = []"
  shows "sim_inv N K E (Q(i := [])) L (eTime e) num"
proof (rule sim_invI)
  note tr = trans_station [OF t a, unfolded q]
  show "event_ok N K E (Q(i := [])) L f" if "f \<in> E" for f by (rule tr(1) [OF that])
  show "queue_ok K E L j ((Q(i := [])) j)" if "j < N" for j using tr(2) [OF that] by (auto simp: queue_ok_def)
qed (use sim_invD(4) [OF taken_inv [OF t]] taken_time [OF t] trans_station(3) [OF t a, unfolded q] in auto)

lemma trans_station_next:
  assumes t: "taken N K e E Q L now num" and a: "eFun e = StationLeave i" and q: "tl (Q i) = c # r" and t1: "eTime e \<le> t1"
  shows "sim_inv N K (insert (Event t1 1 (num + 2) (StationLeave i)) (insert (Event t1 1 (num + 1) (KundeLeave c)) E))
    (Q(i := c # r)) L (eTime e) (num + 2)"
proof -
  note tr = trans_station [OF t a, unfolded q] and st = taken_station [OF t a] and inv = taken_inv [OF t]
  have qo: "distinct (Q i)" "set (Q i) \<subseteq> {..<K}" using sim_invD(2) [OF inv st(1)] by (auto simp: queue_ok_def)
  have dr: "distinct (c # r)" "set (c # r) \<subseteq> {..<K}" using distinct_tl [OF qo(1)] qo(2) tl_mem [of _ "Q i"] q by auto
  have w: "waits E L i c" "\<And>d. d \<in> set r \<Longrightarrow> waits E L i d" using tr(5) by auto
  show ?thesis
  proof (rule trans_serve)
    show "(Q(i := c # r)) i = c # r" "distinct ((Q(i := c # r)) i)" "set ((Q(i := c # r)) i) \<subseteq> {..<K}" using dr by simp_all
    show "queue_ok K E L j ((Q(i := c # r)) j)" if "j < N" "j \<noteq> i" for j using tr(2) [OF that] that by simp
    show "event_ok N K E (Q(i := c # r)) L f" if "f \<in> E" for f by (rule tr(1) [OF that])
    show "j = k" if "j < N" "k < N" "d \<in> set ((Q(i := c # r)) j)" "d \<in> set ((Q(i := c # r)) k)" for j k d by (rule tr(3) [OF that])
    show "f = g" if "f \<in> E" "g \<in> E" "owner_of (eFun f) = owner_of (eFun g)" for f g using sim_invD(4) [OF inv, of f g] that by simp
    show "eTime e \<le> eTime f \<and> eNum f \<le> num" if "f \<in> E" for f by (rule taken_time [OF t that])
    show "L c \<noteq> []" "target (L c) = i" using w(1) by (auto simp: waits_def)
    show "owner_of (eFun f) \<noteq> Kunde c \<and> eFun f \<noteq> StationLeave i" if "f \<in> E" for f using w(1) tr(4) [OF that] that by (auto simp: waits_def)
  qed (use st(1) w(2) t1 in auto)
qed

lemma sim_inv_cong:
  assumes "sim_inv N K E Q L now num" and "\<And>i. i < N \<Longrightarrow> Q' i = Q i" and "\<And>c. c < K \<Longrightarrow> L' c = L c"
  shows "sim_inv N K E Q' L' now num"
proof (rule sim_invI)
  fix f assume f: "f \<in> E"
  show "event_ok N K E Q' L' f" using sim_invD(1) [OF assms(1) f] assms(2,3) by (cases "eFun f") (auto simp: event_ok_def)
next
  fix i assume i: "i < N"
  have q: "queue_ok K E L i (Q i)" by (rule sim_invD(2) [OF assms(1) i])
  then have "\<And>c. c \<in> set (tl (Q i)) \<Longrightarrow> L' c = L c" using assms(3) tl_mem [of _ "Q i"] by (auto simp: queue_ok_def)
  then show "queue_ok K E L' i (Q' i)" using q assms(2) [OF i] by (simp add: queue_ok_def waits_def)
qed (use assms(1,2) sim_invD(3-6) [OF assms(1)] in auto)

section \<open>The work that is left\<close>

text \<open>
  Every event and every waiting customer stands for some events to come, up to the time \<open>limit\<close>: a stop takes at most four,
  and a customer who begins at time \<open>t\<close> is followed by at most \<open>limit - t\<close> others of the same type.
\<close>

definition event_weight :: "nat \<Rightarrow> int \<Rightarrow> (nat \<Rightarrow> stop list) \<Rightarrow> event \<Rightarrow> nat" where
  "event_weight M limit L e = (case eFun e of
     Begin c \<Rightarrow> (1 + nat (limit - eTime e)) * (4 * M + 2)
   | Arrive c \<Rightarrow> 4 * length (L c) + 1
   | KundeLeave c \<Rightarrow> 4 * length (L c) - 2
   | StationLeave i \<Rightarrow> 1)"

definition waiting_weight :: "nat \<Rightarrow> (nat \<Rightarrow> nat list) \<Rightarrow> (nat \<Rightarrow> stop list) \<Rightarrow> nat" where
  "waiting_weight N Q L = (\<Sum>i<N. \<Sum>c \<leftarrow> tl (Q i). 4 * length (L c))"

definition weight :: "nat \<Rightarrow> int \<Rightarrow> nat \<Rightarrow> event set \<Rightarrow> (nat \<Rightarrow> nat list) \<Rightarrow> (nat \<Rightarrow> stop list) \<Rightarrow> nat" where
  "weight M limit N E Q L = (\<Sum>e \<in> E. event_weight M limit L e) + waiting_weight N Q L"

lemma events_other:
  assumes "\<And>f. f \<in> E \<Longrightarrow> owner_of (eFun f) \<noteq> Kunde c"
  shows "(\<Sum>e \<in> E. event_weight M limit (L(c := l)) e) = (\<Sum>e \<in> E. event_weight M limit L e)"
proof (rule sum.cong [OF refl])
  show "event_weight M limit (L(c := l)) f = event_weight M limit L f" if "f \<in> E" for f
    using assms [OF that] by (cases "eFun f") (auto simp: event_weight_def)
qed

lemma waiting_other:
  assumes "\<And>i. i < N \<Longrightarrow> c \<notin> set (tl (Q i))"
  shows "waiting_weight N Q (L(c := l)) = waiting_weight N Q L"
  unfolding waiting_weight_def
proof (rule sum.cong)
  fix i assume "i \<in> {..<N}"
  then show "(\<Sum>d \<leftarrow> tl (Q i). 4 * length ((L(c := l)) d)) = (\<Sum>d \<leftarrow> tl (Q i). 4 * length (L d))"
    using assms [of i] by (intro arg_cong [of _ _ sum_list] map_cong) auto
qed simp

lemma waiting_upd:
  assumes "i < N"
  shows "waiting_weight N (Q(i := q)) L + (\<Sum>c \<leftarrow> tl (Q i). 4 * length (L c)) = waiting_weight N Q L + (\<Sum>c \<leftarrow> tl q. 4 * length (L c))"
proof -
  have "waiting_weight N (Q(i := r)) L = (\<Sum>c \<leftarrow> tl r. 4 * length (L c)) + (\<Sum>j \<in> {..<N} - {i}. \<Sum>c \<leftarrow> tl (Q j). 4 * length (L c))" for r
    unfolding waiting_weight_def using assms by (subst sum.remove [of _ i]) auto
  from this [of q] this [of "Q i"] show ?thesis by simp
qed

lemma fresh_event: "taken N K e E Q L now num \<Longrightarrow> Event t p (num + Suc k) a \<notin> E"
  using taken_time [of N K e E Q L now num "Event t p (num + Suc k) a"] by auto

lemma weight_begin:
  assumes t: "taken N K e E Q L now num" and fin: "finite E" and a: "eFun e = Begin c" and lim: "eTime e < limit"
    and t1: "eTime e < t1" and M: "length (L c) \<le> M"
  shows "weight M limit N (insert (Event t2 3 (num + 2) (Arrive c)) (insert (Event t1 2 (num + 1) (Begin K)) E)) Q (L(K := L c))
    < weight M limit N (insert e E) Q L"
proof -
  note inv = taken_inv [OF t]
  have c: "c < K" using sim_invD(1) [OF inv, of e] a by (auto simp: event_ok_def)
  have K: "owner_of (eFun f) \<noteq> Kunde K" if "f \<in> E" for f
    using sim_invD(1) [OF inv, of f] that by (cases "eFun f") (auto simp: event_ok_def)
  have w: "K \<notin> set (tl (Q i))" if "i < N" for i using sim_invD(2) [OF inv that] tl_mem [of K "Q i"] by (auto simp: queue_ok_def)
  have "Event t2 3 (num + 2) (Arrive c) \<notin> E" "Event t1 2 (num + 1) (Begin K) \<notin> E" "e \<notin> E"
    using fresh_event [OF t, of t2 3 1] fresh_event [OF t, of t1 2 0] t by (auto simp: taken_def)
  moreover have "(1 + nat (limit - t1)) * (4 * M + 2) \<le> nat (limit - eTime e) * (4 * M + 2)"
    using lim t1 by (intro mult_right_mono) auto
  ultimately show ?thesis
    using fin c a M events_other [of E K M limit L "L c", OF K] waiting_other [of N K Q L "L c", OF w]
    by (simp add: weight_def) (simp add: event_weight_def)
qed

lemma weight_arrive:
  assumes t: "taken N K e E Q L now num" and fin: "finite E" and a: "eFun e = Arrive c" and i: "i < N" and c: "L c \<noteq> []"
  shows "Q i = [] \<Longrightarrow> weight M limit N (insert (Event t1 1 (num + 2) (StationLeave i)) (insert (Event t1 1 (num + 1) (KundeLeave c)) E)) (Q(i := [c])) L
      < weight M limit N (insert e E) Q L"
    and "Q i \<noteq> [] \<Longrightarrow> weight M limit N E (Q(i := Q i @ [c])) L < weight M limit N (insert e E) Q L"
proof -
  have e: "e \<notin> E" "event_weight M limit L e = 4 * length (L c) + 1" using t a by (auto simp: taken_def event_weight_def)
  have "Event t1 1 (num + 2) (StationLeave i) \<notin> E" "Event t1 1 (num + 1) (KundeLeave c) \<notin> E"
    using fresh_event [OF t, of t1 1 1] fresh_event [OF t, of t1 1 0] by auto
  then show "weight M limit N (insert (Event t1 1 (num + 2) (StationLeave i)) (insert (Event t1 1 (num + 1) (KundeLeave c)) E)) (Q(i := [c])) L
      < weight M limit N (insert e E) Q L" if "Q i = []"
    using that fin e c waiting_upd [OF i, of Q "[c]" L]
    by (cases "L c") (simp_all add: weight_def, simp add: event_weight_def)
  show "weight M limit N E (Q(i := Q i @ [c])) L < weight M limit N (insert e E) Q L" if "Q i \<noteq> []"
    using that fin e waiting_upd [OF i, of Q "Q i @ [c]" L] by (simp add: weight_def)
qed

lemma weight_on_the_way:
  assumes t: "taken N K e E Q L now num" and fin: "finite E" and a: "eFun e = Arrive c \<or> eFun e = KundeLeave c" and c: "L c \<noteq> []"
    and nwait: "\<And>j. j < N \<Longrightarrow> c \<notin> set (tl (Q j))"
  shows "weight M limit N (insert (Event t1 3 (num + 1) (Arrive c)) E) Q (L(c := tl (L c))) < weight M limit N (insert e E) Q L"
    and "weight M limit N E Q (L(c := tl (L c))) < weight M limit N (insert e E) Q L"
proof -
  have noc: "owner_of (eFun f) \<noteq> Kunde c" if "f \<in> E" for f using taken_owner [OF t that] a by auto
  obtain k where k: "length (L c) = Suc k" using c by (cases "L c") auto
  have e: "e \<notin> E" "4 * k + 2 \<le> event_weight M limit L e" using t a k by (auto simp: taken_def event_weight_def)
  have n: "Event t1 3 (num + 1) (Arrive c) \<notin> E" using fresh_event [OF t, of t1 3 0] by simp
  have w: "event_weight M limit (L(c := tl (L c))) (Event t1 3 (num + 1) (Arrive c)) = 4 * k + 1" using k by (simp add: event_weight_def)
  note same = events_other [of E c M limit L "tl (L c)", OF noc] waiting_other [of N c Q L "tl (L c)", OF nwait]
  show "weight M limit N (insert (Event t1 3 (num + 1) (Arrive c)) E) Q (L(c := tl (L c))) < weight M limit N (insert e E) Q L"
    using fin e n w same by (simp add: weight_def)
  show "weight M limit N E Q (L(c := tl (L c))) < weight M limit N (insert e E) Q L"
    using fin e same by (simp add: weight_def)
qed

lemma weight_station:
  assumes t: "taken N K e E Q L now num" and fin: "finite E" and a: "eFun e = StationLeave i"
  shows "tl (Q i) = [] \<Longrightarrow> weight M limit N E (Q(i := [])) L < weight M limit N (insert e E) Q L"
    and "tl (Q i) = c # r \<Longrightarrow>
      weight M limit N (insert (Event t1 1 (num + 2) (StationLeave i)) (insert (Event t1 1 (num + 1) (KundeLeave c)) E)) (Q(i := c # r)) L
      < weight M limit N (insert e E) Q L"
proof -
  have i: "i < N" using taken_station(1) [OF t a] .
  have e: "e \<notin> E" "event_weight M limit L e = 1" using t a by (auto simp: taken_def event_weight_def)
  show "weight M limit N E (Q(i := [])) L < weight M limit N (insert e E) Q L" if "tl (Q i) = []"
    using that fin e waiting_upd [OF i, of Q "[]" L] by (simp add: weight_def)
  have n: "Event t1 1 (num + 2) (StationLeave i) \<notin> E" "Event t1 1 (num + 1) (KundeLeave c) \<notin> E"
    using fresh_event [OF t, of t1 1 1] fresh_event [OF t, of t1 1 0] by auto
  show "weight M limit N (insert (Event t1 1 (num + 2) (StationLeave i)) (insert (Event t1 1 (num + 1) (KundeLeave c)) E)) (Q(i := c # r)) L
      < weight M limit N (insert e E) Q L" if q: "tl (Q i) = c # r"
  proof -
    have "L c \<noteq> []" using trans_station(5) [OF t a, of c] q by (simp add: waits_def)
    then obtain k where k: "length (L c) = Suc k" by (cases "L c") auto
    have "event_weight M limit L (Event t1 1 (num + 2) (StationLeave i)) = 1"
      "event_weight M limit L (Event t1 1 (num + 1) (KundeLeave c)) = 4 * k + 2" using k by (simp_all add: event_weight_def)
    then show ?thesis using q fin e n k waiting_upd [OF i, of Q "c # r" L] by (simp add: weight_def)
  qed
qed


lemma weight_cong:
  assumes inv: "sim_inv N K E Q L now num" and same: "\<And>c. c < K \<Longrightarrow> L' c = L c"
  shows "weight M limit N E Q L' = weight M limit N E Q L"
proof -
  have "event_weight M limit L' f = event_weight M limit L f" if "f \<in> E" for f
    using sim_invD(1) [OF inv that] same by (cases "eFun f") (auto simp: event_ok_def event_weight_def)
  moreover have "(\<Sum>c \<leftarrow> tl (Q i). 4 * length (L' c)) = (\<Sum>c \<leftarrow> tl (Q i). 4 * length (L c))" if "i < N" for i
  proof -
    have "set (tl (Q i)) \<subseteq> {..<K}" using sim_invD(2) [OF inv that] tl_mem [of _ "Q i"] by (auto simp: queue_ok_def)
    then show ?thesis using same by (intro arg_cong [of _ _ sum_list] map_cong) auto
  qed
  ultimately show ?thesis by (simp add: weight_def waiting_weight_def)
qed

end
