(* ===== verification/Supermarket.thy ===== *)
theory Supermarket
  imports EventInv
begin

text \<open>
  The supermarket simulation: the operations of \<open>KundIn.py\<close> and \<open>Station.py\<close> keep the invariant of \<open>EventInv\<close> and use up the work that
  is left, so that the simulation ends.
\<close>

section \<open>The state of the program\<close>

definition line :: "sim \<Rightarrow> nat \<Rightarrow> nat list" where
  "line s i = customer_queue (stations s ! i)"

definition stops :: "sim \<Rightarrow> nat \<Rightarrow> stop list" where
  "stops s c = station_list (kunden s ! c)"

definition stop_ok :: "nat \<Rightarrow> stop \<Rightarrow> bool" where
  "stop_ok N st \<longleftrightarrow> 0 \<le> fst st \<and> 0 \<le> fst (snd (snd st)) \<and> snd (snd (snd st)) < N"

text \<open>
  The shopping lists have at most \<open>M\<close> stops, ways and numbers of items are not negative, and customers of a type do not come
  all at once.
\<close>

definition data_ok :: "nat \<Rightarrow> sim \<Rightarrow> bool" where
  "data_ok M s \<longleftrightarrow> (\<forall>k \<in> set (kunden s). length (station_list k) \<le> M \<and> list_all (stop_ok (length (stations s))) (station_list k) \<and> 0 < time_between_customers k) \<and>
     (\<forall>st \<in> set (stations s). 0 \<le> item_time st)"

definition heap_ok :: "event list \<Rightarrow> bool" where
  "heap_ok q \<longleftrightarrow> sorted (map ekey q) \<and> distinct (map (owner_of \<circ> eFun) q)"

definition sim_ok :: "nat \<Rightarrow> sim \<Rightarrow> bool" where
  "sim_ok M s \<longleftrightarrow> heap_ok (event_queue s) \<and> data_ok M s \<and>
     sim_inv (length (stations s)) (length (kunden s)) (set (event_queue s)) (line s) (stops s) (simulation_time s) (event_number s)"

lemma event_simps [simp]:
  "simulation_time (new_event t p a s) = simulation_time s" "event_number (new_event t p a s) = event_number s + 1"
  "kunden (new_event t p a s) = kunden s" "stations (new_event t p a s) = stations s" "customer_list (new_event t p a s) = customer_list s"
  "set (event_queue (new_event t p a s)) = insert (Event t p (event_number s + 1) a) (set (event_queue s))"
  "line (new_event t p a s) = line s" "stops (new_event t p a s) = stops s" "data_ok M (new_event t p a s) = data_ok M s"
  by (simp_all add: new_event_def push_def set_insort_key line_def stops_def data_ok_def fun_eq_iff)

lemma kunde_simps [simp]:
  "simulation_time (set_kunde c f s) = simulation_time s" "event_number (set_kunde c f s) = event_number s"
  "event_queue (set_kunde c f s) = event_queue s" "stations (set_kunde c f s) = stations s"
  "length (kunden (set_kunde c f s)) = length (kunden s)" "line (set_kunde c f s) = line s"
  "c < length (kunden s) \<Longrightarrow> stops (set_kunde c f s) = (stops s)(c := station_list (f (kunden s ! c)))"
  "c < length (kunden s) \<Longrightarrow> kunden (set_kunde c f s) ! c = f (kunden s ! c)"
  by (auto simp: set_kunde_def line_def stops_def fun_eq_iff nth_list_update)

lemma station_simps [simp]:
  "simulation_time (set_station i f s) = simulation_time s" "event_number (set_station i f s) = event_number s"
  "event_queue (set_station i f s) = event_queue s" "kunden (set_station i f s) = kunden s"
  "length (stations (set_station i f s)) = length (stations s)" "stops (set_station i f s) = stops s"
  "i < length (stations s) \<Longrightarrow> line (set_station i f s) = (line s)(i := customer_queue (f (stations s ! i)))"
  "i < length (stations s) \<Longrightarrow> stations (set_station i f s) ! i = f (stations s ! i)"
  by (auto simp: set_station_def line_def stops_def fun_eq_iff nth_list_update)

lemma data_ok_station: "data_ok M s \<Longrightarrow> (\<And>st. item_time (f st) = item_time st) \<Longrightarrow> data_ok M (set_station i f s)"
  by (cases "i < length (stations s)") (auto simp: data_ok_def set_station_def list_update_beyond dest!: set_update_subset_insert [THEN subsetD])

lemma data_ok_kunde:
  assumes "data_ok M s" and "c < length (kunden s) \<Longrightarrow> \<exists>n. station_list (f (kunden s ! c)) = drop n (station_list (kunden s ! c))"
    and "\<And>k. time_between_customers (f k) = time_between_customers k"
  shows "data_ok M (set_kunde c f s)"
proof (cases "c < length (kunden s)")
  case True
  obtain n where n: "station_list (f (kunden s ! c)) = drop n (station_list (kunden s ! c))" using assms(2) [OF True] by auto
  have "length (station_list k) \<le> M \<and> list_all (stop_ok (length (stations s))) (station_list k) \<and> 0 < time_between_customers k"
    if k: "k \<in> set (kunden (set_kunde c f s))" for k
  proof -
    have "k = f (kunden s ! c) \<or> k \<in> set (kunden s)"
      using k set_update_subset_insert [of "kunden s" c "f (kunden s ! c)"] by (auto simp: set_kunde_def)
    then show ?thesis using assms(1,3) n nth_mem [OF True] by (fastforce simp: data_ok_def list_all_iff dest: in_set_dropD)
  qed
  then show ?thesis using assms(1) by (simp add: data_ok_def)
qed (use assms(1) in \<open>simp add: data_ok_def set_kunde_def list_update_beyond\<close>)

lemma same_stops: "\<exists>n. xs = drop n xs"
  by (rule exI [of _ 0]) simp

lemma fewer_stops: "\<exists>n. tl xs = drop n xs"
  by (rule exI [of _ 1]) (simp add: drop_Suc)

lemma heap_ok_new:
  assumes "heap_ok (event_queue s)" and "\<And>f. f \<in> set (event_queue s) \<Longrightarrow> owner_of (eFun f) \<noteq> owner_of a"
  shows "heap_ok (event_queue (new_event t p a s))"
proof -
  let ?e = "Event t p (event_number s + 1) a" and ?q = "event_queue s"
  have "mset (map (owner_of \<circ> eFun) (push ?e ?q)) = mset (owner_of a # map (owner_of \<circ> eFun) ?q)"
    by (simp add: mset_push)
  then have "distinct (map (owner_of \<circ> eFun) (push ?e ?q)) \<longleftrightarrow> distinct (owner_of a # map (owner_of \<circ> eFun) ?q)"
    by (rule mset_eq_imp_distinct_iff)
  moreover have "owner_of a \<notin> set (map (owner_of \<circ> eFun) ?q)" using assms(2) by force
  ultimately show ?thesis
    using assms(1) events.enter_heap [of ?q ?e] by (simp add: heap_ok_def new_event_def)
qed

lemma sim_ok_taken:
  assumes "sim_ok M s" and "event_queue s = e # q"
  shows "taken (length (stations s)) (length (kunden s)) e (set q) (line s) (stops s) (simulation_time s) (event_number s)"
    and "heap_ok q"
proof -
  have "e \<notin> set q" using assms by (auto simp: sim_ok_def heap_ok_def)
  then show "taken (length (stations s)) (length (kunden s)) e (set q) (line s) (stops s) (simulation_time s) (event_number s)"
    using assms by (auto simp: sim_ok_def heap_ok_def taken_def)
  show "heap_ok q" using assms by (auto simp: sim_ok_def heap_ok_def)
qed

text \<open>The state in which the function of the event \<open>e\<close> is called.\<close>

abbreviation called :: "sim \<Rightarrow> event \<Rightarrow> event list \<Rightarrow> sim" where
  "called s e q \<equiv> s\<lparr>event_queue := q, simulation_time := eTime e\<rparr>"

lemma called_simps [simp]: "line (called s e q) = line s" "stops (called s e q) = stops s" "data_ok M (called s e q) = data_ok M s"
  by (simp_all add: line_def stops_def data_ok_def fun_eq_iff)

lemma first_stop:
  assumes "data_ok M s" and "c < length (kunden s)"
  shows "stops s c = [] \<and> py_nth (station_list (kunden s ! c)) 0 = Inl IndexError \<or>
    (\<exists>way tol items i l. stops s c = (way, tol, items, i) # l \<and> py_nth (station_list (kunden s ! c)) 0 = Inr (way, tol, items, i) \<and>
      0 \<le> way \<and> 0 \<le> items \<and> i < length (stations s) \<and> target (stops s c) = i)"
proof (cases "stops s c")
  case (Cons x l)
  have "kunden s ! c \<in> set (kunden s)" using assms(2) by simp
  then have "stop_ok (length (stations s)) x" using assms(1) Cons by (auto simp: data_ok_def stops_def list_all_iff)
  then show ?thesis using Cons by (cases x) (auto simp: stop_ok_def target_def stops_def py_nth_def)
qed (simp add: stops_def py_nth_def)

text \<open>An event has been handled: the invariant holds, the clock shows the time of the event, and there is less to do.\<close>

definition potential :: "nat \<Rightarrow> int \<Rightarrow> sim \<Rightarrow> nat" where
  "potential M limit s = weight M limit (length (stations s)) (set (event_queue s)) (line s) (stops s)"

definition moved :: "nat \<Rightarrow> int \<Rightarrow> sim \<Rightarrow> event \<Rightarrow> sim \<Rightarrow> bool" where
  "moved M limit s e t \<longleftrightarrow> sim_ok M t \<and> simulation_time t = eTime e \<and> (eTime e < limit \<longrightarrow> potential M limit t < potential M limit s)"

lemma begin_ok:
  assumes ok: "sim_ok M s" and q: "event_queue s = e # q" and a: "eFun e = Begin c"
  shows "\<exists>t. begin_shopping c (called s e q) = Inr t \<and> moved M limit s e t"
proof -
  let ?s = "called s e q" and ?K = "length (kunden s)" and ?k = "kunden s ! c"
  note tk = sim_ok_taken(1) [OF ok q] and hq = sim_ok_taken(2) [OF ok q]
  have d: "data_ok M s" using ok by (simp add: sim_ok_def)
  have c: "c < ?K" "stops s c \<noteq> []" using sim_invD(1) [OF taken_inv [OF tk], of e] a by (auto simp: event_ok_def)
  then obtain way tol items i l where st: "stops s c = (way, tol, items, i) # l" "py_nth (station_list ?k) 0 = Inr (way, tol, items, i)"
      "0 \<le> way" using first_stop [OF d c(1)] by auto
  have kin: "?k \<in> set (kunden s)" using c(1) by simp
  then have tbc: "0 < time_between_customers ?k" and M: "length (stops s c) \<le> M" using d by (simp_all add: data_ok_def stops_def)
  define nk where "nk = (new_kundin (station_list ?k) (time_between_customers ?k) (kind_name ?k) (eTime e))\<lparr>number := number ?k + 1\<rparr>"
  define u where "u = ?s\<lparr>customer_list := customer_list s @ [c], kunden := kunden s @ [nk]\<rparr>"
  define t where "t = new_event (eTime e + way) 3 (Arrive c) (new_event (eTime e + time_between_customers ?k) 2 (Begin ?K) u)"
  have run: "begin_shopping c ?s = Inr t" using st(2) by (simp add: begin_shopping_def Let_def t_def u_def nk_def)
  have noc: "owner_of (eFun f) \<noteq> Kunde c \<and> owner_of (eFun f) \<noteq> Kunde ?K" if "f \<in> set q" for f
    using taken_owner [OF tk that] a sim_invD(1) [OF taken_inv [OF tk], of f] that
    by (cases "eFun f") (auto simp: event_ok_def)
  have u: "event_queue u = q" "event_number u = event_number s" "stations u = stations s" "line u = line s" "simulation_time u = eTime e"
      "length (kunden u) = Suc ?K" by (simp_all add: u_def line_def fun_eq_iff)
  have su: "stops u d = ((stops s)(?K := stops s c)) d" if "d < Suc ?K" for d
    using that by (auto simp: stops_def u_def nk_def new_kundin_def nth_append)
  have hu: "heap_ok (event_queue (new_event (eTime e + time_between_customers ?k) 2 (Begin ?K) u))"
    by (rule heap_ok_new) (use hq noc u(1) in auto)
  have ht: "heap_ok (event_queue t)"
    unfolding t_def by (rule heap_ok_new [OF hu]) (use noc u(1) c(1) in auto)
  have dt: "data_ok M t" using d tbc kin by (simp add: t_def data_ok_def u_def nk_def new_kundin_def)
  let ?E = "insert (Event (eTime e + way) 3 (event_number s + 2) (Arrive c))
      (insert (Event (eTime e + time_between_customers ?k) 2 (event_number s + 1) (Begin ?K)) (set q))"
  have inv: "sim_inv (length (stations s)) (Suc ?K) ?E (line s) ((stops s)(?K := stops s c)) (eTime e) (event_number s + 2)"
    by (rule trans_begin [OF tk a]) (use tbc st(3) in auto)
  have "sim_ok M t" using sim_inv_cong [OF inv, of "line s" "stops u"] su ht dt u by (simp add: sim_ok_def t_def)
  moreover have "potential M limit t < potential M limit s" if lim: "eTime e < limit"
  proof -
    have "weight M limit (length (stations s)) ?E (line s) (stops u) = weight M limit (length (stations s)) ?E (line s) ((stops s)(?K := stops s c))"
      by (rule weight_cong [OF inv su])
    then show ?thesis
      using weight_begin [OF tk _ a lim _ M, of "eTime e + time_between_customers ?k" "eTime e + way"] tbc u q by (simp add: potential_def t_def)
  qed
  ultimately show ?thesis using run u(5) by (simp add: moved_def) (simp add: t_def)
qed

lemma serve_run:
  assumes "data_ok M s" and "i < length (stations s)" and "line s i = c # r" and "c < length (kunden s)" and "stops s c \<noteq> []"
  obtains t1 where "simulation_time s \<le> t1"
    and "serve i s = Inr (new_event t1 1 (StationLeave i) (new_event t1 1 (KundeLeave c) s))"
proof -
  obtain way tol items j l where st: "py_nth (station_list (kunden s ! c)) 0 = Inr (way, tol, items, j)" "0 \<le> items"
    using first_stop [OF assms(1,4)] assms(5) by auto
  have "0 \<le> item_time (stations s ! i)" using assms(1,2) by (simp add: data_ok_def)
  then have "simulation_time s \<le> simulation_time s + items * item_time (stations s ! i)" using st(2) by simp
  moreover have "serve i s = Inr (new_event (simulation_time s + items * item_time (stations s ! i)) 1 (StationLeave i)
      (new_event (simulation_time s + items * item_time (stations s ! i)) 1 (KundeLeave c) s))"
    using assms(3) st(1) by (simp add: serve_def line_def Let_def)
  ultimately show ?thesis by (rule that)
qed

lemma served_ok:
  assumes h: "heap_ok (event_queue s)" and d: "data_ok M s"
    and new: "\<And>f. f \<in> set (event_queue s) \<Longrightarrow> owner_of (eFun f) \<noteq> Kunde c \<and> owner_of (eFun f) \<noteq> Stat i"
    and inv: "sim_inv (length (stations s)) (length (kunden s)) (insert (Event t1 1 (event_number s + 2) (StationLeave i))
      (insert (Event t1 1 (event_number s + 1) (KundeLeave c)) (set (event_queue s)))) (line s) (stops s) (simulation_time s) (event_number s + 2)"
  shows "sim_ok M (new_event t1 1 (StationLeave i) (new_event t1 1 (KundeLeave c) s))"
proof -
  have "heap_ok (event_queue (new_event t1 1 (KundeLeave c) s))" by (rule heap_ok_new [OF h]) (use new in auto)
  then have "heap_ok (event_queue (new_event t1 1 (StationLeave i) (new_event t1 1 (KundeLeave c) s)))"
    by (rule heap_ok_new) (use new in auto)
  then show ?thesis using d inv by (simp add: sim_ok_def)
qed

text \<open>A customer finds the queue of the station too long and goes on.\<close>

lemma pass_ok:
  assumes ok: "sim_ok M s" and q: "event_queue s = e # q" and a: "eFun e = Arrive c" and c: "stops s c = (way, tol, items, i) # l"
    and way: "0 \<le> way" and i: "i < length (stations s)" and du: "data_ok M u"
    and u: "line u = line s" "stops u = stops s" "stations u = stations s" "length (kunden u) = length (kunden s)" "event_queue u = q"
      "simulation_time u = eTime e" "event_number u = event_number s"
  shows "moved M limit s e (new_event (eTime e + way) 3 (Arrive c)
    (set_kunde c (\<lambda>k. k\<lparr>skipped_station := True, station_list := tl (station_list k)\<rparr>) (set_station i add_skipped u)))"
    (is "moved M limit s e (new_event ?t 3 ?a ?v)")
proof -
  note tk = sim_ok_taken(1) [OF ok q] and hq = sim_ok_taken(2) [OF ok q]
  have cK: "c < length (kunden s)" using sim_invD(1) [OF taken_inv [OF tk], of e] a by (auto simp: event_ok_def)
  have noc: "owner_of (eFun f) \<noteq> Kunde c" if "f \<in> set q" for f using taken_owner [OF tk that] a by simp
  have free: "c \<notin> set (line s j)" if "j < length (stations s)" for j by (rule taken_arrive_free [OF tk a that])
  have inv: "sim_inv (length (stations s)) (length (kunden s)) (insert (Event ?t 3 (event_number s + 1) ?a) (set q)) (line s)
      ((stops s)(c := tl (stops s c))) (eTime e) (event_number s + 1)"
    by (rule trans_on_the_way [OF tk _ _ cK]) (use a way free tl_mem hd_in_set in \<open>force+\<close>)
  have lv: "line (set_station i add_skipped u) = line s"
    using i u(1,3) by (auto simp: fun_eq_iff add_skipped_def line_def set_station_def nth_list_update)
  have v: "line ?v = line s" "stops ?v = (stops s)(c := tl (stops s c))" "length (stations ?v) = length (stations s)"
      "length (kunden ?v) = length (kunden s)" "event_queue ?v = q" "simulation_time ?v = eTime e" "event_number ?v = event_number s"
    using lv u cK by (simp_all add: stops_def [of u, symmetric] fun_eq_iff)
  have "data_ok M ?v" by (rule data_ok_kunde [OF data_ok_station [OF du]]) (auto simp: add_skipped_def intro: fewer_stops)
  moreover have "heap_ok (event_queue (new_event ?t 3 ?a ?v))" by (rule heap_ok_new) (use hq v(5) noc in auto)
  ultimately have "sim_ok M (new_event ?t 3 ?a ?v)" using inv v by (simp add: sim_ok_def)
  moreover have "potential M limit (new_event ?t 3 ?a ?v) < potential M limit s"
    using weight_on_the_way(1) [OF tk, of c M limit ?t] a c free tl_mem v q by (force simp: potential_def)
  ultimately show ?thesis using v(6) by (simp add: moved_def)
qed

text \<open>A customer joins the queue, and is served at once when nobody else is there.\<close>

lemma join_ok:
  assumes ok: "sim_ok M s" and q: "event_queue s = e # q" and a: "eFun e = Arrive c" and c: "stops s c \<noteq> []" "target (stops s c) = i"
    and i: "i < length (stations s)" and dv: "data_ok M v"
    and v: "line v = (line s)(i := line s i @ [c])" "stops v = stops s" "length (stations v) = length (stations s)"
      "length (kunden v) = length (kunden s)" "event_queue v = q" "simulation_time v = eTime e" "event_number v = event_number s"
  shows "\<exists>t. (if length (line v i) \<le> 1 then serve i v else Inr v) = Inr t \<and> moved M limit s e t"
proof -
  note tk = sim_ok_taken(1) [OF ok q] and hq = sim_ok_taken(2) [OF ok q]
  note inv = taken_inv [OF tk]
  have cK: "c < length (kunden s)" using sim_invD(1) [OF inv, of e] a by (auto simp: event_ok_def)
  have noc: "owner_of (eFun f) \<noteq> Kunde c" if "f \<in> set q" for f using taken_owner [OF tk that] a by simp
  show ?thesis
  proof (cases "line s i = []")
    case True
    have lv: "line v i = [c]" using v(1) True by simp
    obtain t1 where t1: "eTime e \<le> t1" "serve i v = Inr (new_event t1 1 (StationLeave i) (new_event t1 1 (KundeLeave c) v))"
      using serve_run [OF dv, of i c "[]"] lv v(2-4,6) i c cK by auto
    let ?t = "new_event t1 1 (StationLeave i) (new_event t1 1 (KundeLeave c) v)"
    have st: "owner_of (eFun f) \<noteq> Stat i" if "f \<in> set q" for f
      using station_event [OF inv, of f i] that True by (cases "eFun f") auto
    have "sim_ok M ?t"
      by (rule served_ok [OF _ dv]) (use hq noc st v trans_arrive_empty [OF tk a i True c t1(1)] True in auto)
    moreover have "potential M limit ?t < potential M limit s"
      using weight_arrive(1) [OF tk _ a i c(1) True, of M limit t1] v True q by (simp add: potential_def)
    ultimately show ?thesis using lv t1(2) v(6) by (auto simp: moved_def)
  next
    case False
    have "sim_ok M v" using trans_arrive_wait [OF tk a i False c] hq dv v by (simp add: sim_ok_def)
    moreover have "potential M limit v < potential M limit s"
      using weight_arrive(2) [OF tk _ a i c(1) False, of M limit] v q by (simp add: potential_def)
    moreover have "\<not> length (line v i) \<le> 1" using v(1) False by (cases "line s i") auto
    ultimately show ?thesis using v(6) by (auto simp: moved_def)
  qed
qed

lemma arrive_ok:
  assumes ok: "sim_ok M s" and q: "event_queue s = e # q" and a: "eFun e = Arrive c"
  shows "arrive c (called s e q) = Inl IndexError \<and> stops s c = [] \<or>
    (\<exists>t. arrive c (called s e q) = Inr t \<and> stops s c \<noteq> [] \<and> moved M limit s e t)"
proof -
  let ?N = "length (stations s)" and ?K = "length (kunden s)"
  have d: "data_ok M s" using ok by (simp add: sim_ok_def)
  have c: "c < ?K" using sim_invD(1) [OF taken_inv [OF sim_ok_taken(1) [OF ok q]], of e] a by (auto simp: event_ok_def)
  define u where "u = set_kunde c (\<lambda>k. k\<lparr>time_end := eTime e\<rparr>) (called s e q)"
  have u: "line u = line s" "stops u = stops s" "stations u = stations s" "length (kunden u) = ?K" "event_queue u = q"
      "simulation_time u = eTime e" "event_number u = event_number s" "station_list (kunden u ! c) = stops s c"
    using c by (auto simp: u_def fun_eq_iff stops_def set_kunde_def nth_list_update line_def)
  have du: "data_ok M u" unfolding u_def by (rule data_ok_kunde) (use d in \<open>auto intro: same_stops\<close>)
  from first_stop [OF du, of c] c u(2,4) consider
      "stops s c = []" "py_nth (station_list (kunden u ! c)) 0 = Inl IndexError"
    | way tol items i l where "stops s c = (way, tol, items, i) # l" "py_nth (station_list (kunden u ! c)) 0 = Inr (way, tol, items, i)"
        "0 \<le> way" "i < ?N" "target (stops s c) = i" using u(3) by fastforce
  then show ?thesis
  proof cases
    case 1
    then show ?thesis by (simp add: arrive_def Let_def u_def)
  next
    case (2 way tol items i l)
    show ?thesis
    proof (cases "int (length (line s i)) \<le> tol")
      case False
      then show ?thesis
        using 2 pass_ok [OF ok q a 2(1,3,4) du u(1-7), of limit]
        by (simp add: arrive_def Let_def u_def [symmetric] line_def u(1,3,6))
    next
      case True
      define v where "v = set_station i (\<lambda>st. add_customer (st\<lparr>customer_queue := customer_queue st @ [c]\<rparr>)) u"
      have v: "line v = (line s)(i := line s i @ [c])" "stops v = stops s" "length (stations v) = ?N" "length (kunden v) = ?K"
          "event_queue v = q" "simulation_time v = eTime e" "event_number v = event_number s"
        using u 2(4) by (auto simp: v_def add_customer_def line_def fun_eq_iff)
      have dv: "data_ok M v" unfolding v_def by (rule data_ok_station [OF du]) (simp add: add_customer_def)
      have run: "arrive c (called s e q) = (if length (line v i) \<le> 1 then serve i v else Inr v)"
        using 2 True u(1,3) by (simp add: arrive_def Let_def u_def [symmetric] queue_def v_def [symmetric] line_def)
      show ?thesis using join_ok [OF ok q a _ 2(5,4) dv v, of limit] 2(1) run by simp
    qed
  qed
qed

lemma leave_ok:
  assumes ok: "sim_ok M s" and q: "event_queue s = e # q" and a: "eFun e = KundeLeave c"
  shows "\<exists>t. leave c (called s e q) = Inr t \<and> moved M limit s e t"
proof -
  let ?N = "length (stations s)" and ?K = "length (kunden s)"
  note tk = sim_ok_taken(1) [OF ok q] and hq = sim_ok_taken(2) [OF ok q]
  note lv = taken_leave [OF tk a] and pl = leaver_place [OF tk a]
  note less = weight_on_the_way [OF tk finite_set disjI2 [OF a] lv(2) pl(1), of M limit]
  have d: "data_ok M s" using ok by (simp add: sim_ok_def)
  have noc: "owner_of (eFun f) \<noteq> Kunde c" if "f \<in> set q" for f using taken_owner [OF tk that] a by simp
  obtain x l where xl: "stops s c = x # l" using lv(2) by (cases "stops s c") auto
  define u where "u = set_kunde c (\<lambda>k. k\<lparr>time_end := eTime e\<rparr>) (called s e q)"
  define v where "v = set_kunde c (\<lambda>k. k\<lparr>station_list := l\<rparr>) u"
  have sl: "station_list (kunden u ! c) = x # l" using lv(1) xl by (simp add: stops_def u_def)
  have v: "line v = line s" "stops v = (stops s)(c := l)" "stations v = stations s" "length (kunden v) = ?K" "event_queue v = q"
      "simulation_time v = eTime e" "event_number v = event_number s"
    using lv(1) by (auto simp: v_def u_def)
  have "data_ok M u" unfolding u_def by (rule data_ok_kunde) (use d in \<open>auto intro: same_stops\<close>)
  then have dv: "data_ok M v" unfolding v_def by (rule data_ok_kunde) (use sl fewer_stops [of "x # l"] in auto)
  show ?thesis
  proof (cases l)
    case Nil
    let ?t = "set_kunde c (\<lambda>k. k\<lparr>full_purchase := \<not> skipped_station k\<rparr>) v"
    have run: "leave c (called s e q) = Inr ?t" using sl Nil by (simp add: leave_def Let_def v_def u_def)
    have "sim_inv ?N ?K (set q) (line s) ((stops s)(c := tl (stops s c))) (eTime e) (event_number s)"
      by (rule trans_home [OF tk _ pl(1)]) (use a in simp)
    moreover have st: "stops ?t = (stops s)(c := l)" using lv(1) v(2,4) by (simp add: stops_def fun_eq_iff)
    moreover have "data_ok M ?t" by (rule data_ok_kunde [OF dv]) (auto intro: same_stops)
    ultimately have "sim_ok M ?t" using hq v xl by (simp add: sim_ok_def)
    moreover have "potential M limit ?t < potential M limit s" using less(2) v xl st q by (simp add: potential_def)
    ultimately show ?thesis using run v(6) by (simp add: moved_def)
  next
    case (Cons y l')
    obtain way r where y: "y = (way, r)" by (metis surj_pair)
    let ?t = "new_event (eTime e + way) 3 (Arrive c) v"
    have run: "leave c (called s e q) = Inr ?t" using sl Cons y by (simp add: leave_def Let_def v_def u_def)
    have way: "0 \<le> way" using first_stop [OF dv, of c] lv(1) v(2,4) Cons y by auto
    have "sim_inv ?N ?K (insert (Event (eTime e + way) 3 (event_number s + 1) (Arrive c)) (set q)) (line s) ((stops s)(c := tl (stops s c)))
        (eTime e) (event_number s + 1)"
      by (rule trans_on_the_way [OF tk _ _ lv(1) pl(1) pl(2)]) (use a way in auto)
    moreover have "heap_ok (event_queue ?t)" by (rule heap_ok_new) (use hq v(5) noc in auto)
    ultimately have "sim_ok M ?t" using dv v xl by (simp add: sim_ok_def)
    moreover have "potential M limit ?t < potential M limit s" using less(1) v xl q by (simp add: potential_def)
    ultimately show ?thesis using run v(6) by (simp add: moved_def)
  qed
qed

lemma station_leave_ok:
  assumes ok: "sim_ok M s" and q: "event_queue s = e # q" and a: "eFun e = StationLeave i"
  shows "\<exists>t. station_leave i (called s e q) = Inr t \<and> moved M limit s e t"
proof -
  let ?N = "length (stations s)" and ?K = "length (kunden s)"
  note tk = sim_ok_taken(1) [OF ok q] and hq = sim_ok_taken(2) [OF ok q]
  note st = taken_station [OF tk a] and inv = taken_inv [OF tk] and less = weight_station [OF tk finite_set a]
  have d: "data_ok M s" using ok by (simp add: sim_ok_def)
  define v where "v = set_station i (\<lambda>st. st\<lparr>customer_queue := tl (line s i)\<rparr>) (called s e q)"
  have v: "line v = (line s)(i := tl (line s i))" "stops v = stops s" "length (stations v) = ?N" "length (kunden v) = ?K"
      "event_queue v = q" "simulation_time v = eTime e" "event_number v = event_number s"
    using st(1) by (auto simp: v_def)
  have dv: "data_ok M v" unfolding v_def by (rule data_ok_station) (use d in auto)
  have run: "station_leave i (called s e q) = serve i v"
    using st(2) by (cases "line s i") (simp_all add: station_leave_def v_def line_def py_pop_def remove_nth_def)
  show ?thesis
  proof (cases "tl (line s i)")
    case Nil
    have "serve i v = Inr v" using v(1) Nil by (simp add: serve_def line_def [symmetric])
    moreover have "sim_ok M v" using trans_station_last [OF tk a Nil] hq dv v Nil by (simp add: sim_ok_def)
    moreover have "potential M limit v < potential M limit s" using less(1) Nil v q by (simp add: potential_def)
    ultimately show ?thesis using run v(6) by (simp add: moved_def)
  next
    case (Cons c r)
    note tr = trans_station(4,5) [OF tk a]
    have w: "waits (set q) (stops s) i c" using tr(2) Cons by simp
    have "c \<in> set (line s i)" using tl_mem [of c "line s i"] Cons by simp
    then have c: "c < ?K" using sim_invD(2) [OF inv st(1)] by (auto simp: queue_ok_def)
    have "line v i = c # r" using v(1) Cons by simp
    then obtain t1 where t1: "eTime e \<le> t1" "serve i v = Inr (new_event t1 1 (StationLeave i) (new_event t1 1 (KundeLeave c) v))"
      using serve_run [OF dv, of i c r] v(2-4,6) st(1) c w by (auto simp: waits_def)
    let ?t = "new_event t1 1 (StationLeave i) (new_event t1 1 (KundeLeave c) v)"
    have "owner_of (eFun f) \<noteq> Kunde c \<and> owner_of (eFun f) \<noteq> Stat i" if "f \<in> set q" for f
      using w tr(1) [OF that] that by (cases "eFun f") (auto simp: waits_def)
    then have "sim_ok M ?t" by (intro served_ok [OF _ dv]) (use trans_station_next [OF tk a Cons t1(1)] hq v Cons in auto)
    moreover have "potential M limit ?t < potential M limit s" using less(2) [OF Cons, of M limit t1] Cons v q by (simp add: potential_def)
    ultimately show ?thesis using run t1(2) v(6) by (simp add: moved_def)
  qed
qed

text \<open>The only exception is the one of a customer who has passed the last station of the list and arrives nowhere.\<close>

definition arrives_nowhere :: "sim \<Rightarrow> bool" where
  "arrives_nowhere s \<longleftrightarrow> (case event_queue s of [] \<Rightarrow> False | e # q \<Rightarrow> (case eFun e of Arrive c \<Rightarrow> stops s c = [] | _ \<Rightarrow> False))"

lemma step_ok:
  assumes ok: "sim_ok M s" and q: "event_queue s = e # q"
  shows "simulation_time s \<le> eTime e \<and>
    (if arrives_nowhere s then step s = Inl IndexError else \<exists>t. step s = Inr t \<and> moved M limit s e t)"
proof -
  have run: "step s = perform (eFun e) (called s e q)" by (simp add: step_def q)
  have "simulation_time s \<le> eTime e" using ok q sim_invD(5) [of _ _ "set (event_queue s)"] by (force simp: sim_ok_def)
  then show ?thesis
    using run q begin_ok [OF ok q, of _ limit] arrive_ok [OF ok q, of _ limit] leave_ok [OF ok q, of _ limit] station_leave_ok [OF ok q, of _ limit]
    by (cases "eFun e") (auto simp: arrives_nowhere_def)
qed

definition steps_left :: "nat \<Rightarrow> int \<Rightarrow> sim \<Rightarrow> nat" where
  "steps_left M limit s = (if simulation_time s < limit then Suc (potential M limit s) else 0)"

interpretation simulation: failing_loop "goes_on limit" step "sim_ok M" "steps_left M limit" IndexError for limit M
proof
  fix s assume s: "sim_ok M s" "goes_on limit s"
  then obtain e q where q: "event_queue s = e # q" by (auto simp: goes_on_def neq_Nil_conv)
  show "step s = Inl IndexError \<or> (\<exists>t. step s = Inr t \<and> sim_ok M t \<and> steps_left M limit t < steps_left M limit s)"
    using step_ok [OF s(1) q, of limit] s(2) by (auto simp: moved_def steps_left_def goes_on_def split: if_splits)
qed

section \<open>Correctness of the simulation\<close>

text \<open>The states in which the simulation begins: empty queues, and one begin event for some customers with shopping lists.\<close>

definition shop_opens :: "nat \<Rightarrow> sim \<Rightarrow> bool" where
  "shop_opens M s \<longleftrightarrow> data_ok M s \<and> heap_ok (event_queue s) \<and> (\<forall>st \<in> set (stations s). customer_queue st = []) \<and>
     list_all (\<lambda>e. simulation_time s \<le> eTime e \<and> eNum e \<le> event_number s \<and>
       (case eFun e of Begin c \<Rightarrow> c < length (kunden s) \<and> stops s c \<noteq> [] | _ \<Rightarrow> False)) (event_queue s)"

lemma shop_opens_ok:
  assumes o: "shop_opens M s"
  shows "sim_ok M s"
proof -
  have line: "line s i = []" if "i < length (stations s)" for i using o that by (simp add: shop_opens_def line_def)
  have ev: "\<exists>c. eFun f = Begin c \<and> c < length (kunden s) \<and> stops s c \<noteq> []" if "f \<in> set (event_queue s)" for f
    using o that by (cases "eFun f") (auto simp: shop_opens_def list_all_iff dest!: bspec [OF _ that])
  have "sim_inv (length (stations s)) (length (kunden s)) (set (event_queue s)) (line s) (stops s) (simulation_time s) (event_number s)"
  proof (rule sim_invI)
    fix f assume f: "f \<in> set (event_queue s)"
    show "event_ok (length (stations s)) (length (kunden s)) (set (event_queue s)) (line s) (stops s) f"
      using ev [OF f] line by (auto simp: event_ok_def)
    show "simulation_time s \<le> eTime f \<and> eNum f \<le> event_number s" using o f by (simp add: shop_opens_def list_all_iff)
    fix g assume "g \<in> set (event_queue s)" "owner_of (eFun f) = owner_of (eFun g)"
    with o f show "f = g" by (simp add: shop_opens_def heap_ok_def distinct_map inj_on_def)
  qed (simp_all add: line queue_ok_def)
  then show ?thesis using o by (simp add: sim_ok_def shop_opens_def)
qed

inductive sim_reach :: "int \<Rightarrow> sim \<Rightarrow> sim \<Rightarrow> bool" for limit s0 where
  reach_start: "sim_reach limit s0 s0"
| reach_step: "sim_reach limit s0 s \<Longrightarrow> goes_on limit s \<Longrightarrow> step s = Inr t \<Longrightarrow> sim_reach limit s0 t"

lemma sim_reach_ok:
  assumes "sim_reach limit s0 s" and "sim_ok M s0"
  shows "sim_ok M s"
  using assms
proof induction
  case (reach_step s t)
  then obtain e q where "event_queue s = e # q" by (auto simp: goes_on_def neq_Nil_conv)
  then show ?case using step_ok [of M s e q limit] reach_step by (auto simp: moved_def split: if_splits)
qed simp

lemma sim_ok_queues:
  assumes ok: "sim_ok M s"
  shows "i < length (stations s) \<Longrightarrow> distinct (line s i)"
    and "i < length (stations s) \<Longrightarrow> j < length (stations s) \<Longrightarrow> i \<noteq> j \<Longrightarrow> set (line s i) \<inter> set (line s j) = {}"
    and "i < length (stations s) \<Longrightarrow> line s i \<noteq> [] \<longleftrightarrow> StationLeave i \<in> eFun ` set (event_queue s)"
    and "i < length (stations s) \<Longrightarrow> c \<in> set (tl (line s i)) \<Longrightarrow> f \<in> set (event_queue s) \<Longrightarrow> owner_of (eFun f) \<noteq> Kunde c"
proof -
  have inv: "sim_inv (length (stations s)) (length (kunden s)) (set (event_queue s)) (line s) (stops s) (simulation_time s) (event_number s)"
    using ok by (simp add: sim_ok_def)
  note q = sim_invD(2) [OF inv]
  show "i < length (stations s) \<Longrightarrow> distinct (line s i)" using q [of i] by (simp add: queue_ok_def)
  show "i < length (stations s) \<Longrightarrow> j < length (stations s) \<Longrightarrow> i \<noteq> j \<Longrightarrow> set (line s i) \<inter> set (line s j) = {}"
    using sim_invD(3) [OF inv, of i j] by blast
  show "i < length (stations s) \<Longrightarrow> line s i \<noteq> [] \<longleftrightarrow> StationLeave i \<in> eFun ` set (event_queue s)"
    using q [of i] station_event [OF inv, of _ i] by (force simp: queue_ok_def)
  show "i < length (stations s) \<Longrightarrow> c \<in> set (tl (line s i)) \<Longrightarrow> f \<in> set (event_queue s) \<Longrightarrow> owner_of (eFun f) \<noteq> Kunde c"
    using q [of i] by (simp add: queue_ok_def waits_def)
qed

primrec run_steps :: "nat \<Rightarrow> int \<Rightarrow> sim \<Rightarrow> sim option" where
  "run_steps 0 limit s = Some s"
| "run_steps (Suc n) limit s =
     (case run_steps n limit s of
        None \<Rightarrow> None
      | Some t \<Rightarrow> if goes_on limit t then (case step t of Inl _ \<Rightarrow> None | Inr u \<Rightarrow> Some u) else None)"

lemma run_steps_reach: "run_steps n limit s = Some t \<Longrightarrow> sim_reach limit s t"
  by (induction n arbitrary: t) (auto intro: reach_start reach_step split: option.splits sum.splits if_splits)

lemma run_steps_the: "run_steps n limit s \<noteq> None \<Longrightarrow> sim_reach limit s (the (run_steps n limit s))"
  using run_steps_reach by auto

text \<open>A kiosk where nobody queues: its second customer passes the only station and arrives nowhere.\<close>

definition kiosk :: sim where
  "kiosk =
     new_event 0 2 (Begin 0)
       \<lparr>event_queue = [], event_number = 0, simulation_time = 0, customer_list = [],
        kunden = [new_kundin [(0, 0, 1, 0)] 1 ''A'' 0], stations = [new_station ''Kiosk'' 10]\<rparr>"

lemma supermarkt_opens: "shop_opens 4 supermarkt"
  by code_simp

lemma kiosk_opens: "shop_opens 1 kiosk"
  by code_simp

text \<open>
  C21: In every state the simulation reaches, no customer is twice in a queue or in two queues, a station has a pending leave event
  exactly when its queue is not empty, a customer who waits behind the head of a queue has no pending event, nobody has two, and
  no pending event lies in the past.
\<close>

theorem supermarket_invariant:
  assumes "shop_opens M s0" and "sim_reach limit s0 s"
  shows "(\<forall>i < length (stations s). distinct (line s i) \<and> (line s i \<noteq> [] \<longleftrightarrow> StationLeave i \<in> eFun ` set (event_queue s)) \<and>
      (\<forall>j < length (stations s). i \<noteq> j \<longrightarrow> set (line s i) \<inter> set (line s j) = {}) \<and>
      (\<forall>c \<in> set (tl (line s i)). Kunde c \<notin> (owner_of \<circ> eFun) ` set (event_queue s))) \<and>
    distinct (map (owner_of \<circ> eFun) (event_queue s)) \<and> list_all (\<lambda>e. simulation_time s \<le> eTime e) (event_queue s)"
proof -
  have ok: "sim_ok M s" by (rule sim_reach_ok [OF assms(2) shop_opens_ok [OF assms(1)]])
  note q = sim_ok_queues [OF ok]
  have "Kunde c \<notin> (owner_of \<circ> eFun) ` set (event_queue s)" if "i < length (stations s)" "c \<in> set (tl (line s i))" for i c
    using q(4) [OF that] by force
  moreover have "list_all (\<lambda>e. simulation_time s \<le> eTime e) (event_queue s)"
    using ok sim_invD(5) [of _ _ "set (event_queue s)"] by (auto simp: sim_ok_def list_all_iff)
  ultimately show ?thesis using q(1-3) ok by (auto simp: sim_ok_def heap_ok_def)
qed

theorem supermarket_invariant_witness:
  "distinct (map (owner_of \<circ> eFun) (event_queue (the (run_steps 7 3076 supermarkt)))) \<and>
   distinct (line (the (run_steps 7 3076 supermarkt)) 0) \<and> line (the (run_steps 7 3076 supermarkt)) 0 = [0]"
proof -
  have "run_steps 7 3076 supermarkt \<noteq> None" by code_simp
  note r = run_steps_the [OF this]
  have "length (stations (the (run_steps 7 3076 supermarkt))) = 4" "line (the (run_steps 7 3076 supermarkt)) 0 = [0]" by code_simp+
  then show ?thesis using supermarket_invariant [OF supermarkt_opens r] by simp
qed

text \<open>
  C17: The simulation comes to an end within \<open>steps_left\<close> rounds: it stops with an empty event list or at the time limit, or it
  fails with the IndexError of a customer who arrives nowhere.
\<close>

theorem supermarket_ends:
  assumes "shop_opens M s" and "steps_left M limit s < fuel"
  shows "start fuel limit s = Some (Inl IndexError) \<or>
    (\<exists>t. start fuel limit s = Some (Inr t) \<and> sim_ok M t \<and> (event_queue t = [] \<or> limit \<le> simulation_time t))"
  using simulation.loop_stops [OF shop_opens_ok [OF assms(1)] assms(2)] by (auto simp: start_def goes_on_def)

theorem supermarket_ends_witness:
  "start 8000 200 supermarkt = Some (Inl IndexError) \<or>
    (\<exists>t. start 8000 200 supermarkt = Some (Inr t) \<and> sim_ok 4 t \<and> (event_queue t = [] \<or> 200 \<le> simulation_time t))"
proof (rule supermarket_ends [OF supermarkt_opens])
  show "steps_left 4 200 supermarkt < 8000"
    by code_simp
qed

text \<open>
  In a reachable state the next step fails exactly when its event is the arrival of a customer whose list of stations is
  empty, which is where a customer gets who finds the queue of the last station too long.
\<close>

theorem supermarket_only_error:
  assumes "shop_opens M s0" and "sim_reach limit s0 s" and "event_queue s = e # q"
  shows "(if arrives_nowhere s then step s = Inl IndexError else \<exists>t. step s = Inr t \<and> simulation_time s \<le> simulation_time t) \<and>
    (eFun e = Arrive c \<and> stops s c = [(way, tol, items, i)] \<and> tol < int (length (line s i)) \<longrightarrow>
      (\<exists>t. step s = Inr t \<and> stops t c = [] \<and> Event (eTime e + way) 3 (event_number s + 1) (Arrive c) \<in> set (event_queue t)))"
proof -
  have ok: "sim_ok M s" by (rule sim_reach_ok [OF assms(2) shop_opens_ok [OF assms(1)]])
  note st = step_ok [OF ok assms(3), of limit]
  have "\<exists>t. step s = Inr t \<and> stops t c = [] \<and> Event (eTime e + way) 3 (event_number s + 1) (Arrive c) \<in> set (event_queue t)"
    if a: "eFun e = Arrive c" and c: "stops s c = [(way, tol, items, i)]" and long: "tol < int (length (line s i))"
  proof -
    have "c < length (kunden s)"
      using sim_invD(1) [OF taken_inv [OF sim_ok_taken(1) [OF ok assms(3)]], of e] a by (simp add: event_ok_def)
    then show ?thesis
      using a c long assms(3) by (simp add: step_def arrive_def Let_def stops_def line_def py_nth_def)
  qed
  with st show ?thesis by (auto simp: moved_def split: if_splits)
qed

theorem supermarket_only_error_witness:
  "arrives_nowhere (the (run_steps 4 100 kiosk)) \<and> step (the (run_steps 4 100 kiosk)) = Inl IndexError"
proof -
  have "run_steps 4 100 kiosk \<noteq> None" by code_simp
  note r = run_steps_the [OF this]
  have n: "arrives_nowhere (the (run_steps 4 100 kiosk))" by code_simp
  obtain e q where q: "event_queue (the (run_steps 4 100 kiosk)) = e # q"
    using n by (cases "event_queue (the (run_steps 4 100 kiosk))") (auto simp: arrives_nowhere_def)
  show ?thesis using supermarket_only_error [OF kiosk_opens r q] n by simp
qed

section \<open>The report\<close>

definition duration :: "sim \<Rightarrow> nat \<Rightarrow> int" where
  "duration s c = time_end (kunden s ! c) - time_begin (kunden s ! c)"

definition complete :: "sim \<Rightarrow> nat list" where
  "complete s = filter (\<lambda>c. full_purchase (kunden s ! c)) (customer_list s)"

definition visited :: "station \<Rightarrow> bool" where
  "visited st \<longleftrightarrow> 0 < amount_customer st + amount_skipped_customer st"

lemma count_customers:
  "customers (fold (\<lambda>c. count_customer (kunden s ! c)) cs t) = customers t + length cs"
  "shopping_time (fold (\<lambda>c. count_customer (kunden s ! c)) cs t) = shopping_time t + sum_list (map (duration s) cs)"
  "full_purchase_customers (fold (\<lambda>c. count_customer (kunden s ! c)) cs t)
     = full_purchase_customers t + length (filter (\<lambda>c. full_purchase (kunden s ! c)) cs)"
  "full_purchase_shopping_time (fold (\<lambda>c. count_customer (kunden s ! c)) cs t)
     = full_purchase_shopping_time t + sum_list (map (duration s) (filter (\<lambda>c. full_purchase (kunden s ! c)) cs))"
  by (induction cs arbitrary: t) (auto simp: count_customer_def duration_def Let_def)

lemma drop_percentages_all:
  "drop_percentages sts = (if list_all visited sts
     then Inr (map (\<lambda>st. of_nat (amount_skipped_customer st) / of_nat (amount_customer st + amount_skipped_customer st) * 100) sts)
     else Inl ZeroDivisionError)"
  by (induction sts) (auto simp: get_drop_percentage_def average_def visited_def)

text \<open>
  The report gives the exact averages over the customers who began and over those who bought everything; it fails with a
  ZeroDivisionError when nobody has completed a purchase or when a station has had no visitor.
\<close>

theorem log_reports:
  "log s = (if complete s \<noteq> [] \<and> list_all visited (stations s)
     then Inr (simulation_time s, length (customer_list s), length (complete s),
       of_int (sum_list (map (duration s) (customer_list s))) / of_nat (length (customer_list s)),
       of_int (sum_list (map (duration s) (complete s))) / of_nat (length (complete s)),
       map (\<lambda>st. of_nat (amount_skipped_customer st) / of_nat (amount_customer st + amount_skipped_customer st) * 100) (stations s))
     else Inl ZeroDivisionError)"
  by (auto simp: log_def Let_def count_customers average_def drop_percentages_all complete_def [symmetric])
    (auto simp: complete_def)

end
