(* ===== verification/Disk.thy ===== *)
theory Disk
  imports PyString
begin

text \<open>
  The disk simulator, \<open>src/Sem3/BSYS/37_HDD/disk.py\<close>, in its mode without graphics: the block layout with zones and skew, the request
  list, the seek, rotation and transfer of a request, the policies FIFO, SSTF, SATF and BSATF with the scheduling window, late
  requests and the accounting.

  The fields of the class that no method changes after \<open>__init__\<close> are in the record \<open>dcfg\<close>, the others in \<open>disk\<close>; an attribute that \<open>__init__\<close>
  does not set is an option. Floats are exact rationals. The coordinates that are only drawn (\<open>armX2\<close>, \<open>headX1\<close>, the colours) are left
  out: with \<open>graphics\<close> off nothing reads them.
\<close>

section \<open>Block layout\<close>

text \<open>A request that was given as text stays text in the list of the late requests.\<close>

datatype blockid = Block int | Text string

datatype dstate = STATE_NULL | STATE_SEEK | STATE_ROTATE | STATE_XFER | STATE_DONE

record layout =
  blockInfoList :: "(int \<times> int \<times> int) list"
  blockToTrackMap :: "int \<rightharpoonup> int"
  blockToAngleMap :: "int \<rightharpoonup> int"
  tracksBeginEnd :: "int \<rightharpoonup> int \<times> int"
  blockAngleOffset :: "int list"
  maxBlock :: int

text \<open>\<open>range(0, 360, step)\<close>.\<close>

definition angles :: "int \<Rightarrow> int list res" where
  "angles step = (if step = 0 then Inl ValueError
     else Inr (map (\<lambda>k. int k * step) [0..<nat ((359 + step) div step)]))"

definition put_block :: "int \<Rightarrow> int \<Rightarrow> int \<Rightarrow> int \<Rightarrow> int \<Rightarrow> layout \<times> int option \<Rightarrow> layout \<times> int option" where
  "put_block track angleOffset skew pblock ang = (\<lambda>(l, _).
     let block = ang div angleOffset + pblock; a = ang + angleOffset * skew in
     (l\<lparr>blockToTrackMap := (blockToTrackMap l)(block \<mapsto> track), blockToAngleMap := (blockToAngleMap l)(block \<mapsto> a),
        blockInfoList := blockInfoList l @ [(track, a, block)]\<rparr>, Some block))"

text \<open>One track. The loop variable \<open>block\<close> keeps its value after the loop, and is unbound when no loop has run yet.\<close>

definition lay_track :: "int \<Rightarrow> int \<Rightarrow> int \<Rightarrow> layout \<times> int option \<Rightarrow> (layout \<times> int option) res" where
  "lay_track track skew pblock lb =
     rbind (py_nth (blockAngleOffset (fst lb)) track) (\<lambda>off.
     rbind (angles (2 * off)) (\<lambda>as.
       let (l, block) = fold (put_block track (2 * off) skew pblock) as lb in
       case block of
         None \<Rightarrow> Inl NameError
       | Some b \<Rightarrow> Inr (l\<lparr>tracksBeginEnd := (tracksBeginEnd l)(track \<mapsto> (pblock, b))\<rparr>, Some b)))"

fun zone_offsets :: "string list \<Rightarrow> int list res" where
  "zone_offsets [] = Inr []"
| "zone_offsets (z # zs) = rbind (py_int z) (\<lambda>n. rbind (zone_offsets zs) (\<lambda>l. Inr (n div 2 # l)))"

definition next_block :: "layout \<times> int option \<Rightarrow> int" where
  "next_block lb = (case snd lb of Some b \<Rightarrow> b + 1 | None \<Rightarrow> 0)"

definition InitBlockLayout :: "string \<Rightarrow> int \<Rightarrow> layout res" where
  "InitBlockLayout zoning skew =
     (let zones = split_on CHR '','' zoning in
      rbind (py_assert (length zones = 3)) (\<lambda>_.
      rbind (zone_offsets zones) (\<lambda>offs.
      rbind (lay_track 0 0 0 (\<lparr>blockInfoList = [], blockToTrackMap = Map.empty, blockToAngleMap = Map.empty,
               tracksBeginEnd = Map.empty, blockAngleOffset = offs, maxBlock = 0\<rparr>, None)) (\<lambda>l0.
      rbind (lay_track 1 skew (next_block l0) l0) (\<lambda>l1.
      rbind (lay_track 2 (2 * skew) (next_block l1) l1) (\<lambda>l2.
        let l = fst l2 in
        Inr (l\<lparr>maxBlock := next_block l1,
               blockToAngleMap := (\<lambda>b. map_option (\<lambda>a. (a + 180) mod 360) (blockToAngleMap l b))\<rparr>)))))))"

section \<open>Requests\<close>

fun random_requests :: "nat \<Rightarrow> int \<Rightarrow> int \<Rightarrow> draws \<Rightarrow> (blockid list \<times> draws) res" where
  "random_requests 0 maxRequest minRequest rs = Inr ([], rs)"
| "random_requests (Suc n) maxRequest minRequest rs =
     rbind (draw rs) (\<lambda>(x, rs1).
     rbind (random_requests n maxRequest minRequest rs1) (\<lambda>(l, rs2).
       Inr (Block (rand_below x maxRequest + minRequest) # l, rs2)))"

definition MakeRequests :: "layout \<Rightarrow> string \<Rightarrow> string \<Rightarrow> draws \<Rightarrow> (blockid list \<times> draws) res" where
  "MakeRequests l addr addrDesc rs =
     (if addr = ''-1'' then
        (case split_on CHR '','' addrDesc of
           [d0, d1, d2] \<Rightarrow>
             rbind (py_int d0) (\<lambda>numRequests. rbind (py_int d1) (\<lambda>maxRequest. rbind (py_int d2) (\<lambda>minRequest.
               random_requests (nat numRequests) (if maxRequest = -1 then maxBlock l else maxRequest) minRequest rs)))
         | _ \<Rightarrow> Inl SystemExit)
      else Inr (map Text (split_on CHR '','' addr), rs))"

fun int_of_request :: "blockid \<Rightarrow> int res" where
  "int_of_request (Block b) = Inr b"
| "int_of_request (Text s) = py_int s"

section \<open>The disk\<close>

record dcfg =
  policy :: string
  armSpeedBase :: rat
  rotateSpeed :: rat
  window :: int
  fairWindow :: int
  lateRequests :: "blockid list"
  lay :: layout

record disk =
  requestQueue :: "(blockid \<times> nat) list"
  requestState :: "dstate list"
  requestCount :: nat
  lateCount :: nat
  currWindow :: int
  currentBlock :: blockid
  currentIndex :: int
  state :: dstate
  angle :: rat
  timer :: int
  armTrack :: int
  armSpeed :: rat
  armX1 :: rat
  armTarget :: "(int \<times> rat) option"
  seekBegin :: "int option"
  rotBegin :: "int option"
  xferBegin :: "int option"
  seekTotal :: int
  rotTotal :: int
  xferTotal :: int
  totalEst :: "rat option"
  isDone :: bool

text \<open>Radius of the tracks; the arm is at \<open>spindleX - radius - 20\<close> with \<open>spindleX = 250\<close>.\<close>

definition tracks :: "int \<rightharpoonup> int" where
  "tracks = [0 \<mapsto> 140, 1 \<mapsto> 100, 2 \<mapsto> 60]"

definition arm_x :: "int \<Rightarrow> rat res" where
  "arm_x track = rbind (py_lookup tracks track) (\<lambda>r. Inr (250 - of_int r - 20))"

definition AddQueueEntry :: "blockid \<Rightarrow> nat \<Rightarrow> disk \<Rightarrow> disk" where
  "AddQueueEntry block index d =
     d\<lparr>requestQueue := requestQueue d @ [(block, index)], requestState := requestState d @ [STATE_NULL]\<rparr>"

definition AddRequest :: "blockid \<Rightarrow> disk \<Rightarrow> disk" where
  "AddRequest block d = AddQueueEntry block (length (requestQueue d)) d"

definition SwitchState :: "dstate \<Rightarrow> disk \<Rightarrow> disk res" where
  "SwitchState newState d =
     rbind (py_set (requestState d) (currentIndex d) newState) (\<lambda>l. Inr (d\<lparr>state := newState, requestState := l\<rparr>))"

definition attr :: "'a option \<Rightarrow> 'a res" where
  "attr a = (case a of None \<Rightarrow> Inl AttributeError | Some x \<Rightarrow> Inr x)"

definition py_div :: "rat \<Rightarrow> rat \<Rightarrow> rat res" where
  "py_div x y = (if y = 0 then Inl ZeroDivisionError else Inr (x / y))"

definition lookup_block :: "(int \<rightharpoonup> 'v) \<Rightarrow> blockid \<Rightarrow> 'v res" where
  "lookup_block m b = (case b of Block i \<Rightarrow> py_lookup m i | Text _ \<Rightarrow> Inl KeyError)"

section \<open>Seek, rotation, transfer\<close>

definition RadiallyCloseTo :: "dcfg \<Rightarrow> rat \<Rightarrow> rat \<Rightarrow> bool" where
  "RadiallyCloseTo c a1 a2 = ((if a1 > a2 then a1 - a2 else a2 - a1) < rotateSpeed c)"

definition DoneWithTransfer :: "dcfg \<Rightarrow> disk \<Rightarrow> (bool \<times> disk) res" where
  "DoneWithTransfer c d =
     rbind (py_nth (blockAngleOffset (lay c)) (armTrack d)) (\<lambda>angleOffset.
     rbind (lookup_block (blockToAngleMap (lay c)) (currentBlock d)) (\<lambda>a.
       if RadiallyCloseTo c (angle d) (of_int ((a + angleOffset) mod 360))
       then rbind (SwitchState STATE_DONE d) (\<lambda>d1. Inr (True, d1\<lparr>requestCount := requestCount d1 + 1\<rparr>))
       else Inr (False, d)))"

definition DoneWithRotation :: "dcfg \<Rightarrow> disk \<Rightarrow> (bool \<times> disk) res" where
  "DoneWithRotation c d =
     rbind (py_nth (blockAngleOffset (lay c)) (armTrack d)) (\<lambda>angleOffset.
     rbind (lookup_block (blockToAngleMap (lay c)) (currentBlock d)) (\<lambda>a.
       if RadiallyCloseTo c (angle d) (of_int ((a - angleOffset) mod 360))
       then rbind (SwitchState STATE_XFER d) (\<lambda>d1. Inr (True, d1))
       else Inr (False, d)))"

definition PlanSeek :: "dcfg \<Rightarrow> int \<Rightarrow> disk \<Rightarrow> disk res" where
  "PlanSeek c track d =
     rbind (SwitchState STATE_SEEK (d\<lparr>seekBegin := Some (timer d)\<rparr>)) (\<lambda>d1.
       if track = armTrack d1 then SwitchState STATE_ROTATE (d1\<lparr>rotBegin := Some (timer d1)\<rparr>)
       else rbind (arm_x track) (\<lambda>x.
         Inr (d1\<lparr>armTarget := Some (track, x),
                 armSpeed := (if track \<ge> armTrack d1 then armSpeedBase c else - armSpeedBase c)\<rparr>)))"

definition DoneWithSeek :: "disk \<Rightarrow> (bool \<times> disk) res" where
  "DoneWithSeek d =
     (let d1 = d\<lparr>armX1 := armX1 d + armSpeed d\<rparr> in
      rbind (attr (armTarget d1)) (\<lambda>(target, targetX1).
        if (armSpeed d1 > 0 \<and> armX1 d1 \<ge> targetX1) \<or> (armSpeed d1 < 0 \<and> armX1 d1 \<le> targetX1)
        then Inr (True, d1\<lparr>armTrack := target\<rparr>) else Inr (False, d1)))"

section \<open>Policies\<close>

text \<open>The loops that bring an angle below 360 degrees, and above 0.\<close>

function wrap_down :: "rat \<Rightarrow> rat" where
  "wrap_down a = (if a > 360 then wrap_down (a - 360) else a)"
  by pat_completeness auto

termination wrap_down
proof (relation "measure (\<lambda>a. nat \<lceil>a\<rceil>)")
  fix a :: rat assume "360 < a"
  then have "360 < \<lceil>a\<rceil>" by (simp add: less_ceiling_iff)
  moreover have "\<lceil>a - 360\<rceil> = \<lceil>a\<rceil> - 360" using ceiling_diff_of_int [of a 360] by simp
  ultimately show "(a - 360, a) \<in> measure (\<lambda>a. nat \<lceil>a\<rceil>)" by simp
qed simp

function wrap_up :: "rat \<Rightarrow> rat" where
  "wrap_up a = (if a < 0 then wrap_up (a + 360) else a)"
  by pat_completeness auto

termination wrap_up
proof (relation "measure (\<lambda>a. nat (- \<lfloor>a\<rfloor>))")
  fix a :: rat assume "a < 0"
  then have "\<lfloor>a\<rfloor> < 0" by simp
  moreover have "\<lfloor>a + 360\<rfloor> = \<lfloor>a\<rfloor> + 360" using floor_add_int [of a 360] by simp
  ultimately show "(a + 360, a) \<in> measure (\<lambda>a. nat (- \<lfloor>a\<rfloor>))" by simp
qed simp

declare wrap_down.simps [simp del] wrap_up.simps [simp del]

definition track_dist :: "disk \<Rightarrow> int \<Rightarrow> int" where
  "track_dist d track = \<bar>armTrack d - track\<bar>"

definition estimate :: "dcfg \<Rightarrow> disk \<Rightarrow> blockid \<Rightarrow> rat res" where
  "estimate c d block =
     rbind (lookup_block (blockToTrackMap (lay c)) block) (\<lambda>track.
     rbind (lookup_block (blockToAngleMap (lay c)) block) (\<lambda>ang.
     rbind (py_div 40 (armSpeedBase c)) (\<lambda>q.
     let seekEst = q * of_int (track_dist d track) in
     rbind (py_nth (blockAngleOffset (lay c)) track) (\<lambda>angleOffset.
     let angleAtArrival = wrap_down (angle d + seekEst * rotateSpeed c);
         rotDist = wrap_up (wrap_down (of_int (ang - angleOffset) - angleAtArrival)) in
     rbind (py_div rotDist (rotateSpeed c)) (\<lambda>rotEst.
     rbind (py_div (of_int angleOffset * 2) (rotateSpeed c)) (\<lambda>xferEst.
       Inr (seekEst + rotEst + xferEst)))))))"

fun satf_loop :: "dcfg \<Rightarrow> disk \<Rightarrow> (blockid \<times> nat) list \<Rightarrow> rat \<times> blockid \<times> int \<Rightarrow> (rat \<times> blockid \<times> int) res" where
  "satf_loop c d [] m = Inr m"
| "satf_loop c d ((block, index) # rList) (minEst, minBlock, minIndex) =
     rbind (py_nth (requestState d) (int index)) (\<lambda>st.
       if st = STATE_DONE then satf_loop c d rList (minEst, minBlock, minIndex)
       else rbind (estimate c d block) (\<lambda>e.
         satf_loop c d rList (if minEst = -1 \<or> e < minEst then (e, block, int index) else (minEst, minBlock, minIndex))))"

definition DoSATF :: "dcfg \<Rightarrow> (blockid \<times> nat) list \<Rightarrow> disk \<Rightarrow> (blockid \<times> int \<times> disk) res" where
  "DoSATF c rList d =
     rbind (satf_loop c d rList (-1, Block (-1), -1)) (\<lambda>(minEst, minBlock, minIndex).
     rbind (py_assert (minBlock \<noteq> Block (-1))) (\<lambda>_.
     rbind (py_assert (minIndex \<noteq> -1)) (\<lambda>_.
       Inr (minBlock, minIndex, d\<lparr>totalEst := Some minEst\<rparr>))))"

fun sstf_loop :: "dcfg \<Rightarrow> disk \<Rightarrow> (blockid \<times> nat) list \<Rightarrow> int \<times> (blockid \<times> nat) list \<Rightarrow> (int \<times> (blockid \<times> nat) list) res" where
  "sstf_loop c d [] m = Inr m"
| "sstf_loop c d ((block, index) # rList) (minDist, trackList) =
     rbind (py_nth (requestState d) (int index)) (\<lambda>st.
       if st = STATE_DONE then sstf_loop c d rList (minDist, trackList)
       else rbind (lookup_block (blockToTrackMap (lay c)) block) (\<lambda>track.
         let dist = track_dist d track in
         sstf_loop c d rList
           (if dist < minDist then (dist, [(block, index)])
            else if dist = minDist then (minDist, trackList @ [(block, index)])
            else (minDist, trackList))))"

definition DoSSTF :: "dcfg \<Rightarrow> (blockid \<times> nat) list \<Rightarrow> disk \<Rightarrow> (blockid \<times> nat) list res" where
  "DoSSTF c rList d =
     rbind (sstf_loop c d rList (1000, [])) (\<lambda>(minDist, trackList).
     rbind (py_assert (trackList \<noteq> [])) (\<lambda>_. Inr trackList))"

definition UpdateWindow :: "dcfg \<Rightarrow> disk \<Rightarrow> disk" where
  "UpdateWindow c d =
     (if fairWindow c = -1 \<and> currWindow d > 0 \<and> currWindow d < int (length (requestQueue d))
      then d\<lparr>currWindow := currWindow d + 1\<rparr> else d)"

definition GetWindow :: "dcfg \<Rightarrow> disk \<Rightarrow> (int \<times> disk) res" where
  "GetWindow c d =
     (if currWindow d \<le> -1 then Inr (int (length (requestQueue d)), d)
      else if fairWindow c \<noteq> -1 \<and> requestCount d > 0 then
        if fairWindow c = 0 then Inl ZeroDivisionError
        else let d1 = (if int (requestCount d) mod fairWindow c = 0 then d\<lparr>currWindow := currWindow d + fairWindow c\<rparr> else d)
             in Inr (currWindow d1, d1)
      else Inr (currWindow d, d))"

definition choose_block :: "dcfg \<Rightarrow> disk \<Rightarrow> (blockid \<times> int \<times> disk) res" where
  "choose_block c d =
     (if policy c = ''FIFO'' then
        rbind (py_nth (requestQueue d) (int (requestCount d))) (\<lambda>(block, index).
        rbind (DoSATF c (take 1 (drop (requestCount d) (requestQueue d))) d) (\<lambda>(_, _, d1).
          Inr (block, int index, d1)))
      else if policy c = ''SATF'' \<or> policy c = ''BSATF'' then
        rbind (GetWindow c d) (\<lambda>(endIndex, d1).
          DoSATF c (take (nat (min endIndex (int (length (requestQueue d1))))) (requestQueue d1)) d1)
      else if policy c = ''SSTF'' then
        rbind (GetWindow c d) (\<lambda>(endIndex, d1).
        rbind (DoSSTF c (take (nat endIndex) (requestQueue d1)) d1) (\<lambda>trackList. DoSATF c trackList d1))
      else Inl SystemExit)"

definition GetNextIO :: "dcfg \<Rightarrow> disk \<Rightarrow> disk res" where
  "GetNextIO c d =
     (if requestCount d = length (requestQueue d) then Inr (d\<lparr>isDone := True\<rparr>)
      else rbind (choose_block c d) (\<lambda>(block, index, d1).
           let d2 = d1\<lparr>currentBlock := block, currentIndex := index\<rparr> in
           rbind (lookup_block (blockToTrackMap (lay c)) (currentBlock d2)) (\<lambda>track.
           rbind (PlanSeek c track d2) (\<lambda>d3.
             Inr (if lateCount d3 < length (lateRequests c)
                  then (AddRequest (lateRequests c ! lateCount d3) d3)\<lparr>lateCount := lateCount d3 + 1\<rparr> else d3)))))"

section \<open>The simulation loop\<close>

definition DoRequestStats :: "disk \<Rightarrow> disk res" where
  "DoRequestStats d =
     rbind (attr (rotBegin d)) (\<lambda>rb. rbind (attr (seekBegin d)) (\<lambda>sb. rbind (attr (xferBegin d)) (\<lambda>xb.
       Inr (d\<lparr>seekTotal := seekTotal d + (rb - sb), rotTotal := rotTotal d + (xb - rb),
              xferTotal := xferTotal d + (timer d - xb)\<rparr>))))"

text \<open>\<open>currentBlock + 1 == nextBlock\<close>.\<close>

definition follows :: "blockid \<Rightarrow> blockid \<Rightarrow> bool res" where
  "follows b b' = (case b of Text _ \<Rightarrow> Inl TypeError | Block i \<Rightarrow> Inr (b' = Block (i + 1)))"

definition tick :: "dcfg \<Rightarrow> disk \<Rightarrow> disk" where
  "tick c d =
     (let a = angle d + rotateSpeed c
      in d\<lparr>timer := timer d + 1, angle := (if a \<ge> 360 then 0 else a)\<rparr>)"

definition move_arm :: "disk \<Rightarrow> disk res" where
  "move_arm d =
     (if state d = STATE_SEEK then
        rbind (DoneWithSeek d) (\<lambda>(finished, d1).
          if finished then SwitchState STATE_ROTATE (d1\<lparr>rotBegin := Some (timer d1)\<rparr>) else Inr d1)
      else Inr d)"

definition rotate_platter :: "dcfg \<Rightarrow> disk \<Rightarrow> disk res" where
  "rotate_platter c d =
     (if state d = STATE_ROTATE then
        rbind (DoneWithRotation c d) (\<lambda>(finished, d1).
          if finished then SwitchState STATE_XFER (d1\<lparr>xferBegin := Some (timer d1)\<rparr>) else Inr d1)
      else Inr d)"

definition stay_in_transfer :: "dcfg \<Rightarrow> blockid \<Rightarrow> disk \<Rightarrow> disk res" where
  "stay_in_transfer c current d =
     rbind (lookup_block (blockToTrackMap (lay c)) current) (\<lambda>t1.
     rbind (lookup_block (blockToTrackMap (lay c)) (currentBlock d)) (\<lambda>t2.
       if t1 = t2 then
         rbind (py_lookup (tracksBeginEnd (lay c)) (armTrack d)) (\<lambda>(first, last).
         rbind (if current = Block last \<and> currentBlock d = Block first then Inr True else follows current (currentBlock d)) (\<lambda>b.
           if b then SwitchState STATE_XFER (d\<lparr>rotBegin := Some (timer d), seekBegin := Some (timer d), xferBegin := Some (timer d)\<rparr>)
           else Inr d))
       else Inr d))"

definition transfer :: "dcfg \<Rightarrow> disk \<Rightarrow> disk res" where
  "transfer c d =
     (if state d = STATE_XFER then
        rbind (DoneWithTransfer c d) (\<lambda>(finished, d1).
          if finished then
            rbind (DoRequestStats d1) (\<lambda>d2.
            rbind (SwitchState STATE_DONE d2) (\<lambda>d3.
            rbind (GetNextIO c (UpdateWindow c d3)) (\<lambda>d4.
              stay_in_transfer c (currentBlock d3) d4)))
          else Inr d1)
      else Inr d)"

definition Animate :: "dcfg \<Rightarrow> disk \<Rightarrow> disk res" where
  "Animate c d = rbind (move_arm (tick c d)) (\<lambda>d1. rbind (rotate_platter c d1) (transfer c))"

definition running :: "disk \<Rightarrow> bool" where
  "running d \<longleftrightarrow> \<not> isDone d"

definition Go :: "nat \<Rightarrow> dcfg \<Rightarrow> disk \<Rightarrow> disk res option" where
  "Go fuel c d = (case GetNextIO c d of Inl e \<Rightarrow> Some (Inl e) | Inr d1 \<Rightarrow> loop fuel running (Animate c) d1)"

section \<open>Set-up\<close>

text \<open>The speed of the arm must divide the width of a track.\<close>

definition check_seek_speed :: "rat \<Rightarrow> unit res" where
  "check_seek_speed s =
     (if s > 1 \<and> 40 - s * of_int \<lfloor>40 / s\<rfloor> \<noteq> 0 then Inl SystemExit
      else if s < 1 then
        (if s = 0 then Inl ZeroDivisionError
         else if 40 / s \<noteq> of_int (py_trunc (40 / s)) then Inl SystemExit else Inr ())
      else Inr ())"

fun queue_requests :: "blockid list \<Rightarrow> disk \<Rightarrow> disk res" where
  "queue_requests [] d = Inr d"
| "queue_requests (r # rs) d = rbind (int_of_request r) (\<lambda>b. queue_requests rs (AddRequest (Block b) d))"

definition init_disk :: "dcfg \<Rightarrow> disk" where
  "init_disk c =
     \<lparr>requestQueue = [], requestState = [], requestCount = 0, lateCount = 0, currWindow = window c, currentBlock = Block (-1),
      currentIndex = -1, state = STATE_NULL, angle = 0, timer = 0, armTrack = 0, armSpeed = armSpeedBase c, armX1 = 90,
      armTarget = None, seekBegin = None, rotBegin = None, xferBegin = None, seekTotal = 0, rotTotal = 0, xferTotal = 0,
      totalEst = None, isDone = False\<rparr>"

definition make_disk :: "string \<Rightarrow> string \<Rightarrow> string \<Rightarrow> string \<Rightarrow> string \<Rightarrow> rat \<Rightarrow> rat \<Rightarrow> int \<Rightarrow> int \<Rightarrow> string \<Rightarrow> draws \<Rightarrow> (dcfg \<times> disk) res" where
  "make_disk addr addrDesc lateAddr lateAddrDesc pol seek rot skew w zoning rs =
     rbind (InitBlockLayout zoning skew) (\<lambda>l.
     rbind (MakeRequests l addr addrDesc rs) (\<lambda>(reqs, rs1).
     rbind (MakeRequests l lateAddr lateAddrDesc rs1) (\<lambda>(late, rs2).
     rbind (check_seek_speed seek) (\<lambda>_.
     let c = \<lparr>policy = pol, armSpeedBase = seek, rotateSpeed = rot, window = w,
              fairWindow = (if pol = ''BSATF'' \<and> w \<noteq> -1 then w else -1), lateRequests = late, lay = l\<rparr> in
     rbind (queue_requests reqs (init_disk c)) (\<lambda>d. Inr (c, d))))))"

definition main :: "nat \<Rightarrow> string \<Rightarrow> string \<Rightarrow> string \<Rightarrow> string \<Rightarrow> string \<Rightarrow> string \<Rightarrow> string \<Rightarrow> int \<Rightarrow> int \<Rightarrow> string \<Rightarrow> draws \<Rightarrow> disk res option" where
  "main fuel addr addrDesc lateAddr lateAddrDesc pol seekSpeed rotSpeed skew w zoning rs =
     (if w = 0 then Some (Inl SystemExit)
      else case rbind (py_float seekSpeed) (\<lambda>seek. rbind (py_float rotSpeed) (\<lambda>rot.
             make_disk addr addrDesc lateAddr lateAddrDesc pol seek rot skew w zoning rs)) of
        Inl e \<Rightarrow> Some (Inl e)
      | Inr (c, d) \<Rightarrow> Go fuel c d)"

end
