(* ===== verification/DiskPolicy.thy ===== *)
theory DiskPolicy
  imports Disk
begin

text \<open>
  How the disk simulator chooses a request: the shortest access time first is an \<open>arg_min_list\<close>, the shortest seek first is a filter,
  and the window always shows a pending request.
\<close>

section \<open>The configuration\<close>

definition layout_ok :: "layout \<Rightarrow> bool" where
  "layout_ok l \<longleftrightarrow> length (blockAngleOffset l) = 3 \<and> blockToTrackMap l (-1) = None \<and>
     (\<forall>b t. blockToTrackMap l b = Some t \<longrightarrow> t \<in> {0, 1, 2} \<and> blockToAngleMap l b \<noteq> None) \<and>
     (\<forall>t \<in> {0, 1, 2}. tracksBeginEnd l t \<noteq> None)"

definition valid_block :: "layout \<Rightarrow> blockid \<Rightarrow> bool" where
  "valid_block l b = (case b of Block i \<Rightarrow> blockToTrackMap l i \<noteq> None | Text _ \<Rightarrow> False)"

definition track_of :: "layout \<Rightarrow> blockid \<Rightarrow> int" where
  "track_of l b = (case b of Block i \<Rightarrow> the (blockToTrackMap l i) | Text _ \<Rightarrow> 0)"

definition angle_of :: "layout \<Rightarrow> blockid \<Rightarrow> int" where
  "angle_of l b = (case b of Block i \<Rightarrow> the (blockToAngleMap l i) | Text _ \<Rightarrow> 0)"

definition offset_of :: "layout \<Rightarrow> int \<Rightarrow> int" where
  "offset_of l t = blockAngleOffset l ! nat t"

definition cfg_ok :: "nat \<Rightarrow> dcfg \<Rightarrow> bool" where
  "cfg_ok n c \<longleftrightarrow> layout_ok (lay c) \<and> 0 < rotateSpeed c \<and> 0 < armSpeedBase c \<and> of_nat n * armSpeedBase c = 40 \<and>
     policy c \<in> {''FIFO'', ''SATF'', ''BSATF'', ''SSTF''} \<and> window c \<noteq> 0 \<and>
     fairWindow c = (if policy c = ''BSATF'' \<and> window c \<noteq> -1 then window c else -1) \<and> list_all (valid_block (lay c)) (lateRequests c)"

lemma valid_lookup:
  assumes "layout_ok l" and "valid_block l b"
  shows "lookup_block (blockToTrackMap l) b = Inr (track_of l b)" and "lookup_block (blockToAngleMap l) b = Inr (angle_of l b)"
    and "track_of l b \<in> {0, 1, 2}" and "b \<noteq> Block (-1)" and "\<exists>i. b = Block i"
  using assms by (auto simp: layout_ok_def valid_block_def lookup_block_def track_of_def angle_of_def split: blockid.splits)

lemma valid_track:
  assumes "layout_ok l" and "t \<in> {0, 1, 2}"
  shows "py_nth (blockAngleOffset l) t = Inr (offset_of l t)" and "\<exists>f e. py_lookup (tracksBeginEnd l) t = Inr (f, e)"
    and "arm_x t = Inr (90 + 40 * of_int t)"
  using assms by (auto simp: layout_ok_def offset_of_def py_nth_def arm_x_def tracks_def)

section \<open>Choosing a request\<close>

definition pending :: "disk \<Rightarrow> blockid \<times> nat \<Rightarrow> bool" where
  "pending d r \<longleftrightarrow> requestState d ! snd r \<noteq> STATE_DONE"

definition listed :: "layout \<Rightarrow> disk \<Rightarrow> blockid \<times> nat \<Rightarrow> bool" where
  "listed l d r \<longleftrightarrow> valid_block l (fst r) \<and> snd r < length (requestState d)"

definition est :: "dcfg \<Rightarrow> disk \<Rightarrow> blockid \<Rightarrow> rat" where
  "est c d b =
     (let t = track_of (lay c) b; off = of_int (offset_of (lay c) t);
          seek = 40 / armSpeedBase c * of_int (track_dist d t);
          arrival = wrap_down (angle d + seek * rotateSpeed c)
      in seek + wrap_up (wrap_down (of_int (angle_of (lay c) b) - off - arrival)) / rotateSpeed c + off * 2 / rotateSpeed c)"

lemma estimate_est:
  assumes "cfg_ok n c" and "valid_block (lay c) b"
  shows "estimate c d b = Inr (est c d b)"
proof -
  have l: "layout_ok (lay c)" using assms(1) by (simp add: cfg_ok_def)
  have "rotateSpeed c \<noteq> 0" "armSpeedBase c \<noteq> 0" using assms(1) by (auto simp: cfg_ok_def)
  then show ?thesis
    using valid_lookup [OF l assms(2)] valid_track(1) [OF l valid_lookup(3) [OF l assms(2)]]
    by (simp add: estimate_def est_def Let_def py_div_def)
qed

text \<open>The first of the pending requests with the least estimate.\<close>

fun satf_pick :: "dcfg \<Rightarrow> disk \<Rightarrow> (blockid \<times> nat) list \<Rightarrow> rat \<times> blockid \<times> int \<Rightarrow> rat \<times> blockid \<times> int" where
  "satf_pick c d [] m = m"
| "satf_pick c d ((b, i) # rs) m =
     satf_pick c d rs (if pending d (b, i) \<and> (fst m = -1 \<or> est c d b < fst m) then (est c d b, b, int i) else m)"

lemma satf_loop_pick:
  "cfg_ok n c \<Longrightarrow> list_all (listed (lay c) d) rs \<Longrightarrow> satf_loop c d rs m = Inr (satf_pick c d rs m)"
proof (induction rs arbitrary: m)
  case (Cons r rs)
  obtain b i where r: "r = (b, i)" by (cases r)
  obtain e bm im where m: "m = (e, bm, im)" by (cases m)
  have "valid_block (lay c) b" "i < length (requestState d)" using Cons.prems(2) r by (auto simp: listed_def)
  then show ?case using Cons estimate_est [OF Cons.prems(1), of b d] by (simp add: r m pending_def)
qed simp

lemma satf_pick_in:
  "satf_pick c d rs m = m \<or> (\<exists>(b, i) \<in> set (filter (pending d) rs). satf_pick c d rs m = (est c d b, b, int i))"
proof (induction rs arbitrary: m)
  case (Cons r rs)
  obtain b i where r: "r = (b, i)" by (cases r)
  show ?case
    using Cons.IH [of m] Cons.IH [of "(est c d b, b, int i)"] by (auto simp: r)
qed simp

lemma satf_pick_index:
  assumes "0 \<le> snd (snd m) \<or> (fst m = -1 \<and> (\<exists>r \<in> set rs. pending d r))"
  shows "0 \<le> snd (snd (satf_pick c d rs m))"
  using assms
proof (induction rs arbitrary: m)
  case (Cons r rs)
  obtain b i where r: "r = (b, i)" by (cases r)
  show ?case unfolding r satf_pick.simps by (rule Cons.IH) (use Cons.prems in \<open>auto simp: r\<close>)
qed simp

lemma DoSATF_ok:
  assumes c: "cfg_ok n c" and l: "list_all (listed (lay c) d) rs" and p: "\<exists>r \<in> set rs. pending d r"
  obtains b i where "(b, i) \<in> set rs" and "pending d (b, i)" and "DoSATF c rs d = Inr (b, int i, d\<lparr>totalEst := Some (est c d b)\<rparr>)"
proof -
  let ?m = "(-1, Block (-1), -1)"
  have "0 \<le> snd (snd (satf_pick c d rs ?m))" by (rule satf_pick_index) (use p in auto)
  then obtain b i where bi: "(b, i) \<in> set rs" "pending d (b, i)" "satf_pick c d rs ?m = (est c d b, b, int i)"
    using satf_pick_in [of c d rs ?m] by auto
  have "valid_block (lay c) b" using l bi(1) by (auto simp: listed_def list_all_iff)
  then have "b \<noteq> Block (-1)" using c valid_lookup(4) by (auto simp: cfg_ok_def)
  then have "DoSATF c rs d = Inr (b, int i, d\<lparr>totalEst := Some (est c d b)\<rparr>)"
    using satf_loop_pick [OF c l] bi(3) by (simp add: DoSATF_def)
  with bi(1,2) show ?thesis by (rule that)
qed


text \<open>With estimates that are not negative the choice is that of \<open>arg_min_list\<close>, the first element with the least value.\<close>

definition req_est :: "dcfg \<Rightarrow> disk \<Rightarrow> blockid \<times> nat \<Rightarrow> rat" where
  "req_est c d r = est c d (fst r)"

definition picked :: "dcfg \<Rightarrow> disk \<Rightarrow> blockid \<times> nat \<Rightarrow> rat \<times> blockid \<times> int" where
  "picked c d r = (req_est c d r, fst r, int (snd r))"

lemma arg_min_drop: "f x \<le> f y \<Longrightarrow> arg_min_list f (x # y # ys) = arg_min_list f (x # ys)"
  by (cases ys) (auto simp: Let_def)

lemma arg_min_skip:
  assumes "f y < f x"
  shows "arg_min_list f (x # y # ys) = arg_min_list f (y # ys)"
proof -
  have "f (arg_min_list f (y # ys)) \<le> f y" by (simp add: f_arg_min_list_f)
  then show ?thesis using assms by (auto simp: Let_def)
qed

lemma satf_pick_arg_min:
  assumes "\<And>r. r \<in> set rs \<Longrightarrow> pending d r \<Longrightarrow> 0 \<le> req_est c d r" and "0 \<le> req_est c d r0"
  shows "satf_pick c d rs (picked c d r0) = picked c d (arg_min_list (req_est c d) (r0 # filter (pending d) rs))"
  using assms
proof (induction rs arbitrary: r0)
  case (Cons r rs)
  have IH: "satf_pick c d rs (picked c d r0) = picked c d (arg_min_list (req_est c d) (r0 # filter (pending d) rs))"
    if "0 \<le> req_est c d r0" for r0 by (rule Cons.IH) (use Cons.prems(1) that in auto)
  have run: "satf_pick c d (r # rs) (picked c d r0) =
      satf_pick c d rs (if pending d r \<and> req_est c d r < req_est c d r0 then picked c d r else picked c d r0)"
    using Cons.prems(2) by (cases r) (simp add: picked_def req_est_def)
  show ?case
  proof (cases "pending d r \<and> req_est c d r < req_est c d r0")
    case True
    then show ?thesis using run IH [of r] Cons.prems(1) [of r] arg_min_skip [of "req_est c d" r r0] by simp
  next
    case False
    then show ?thesis
      using run IH [OF Cons.prems(2)] arg_min_drop [of "req_est c d" r0 r] by (cases "pending d r") (simp_all add: not_less)
  qed
qed simp

lemma satf_pick_first:
  assumes "\<And>r. r \<in> set rs \<Longrightarrow> pending d r \<Longrightarrow> 0 \<le> req_est c d r" and "filter (pending d) rs \<noteq> []"
  shows "satf_pick c d rs (-1, b0, k0) = picked c d (arg_min_list (req_est c d) (filter (pending d) rs))"
  using assms
proof (induction rs)
  case (Cons r rs)
  have run: "satf_pick c d (r # rs) (-1, b0, k0) = satf_pick c d rs (if pending d r then picked c d r else (-1, b0, k0))"
    by (cases r) (simp add: picked_def req_est_def)
  show ?case
    using run satf_pick_arg_min [of rs d c r] Cons by (cases "pending d r") simp_all
qed simp

text \<open>The pending requests that are nearest to the arm.\<close>

definition req_dist :: "dcfg \<Rightarrow> disk \<Rightarrow> blockid \<times> nat \<Rightarrow> int" where
  "req_dist c d r = track_dist d (track_of (lay c) (fst r))"

definition nearest :: "dcfg \<Rightarrow> disk \<Rightarrow> (blockid \<times> nat) list \<Rightarrow> (blockid \<times> nat) list" where
  "nearest c d rs = filter (\<lambda>r. pending d r \<and> list_all (\<lambda>r'. pending d r' \<longrightarrow> req_dist c d r \<le> req_dist c d r') rs) rs"

lemma fold_min_le: "x \<le> y \<Longrightarrow> fold min xs (x :: int) \<le> y"
  by (induction xs arbitrary: x) auto

lemma sstf_loop_min:
  assumes c: "cfg_ok n c" and "list_all (listed (lay c) d) rs"
  shows "sstf_loop c d rs (m, ts) =
    (let m' = fold min (map (req_dist c d) (filter (pending d) rs)) m
     in Inr (m', (if m' = m then ts else []) @ filter (\<lambda>r. pending d r \<and> req_dist c d r = m') rs))"
  using assms(2)
proof (induction rs arbitrary: m ts)
  case (Cons r rs)
  obtain b i where r: "r = (b, i)" by (cases r)
  let ?x = "req_dist c d r" and ?xs = "map (req_dist c d) (filter (pending d) rs)"
  have l: "layout_ok (lay c)" using c by (simp add: cfg_ok_def)
  have v: "valid_block (lay c) b" "i < length (requestState d)" using Cons.prems r by (auto simp: listed_def)
  have run: "sstf_loop c d (r # rs) (m, ts) = sstf_loop c d rs
      (if \<not> pending d r then (m, ts) else if ?x < m then (?x, [r]) else if ?x = m then (m, ts @ [r]) else (m, ts))"
    using v valid_lookup(1) [OF l v(1)] by (simp add: r pending_def req_dist_def Let_def)
  have IH: "sstf_loop c d rs (m, ts) = (let m' = fold min ?xs m
     in Inr (m', (if m' = m then ts else []) @ filter (\<lambda>r. pending d r \<and> req_dist c d r = m') rs))" for m ts
    by (rule Cons.IH) (use Cons.prems in simp)
  consider "\<not> pending d r" | "pending d r" "?x < m" | "pending d r" "?x = m" | "pending d r" "m < ?x" by linarith
  then show ?case
  proof cases
    case 2
    then show ?thesis using run IH [of ?x "[r]"] fold_min_le [of ?x ?x ?xs] by (auto simp: Let_def min_absorb1)
  next
    case 4
    then show ?thesis using run IH [of m ts] fold_min_le [of m m ?xs] by (auto simp: Let_def min_absorb2)
  qed (use run IH in \<open>simp_all add: Let_def\<close>)
qed simp

lemma fold_min_least:
  assumes "xs \<noteq> []" and "\<And>x. x \<in> set xs \<Longrightarrow> x < m"
  shows "fold min xs (m :: int) \<in> set xs \<and> (\<forall>x \<in> set xs. fold min xs m \<le> x)"
proof -
  have "fold min xs m \<in> insert m (set xs) \<and> (\<forall>x \<in> insert m (set xs). fold min xs m \<le> x)" for m
    by (induction xs arbitrary: m) (auto simp: min_def fold_min_le)
  from this [of m] show ?thesis using assms by (metis (full_types) hd_in_set insertE insertI2 not_less)
qed

lemma DoSSTF_nearest:
  assumes c: "cfg_ok n c" and l: "list_all (listed (lay c) d) rs" and p: "\<exists>r \<in> set rs. pending d r" and a: "armTrack d \<in> {0, 1, 2}"
  shows "DoSSTF c rs d = Inr (nearest c d rs)" and "\<exists>r \<in> set (nearest c d rs). pending d r"
proof -
  let ?xs = "map (req_dist c d) (filter (pending d) rs)"
  let ?m = "fold min ?xs 1000"
  have lt: "req_dist c d r < 1000" if "r \<in> set rs" for r
  proof -
    have "valid_block (lay c) (fst r)" using l that by (auto simp: listed_def list_all_iff)
    then have "track_of (lay c) (fst r) \<in> {0, 1, 2}" using c valid_lookup(3) by (auto simp: cfg_ok_def)
    then show ?thesis using a by (auto simp: req_dist_def track_dist_def)
  qed
  have least: "?m \<in> set ?xs \<and> (\<forall>x \<in> set ?xs. ?m \<le> x)"
    by (rule fold_min_least) (use p lt in \<open>auto simp: filter_empty_conv\<close>)
  then have "?m < 1000" using lt by auto
  moreover have same: "filter (\<lambda>r. pending d r \<and> req_dist c d r = ?m) rs = nearest c d rs"
    unfolding nearest_def by (rule filter_cong [OF refl]) (use least in \<open>force simp: list_all_iff\<close>)
  moreover show "\<exists>r \<in> set (nearest c d rs). pending d r"
  proof -
    obtain r where "r \<in> set rs" "pending d r" "req_dist c d r = ?m" using least by auto
    then show ?thesis unfolding same [symmetric] by (intro bexI [of _ r]) auto
  qed
  ultimately show "DoSSTF c rs d = Inr (nearest c d rs)"
    by (auto simp: DoSSTF_def sstf_loop_min [OF c l] Let_def py_assert_def)
qed

section \<open>The request queue\<close>

definition done_count :: "disk \<Rightarrow> nat" where
  "done_count d = length (filter (\<lambda>st. st = STATE_DONE) (requestState d))"

definition dqueue_ok :: "dcfg \<Rightarrow> disk \<Rightarrow> bool" where
  "dqueue_ok c d \<longleftrightarrow> map snd (requestQueue d) = [0..<length (requestQueue d)] \<and> list_all (valid_block (lay c) \<circ> fst) (requestQueue d) \<and>
     length (requestState d) = length (requestQueue d) \<and> lateCount d \<le> length (lateRequests c) \<and> requestCount d = done_count d"

text \<open>FIFO serves the requests in order.\<close>

definition fifo_ok :: "dcfg \<Rightarrow> disk \<Rightarrow> bool" where
  "fifo_ok c d \<longleftrightarrow> (policy c = ''FIFO'' \<longrightarrow> (\<forall>i < length (requestState d). requestState d ! i = STATE_DONE \<longleftrightarrow> i < requestCount d))"

text \<open>The window shows more requests than are done: at the head of the loop, and before the next request is chosen.\<close>

definition window_ok :: "dcfg \<Rightarrow> disk \<Rightarrow> bool" where
  "window_ok c d \<longleftrightarrow> currWindow d \<le> -1 \<or> (fairWindow c = -1 \<and> int (requestCount d) < currWindow d) \<or>
     (0 < fairWindow c \<and> currWindow d = fairWindow c * (1 + int (requestCount d) div fairWindow c))"

definition window_next :: "dcfg \<Rightarrow> disk \<Rightarrow> bool" where
  "window_next c d \<longleftrightarrow> currWindow d \<le> -1 \<or> (fairWindow c = -1 \<and> int (requestCount d) < currWindow d) \<or>
     (0 < fairWindow c \<and> currWindow d = fairWindow c * (1 + (int (requestCount d) - 1) div fairWindow c + (if requestCount d = 0 then 1 else 0)))"

lemma listed_take:
  assumes "dqueue_ok c d"
  shows "list_all (listed (lay c) d) (requestQueue d)" and "list_all (listed (lay c) d) (take k (requestQueue d))"
proof -
  have "snd r < length (requestQueue d)" if "r \<in> set (requestQueue d)" for r
  proof -
    have "snd r \<in> set (map snd (requestQueue d))" using that by simp
    moreover have "map snd (requestQueue d) = [0..<length (requestQueue d)]" using assms by (simp add: dqueue_ok_def)
    ultimately show ?thesis by (simp only: set_upt) simp
  qed
  then show all: "list_all (listed (lay c) d) (requestQueue d)" using assms by (auto simp: dqueue_ok_def list_all_iff listed_def)
  then show "list_all (listed (lay c) d) (take k (requestQueue d))" by (auto simp: list_all_iff dest: in_set_takeD)
qed

lemma queue_entry:
  assumes "dqueue_ok c d" and "(b, i) \<in> set (requestQueue d)"
  shows "i < length (requestQueue d)" and "requestQueue d ! i = (b, i)" and "valid_block (lay c) b"
proof -
  obtain k where k: "k < length (requestQueue d)" "requestQueue d ! k = (b, i)" using assms(2) by (auto simp: in_set_conv_nth)
  have "map snd (requestQueue d) ! k = k" using assms(1) k(1) by (simp add: dqueue_ok_def)
  then have "i = k" using k by simp
  then show "i < length (requestQueue d)" "requestQueue d ! i = (b, i)" using k by auto
  show "valid_block (lay c) b" using assms by (auto simp: dqueue_ok_def list_all_iff)
qed

lemma nth_entry:
  assumes "dqueue_ok c d" and "i < length (requestQueue d)"
  shows "\<exists>b. requestQueue d ! i = (b, i)"
proof -
  have "map snd (requestQueue d) ! i = i" using assms by (simp add: dqueue_ok_def)
  then show ?thesis using assms(2) by (cases "requestQueue d ! i") auto
qed

text \<open>Fewer requests are done than the window shows, so that one in the window is pending.\<close>

lemma window_pending:
  assumes q: "dqueue_ok c d" and k: "requestCount d < k" and n: "requestCount d < length (requestQueue d)"
  shows "\<exists>r \<in> set (take k (requestQueue d)). pending d r"
proof (rule ccontr)
  assume none: "\<not> ?thesis"
  let ?m = "min k (length (requestQueue d))"
  have "requestState d ! i = STATE_DONE" if "i < ?m" for i
  proof -
    obtain b where b: "requestQueue d ! i = (b, i)" using nth_entry [OF q, of i] \<open>i < ?m\<close> by (meson min_less_iff_conj)
    have "take k (requestQueue d) ! i \<in> set (take k (requestQueue d))" by (rule nth_mem) (use that in simp)
    then have "(b, i) \<in> set (take k (requestQueue d))" using that b by simp
    then show ?thesis using none by (auto simp: pending_def)
  qed
  then have "{..<?m} \<subseteq> {i. i < length (requestState d) \<and> requestState d ! i = STATE_DONE}" using q by (auto simp: dqueue_ok_def)
  then have "card {..<?m} \<le> done_count d"
    unfolding done_count_def length_filter_conv_card by (intro card_mono) auto
  then show False using k n q by (simp add: dqueue_ok_def)
qed

lemma next_div:
  assumes "0 < f" and "0 < (k :: int)"
  shows "(k - 1) div f + (if k mod f = 0 then 1 else 0) = k div f"
proof (cases "k mod f = 0")
  case True
  then obtain m where m: "k = f * m" by auto
  have "(f * m - 1) div f = m - 1"
    by (rule int_div_pos_eq [of _ _ _ "f - 1"]) (use assms(1) in \<open>auto simp: algebra_simps\<close>)
  then show ?thesis using m assms(1) True by simp
next
  case False
  have r: "k mod f \<le> f" "0 < k mod f" using assms(1) False pos_mod_bound [of f k] pos_mod_sign [of f k] by linarith+
  have "(k - 1) div f = k div f"
    by (rule int_div_pos_eq [of _ _ _ "k mod f - 1"]) (use r pos_mod_bound [OF assms(1), of k] in \<open>auto simp: algebra_simps\<close>)
  then show ?thesis using False by simp
qed

lemma GetWindow_ok:
  assumes w: "window_next c d" and n: "requestCount d < length (requestQueue d)"
  obtains e cw where "GetWindow c d = Inr (e, d\<lparr>currWindow := cw\<rparr>)" and "int (requestCount d) < e" and "window_ok c (d\<lparr>currWindow := cw\<rparr>)"
proof -
  consider "currWindow d \<le> -1" | "\<not> currWindow d \<le> -1" "fairWindow c = -1" "int (requestCount d) < currWindow d"
    | "\<not> currWindow d \<le> -1" "0 < fairWindow c" "currWindow d = fairWindow c * (1 + (int (requestCount d) - 1) div fairWindow c + (if requestCount d = 0 then 1 else 0))"
    using w unfolding window_next_def by blast
  then show ?thesis
  proof cases
    case 1
    then show ?thesis using n by (intro that [of "int (length (requestQueue d))" "currWindow d"]) (auto simp: GetWindow_def window_ok_def)
  next
    case 2
    then show ?thesis by (intro that [of "currWindow d" "currWindow d"]) (auto simp: GetWindow_def window_ok_def)
  next
    case 3
    let ?f = "fairWindow c" and ?k = "int (requestCount d)"
    have gt: "?k < ?f * (1 + ?k div ?f)"
    proof -
      have "?k < ?f + ?f * (?k div ?f)" using pos_mod_bound [OF 3(2), of ?k] mult_div_mod_eq [of ?f ?k] by linarith
      then show ?thesis by (simp add: algebra_simps)
    qed
    have m1: "(- 1) div ?f = - 1" using 3(2) by (simp add: div_eq_minus1)
    show ?thesis
    proof (cases "requestCount d = 0")
      case True
      then show ?thesis using 3 gt m1
        by (intro that [of "currWindow d" "currWindow d"]) (auto simp: GetWindow_def window_ok_def)
    next
      case False
      then have nd: "(?k - 1) div ?f + (if ?k mod ?f = 0 then 1 else 0) = ?k div ?f" by (intro next_div) (use 3(2) in auto)
      show ?thesis
      proof (cases "?k mod ?f = 0")
        case True
        then have "currWindow d + ?f = ?f * (1 + ?k div ?f)" using 3(3) nd False by (simp add: algebra_simps flip: nd)
        then show ?thesis using 3 False True gt
          by (intro that [of "currWindow d + ?f" "currWindow d + ?f"]) (auto simp: GetWindow_def window_ok_def)
      next
        case f: False
        then have "currWindow d = ?f * (1 + ?k div ?f)" using 3(3) nd False by simp
        then show ?thesis using 3 False f gt
          by (intro that [of "currWindow d" "currWindow d"]) (auto simp: GetWindow_def window_ok_def)
      qed
    qed
  qed
qed

end
