(* ===== verification/DiskLayout.thy ===== *)
theory DiskLayout
  imports Disk
begin

text \<open>
  The block layout of the disk simulator: what \<open>InitBlockLayout\<close> computes, as a closed form over the three zones.
\<close>

section \<open>The block layout\<close>

text \<open>The number of blocks on a track with blocks every \<open>2 * off\<close> degrees.\<close>

definition blocks_on :: "int \<Rightarrow> nat" where
  "blocks_on off = nat ((359 + 2 * off) div (2 * off))"

lemma put_blocks:
  assumes "off \<noteq> 0"
  shows "fold (put_block track off skew pb) (map (\<lambda>k. int k * off) [0..<m]) (l, bo) =
    (l\<lparr>blockToTrackMap := (\<lambda>b. if pb \<le> b \<and> b < pb + int m then Some track else blockToTrackMap l b),
       blockToAngleMap := (\<lambda>b. if pb \<le> b \<and> b < pb + int m then Some ((b - pb + skew) * off) else blockToAngleMap l b),
       blockInfoList := blockInfoList l @ map (\<lambda>k. (track, (int k + skew) * off, pb + int k)) [0..<m]\<rparr>,
     if m = 0 then bo else Some (pb + int m - 1))"
proof (induction m)
  case 0
  have eq: "(\<lambda>b. if pb \<le> b \<and> b < pb then Some (g b) else f b) = f" for f and g :: "int \<Rightarrow> int" by (rule ext) auto
  show ?case by (cases l) (simp add: eq)
next
  case (Suc m)
  have eq: "(\<lambda>b. if pb \<le> b \<and> b < pb + int m then Some (g b) else f b)(pb + int m \<mapsto> g (pb + int m))
      = (\<lambda>b. if pb \<le> b \<and> b < pb + int (Suc m) then Some (g b) else f b)" for f and g :: "int \<Rightarrow> int"
    by (rule ext) auto
  have "fold (put_block track off skew pb) (map (\<lambda>k. int k * off) [0..<Suc m]) (l, bo) =
      put_block track off skew pb (int m * off) (fold (put_block track off skew pb) (map (\<lambda>k. int k * off) [0..<m]) (l, bo))" by simp
  note step = this [unfolded Suc.IH]
  show ?case
    unfolding step
    using assms eq [of "\<lambda>b. track" "blockToTrackMap l"] eq [of "\<lambda>b. (b - pb + skew) * off" "blockToAngleMap l"]
    by (simp add: put_block_def Let_def algebra_simps)
qed

lemma lay_track_blocks:
  assumes "py_nth (blockAngleOffset l) track = Inr off" and "off \<noteq> 0" and "bo \<noteq> None \<or> blocks_on off \<noteq> 0"
    and pb: "next_block (l, bo) = pb"
  obtains l' where "lay_track track skew (pb) (l, bo) = Inr (l', Some (pb + int (blocks_on off) - 1))"
    and "blockToTrackMap l' = (\<lambda>b. if pb \<le> b \<and> b < pb + int (blocks_on off) then Some track else blockToTrackMap l b)"
    and "blockToAngleMap l' = (\<lambda>b. if pb \<le> b \<and> b < pb + int (blocks_on off)
      then Some ((b - pb + skew) * (2 * off)) else blockToAngleMap l b)"
    and "blockAngleOffset l' = blockAngleOffset l" and "\<And>t. tracksBeginEnd l' t \<noteq> None \<longleftrightarrow> t = track \<or> tracksBeginEnd l t \<noteq> None"
proof -
  have a: "angles (2 * off) = Inr (map (\<lambda>k. int k * (2 * off)) [0..<blocks_on off])"
    using assms(2) by (simp add: angles_def blocks_on_def)
  have "(if blocks_on off = 0 then bo else Some (pb + int (blocks_on off) - 1)) = Some (pb + int (blocks_on off) - 1)"
    using assms(3) pb by (auto simp: next_block_def)
  note put = put_blocks [of "2 * off" track skew "pb" "blocks_on off" l bo, unfolded this]
  define l1 where "l1 = fst (fold (put_block track (2 * off) skew (pb)) (map (\<lambda>k. int k * (2 * off)) [0..<blocks_on off]) (l, bo))"
  have f: "fold (put_block track (2 * off) skew (pb)) (map (\<lambda>k. int k * (2 * off)) [0..<blocks_on off]) (l, bo)
      = (l1, Some (pb + int (blocks_on off) - 1))"
    using put assms(2) by (simp add: l1_def)
  define l' where "l' = l1\<lparr>tracksBeginEnd := (tracksBeginEnd l1)(track \<mapsto> (pb, pb + int (blocks_on off) - 1))\<rparr>"
  have "lay_track track skew (pb) (l, bo) = Inr (l', Some (pb + int (blocks_on off) - 1))"
    using assms(1) a f by (simp add: lay_track_def l'_def del: rbind_Inr_iff)
  then show ?thesis using put assms(2) by (intro that [of l']) (simp_all add: l'_def l1_def)
qed

text \<open>The layout: the blocks are numbered from the outer to the inner track.\<close>

definition track_at :: "int \<Rightarrow> int \<Rightarrow> int \<Rightarrow> int \<Rightarrow> (int \<times> int \<times> int) option" where
  "track_at o0 o1 o2 b =
     (let n0 = int (blocks_on o0); n1 = int (blocks_on o1); n2 = int (blocks_on o2) in
      if b < 0 then None
      else if b < n0 then Some (0, b, o0)
      else if b < n0 + n1 then Some (1, b - n0, o1)
      else if b < n0 + n1 + n2 then Some (2, b - n0 - n1, o2)
      else None)"

lemma layout_of_zones:
  assumes z: "zone_offsets (split_on CHR '','' zoning) = Inr [o0, o1, o2]" and "0 < o0" "o1 \<noteq> 0" "o2 \<noteq> 0"
  obtains l where "InitBlockLayout zoning skew = Inr l" and "blockAngleOffset l = [o0, o1, o2]"
    and "maxBlock l = int (blocks_on o0 + blocks_on o1)"
    and "blockToTrackMap l = (\<lambda>b. map_option fst (track_at o0 o1 o2 b))"
    and "blockToAngleMap l = (\<lambda>b. map_option (\<lambda>(t, i, off). ((i + t * skew) * (2 * off) + 180) mod 360) (track_at o0 o1 o2 b))"
    and "\<forall>t \<in> {0, 1, 2}. tracksBeginEnd l t \<noteq> None"
proof -
  have three: "length (split_on CHR '','' zoning) = 3"
  proof -
    have "zone_offsets zs = Inr os \<Longrightarrow> length zs = length os" for zs os by (induction zs arbitrary: os) auto
    from this [OF z] show ?thesis by simp
  qed
  define e where "e = \<lparr>blockInfoList = [], blockToTrackMap = Map.empty, blockToAngleMap = Map.empty,
               tracksBeginEnd = Map.empty, blockAngleOffset = [o0, o1, o2], maxBlock = 0\<rparr>"
  have b0: "blocks_on o0 \<noteq> 0" using assms(2) pos_imp_zdiv_nonneg_iff [of "2 * o0" 359] by (simp add: blocks_on_def not_le)
  have e0: "next_block (e, None) = 0" by (simp add: next_block_def)
  have off: "py_nth (blockAngleOffset e) 0 = Inr o0" by (simp add: e_def py_nth_def)
  obtain l0 where l0: "lay_track 0 0 0 (e, None) = Inr (l0, Some (0 + int (blocks_on o0) - 1))"
      "blockToTrackMap l0 = (\<lambda>b. if 0 \<le> b \<and> b < 0 + int (blocks_on o0) then Some 0 else blockToTrackMap e b)"
      "blockToAngleMap l0 = (\<lambda>b. if 0 \<le> b \<and> b < 0 + int (blocks_on o0) then Some ((b - 0 + 0) * (2 * o0)) else blockToAngleMap e b)"
      "blockAngleOffset l0 = blockAngleOffset e" "\<And>t. tracksBeginEnd l0 t \<noteq> None \<longleftrightarrow> t = 0 \<or> tracksBeginEnd e t \<noteq> None"
    by (rule lay_track_blocks [OF off _ _ e0, of 0]) (use assms(2) b0 in auto)
  let ?p1 = "(l0, Some (int (blocks_on o0) - 1))"
  have n1: "next_block ?p1 = int (blocks_on o0)" by (simp add: next_block_def)
  have off1: "py_nth (blockAngleOffset l0) 1 = Inr o1" using l0(4) by (simp add: py_nth_def e_def)
  obtain l1 where l1: "lay_track 1 skew (int (blocks_on o0)) ?p1 = Inr (l1, Some (int (blocks_on o0) + int (blocks_on o1) - 1))"
      "blockToTrackMap l1 = (\<lambda>b. if int (blocks_on o0) \<le> b \<and> b < int (blocks_on o0) + int (blocks_on o1) then Some 1 else blockToTrackMap l0 b)"
      "blockToAngleMap l1 = (\<lambda>b. if int (blocks_on o0) \<le> b \<and> b < int (blocks_on o0) + int (blocks_on o1)
        then Some ((b - int (blocks_on o0) + skew) * (2 * o1)) else blockToAngleMap l0 b)"
      "blockAngleOffset l1 = blockAngleOffset l0" "\<And>t. tracksBeginEnd l1 t \<noteq> None \<longleftrightarrow> t = 1 \<or> tracksBeginEnd l0 t \<noteq> None"
    by (rule lay_track_blocks [OF off1 assms(3) _ n1, of skew]) auto
  let ?n = "int (blocks_on o0) + int (blocks_on o1)"
  let ?p2 = "(l1, Some (?n - 1))"
  have n2: "next_block ?p2 = ?n" by (simp add: next_block_def)
  have off2: "py_nth (blockAngleOffset l1) 2 = Inr o2" using l0(4) l1(4) by (simp add: py_nth_def e_def)
  obtain l2 where l2: "lay_track 2 (2 * skew) ?n ?p2 = Inr (l2, Some (?n + int (blocks_on o2) - 1))"
      "blockToTrackMap l2 = (\<lambda>b. if ?n \<le> b \<and> b < ?n + int (blocks_on o2) then Some 2 else blockToTrackMap l1 b)"
      "blockToAngleMap l2 = (\<lambda>b. if ?n \<le> b \<and> b < ?n + int (blocks_on o2) then Some ((b - ?n + 2 * skew) * (2 * o2)) else blockToAngleMap l1 b)"
      "blockAngleOffset l2 = blockAngleOffset l1" "\<And>t. tracksBeginEnd l2 t \<noteq> None \<longleftrightarrow> t = 2 \<or> tracksBeginEnd l1 t \<noteq> None"
    by (rule lay_track_blocks [OF off2 assms(4) _ n2, of "2 * skew"]) auto
  note maps = l0(2,3) l1(2,3) l2(2,3)
  define l where "l = l2\<lparr>maxBlock := ?n, blockToAngleMap := (\<lambda>b. map_option (\<lambda>a. (a + 180) mod 360) (blockToAngleMap l2 b))\<rparr>"
  have "InitBlockLayout zoning skew = Inr l"
    using z three l0(1) l1(1) l2(1) n1 n2 by (simp add: InitBlockLayout_def Let_def e_def [symmetric] l_def del: rbind_Inr_iff)
  moreover have "blockToTrackMap l = (\<lambda>b. map_option fst (track_at o0 o1 o2 b))"
    using maps by (auto simp: l_def track_at_def Let_def fun_eq_iff e_def)
  moreover have "blockToAngleMap l = (\<lambda>b. map_option (\<lambda>(t, i, off). ((i + t * skew) * (2 * off) + 180) mod 360) (track_at o0 o1 o2 b))"
    using maps by (auto simp: l_def track_at_def Let_def fun_eq_iff e_def algebra_simps)
  moreover have "blockAngleOffset l = [o0, o1, o2]" using l0(4) l1(4) l2(4) by (simp add: l_def e_def)
  moreover have "\<forall>t \<in> {0, 1, 2}. tracksBeginEnd l t \<noteq> None" using l0(5) l1(5) l2(5) by (auto simp: l_def)
  ultimately show ?thesis by (intro that [of l]) (simp_all add: l_def)
qed

lemma lay_track_zero: "py_nth (blockAngleOffset (fst lb)) track = Inr 0 \<Longrightarrow> lay_track track skew pb lb = Inl ValueError"
  by (simp add: lay_track_def angles_def)

lemma layout_needs_zones:
  assumes i: "InitBlockLayout zoning skew = Inr l"
  obtains o0 o1 o2 where "zone_offsets (split_on CHR '','' zoning) = Inr [o0, o1, o2]" and "0 < o0" and "o1 \<noteq> 0" and "o2 \<noteq> 0"
proof -
  obtain os where os: "zone_offsets (split_on CHR '','' zoning) = Inr os" and three: "length (split_on CHR '','' zoning) = 3"
    using i by (auto simp: InitBlockLayout_def Let_def)
  have len: "zone_offsets zs = Inr os \<Longrightarrow> length zs = length os" for zs os by (induction zs arbitrary: os) auto
  obtain o0 o1 o2 where o: "os = [o0, o1, o2]" using len [OF os] three by (auto simp: numeral_3_eq_3 Suc_length_conv length_Suc_conv)
  define e where "e = \<lparr>blockInfoList = [], blockToTrackMap = Map.empty, blockToAngleMap = Map.empty,
               tracksBeginEnd = Map.empty, blockAngleOffset = [o0, o1, o2], maxBlock = 0\<rparr>"
  have off0: "py_nth (blockAngleOffset e) 0 = Inr o0" by (simp add: e_def py_nth_def)
  have e0: "next_block (e, None) = 0" by (simp add: next_block_def)
  obtain p0 where p0: "lay_track 0 0 0 (e, None) = Inr p0" using i os o three by (auto simp: InitBlockLayout_def Let_def e_def)
  have z0: "o0 \<noteq> 0" using p0 lay_track_zero [of "(e, None)" 0] off0 by auto
  have pos: "0 < o0"
  proof (rule ccontr)
    assume "\<not> 0 < o0"
    then have "blocks_on o0 = 0" using z0 neg_imp_zdiv_neg_iff [of "2 * o0" 359] by (simp add: blocks_on_def)
    then have "lay_track 0 0 0 (e, None) = Inl NameError"
      using off0 z0 put_blocks [of "2 * o0" 0 0 0 0 e None] by (simp add: lay_track_def angles_def blocks_on_def)
    then show False using p0 by simp
  qed
  have b0: "blocks_on o0 \<noteq> 0" using pos pos_imp_zdiv_nonneg_iff [of "2 * o0" 359] by (simp add: blocks_on_def not_le)
  obtain l0 where "lay_track 0 0 0 (e, None) = Inr (l0, Some (0 + int (blocks_on o0) - 1))" "blockAngleOffset l0 = blockAngleOffset e"
    by (rule lay_track_blocks [OF off0 z0 _ e0, of 0]) (use b0 in auto)
  then have l0: "p0 = (l0, Some (int (blocks_on o0) - 1))" "blockAngleOffset l0 = [o0, o1, o2]" using p0 by (simp_all add: e_def)
  have n1: "next_block p0 = int (blocks_on o0)" by (simp add: l0(1) next_block_def)
  have off1: "py_nth (blockAngleOffset l0) 1 = Inr o1" using l0(2) by (simp add: py_nth_def)
  obtain p1 where p1: "lay_track 1 skew (next_block p0) p0 = Inr p1" using i os o three p0 by (auto simp: InitBlockLayout_def Let_def e_def)
  have z1: "o1 \<noteq> 0" using p1 lay_track_zero [of p0 1] off1 l0(1) by auto
  obtain l1 where "lay_track 1 skew (int (blocks_on o0)) (l0, Some (int (blocks_on o0) - 1)) =
      Inr (l1, Some (int (blocks_on o0) + int (blocks_on o1) - 1))" "blockAngleOffset l1 = blockAngleOffset l0"
    by (rule lay_track_blocks [OF off1 z1 _ n1 [unfolded l0(1)], of skew]) auto
  then have l1: "fst p1 = l1" "blockAngleOffset l1 = [o0, o1, o2]" using p1 l0 n1 by auto
  have off2: "py_nth (blockAngleOffset l1) 2 = Inr o2" using l1(2) by (simp add: py_nth_def)
  obtain p2 where p2: "lay_track 2 (2 * skew) (next_block p1) p1 = Inr p2" using i os o three p0 p1 by (auto simp: InitBlockLayout_def Let_def e_def)
  have z2: "o2 \<noteq> 0" using p2 lay_track_zero [of p1 2] off2 l1(1) by auto
  show ?thesis using os o pos z1 z2 by (intro that [of o0 o1 o2]) simp_all
qed

text \<open>
  The layout in closed form: blocks are numbered from the outer to the inner track, as many to a track as fit into 360 degrees
  at the distance of its zone, and each track is turned by the skew against the one before.
\<close>

theorem disk_layout:
  assumes "zone_offsets (split_on CHR '','' zoning) = Inr [o0, o1, o2]" and "0 < o0" and "o1 \<noteq> 0" and "o2 \<noteq> 0"
  shows "\<exists>l. InitBlockLayout zoning skew = Inr l \<and> blockAngleOffset l = [o0, o1, o2] \<and>
    blockToTrackMap l = (\<lambda>b. map_option fst (track_at o0 o1 o2 b)) \<and>
    blockToAngleMap l = (\<lambda>b. map_option (\<lambda>(t, i, off). ((i + t * skew) * (2 * off) + 180) mod 360) (track_at o0 o1 o2 b)) \<and>
    maxBlock l = int (blocks_on o0 + blocks_on o1)"
  by (rule layout_of_zones [OF assms, of skew]) auto

theorem disk_layout_witness:
  "\<exists>l. InitBlockLayout ''30,60,90'' 2 = Inr l \<and> blockToTrackMap l 17 = Some 1 \<and> blockToAngleMap l 20 = Some 0 \<and> maxBlock l = 18"
proof -
  have "zone_offsets (split_on CHR '','' ''30,60,90'') = Inr [15, 30, 45]" by code_simp
  from disk_layout [OF this, of 2] show ?thesis by (auto simp: track_at_def blocks_on_def)
qed

end
