(* ===== verification/DiskRun.thy ===== *)
theory DiskRun
  imports DiskPolicy DiskLayout
begin

text \<open>
  The disk simulator serves every request: an invariant of the queue, the arm, the angle and the clock that \<open>Animate\<close> keeps, and a
  measure that it lowers.
\<close>

section \<open>The invariant\<close>

definition total :: "disk \<Rightarrow> int" where
  "total d = seekTotal d + rotTotal d + xferTotal d"

definition totals_ok :: "disk \<Rightarrow> bool" where
  "totals_ok d \<longleftrightarrow> 0 \<le> seekTotal d \<and> 0 \<le> rotTotal d \<and> 0 \<le> xferTotal d"

text \<open>The platter stops at \<open>slots c\<close> positions in a revolution.\<close>

definition slots :: "dcfg \<Rightarrow> nat" where
  "slots c = nat \<lceil>360 / rotateSpeed c\<rceil>"

definition slot :: "dcfg \<Rightarrow> rat \<Rightarrow> nat" where
  "slot c a = nat \<lfloor>a / rotateSpeed c\<rfloor>"

definition angle_ok :: "dcfg \<Rightarrow> disk \<Rightarrow> bool" where
  "angle_ok c d \<longleftrightarrow> slot c (angle d) < slots c \<and> angle d = of_nat (slot c (angle d)) * rotateSpeed c"

definition settled :: "disk \<Rightarrow> bool" where
  "settled d \<longleftrightarrow> armTrack d \<in> {0, 1, 2} \<and> armX1 d = 90 + 40 * of_int (armTrack d)"






definition idle :: "dcfg \<Rightarrow> disk \<Rightarrow> bool" where
  "idle c d \<longleftrightarrow> dqueue_ok c d \<and> fifo_ok c d \<and> window_next c d \<and> settled d \<and> total d = timer d \<and> angle_ok c d \<and> totals_ok d \<and> \<not> isDone d"


section \<open>Choosing the next request\<close>














section \<open>One tick\<close>


















section \<open>The end of a request\<close>














section \<open>The run\<close>









section \<open>From the options to the result\<close>

lemma layout_ok_init:
  assumes "InitBlockLayout zoning skew = Inr l"
  shows "layout_ok l"
proof -
  obtain o0 o1 o2 where "zone_offsets (split_on CHR '','' zoning) = Inr [o0, o1, o2]" "0 < o0" "o1 \<noteq> 0" "o2 \<noteq> 0"
    using layout_needs_zones [OF assms] .
  then obtain l' where "InitBlockLayout zoning skew = Inr l'" "blockAngleOffset l' = [o0, o1, o2]" "maxBlock l' = int (blocks_on o0 + blocks_on o1)"
      "blockToTrackMap l' = (\<lambda>b. map_option fst (track_at o0 o1 o2 b))"
      "blockToAngleMap l' = (\<lambda>b. map_option (\<lambda>(t, i, off). ((i + t * skew) * (2 * off) + 180) mod 360) (track_at o0 o1 o2 b))"
      "\<forall>t \<in> {0, 1, 2}. tracksBeginEnd l' t \<noteq> None"
    by (rule layout_of_zones [where skew = skew])
  then show ?thesis using assms by (auto simp: layout_ok_def track_at_def Let_def split: if_splits)
qed

lemma seek_speed_divides:
  assumes "check_seek_speed s = Inr ()" and "0 < s"
  shows "of_nat (nat \<lfloor>40 / s\<rfloor>) * s = 40"
proof -
  have "of_int \<lfloor>40 / s\<rfloor> = 40 / s"
  proof (cases "s < 1")
    case True
    have "py_trunc (40 / s) = \<lfloor>40 / s\<rfloor>" using assms(2) by (simp add: py_trunc_def not_less)
    moreover have "40 / s = of_int (py_trunc (40 / s))"
      using True assms unfolding check_seek_speed_def by (auto split: if_splits)
    ultimately show ?thesis by (simp only:)
  next
    case False
    then show ?thesis using assms by (cases "s = 1") (auto simp: check_seek_speed_def field_simps split: if_splits)
  qed
  then have "of_int \<lfloor>40 / s\<rfloor> * s = 40" using assms(2) by (simp only: nonzero_eq_divide_eq)
  moreover have "(of_nat (nat \<lfloor>40 / s\<rfloor>) :: rat) = of_int \<lfloor>40 / s\<rfloor>" using assms(2) by simp
  ultimately show ?thesis by (simp only:)
qed

text \<open>The queue of the given requests.\<close>

definition fresh_queue :: "disk \<Rightarrow> bool" where
  "fresh_queue d \<longleftrightarrow> map snd (requestQueue d) = [0..<length (requestQueue d)] \<and> requestState d = replicate (length (requestQueue d)) STATE_NULL"

lemma queue_requests_fresh:
  assumes "queue_requests rs d = Inr d'" and "fresh_queue d"
  shows "fresh_queue d' \<and> length (requestQueue d') = length (requestQueue d) + length rs \<and>
    (\<exists>q st. d' = d\<lparr>requestQueue := q, requestState := st\<rparr>)"
  using assms
proof (induction rs arbitrary: d)
  case Nil
  then show ?case by (cases d') auto
next
  case (Cons r rs)
  then obtain b where b: "queue_requests rs (AddRequest (Block b) d) = Inr d'" by auto
  have "fresh_queue (AddRequest (Block b) d)"
    using Cons.prems(2) by (simp add: fresh_queue_def AddRequest_def AddQueueEntry_def replicate_append_same)
  from Cons.IH [OF b this] show ?case by (auto simp: AddRequest_def AddQueueEntry_def)
qed

lemma make_disk_ok:
  assumes m: "make_disk addr desc late ldesc pol seek rot skew w zoning rs = Inr (c, d)"
    and "0 < seek" and "0 < rot" and "w \<noteq> 0" and "pol \<in> {''FIFO'', ''SATF'', ''BSATF'', ''SSTF''}"
    and v: "list_all (valid_block (lay c) \<circ> fst) (requestQueue d)" "list_all (valid_block (lay c)) (lateRequests c)"
  shows "cfg_ok (nat \<lfloor>40 / seek\<rfloor>) c" and "idle c d" and "lateCount d = 0" and "requestCount d = 0" and "timer d = 0"
    and "rotateSpeed c = rot" and "armSpeedBase c = seek"
proof -
  obtain l reqs rs1 lt rs2 where l: "InitBlockLayout zoning skew = Inr l" and s: "check_seek_speed seek = Inr ()"
      and c: "c = \<lparr>policy = pol, armSpeedBase = seek, rotateSpeed = rot, window = w,
              fairWindow = (if pol = ''BSATF'' \<and> w \<noteq> -1 then w else -1), lateRequests = lt, lay = l\<rparr>"
      and q: "queue_requests reqs (init_disk c) = Inr d"
    using m by (auto simp: make_disk_def Let_def)
  have "fresh_queue (init_disk c)" by (simp add: fresh_queue_def init_disk_def)
  then obtain qs st where d: "d = (init_disk c)\<lparr>requestQueue := qs, requestState := st\<rparr>" "fresh_queue d"
    using queue_requests_fresh [OF q] by auto
  show "cfg_ok (nat \<lfloor>40 / seek\<rfloor>) c"
    using layout_ok_init [OF l] seek_speed_divides [OF s] assms(2-5) v(2) by (simp add: cfg_ok_def c)
  have st: "requestState d = replicate (length (requestQueue d)) STATE_NULL" using d(2) by (simp add: fresh_queue_def)
  have "dqueue_ok c d" using d v(1) st by (simp add: dqueue_ok_def fresh_queue_def done_count_def init_disk_def)
  moreover have "fifo_ok c d" using st by (simp add: fifo_ok_def d(1) init_disk_def)
  moreover have "window_next c d"
  proof -
    have "(- 1 :: int) div w = -1" if "0 < w" using that by (simp add: div_eq_minus1)
    then show ?thesis using assms(4) by (auto simp: window_next_def d(1) init_disk_def c)
  qed
  moreover have "angle_ok c d"
  proof -
    have "0 < 360 / rot" using assms(3) by simp
    then have "0 < slots c" by (simp add: slots_def c)
    then show ?thesis by (simp add: angle_ok_def slot_def d(1) init_disk_def)
  qed
  ultimately show "idle c d"
    by (simp add: idle_def) (simp add: d(1) init_disk_def settled_def total_def totals_ok_def)
  show "lateCount d = 0" "requestCount d = 0" "timer d = 0" "rotateSpeed c = rot" "armSpeedBase c = seek"
    by (simp_all add: d(1) init_disk_def c)
qed



section \<open>Policies, random requests, text requests\<close>

lemma wrap_up_nonneg: "0 \<le> wrap_up a"
  by (induction a rule: wrap_up.induct) (subst wrap_up.simps, auto)

lemma est_nonneg:
  assumes c: "cfg_ok n c" and v: "valid_block (lay c) b" and o: "list_all (\<lambda>off. 0 \<le> off) (blockAngleOffset (lay c))"
  shows "0 \<le> est c d b"
proof -
  have l: "layout_ok (lay c)" and s: "0 < rotateSpeed c" "0 < armSpeedBase c" using c by (auto simp: cfg_ok_def)
  have "track_of (lay c) b \<in> {0, 1, 2}" by (rule valid_lookup(3) [OF l v])
  then have "0 \<le> offset_of (lay c) (track_of (lay c) b)"
    using l o by (auto simp: layout_ok_def offset_of_def list_all_length)
  then show ?thesis using s wrap_up_nonneg by (simp add: est_def Let_def track_dist_def)
qed

text \<open>
  C22: SATF takes the first of the pending requests whose estimated access time is least, and SSTF takes exactly the pending
  requests at the least distance from the arm, in their order. Neither assertion can fail.
\<close>

theorem disk_policies:
  assumes c: "cfg_ok n c" and o: "list_all (\<lambda>off. 0 \<le> off) (blockAngleOffset (lay c))" and l: "list_all (listed (lay c) d) rs"
    and p: "list_ex (pending d) rs" and a: "armTrack d \<in> {0, 1, 2}"
  shows "DoSATF c rs d = (let (b, i) = arg_min_list (req_est c d) (filter (pending d) rs) in Inr (b, int i, d\<lparr>totalEst := Some (est c d b)\<rparr>)) \<and>
    DoSSTF c rs d = Inr (nearest c d rs)"
proof
  have ex: "\<exists>r \<in> set rs. pending d r" using p by (simp add: list_ex_iff)
  show "DoSSTF c rs d = Inr (nearest c d rs)" by (rule DoSSTF_nearest(1) [OF c l ex a])
  have nn: "0 \<le> req_est c d r" if "r \<in> set rs" for r
    using est_nonneg [OF c _ o, of "fst r" d] l that by (auto simp: req_est_def listed_def list_all_iff)
  let ?r = "arg_min_list (req_est c d) (filter (pending d) rs)"
  have ne: "filter (pending d) rs \<noteq> []" using ex by (auto simp: filter_empty_conv)
  have "?r \<in> set (filter (pending d) rs)" by (rule arg_min_list_in [OF ne])
  then have "valid_block (lay c) (fst ?r)" using l by (auto simp: listed_def list_all_iff)
  then have "fst ?r \<noteq> Block (-1)" using c valid_lookup(4) by (auto simp: cfg_ok_def)
  moreover have "satf_loop c d rs (-1, Block (-1), -1) = Inr (picked c d ?r)"
    using satf_loop_pick [OF c l] satf_pick_first [OF nn ne] by simp
  ultimately show "DoSATF c rs d = (let (b, i) = ?r in Inr (b, int i, d\<lparr>totalEst := Some (est c d b)\<rparr>))"
    by (simp add: DoSATF_def picked_def req_est_def Let_def split_beta)
qed

lemma random_requests_below:
  assumes "random_requests n m k rs = Inr (l, rs')" and "draws_ok rs" and "0 < m"
  shows "list_all (\<lambda>r. \<exists>b. r = Block (b + k) \<and> 0 \<le> b \<and> b < m) l"
  using assms
proof (induction n arbitrary: rs l rs')
  case (Suc n)
  then obtain x rs1 l1 where x: "draw rs = Inr (x, rs1)" "random_requests n m k rs1 = Inr (l1, rs')" "l = Block (rand_below x m + k) # l1"
    by auto
  have d: "0 \<le> x" "x < 1" "draws_ok rs1" using draws_ok_draw [OF Suc.prems(2) x(1)] by auto
  show ?case using Suc.IH [OF x(2) d(3) Suc.prems(3)] rand_below_bounds [OF d(1,2) Suc.prems(3)] x(3) by auto
qed simp

text \<open>
  Random requests with the maximum -1, the highest possible address, are always existing blocks, but never a block of the
  inner track: the maximum is the first block of that track.
\<close>

theorem disk_random_misses_inner:
  assumes i: "InitBlockLayout zoning skew = Inr l" and d: "draws_ok rs" and s: "split_on CHR '','' desc = [d0, ''-1'', ''0'']"
    and m: "MakeRequests l ''-1'' desc rs = Inr (reqs, rs')"
  shows "list_all (\<lambda>r. valid_block l r \<and> track_of l r \<in> {0, 1}) reqs"
proof -
  obtain o0 o1 o2 where z: "zone_offsets (split_on CHR '','' zoning) = Inr [o0, o1, o2]" "0 < o0" "o1 \<noteq> 0" "o2 \<noteq> 0"
    using layout_needs_zones [OF i] .
  obtain l' where l': "InitBlockLayout zoning skew = Inr l'" "maxBlock l' = int (blocks_on o0 + blocks_on o1)"
      "blockToTrackMap l' = (\<lambda>b. map_option fst (track_at o0 o1 o2 b))"
    by (rule layout_of_zones [OF z, of skew])
  then have l: "maxBlock l = int (blocks_on o0) + int (blocks_on o1)" "blockToTrackMap l = (\<lambda>b. map_option fst (track_at o0 o1 o2 b))" using i by auto
  have pos: "0 < maxBlock l" using z(2) pos_imp_zdiv_nonneg_iff [of "2 * o0" 359] l(1) by (simp add: blocks_on_def)
  have ints: "py_int ''-1'' = Inr (-1)" "py_int ''0'' = Inr 0" by code_simp+
  obtain n where n: "random_requests n (maxBlock l) 0 rs = Inr (reqs, rs')" using m s ints by (auto simp: MakeRequests_def)
  have "valid_block l (Block b) \<and> track_of l (Block b) \<in> {0, 1}" if "0 \<le> b" "b < maxBlock l" for b
    using that l by (auto simp: valid_block_def track_of_def track_at_def Let_def)
  then show ?thesis using random_requests_below [OF n d pos] by (fastforce simp: list_all_iff)
qed

text \<open>
  Late requests that are given as a list stay text, which is no key of the block maps: as soon as such a request is the next
  one, the program ends with a KeyError.
\<close>

theorem disk_late_list_fails:
  assumes "addr \<noteq> ''-1''" and "MakeRequests l addr desc rs = Inr (late, rs')" and "b \<in> set late"
    and "policy c = ''FIFO''" and "requestCount d < length (requestQueue d)" and "requestQueue d ! requestCount d = (b, k)"
    and "k < length (requestState d)" and "requestState d ! k \<noteq> STATE_DONE"
  shows "GetNextIO c d = Inl KeyError"
proof -
  obtain s where s: "b = Text s" using assms(1-3) by (auto simp: MakeRequests_def)
  have "take 1 (drop (requestCount d) (requestQueue d)) = [(b, k)]" using assms(5,6) by (simp add: take_Suc hd_drop_conv_nth)
  then show ?thesis
    using assms(4-8) s by (simp add: GetNextIO_def choose_block_def DoSATF_def estimate_def lookup_block_def)
qed

section \<open>A run\<close>

text \<open>A run of the program: three requests in a list, one late request at random, the default layout.\<close>

lemma default_layout:
  obtains l where "InitBlockLayout ''30,30,30'' 0 = Inr l" and "blockAngleOffset l = [15, 15, 15]" and "maxBlock l = 24"
    and "blockToTrackMap l = (\<lambda>b. map_option fst (track_at 15 15 15 b))"
proof -
  have z: "zone_offsets (split_on CHR '','' ''30,30,30'') = Inr [15, 15, 15]" by code_simp
  obtain l where "InitBlockLayout ''30,30,30'' 0 = Inr l" "blockAngleOffset l = [15, 15, 15]" "maxBlock l = int (blocks_on 15 + blocks_on 15)"
      "blockToTrackMap l = (\<lambda>b. map_option fst (track_at 15 15 15 b))"
    by (rule layout_of_zones [OF z, of 0]) simp_all
  moreover have "blocks_on 15 = 12" by (simp add: blocks_on_def)
  ultimately show ?thesis by (intro that [of l]) simp_all
qed

lemma sample_disk:
  obtains l c d where "make_disk ''7,30,8'' ''5,-1,0'' ''-1'' ''1,-1,0'' pol 1 1 0 (-1) ''30,30,30'' [1/2] = Inr (c, d)"
    and "lay c = l" and "blockAngleOffset l = [15, 15, 15]" and "blockToTrackMap l = (\<lambda>b. map_option fst (track_at 15 15 15 b))"
    and "requestQueue d = [(Block 7, 0), (Block 30, 1), (Block 8, 2)]" and "requestState d = [STATE_NULL, STATE_NULL, STATE_NULL]"
    and "lateRequests c = [Block 12]" and "armTrack d = 0"
proof -
  obtain l where l: "InitBlockLayout ''30,30,30'' 0 = Inr l" "blockAngleOffset l = [15, 15, 15]" "maxBlock l = 24"
      "blockToTrackMap l = (\<lambda>b. map_option fst (track_at 15 15 15 b))" by (rule default_layout)
  have sp: "split_on CHR '','' ''7,30,8'' = [''7'', ''30'', ''8'']" "split_on CHR '','' ''1,-1,0'' = [''1'', ''-1'', ''0'']" by code_simp+
  have int: "py_int ''7'' = Inr 7" "py_int ''30'' = Inr 30" "py_int ''8'' = Inr 8" "py_int ''1'' = Inr 1" "py_int ''-1'' = Inr (-1)" "py_int ''0'' = Inr 0"
    by code_simp+
  have "rand_below (1/2) 24 = 12" by (simp add: rand_below_def py_trunc_def)
  then have late: "MakeRequests l ''-1'' ''1,-1,0'' [1/2] = Inr ([Block 12], [])" using l(3) sp(2) int by (simp add: MakeRequests_def)
  define c where "c = \<lparr>policy = pol, armSpeedBase = 1, rotateSpeed = 1, window = -1, fairWindow = -1, lateRequests = [Block 12], lay = l\<rparr>"
  define d where "d = AddRequest (Block 8) (AddRequest (Block 30) (AddRequest (Block 7) (init_disk c)))"
  have "make_disk ''7,30,8'' ''5,-1,0'' ''-1'' ''1,-1,0'' pol 1 1 0 (-1) ''30,30,30'' [1/2] = Inr (c, d)"
    using l(1) late sp(1) int by (simp add: make_disk_def MakeRequests_def check_seek_speed_def c_def d_def Let_def)
  then show ?thesis
    by (rule that [of c d l]) (use l in \<open>simp_all add: c_def d_def AddRequest_def AddQueueEntry_def init_disk_def\<close>)
qed

lemma sample_valid: "blockToTrackMap l = (\<lambda>b. map_option fst (track_at 15 15 15 b)) \<Longrightarrow>
    valid_block l (Block b) \<longleftrightarrow> 0 \<le> b \<and> b < 36"
  by (auto simp: valid_block_def track_at_def blocks_on_def)


theorem disk_policies_witness:
  "\<exists>c d. make_disk ''7,30,8'' ''5,-1,0'' ''-1'' ''1,-1,0'' ''SSTF'' 1 1 0 (-1) ''30,30,30'' [1/2] = Inr (c, d) \<and>
     DoSSTF c (requestQueue d) d = Inr [(Block 7, 0), (Block 8, 2)]"
proof -
  obtain l c d where m: "make_disk ''7,30,8'' ''5,-1,0'' ''-1'' ''1,-1,0'' ''SSTF'' 1 1 0 (-1) ''30,30,30'' [1/2] = Inr (c, d)"
      and s: "lay c = l" "blockAngleOffset l = [15, 15, 15]" "blockToTrackMap l = (\<lambda>b. map_option fst (track_at 15 15 15 b))"
        "requestQueue d = [(Block 7, 0), (Block 30, 1), (Block 8, 2)]" "requestState d = [STATE_NULL, STATE_NULL, STATE_NULL]"
        "lateRequests c = [Block 12]" "armTrack d = 0" by (rule sample_disk)
  note valid = sample_valid [OF s(3)]
  have cfg: "cfg_ok (nat \<lfloor>40 / 1 :: rat\<rfloor>) c" by (rule make_disk_ok(1) [OF m]) (use valid s in simp_all)
  have l: "list_all (listed (lay c) d) (requestQueue d)" using valid s by (simp add: listed_def)
  have "track_of l (Block 7) = 0" "track_of l (Block 8) = 0" "track_of l (Block 30) = 2"
    using s(3) by (simp_all add: track_of_def track_at_def blocks_on_def)
  then have "nearest c d (requestQueue d) = [(Block 7, 0), (Block 8, 2)]"
    using s by (simp add: nearest_def pending_def req_dist_def track_dist_def)
  moreover have "list_ex (pending d) (requestQueue d)" using s by (simp add: pending_def)
  ultimately show ?thesis using disk_policies [OF cfg _ l] m s by auto
qed

theorem disk_random_misses_inner_witness:
  "\<exists>l. InitBlockLayout ''30,30,30'' 0 = Inr l \<and> track_of l (Block 30) = 2 \<and>
     (\<exists>reqs rs. MakeRequests l ''-1'' ''1,-1,0'' [99/100] = Inr (reqs, rs) \<and> list_all (\<lambda>r. track_of l r \<in> {0, 1}) reqs)"
proof -
  obtain l where l: "InitBlockLayout ''30,30,30'' 0 = Inr l" "maxBlock l = 24" "blockToTrackMap l = (\<lambda>b. map_option fst (track_at 15 15 15 b))"
    by (rule default_layout)
  have sp: "split_on CHR '','' ''1,-1,0'' = [''1'', ''-1'', ''0'']" by code_simp
  have int: "py_int ''1'' = Inr 1" "py_int ''-1'' = Inr (-1)" "py_int ''0'' = Inr 0" by code_simp+
  have m: "MakeRequests l ''-1'' ''1,-1,0'' [99/100] = Inr ([Block (rand_below (99/100) 24)], [])"
    using l(2) sp int by (simp add: MakeRequests_def)
  have "list_all (\<lambda>r. valid_block l r \<and> track_of l r \<in> {0, 1}) [Block (rand_below (99/100) 24)]"
    by (rule disk_random_misses_inner [OF l(1) _ sp m]) (simp add: draws_ok_def)
  moreover have "track_of l (Block 30) = 2" using l(3) by (simp add: track_of_def track_at_def blocks_on_def)
  ultimately show ?thesis using l(1) m by auto
qed

theorem disk_late_list_fails_witness:
  "\<exists>c d. policy c = ''FIFO'' \<and> requestQueue d = [(Block 5, 0), (Text ''6'', 1)] \<and> GetNextIO c d = Inl KeyError"
proof -
  obtain l where "InitBlockLayout ''30,30,30'' 0 = Inr l" by (rule default_layout)
  define c where "c = \<lparr>policy = ''FIFO'', armSpeedBase = 1, rotateSpeed = 1, window = -1, fairWindow = -1, lateRequests = [Text ''6''], lay = l\<rparr>"
  define d where "d = (AddRequest (Text ''6'') (AddRequest (Block 5) (init_disk c)))\<lparr>requestCount := 1\<rparr>"
  have "GetNextIO c d = Inl KeyError"
    by (rule disk_late_list_fails [of "''6''" l "''0,-1,0''" "[]" "[Text ''6'']" "[]" "Text ''6''" c _ 1])
      (simp_all add: MakeRequests_def AddRequest_def AddQueueEntry_def init_disk_def c_def d_def)
  moreover have "policy c = ''FIFO''" "requestQueue d = [(Block 5, 0), (Text ''6'', 1)]"
    by (simp_all add: c_def d_def AddRequest_def AddQueueEntry_def init_disk_def)
  ultimately show ?thesis by blast
qed

end
