(* ===== verification/Chat.thy ===== *)
theory Chat
  imports Prelude
begin

text \<open>
  The registry of the chat, \<open>src/Sem5/Rechnernetze/Praxis/PeerToPeerChat\<close>: registration, deregistration and broadcasts of
  \<open>Server.py\<close>, the dispatch of a decoded request, the framing of messages, and the user list that \<open>Client.py\<close> keeps from the updates.

  An operation of the server takes the state and returns a result, which may be an exception, together with the state: an
  exception does not undo what was done before it. Connections and peer addresses are numbers. A message is the dictionary that
  is sent: its text is made and read by the \<open>json\<close> package, and what comes of reading a request is a datatype. Of the sockets
  the model has the messages sent, the connections closed, and those that were reset by the peer.
\<close>

section \<open>Framing\<close>

text \<open>\<open>bytearray(s, 'utf-8')\<close> for the characters of the model, which are below 256.\<close>

definition utf8_char :: "char \<Rightarrow> nat list" where
  "utf8_char c = (let n = of_char c in if n < 128 then [n] else [192 + n div 64, 128 + n mod 64])"

definition utf8 :: "string \<Rightarrow> nat list" where
  "utf8 s = concat (map utf8_char s)"

fun to_bytes :: "nat \<Rightarrow> nat \<Rightarrow> nat list" where
  "to_bytes 0 n = []"
| "to_bytes (Suc k) n = n mod 256 # to_bytes k (n div 256)"

definition pack_payload :: "string \<Rightarrow> nat list res" where
  "pack_payload json_string =
     (let payload_msg = utf8 json_string in
      if length payload_msg < 256 ^ 4 then Inr (to_bytes 4 (length payload_msg) @ payload_msg) else Inl OverflowError)"

text \<open>\<open>int.from_bytes\<close>: the server reads the size with the least significant byte first, the client the other way round.\<close>

fun from_bytes_little :: "nat list \<Rightarrow> nat" where
  "from_bytes_little [] = 0"
| "from_bytes_little (b # bs) = b + 256 * from_bytes_little bs"

definition from_bytes_big :: "nat list \<Rightarrow> nat" where
  "from_bytes_big bs = from_bytes_little (rev bs)"

text \<open>A call of \<open>recv\<close> takes what has arrived, and no more bytes than it is asked for.\<close>

definition recv :: "nat \<Rightarrow> nat list \<Rightarrow> nat list \<times> nat list" where
  "recv n stream = (take n stream, drop n stream)"

definition server_recv :: "nat list \<Rightarrow> nat list \<times> nat list" where
  "server_recv stream = (let (b, rest) = recv 4 stream in recv (from_bytes_little b) rest)"

definition client_recv :: "nat list \<Rightarrow> nat list option \<times> nat list" where
  "client_recv stream =
     (let (b, rest) = recv 4 stream in
      if b = [] then (None, rest) else let (data, rest') = recv (from_bytes_big b) rest in (Some data, rest'))"

section \<open>The state of the server\<close>

text \<open>
  The values of a request. Lists and dictionaries are not told apart. Numbers with a fraction and truth values, which
  can be equal to an integer, are left out.
\<close>

datatype pyval = Str string | Number int | Null | Container

text \<open>
  A nickname is a string object: its identity, which \<open>is\<close> compares, and its text, which dictionaries compare. Two objects
  with the same identity have the same text, so that \<open>is\<close> is the equality of pairs.
\<close>

type_synonym nick = "nat \<times> string"

type_synonym entry = "nick \<times> pyval \<times> pyval \<times> nat"

fun text_of :: "entry \<Rightarrow> string" where
  "text_of ((oid, t), ip, port, conn) = t"

fun addr_of :: "entry \<Rightarrow> pyval \<times> pyval" where
  "addr_of (n, ip, port, conn) = (ip, port)"

fun conn_of :: "entry \<Rightarrow> nat" where
  "conn_of (n, ip, port, conn) = conn"

text \<open>Nickname, ip and port, as they stand in the messages.\<close>

type_synonym user = "string \<times> pyval \<times> pyval"

datatype notice = UserList (added: "user list") (removed: "user list") | Message pyval

record server =
  locked :: bool
  clientList :: "entry list"
  addr_to_nick :: "nat \<rightharpoonup> nick"
  sent :: "(nat \<times> notice) list"
  closed :: "nat list"
  reset_peers :: "nat set"

type_synonym 'a action = "server \<Rightarrow> 'a res \<times> server"

definition ret :: "'a \<Rightarrow> 'a action" where
  "ret x s = (Inr x, s)"

definition raise :: "py_error \<Rightarrow> 'a action" where
  "raise e s = (Inl e, s)"

definition sbind :: "'a action \<Rightarrow> ('a \<Rightarrow> 'b action) \<Rightarrow> 'b action" where
  "sbind m f s = (case m s of (Inl e, t) \<Rightarrow> (Inl e, t) | (Inr x, t) \<Rightarrow> f x t)"

text \<open>\<open>try: body finally: fin\<close>. An exception of the last part takes the place of the result.\<close>

definition sfinally :: "'a action \<Rightarrow> unit action \<Rightarrow> 'a action" where
  "sfinally body fin s =
     (case body s of
        (Inl Blocked, t) \<Rightarrow> (Inl Blocked, t)
      | (r, t) \<Rightarrow> (case fin t of (Inl e, u) \<Rightarrow> (Inl e, u) | (Inr _, u) \<Rightarrow> (r, u)))"

definition update :: "(server \<Rightarrow> server) \<Rightarrow> unit action" where
  "update f s = (Inr (), f s)"

definition query :: "(server \<Rightarrow> 'a) \<Rightarrow> 'a action" where
  "query f s = (Inr (f s), s)"

text \<open>The lock: a second acquire by the same thread waits for ever, and releasing a free lock is an error.\<close>

definition acquire :: "unit action" where
  "acquire s = (if locked s then (Inl Blocked, s) else (Inr (), s\<lparr>locked := True\<rparr>))"

definition release :: "unit action" where
  "release s = (if locked s then (Inr (), s\<lparr>locked := False\<rparr>) else (Inl RuntimeError, s))"

definition send :: "nat \<Rightarrow> notice \<Rightarrow> unit action" where
  "send conn msg s =
     (if conn \<in> set (closed s) then (Inl OSError, s)
      else if conn \<in> reset_peers s then (Inl ConnectionResetError, s) else (Inr (), s\<lparr>sent := sent s @ [(conn, msg)]\<rparr>))"

definition close :: "nat \<Rightarrow> unit action" where
  "close conn = update (\<lambda>s. s\<lparr>closed := closed s @ [conn]\<rparr>)"

section \<open>Operations of the server\<close>

text \<open>The entry of a nickname in the dictionary, by its text.\<close>

definition find_client :: "string \<Rightarrow> entry list \<Rightarrow> entry option" where
  "find_client nickname cl = find (\<lambda>e. text_of e = nickname) cl"

fun send_all :: "notice \<Rightarrow> nick option \<Rightarrow> entry list \<Rightarrow> unit action" where
  "send_all msg exclude [] = ret ()"
| "send_all msg exclude ((nickname, ip_addr, port, conn) # rest) =
     (if exclude = Some nickname then send_all msg exclude rest
      else (\<lambda>s. case send conn msg s of
              (Inl ConnectionResetError, t) \<Rightarrow> send_all msg exclude rest t
            | (Inl e, t) \<Rightarrow> (Inl e, t)
            | (Inr _, t) \<Rightarrow> send_all msg exclude rest t))"

definition broadcast_clients :: "notice \<Rightarrow> nick option \<Rightarrow> unit action" where
  "broadcast_clients msg exclude =
     sbind (sfinally (sbind acquire (\<lambda>_. query clientList)) release) (send_all msg exclude)"

definition user_of :: "entry \<Rightarrow> user" where
  "user_of e = (text_of e, addr_of e)"

text \<open>The part of \<open>register_client\<close> under the lock; \<open>None\<close> is the early return.\<close>

definition register_locked :: "nick \<Rightarrow> pyval \<Rightarrow> pyval \<Rightarrow> nat \<Rightarrow> nat \<Rightarrow> user list option action" where
  "register_locked nickname ip port conn tcp_addr =
     sfinally
       (sbind acquire (\<lambda>_.
        sbind (query clientList) (\<lambda>cl.
          if find_client (snd nickname) cl \<noteq> None then sbind release (\<lambda>_. ret None)
          else sbind (update (\<lambda>s. s\<lparr>clientList := clientList s @ [(nickname, ip, port, conn)],
                                    addr_to_nick := (addr_to_nick s)(tcp_addr \<mapsto> nickname)\<rparr>))
                 (\<lambda>_. ret (Some (map user_of cl))))))
       release"

definition register_notify :: "nick \<Rightarrow> pyval \<Rightarrow> pyval \<Rightarrow> nat \<Rightarrow> user list \<Rightarrow> bool action" where
  "register_notify nickname ip port conn added_list =
     sbind (send conn (UserList added_list [])) (\<lambda>_.
     sbind (broadcast_clients (UserList [(snd nickname, ip, port)] []) (Some nickname)) (\<lambda>_. ret True))"

definition register_client :: "nick \<Rightarrow> pyval \<Rightarrow> pyval \<Rightarrow> nat \<Rightarrow> nat \<Rightarrow> bool action" where
  "register_client nickname ip port conn tcp_addr =
     sbind (register_locked nickname ip port conn tcp_addr) (\<lambda>r.
       case r of None \<Rightarrow> ret False | Some added_list \<Rightarrow> register_notify nickname ip port conn added_list)"

definition unregister_locked :: "string \<Rightarrow> nat \<Rightarrow> entry option action" where
  "unregister_locked nickname addr =
     sfinally
       (sbind acquire (\<lambda>_.
        sbind (query clientList) (\<lambda>cl.
          case find_client nickname cl of
            None \<Rightarrow> sbind release (\<lambda>_. ret None)
          | Some removed_client \<Rightarrow>
              sbind (update (\<lambda>s. s\<lparr>clientList := filter (\<lambda>e. text_of e \<noteq> nickname) (clientList s)\<rparr>)) (\<lambda>_.
              sbind (query addr_to_nick) (\<lambda>a2n.
                if a2n addr = None then raise KeyError
                else sbind (update (\<lambda>s. s\<lparr>addr_to_nick := (addr_to_nick s)(addr := None)\<rparr>)) (\<lambda>_. ret (Some removed_client)))))))
       release"

definition unregister_client :: "string \<Rightarrow> nat \<Rightarrow> bool action" where
  "unregister_client nickname addr =
     sbind (unregister_locked nickname addr) (\<lambda>r.
       case r of
         None \<Rightarrow> ret False
       | Some removed_client \<Rightarrow>
           sbind (broadcast_clients (UserList [] [(nickname, addr_of removed_client)]) None) (\<lambda>_.
           sbind (close (conn_of removed_client)) (\<lambda>_. ret True)))"

section \<open>Requests\<close>

type_synonym payload = "string \<rightharpoonup> pyval"

definition get_item :: "payload \<Rightarrow> string \<Rightarrow> pyval action" where
  "get_item p k = (case p k of None \<Rightarrow> raise KeyError | Some v \<Rightarrow> ret v)"

text \<open>\<open>nickname + ''...''\<close> in the call of \<open>print\<close>.\<close>

definition concat_text :: "pyval \<Rightarrow> string action" where
  "concat_text v = (case v of Str s \<Rightarrow> ret s | _ \<Rightarrow> raise TypeError)"

definition dispatch :: "nat \<Rightarrow> pyval \<Rightarrow> payload \<Rightarrow> nat \<Rightarrow> nat \<Rightarrow> unit action" where
  "dispatch oid msg_type p conn addr =
     (if msg_type = Str ''register'' then
        sbind (get_item p ''nickname'') (\<lambda>n.
        sbind (get_item p ''ip'') (\<lambda>ip.
        sbind (get_item p ''port'') (\<lambda>port.
        sbind (concat_text n) (\<lambda>nickname.
        sbind (register_client (oid, nickname) ip port conn addr) (\<lambda>_. ret ())))))
      else if msg_type = Str ''unregister'' then
        sbind (get_item p ''nickname'') (\<lambda>n.
        sbind (concat_text n) (\<lambda>nickname.
        sbind (unregister_client nickname addr) (\<lambda>_. ret ())))
      else if msg_type = Str ''broadcast'' then
        sbind (get_item p ''message'') (\<lambda>m.
        sbind (query addr_to_nick) (\<lambda>a2n.
          case a2n addr of None \<Rightarrow> raise KeyError | Some nickname \<Rightarrow> broadcast_clients (Message m) (Some nickname)))
      else ret ())"

definition catch_key_error :: "unit action \<Rightarrow> unit action" where
  "catch_key_error m s = (case m s of (Inl KeyError, t) \<Rightarrow> (Inr (), t) | (r, t) \<Rightarrow> (r, t))"

text \<open>
  What reading a request gives: a dictionary, another value, a text that is not JSON (also the empty one of a
  connection that was closed), bytes that are no text, or one of the exceptions of the socket.
\<close>

datatype incoming = Request payload | NotADict | BadJson | BadText | PeerReset | TimedOut

text \<open>
  \<open>oid\<close> is the identity of the string object that is the nickname of the request. The type is read outside of the try
  block that catches a KeyError, and the lookup in the handler of a reset connection is not in a try block either.
\<close>

definition process_request :: "nat \<Rightarrow> incoming \<Rightarrow> nat \<Rightarrow> nat \<Rightarrow> unit action" where
  "process_request oid inc conn addr =
     (case inc of
        Request p \<Rightarrow> sbind (get_item p ''type'') (\<lambda>msg_type. catch_key_error (dispatch oid msg_type p conn addr))
      | NotADict \<Rightarrow> raise TypeError
      | BadJson \<Rightarrow> ret ()
      | BadText \<Rightarrow> raise ValueError
      | PeerReset \<Rightarrow>
          sbind (query addr_to_nick) (\<lambda>a2n.
            case a2n addr of
              None \<Rightarrow> raise KeyError
            | Some nickname \<Rightarrow> sbind (unregister_client (snd nickname) addr) (\<lambda>_. ret ()))
      | TimedOut \<Rightarrow> close conn)"

section \<open>The client\<close>

record client =
  known :: "string \<rightharpoonup> pyval \<times> pyval"
  udp_to_nick :: "pyval \<times> pyval \<rightharpoonup> string"
  alive :: bool

definition new_client :: client where
  "new_client = \<lparr>known = Map.empty, udp_to_nick = Map.empty, alive = True\<rparr>"

text \<open>The pair of ip and port is a key of a dictionary, which a list or a dictionary cannot be part of.\<close>

definition hashable :: "pyval \<times> pyval \<Rightarrow> bool" where
  "hashable a = (fst a \<noteq> Container \<and> snd a \<noteq> Container)"

fun add_users :: "user list \<Rightarrow> client \<Rightarrow> unit res \<times> client" where
  "add_users [] c = (Inr (), c)"
| "add_users ((nickname, a) # us) c =
     (let c1 = c\<lparr>known := (known c)(nickname \<mapsto> a)\<rparr> in
      if hashable a then add_users us (c1\<lparr>udp_to_nick := (udp_to_nick c1)(a \<mapsto> nickname)\<rparr>)
      else (Inl TypeError, c1))"

fun remove_users :: "user list \<Rightarrow> client \<Rightarrow> unit res \<times> client" where
  "remove_users [] c = (Inr (), c)"
| "remove_users ((nickname, a) # us) c =
     (if known c nickname = None then (Inl KeyError, c)
      else let c1 = c\<lparr>known := (known c)(nickname := None)\<rparr> in
           if \<not> hashable a then (Inl TypeError, c1)
           else if udp_to_nick c1 a = None then (Inl KeyError, c1)
           else remove_users us (c1\<lparr>udp_to_nick := (udp_to_nick c1)(a := None)\<rparr>))"

text \<open>A KeyError ends the update; what was done before stays.\<close>

definition update_user_list :: "user list \<Rightarrow> user list \<Rightarrow> client \<Rightarrow> unit res \<times> client" where
  "update_user_list to_add to_remove c =
     (case (case add_users to_add c of (Inl e, c1) \<Rightarrow> (Inl e, c1) | (Inr _, c1) \<Rightarrow> remove_users to_remove c1) of
        (Inl KeyError, c2) \<Rightarrow> (Inr (), c2)
      | (r, c2) \<Rightarrow> (r, c2))"

text \<open>\<open>''broadcast message:'' + data['message']\<close> fails for a message that is not a string.\<close>

fun handle_notice :: "notice \<Rightarrow> client \<Rightarrow> unit res \<times> client" where
  "handle_notice (UserList a r) c = update_user_list a r c"
| "handle_notice (Message m) c = (case m of Str _ \<Rightarrow> Inr () | _ \<Rightarrow> Inl TypeError, c)"

text \<open>One round of the thread that listens to the server. An exception ends the thread.\<close>

definition receive :: "notice \<Rightarrow> client \<Rightarrow> client" where
  "receive msg c =
     (if alive c then (case handle_notice msg c of (Inl _, c1) \<Rightarrow> c1\<lparr>alive := False\<rparr> | (Inr _, c1) \<Rightarrow> c1) else c)"

text \<open>What the client behind a connection knows after the messages that were sent to it.\<close>

definition inbox :: "nat \<Rightarrow> server \<Rightarrow> notice list" where
  "inbox conn s = map snd (filter (\<lambda>(c, m). c = conn) (sent s))"

definition view :: "nat \<Rightarrow> server \<Rightarrow> client" where
  "view conn s = fold receive (inbox conn s) new_client"

end
