(* ===== verification/ChatViews.thy ===== *)
theory ChatViews
  imports ChatInv
begin

text \<open>
  The contract of the registry: every registered client knows exactly the other registered users. The client's updates
  are shown to follow changes of a finite map, and the operations of the server to send the updates that fit.
\<close>

section \<open>The client follows a map\<close>

text \<open>The client's dictionaries stand for the map: the second is the inverse of the first.\<close>

definition agrees :: "client \<Rightarrow> (string \<rightharpoonup> pyval \<times> pyval) \<Rightarrow> bool" where
  "agrees c D = (alive c \<and> known c = D \<and> (\<forall>a n. udp_to_nick c a = Some n \<longleftrightarrow> D n = Some a))"

lemma agrees_new: "agrees new_client Map.empty"
  by (simp add: agrees_def new_client_def)

lemma add_users_agrees:
  assumes "agrees c D" and "distinct (map fst us)" and "distinct (map snd us)"
    and "\<forall>(n, a) \<in> set us. hashable a \<and> D n = None \<and> (\<forall>m. D m \<noteq> Some a)"
  shows "\<exists>c'. add_users us c = (Inr (), c') \<and> agrees c' (D ++ map_of us)"
  using assms
proof (induction us arbitrary: c D)
  case (Cons u us)
  obtain n a where u: "u = (n, a)" by (metis surj_pair)
  let ?c = "c\<lparr>known := (known c)(n \<mapsto> a), udp_to_nick := (udp_to_nick c)(a \<mapsto> n)\<rparr>"
  have new: "hashable a" "D n = None" "\<And>m. D m \<noteq> Some a" using Cons.prems(4) by (auto simp: u)
  have "agrees ?c (D(n \<mapsto> a))" using Cons.prems(1) new by (auto simp: agrees_def)
  moreover have "\<forall>(m, b) \<in> set us. hashable b \<and> (D(n \<mapsto> a)) m = None \<and> (\<forall>k. (D(n \<mapsto> a)) k \<noteq> Some b)"
    using Cons.prems(2-4) by (force simp: u)
  ultimately obtain c' where "add_users us ?c = (Inr (), c')" "agrees c' (D(n \<mapsto> a) ++ map_of us)"
    using Cons.IH [of ?c "D(n \<mapsto> a)"] Cons.prems(2,3) by (auto simp del: fun_upd_apply)
  moreover have "n \<notin> dom (map_of us)" using Cons.prems(2) by (simp add: u dom_map_of_conv_image_fst)
  then have "D(n \<mapsto> a) ++ map_of us = D ++ map_of (u # us)"
    by (auto simp: u map_add_def fun_eq_iff split: option.split)
  ultimately show ?case using new by (simp add: u Let_def del: fun_upd_apply)
qed simp

lemma receive_initial:
  assumes "distinct (map fst us)" and "distinct (map snd us)" and "\<forall>(n, a) \<in> set us. hashable a"
  shows "agrees (receive (UserList us []) new_client) (map_of us)"
proof -
  obtain c' where "add_users us new_client = (Inr (), c')" "agrees c' (map_of us)"
    using add_users_agrees [OF agrees_new assms(1,2)] assms(3) by auto
  then show ?thesis by (simp add: receive_def update_user_list_def new_client_def)
qed

lemma receive_added:
  assumes "agrees c D" and "hashable a" and "D n = None" and "\<And>m. D m \<noteq> Some a"
  shows "agrees (receive (UserList [(n, a)] []) c) (D(n \<mapsto> a))"
  using assms by (auto simp: agrees_def receive_def update_user_list_def Let_def)

lemma receive_removed:
  assumes "agrees c D" and "hashable a" and "D n = Some a"
  shows "agrees (receive (UserList [] [(n, a)]) c) (D(n := None))"
proof -
  have u: "udp_to_nick c a = Some n" and inj: "\<And>m. D m = Some a \<Longrightarrow> m = n" and c: "alive c" "known c = D"
    using assms unfolding agrees_def by (metis, metis option.inject, simp_all)
  have "receive (UserList [] [(n, a)]) c = c\<lparr>known := D(n := None), udp_to_nick := (udp_to_nick c)(a := None)\<rparr>"
    using u c assms(2,3) by (simp add: receive_def update_user_list_def)
  moreover have iff: "udp_to_nick c b = Some m \<longleftrightarrow> D m = Some b" for b m using assms(1) unfolding agrees_def by blast
  have "((udp_to_nick c)(a := None)) b = Some m \<longleftrightarrow> (D(n := None)) m = Some b" for b m
  proof (cases "b = a")
    case True
    have "(D(n := None)) m \<noteq> Some a" using inj [of m] by auto
    then show ?thesis using True by simp
  next
    case False
    have "D m \<noteq> Some b" if "m = n" using assms(3) False that by simp
    then show ?thesis using False iff [of b m] by auto
  qed
  ultimately show ?thesis using c unfolding agrees_def by simp
qed

lemma receive_message: "agrees c D \<Longrightarrow> agrees (receive (Message (Str m)) c) D"
  by (simp add: agrees_def receive_def)

section \<open>The interface\<close>

text \<open>
  What the server relies on: whoever receives the first list and then the updates, one by one, follows the map of the other users.
  \<open>rel\<close> relates the receiver to the map.
\<close>

locale follower =
  fixes rel :: "'c \<Rightarrow> (string \<rightharpoonup> pyval \<times> pyval) \<Rightarrow> bool" and rcv :: "notice \<Rightarrow> 'c \<Rightarrow> 'c" and start :: 'c
  assumes rcv_initial: "distinct (map fst us) \<Longrightarrow> distinct (map snd us) \<Longrightarrow> \<forall>(n, a) \<in> set us. hashable a \<Longrightarrow>
      rel (rcv (UserList us []) start) (map_of us)"
    and rcv_added: "rel c D \<Longrightarrow> hashable a \<Longrightarrow> D n = None \<Longrightarrow> (\<And>m. D m \<noteq> Some a) \<Longrightarrow>
      rel (rcv (UserList [(n, a)] []) c) (D(n \<mapsto> a))"
    and rcv_removed: "rel c D \<Longrightarrow> hashable a \<Longrightarrow> D n = Some a \<Longrightarrow> rel (rcv (UserList [] [(n, a)]) c) (D(n := None))"
    and rcv_message: "rel c D \<Longrightarrow> rel (rcv (Message (Str m)) c) D"

interpretation cl: follower agrees receive new_client
  by unfold_locales (fact receive_initial receive_added receive_removed receive_message)+

section \<open>The effect of an operation\<close>

abbreviation names :: "server \<Rightarrow> string list" where
  "names s \<equiv> map text_of (clientList s)"

abbreviation addrs :: "server \<Rightarrow> (pyval \<times> pyval) list" where
  "addrs s \<equiv> map addr_of (clientList s)"

abbreviation conns :: "server \<Rightarrow> nat list" where
  "conns s \<equiv> map conn_of (clientList s)"

definition directory :: "server \<Rightarrow> string \<rightharpoonup> pyval \<times> pyval" where
  "directory s = map_of (map user_of (clientList s))"

text \<open>What a broadcast sends.\<close>

definition deliveries :: "notice \<Rightarrow> nick option \<Rightarrow> entry list \<Rightarrow> nat set \<Rightarrow> (nat \<times> notice) list" where
  "deliveries msg ex cl dead = map (\<lambda>e. (conn_of e, msg)) (filter (\<lambda>e. ex \<noteq> Some (fst e) \<and> conn_of e \<notin> dead) cl)"

lemma send_all_sends:
  assumes "\<forall>e \<in> set cl. conn_of e \<notin> set (closed s)"
  shows "send_all msg ex cl s = (Inr (), s\<lparr>sent := sent s @ deliveries msg ex cl (reset_peers s)\<rparr>)"
  using assms
proof (induction cl arbitrary: s)
  case (Cons e rest)
  obtain n ip port conn where "e = (n, ip, port, conn)" by (metis prod_cases4)
  then show ?case using Cons by (cases "ex = Some n") (simp_all add: send_def deliveries_def)
qed (simp add: ret_def deliveries_def)

lemma broadcast_sends:
  assumes "\<not> locked s" and "\<forall>e \<in> set (clientList s). conn_of e \<notin> set (closed s)"
  shows "broadcast_clients msg ex s = (Inr (), s\<lparr>sent := sent s @ deliveries msg ex (clientList s) (reset_peers s)\<rparr>)"
  using assms
  by (cases s) (simp add: broadcast_clients_def sbind_def sfinally_def acquire_def query_def release_def send_all_sends)

lemma find_client_None: "find_client n cl = None \<longleftrightarrow> n \<notin> text_of ` set cl"
  by (induction cl) (auto simp: find_client_def)

lemma find_client_Some: "distinct (map text_of cl) \<Longrightarrow> e \<in> set cl \<Longrightarrow> find_client (text_of e) cl = Some e"
  by (induction cl) (auto simp: find_client_def)

lemma register_locked_fresh:
  assumes "\<not> locked s" and "snd n \<notin> set (names s)"
  shows "register_locked n ip port conn addr s =
    (Inr (Some (map user_of (clientList s))),
     s\<lparr>clientList := clientList s @ [(n, ip, port, conn)], addr_to_nick := (addr_to_nick s)(addr \<mapsto> n)\<rparr>)"
  using assms find_client_None [of "snd n" "clientList s"]
  by (simp add: register_locked_def sfinally_def sbind_def acquire_def query_def update_def ret_def release_def)

lemma unregister_locked_known:
  assumes "\<not> locked s" and "find_client n (clientList s) = Some e"
  shows "unregister_locked n addr s =
    (if addr_to_nick s addr = None then (Inl KeyError, s\<lparr>clientList := filter (\<lambda>e. text_of e \<noteq> n) (clientList s)\<rparr>)
     else (Inr (Some e), s\<lparr>clientList := filter (\<lambda>e. text_of e \<noteq> n) (clientList s), addr_to_nick := (addr_to_nick s)(addr := None)\<rparr>))"
  using assms
  by (simp add: unregister_locked_def sfinally_def sbind_def acquire_def query_def update_def ret_def release_def raise_def)

lemma register_known:
  assumes "\<not> locked s" and "snd n \<in> set (names s)"
  shows "register_client n ip port conn addr s = (Inl RuntimeError, s)"
  using assms find_client_None [of "snd n" "clientList s"]
  by (simp add: register_client_def register_locked_def sfinally_def sbind_def acquire_def query_def ret_def release_def)

lemma unregister_unknown:
  assumes "\<not> locked s" and "n \<notin> set (names s)"
  shows "unregister_client n addr s = (Inl RuntimeError, s)"
  using assms find_client_None [of n "clientList s"]
  by (simp add: unregister_client_def unregister_locked_def sfinally_def sbind_def acquire_def query_def ret_def release_def)

lemma register_fresh:
  assumes "\<not> locked s" and "snd n \<notin> set (names s)"
    and "conn \<notin> set (closed s)" and "conn \<notin> reset_peers s" and "\<forall>e \<in> set (clientList s). conn_of e \<notin> set (closed s)"
  shows "register_client n ip port conn addr s =
    (Inr True, s\<lparr>clientList := clientList s @ [(n, ip, port, conn)], addr_to_nick := (addr_to_nick s)(addr \<mapsto> n),
      sent := sent s @ (conn, UserList (map user_of (clientList s)) []) #
        deliveries (UserList [(snd n, ip, port)] []) None (clientList s) (reset_peers s)\<rparr>)"
proof -
  have "n \<noteq> fst e" if "e \<in> set (clientList s)" for e
    using assms(2) that by (cases e) force
  then have "deliveries msg (Some n) (clientList s @ [(n, ip, port, conn)]) dead = deliveries msg None (clientList s) dead" for msg dead
    by (simp add: deliveries_def cong: filter_cong)
  then show ?thesis
    using assms register_locked_fresh [OF assms(1,2)]
    by (simp add: register_client_def register_notify_def sbind_def send_def broadcast_sends ret_def)
qed

lemma unregister_known:
  assumes "\<not> locked s" and "distinct (names s)" and "e \<in> set (clientList s)" and "addr_to_nick s addr \<noteq> None"
    and "\<forall>e \<in> set (clientList s). conn_of e \<notin> set (closed s)"
  shows "unregister_client (text_of e) addr s =
    (Inr True, s\<lparr>clientList := filter (\<lambda>d. text_of d \<noteq> text_of e) (clientList s), addr_to_nick := (addr_to_nick s)(addr := None),
      sent := sent s @ deliveries (UserList [] [user_of e]) None (filter (\<lambda>d. text_of d \<noteq> text_of e) (clientList s)) (reset_peers s),
      closed := closed s @ [conn_of e]\<rparr>)"
  using assms unregister_locked_known [OF assms(1) find_client_Some [OF assms(2,3)]]
  by (simp add: unregister_client_def sbind_def broadcast_sends ret_def close_def update_def user_of_def)

section \<open>What a client has received\<close>

definition pick :: "nat \<Rightarrow> (nat \<times> notice) list \<Rightarrow> notice list" where
  "pick c xs = map snd (filter (\<lambda>(d, m). d = c) xs)"

lemma pick_Nil [simp]: "pick c [] = []"
  by (simp add: pick_def)

lemma pick_Cons [simp]: "pick c ((d, m) # xs) = (if d = c then m # pick c xs else pick c xs)"
  by (simp add: pick_def)

lemma pick_append: "pick c (xs @ ys) = pick c xs @ pick c ys"
  by (simp add: pick_def)

text \<open>The receiver behind a connection, after all that was sent to it.\<close>

definition listener :: "(notice \<Rightarrow> 'c \<Rightarrow> 'c) \<Rightarrow> 'c \<Rightarrow> nat \<Rightarrow> server \<Rightarrow> 'c" where
  "listener rcv start c s = fold rcv (inbox c s) start"

lemma listener_append: "sent t = sent s @ xs \<Longrightarrow> listener rcv start c t = fold rcv (pick c xs) (listener rcv start c s)"
  by (simp add: listener_def inbox_def pick_def)

lemma view_listener: "view = listener receive new_client"
  by (simp add: view_def listener_def fun_eq_iff)

lemma deliveries_Nil [simp]: "deliveries msg ex [] dead = []"
  by (simp add: deliveries_def)

lemma deliveries_Cons [simp]:
  "deliveries msg ex (e # cl) dead =
   (if ex \<noteq> Some (fst e) \<and> conn_of e \<notin> dead then [(conn_of e, msg)] else []) @ deliveries msg ex cl dead"
  by (simp add: deliveries_def)

lemma pick_none: "c \<notin> conn_of ` set cl \<Longrightarrow> pick c (deliveries msg ex cl dead) = []"
  by (induction cl) auto

lemma pick_deliveries:
  "distinct (map conn_of cl) \<Longrightarrow> e \<in> set cl \<Longrightarrow> conn_of e \<notin> dead \<Longrightarrow>
   pick (conn_of e) (deliveries msg ex cl dead) = (if ex = Some (fst e) then [] else [msg])"
  by (induction cl) (auto simp: pick_none)

section \<open>Invariant\<close>

text \<open>The registry by itself, and the clients that can still be reached.\<close>

definition registry_ok :: "server \<Rightarrow> bool" where
  "registry_ok s = (\<not> locked s \<and> distinct (names s) \<and> distinct (addrs s) \<and> distinct (conns s) \<and>
     (\<forall>e \<in> set (clientList s). hashable (addr_of e) \<and> conn_of e \<notin> set (closed s)) \<and>
     ran (addr_to_nick s) = fst ` set (clientList s) \<and> inj_on (addr_to_nick s) (dom (addr_to_nick s)))"

definition all_follow :: "('c \<Rightarrow> (string \<rightharpoonup> pyval \<times> pyval) \<Rightarrow> bool) \<Rightarrow> (notice \<Rightarrow> 'c \<Rightarrow> 'c) \<Rightarrow> 'c \<Rightarrow> server \<Rightarrow> bool" where
  "all_follow rel rcv start s = (\<forall>e \<in> set (clientList s). conn_of e \<notin> reset_peers s \<longrightarrow>
     rel (listener rcv start (conn_of e) s) ((directory s)(text_of e := None)))"

abbreviation views_ok :: "server \<Rightarrow> bool" where
  "views_ok \<equiv> all_follow agrees receive new_client"

lemma directory_entry: "registry_ok s \<Longrightarrow> e \<in> set (clientList s) \<Longrightarrow> directory s (text_of e) = Some (addr_of e)"
  by (auto simp: registry_ok_def directory_def user_of_def comp_def intro!: map_of_is_SomeI)

lemma directory_range: "directory s n = Some a \<Longrightarrow> n \<in> set (names s) \<and> a \<in> set (addrs s)"
  by (auto simp: directory_def user_of_def dest!: map_of_SomeD)

lemma directory_outside: "n \<notin> set (names s) \<Longrightarrow> directory s n = None"
  using directory_range by (metis option.exhaust)

lemma directory_register:
  assumes "clientList t = clientList s @ [e]" and "text_of e \<notin> set (names s)"
  shows "directory t = (directory s)(text_of e \<mapsto> addr_of e)"
  using assms directory_outside [OF assms(2)]
  by (auto simp: directory_def user_of_def map_of_append map_add_def fun_eq_iff split: option.split)

lemma map_of_filter_key: "map_of (map user_of (filter (\<lambda>d. text_of d \<noteq> n) cl)) = (map_of (map user_of cl))(n := None)"
  by (induction cl) (auto simp: user_of_def fun_eq_iff)

lemma directory_unregister:
  "clientList t = filter (\<lambda>d. text_of d \<noteq> n) (clientList s) \<Longrightarrow> directory t = (directory s)(n := None)"
  by (simp add: directory_def map_of_filter_key)

lemma text_of_fst: "text_of e = snd (fst e)"
  by (cases e rule: text_of.cases) simp

lemma register_registry:
  assumes ok: "registry_ok s" and new: "snd n \<notin> set (names s)" "(ip, port) \<notin> set (addrs s)" "conn \<notin> set (conns s)"
    and "hashable (ip, port)" "conn \<notin> set (closed s)" and addr: "addr_to_nick s addr = None"
    and t: "clientList t = clientList s @ [(n, ip, port, conn)]" "addr_to_nick t = (addr_to_nick s)(addr \<mapsto> n)"
      "closed t = closed s" "locked t = locked s"
  shows "registry_ok t"
proof -
  let ?m = "addr_to_nick s"
  have r: "ran ?m = fst ` set (clientList s)" and i: "inj_on ?m (dom ?m)" using ok by (simp_all add: registry_ok_def)
  have "n \<notin> ran ?m" using new(1) r by (force simp: text_of_fst)
  then have "?m x \<noteq> Some n" for x by (auto simp: ran_def)
  then have "inj_on (addr_to_nick t) (dom (addr_to_nick t))"
    using i by (simp add: t inj_on_def) metis
  moreover have "ran (addr_to_nick t) = fst ` set (clientList t)" using r addr by (simp add: t)
  ultimately show ?thesis using assms by (cases n) (auto simp: registry_ok_def)
qed

lemma image_without: "f ` A - {x} = f ` {a \<in> A. f a \<noteq> x}"
  by auto

lemma unregister_registry:
  assumes ok: "registry_ok s" and e: "e \<in> set (clientList s)" and addr: "addr_to_nick s addr = Some (fst e)"
    and t: "clientList t = filter (\<lambda>d. text_of d \<noteq> text_of e) (clientList s)" "addr_to_nick t = (addr_to_nick s)(addr := None)"
      "closed t = closed s @ [conn_of e]" "locked t = locked s"
  shows "registry_ok t"
proof -
  let ?m = "addr_to_nick s"
  have d: "distinct (names s)" "distinct (conns s)" and r: "ran ?m = fst ` set (clientList s)" and i: "inj_on ?m (dom ?m)"
    using ok by (simp_all add: registry_ok_def)
  have same: "f = e" if "f \<in> set (clientList s)" "text_of f = text_of e \<or> conn_of f = conn_of e" for f
    using d e that by (auto simp: distinct_map dest: inj_onD)
  have "ran (?m(addr := None)) = ran ?m - {fst e}"
    using i addr by (auto simp: ran_def inj_on_def dom_def split: if_splits) (metis option.inject)
  also have "\<dots> = fst ` set (clientList t)"
  proof -
    have "text_of f \<noteq> text_of e \<longleftrightarrow> fst f \<noteq> fst e" if "f \<in> set (clientList s)" for f
      using same [OF that] by (auto simp: text_of_fst)
    then have "set (clientList t) = {f \<in> set (clientList s). fst f \<noteq> fst e}" by (auto simp: t)
    then show ?thesis by (simp only: r image_without)
  qed
  finally have "ran (addr_to_nick t) = fst ` set (clientList t)" by (simp add: t)
  moreover have "inj_on (addr_to_nick t) (dom (addr_to_nick t))" using i by (auto simp: t inj_on_def)
  moreover have "distinct (names t)" "distinct (addrs t)" "distinct (conns t)"
    using ok by (simp_all add: registry_ok_def t distinct_map_filter)
  moreover have "\<forall>f \<in> set (clientList t). hashable (addr_of f) \<and> conn_of f \<notin> set (closed t)"
  proof
    fix f assume "f \<in> set (clientList t)"
    then have f: "f \<in> set (clientList s)" "text_of f \<noteq> text_of e" by (simp_all add: t)
    then have "conn_of f \<noteq> conn_of e" using same [OF f(1)] by metis
    then show "hashable (addr_of f) \<and> conn_of f \<notin> set (closed t)" using ok f(1) by (simp add: registry_ok_def t)
  qed
  ultimately show ?thesis using ok by (simp add: registry_ok_def t)
qed

context follower begin

lemma initial_follows:
  "registry_ok s \<Longrightarrow> rel (rcv (UserList (map user_of (clientList s)) []) start) (directory s)"
  unfolding directory_def by (intro rcv_initial) (auto simp: registry_ok_def user_of_def comp_def)

lemma register_follows:
  assumes ok: "registry_ok s" "all_follow rel rcv start s"
    and new: "snd n \<notin> set (names s)" "(ip, port) \<notin> set (addrs s)" "conn \<notin> set (conns s)"
    and h: "hashable (ip, port)" "conn \<notin> reset_peers s" "inbox conn s = []"
    and t: "clientList t = clientList s @ [(n, ip, port, conn)]" "reset_peers t = reset_peers s"
      "sent t = sent s @ (conn, UserList (map user_of (clientList s)) []) #
         deliveries (UserList [(snd n, ip, port)] []) None (clientList s) (reset_peers s)"
  shows "all_follow rel rcv start t"
  unfolding all_follow_def
proof (intro ballI impI)
  fix e assume e: "e \<in> set (clientList t)" "conn_of e \<notin> reset_peers t"
  have dir: "directory t = (directory s)(snd n \<mapsto> (ip, port))"
    using directory_register [OF t(1)] new(1) by (simp add: text_of_fst)
  have d: "distinct (conns s)" using ok(1) by (simp add: registry_ok_def)
  show "rel (listener rcv start (conn_of e) t) ((directory t)(text_of e := None))"
  proof (cases "e = (n, ip, port, conn)")
    case True
    have "rel (rcv (UserList (map user_of (clientList s)) []) start) (directory s)"
      by (rule initial_follows [OF ok(1)])
    moreover have "listener rcv start conn t = rcv (UserList (map user_of (clientList s)) []) start"
      using h(3) new(3) by (simp add: listener_append [OF t(3)] pick_none) (simp add: listener_def)
    moreover have "(directory s)(snd n := None) = directory s"
      using directory_outside [OF new(1)] by auto
    ultimately show ?thesis using True dir by (simp add: text_of_fst del: fun_upd_apply)
  next
    case False
    then have e': "e \<in> set (clientList s)" using e t(1) by simp
    have ne: "text_of e \<noteq> snd n" "conn_of e \<noteq> conn" using e' new by (metis image_eqI set_map)+
    have "rel (listener rcv start (conn_of e) s) ((directory s)(text_of e := None))"
      using ok(2) e e' t(2) by (simp add: all_follow_def)
    moreover have "listener rcv start (conn_of e) t = rcv (UserList [(snd n, ip, port)] []) (listener rcv start (conn_of e) s)"
      using ne e e' t(2) d by (simp add: listener_append [OF t(3)] pick_deliveries)
    moreover have "((directory s)(text_of e := None)) m \<noteq> Some (ip, port)" for m
      using directory_range [of s m "(ip, port)"] new(2) by auto
    ultimately have "rel (listener rcv start (conn_of e) t) (((directory s)(text_of e := None))(snd n \<mapsto> (ip, port)))"
      using rcv_added [OF _ h(1)] directory_outside [OF new(1)] ne(1) by (metis fun_upd_apply)
    then show ?thesis unfolding dir by (simp only: fun_upd_twist [OF ne(1)])
  qed
qed

lemma unregister_follows:
  assumes ok: "registry_ok s" "all_follow rel rcv start s" and e: "e \<in> set (clientList s)"
    and t: "clientList t = filter (\<lambda>d. text_of d \<noteq> text_of e) (clientList s)" "reset_peers t = reset_peers s"
      "sent t = sent s @ deliveries (UserList [] [user_of e]) None (clientList t) (reset_peers s)"
  shows "all_follow rel rcv start t"
  unfolding all_follow_def
proof (intro ballI impI)
  fix f assume f: "f \<in> set (clientList t)" "conn_of f \<notin> reset_peers t"
  have ne: "text_of e \<noteq> text_of f" and f': "f \<in> set (clientList s)" using f(1) by (auto simp: t(1))
  have d: "distinct (map conn_of (clientList t))" and h: "hashable (addr_of e)"
    using ok(1) e by (simp_all add: registry_ok_def t(1) distinct_map_filter)
  have v: "listener rcv start (conn_of f) t = rcv (UserList [] [(text_of e, addr_of e)]) (listener rcv start (conn_of f) s)"
    using pick_deliveries [OF d f(1)] f(2) by (simp add: listener_append [OF t(3)] t(2) user_of_def)
  have a: "rel (listener rcv start (conn_of f) s) ((directory s)(text_of f := None))"
    using ok(2) f f' by (simp add: all_follow_def t(2))
  have "((directory s)(text_of f := None)) (text_of e) = Some (addr_of e)"
    using ne directory_entry [OF ok(1) e] by simp
  from rcv_removed [OF a h this]
  show "rel (listener rcv start (conn_of f) t) ((directory t)(text_of f := None))"
    unfolding v directory_unregister [OF t(1)] by (simp only: fun_upd_twist [OF ne])
qed

lemma message_follows:
  assumes ok: "registry_ok s" "all_follow rel rcv start s"
    and t: "clientList t = clientList s" "reset_peers t = reset_peers s"
      "sent t = sent s @ deliveries (Message (Str m)) ex (clientList s) (reset_peers s)"
  shows "all_follow rel rcv start t"
  unfolding all_follow_def
proof (intro ballI impI)
  fix e assume e: "e \<in> set (clientList t)" "conn_of e \<notin> reset_peers t"
  have "rel (listener rcv start (conn_of e) s) ((directory s)(text_of e := None))"
    using ok(2) e by (simp add: all_follow_def t)
  moreover have "listener rcv start (conn_of e) t = (if ex = Some (fst e) then listener rcv start (conn_of e) s else rcv (Message (Str m)) (listener rcv start (conn_of e) s))"
    using pick_deliveries [of "clientList s" e] e ok(1) by (simp add: listener_append [OF t(3)] t registry_ok_def)
  ultimately show "rel (listener rcv start (conn_of e) t) ((directory t)(text_of e := None))"
    by (simp add: rcv_message directory_def t)
qed

end

end
