(* ===== verification/ChatRun.thy ===== *)
theory ChatRun
  imports ChatViews
begin

text \<open>
  Runs of the chat server with honest clients as a step relation, the theorem on the user lists in every reachable state,
  and the situations in which the code breaks the contract: two requests at the same time, a second registration of a nickname, a
  client that is deregistered by somebody else, a connection closed after a timeout.
\<close>

section \<open>Runs\<close>

definition empty_server :: server where
  "empty_server = \<lparr>locked = False, clientList = [], addr_to_nick = Map.empty, sent = [], closed = [], reset_peers = {}\<rparr>"

text \<open>
  An honest client registers on a connection of its own, with an address of its own; it deregisters only itself, and broadcasts a
  string. Requests that are no JSON or have another type may come at any time, peers may break down at any time, and a time-out is
  that of a connection without a registered client. Requests are handled one after the other.
\<close>

inductive chat_step :: "server \<Rightarrow> server \<Rightarrow> bool" where
  registers:
    "p ''type'' = Some (Str ''register'') \<Longrightarrow> p ''nickname'' = Some (Str n) \<Longrightarrow> p ''ip'' = Some ip \<Longrightarrow> p ''port'' = Some port \<Longrightarrow>
     hashable (ip, port) \<Longrightarrow> (ip, port) \<notin> set (addrs s) \<Longrightarrow> conn \<notin> set (conns s) \<Longrightarrow> inbox conn s = [] \<Longrightarrow>
     conn \<notin> set (closed s) \<Longrightarrow> conn \<notin> reset_peers s \<Longrightarrow> addr_to_nick s addr = None \<Longrightarrow>
     chat_step s (snd (process_request oid (Request p) conn addr s))"
| unregisters:
    "p ''type'' = Some (Str ''unregister'') \<Longrightarrow> p ''nickname'' = Some (Str n) \<Longrightarrow>
     n \<notin> set (names s) \<or> (\<exists>k. addr_to_nick s addr = Some (k, n)) \<Longrightarrow>
     chat_step s (snd (process_request oid (Request p) conn addr s))"
| broadcasts:
    "p ''type'' = Some (Str ''broadcast'') \<Longrightarrow> p ''message'' = Some (Str m) \<Longrightarrow>
     chat_step s (snd (process_request oid (Request p) conn addr s))"
| unknown_type:
    "p ''type'' = Some v \<Longrightarrow> v \<notin> {Str ''register'', Str ''unregister'', Str ''broadcast''} \<Longrightarrow>
     chat_step s (snd (process_request oid (Request p) conn addr s))"
| malformed: "inc \<in> {NotADict, BadJson, BadText} \<Longrightarrow> chat_step s (snd (process_request oid inc conn addr s))"
| breaks_down: "chat_step s (s\<lparr>reset_peers := insert c (reset_peers s)\<rparr>)"
| lost: "chat_step s (snd (process_request oid PeerReset conn addr s))"
| times_out: "conn \<notin> set (conns s) \<Longrightarrow> chat_step s (snd (process_request oid TimedOut conn addr s))"

definition chat_inv :: "server \<Rightarrow> bool" where
  "chat_inv s = (registry_ok s \<and> views_ok s)"

lemma snd_catch [simp]: "snd (catch_key_error m s) = snd (m s)"
  by (simp add: catch_key_error_def split_beta split: sum.split py_error.split)

lemma snd_sbind_ret [simp]: "snd (sbind m (\<lambda>_. ret x) s) = snd (m s)"
  by (simp add: sbind_def ret_def split_beta split: sum.split)

lemma sbind_ret_value [simp]: "sbind (ret x) f s = f x s"
  by (simp add: sbind_def ret_def)

lemma sbind_query [simp]: "sbind (query g) f s = f (g s) s"
  by (simp add: sbind_def query_def)

lemma register_inv:
  assumes "chat_inv s" and "hashable (ip, port)" "(ip, port) \<notin> set (addrs s)" "conn \<notin> set (conns s)" "inbox conn s = []"
    and "conn \<notin> set (closed s)" "conn \<notin> reset_peers s" "addr_to_nick s addr = None"
  shows "chat_inv (snd (register_client n ip port conn addr s))"
proof (cases "snd n \<in> set (names s)")
  case True
  then show ?thesis using assms(1) by (simp add: chat_inv_def registry_ok_def register_known)
next
  case False
  have ok: "registry_ok s" "views_ok s" using assms(1) by (simp_all add: chat_inv_def)
  then have "\<not> locked s" "\<forall>e \<in> set (clientList s). conn_of e \<notin> set (closed s)" by (simp_all add: registry_ok_def)
  note t = register_fresh [OF this(1) False assms(6,7) this(2), of ip port addr]
  show ?thesis unfolding chat_inv_def t
    using register_registry [OF ok(1) False assms(3,4,2,6,8)] cl.register_follows [OF ok False assms(3,4,2,7,5)] by simp
qed

lemma unregister_inv:
  assumes "chat_inv s" and "n \<notin> set (names s) \<or> (\<exists>k. addr_to_nick s addr = Some (k, n))"
  shows "chat_inv (snd (unregister_client n addr s))"
proof (cases "n \<in> set (names s)")
  case False
  then show ?thesis using assms(1) by (simp add: chat_inv_def registry_ok_def unregister_unknown)
next
  case True
  have ok: "registry_ok s" "views_ok s" using assms(1) by (simp_all add: chat_inv_def)
  then have free: "\<not> locked s" "distinct (names s)" "\<forall>e \<in> set (clientList s). conn_of e \<notin> set (closed s)"
    by (simp_all add: registry_ok_def)
  obtain k where k: "addr_to_nick s addr = Some (k, n)" using assms(2) True by blast
  then have "(k, n) \<in> fst ` set (clientList s)" using ok(1) ranI by (metis registry_ok_def)
  then obtain e where e: "e \<in> set (clientList s)" and fe: "fst e = (k, n)" by (metis imageE)
  have addr: "addr_to_nick s addr = Some (fst e)" "addr_to_nick s addr \<noteq> None" and n: "text_of e = n"
    using k fe by (simp_all add: text_of_fst)
  note t = unregister_known [OF free(1,2) e addr(2) free(3), unfolded n]
  show ?thesis unfolding chat_inv_def t
    using unregister_registry [OF ok(1) e addr(1)] cl.unregister_follows [OF ok e] by (simp add: n)
qed

lemma broadcast_inv:
  assumes "chat_inv s"
  shows "chat_inv (snd (broadcast_clients (Message (Str m)) ex s))"
proof -
  have ok: "registry_ok s" "views_ok s" using assms by (simp_all add: chat_inv_def)
  then have "\<not> locked s" "\<forall>e \<in> set (clientList s). conn_of e \<notin> set (closed s)" by (simp_all add: registry_ok_def)
  note t = broadcast_sends [OF this]
  show ?thesis unfolding chat_inv_def t using ok(1) cl.message_follows [OF ok] by (simp add: registry_ok_def)
qed

lemma chat_step_inv: "chat_step s t \<Longrightarrow> chat_inv s \<Longrightarrow> chat_inv t"
proof (induction rule: chat_step.induct)
  case (registers p n ip port s conn addr oid)
  then show ?case using register_inv [OF registers.prems registers(5-11)]
    by (simp add: process_request_def get_item_def dispatch_def concat_text_def)
next
  case (unregisters p n s addr oid conn)
  then show ?case using unregister_inv [OF unregisters.prems unregisters(3)]
    by (simp add: process_request_def get_item_def dispatch_def concat_text_def)
next
  case (broadcasts p m s oid conn addr)
  then show ?case using broadcast_inv [OF broadcasts.prems]
    by (simp add: process_request_def get_item_def dispatch_def raise_def split: option.split)
next
  case (unknown_type p v s oid conn addr)
  then show ?case by (simp add: process_request_def get_item_def dispatch_def) (simp add: ret_def)
next
  case (malformed inc s oid conn addr)
  then show ?case by (auto simp: process_request_def raise_def ret_def)
next
  case (breaks_down s c)
  then show ?case by (simp add: chat_inv_def registry_ok_def all_follow_def listener_def inbox_def directory_def)
next
  case (lost s oid conn addr)
  then show ?case using unregister_inv [OF lost.prems, of _ addr]
    by (auto simp: process_request_def raise_def split: option.split)
next
  case (times_out conn s oid addr)
  then show ?case
    by (auto simp: process_request_def close_def update_def chat_inv_def registry_ok_def all_follow_def listener_def inbox_def directory_def)
qed

lemma chat_reachable_inv: "chat_step\<^sup>*\<^sup>* empty_server s \<Longrightarrow> chat_inv s"
proof (induction rule: rtranclp_induct)
  case base
  show ?case by (simp add: chat_inv_def registry_ok_def all_follow_def empty_server_def)
qed (rule chat_step_inv)

section \<open>User lists\<close>


definition request :: "string \<Rightarrow> string \<Rightarrow> int \<Rightarrow> payload" where
  "request ty n port = [''type'' \<mapsto> Str ty, ''nickname'' \<mapsto> Str n, ''ip'' \<mapsto> Str ''10.0.0.1'', ''port'' \<mapsto> Number port]"

definition two_clients :: server where
  "two_clients = snd (process_request 6 (Request (request ''register'' ''bob'' 5001)) 2 12
     (snd (process_request 5 (Request (request ''register'' ''ann'' 5000)) 1 11 empty_server)))"

lemmas run_defs = process_request_def get_item_def dispatch_def concat_text_def register_client_def register_locked_def register_notify_def
  broadcast_clients_def sbind_def sfinally_def acquire_def release_def query_def update_def ret_def send_def find_client_def
  catch_key_error_def request_def

lemma one_client:
  "snd (process_request 5 (Request (request ''register'' ''ann'' 5000)) 1 11 empty_server) =
   \<lparr>locked = False, clientList = [((5, ''ann''), Str ''10.0.0.1'', Number 5000, 1)], addr_to_nick = [11 \<mapsto> (5, ''ann'')],
    sent = [(1, UserList [] [])], closed = [], reset_peers = {}\<rparr>"
  by (simp add: run_defs empty_server_def)

lemma two_clients_eq:
  "two_clients =
   \<lparr>locked = False, clientList = [((5, ''ann''), Str ''10.0.0.1'', Number 5000, 1), ((6, ''bob''), Str ''10.0.0.1'', Number 5001, 2)],
    addr_to_nick = [11 \<mapsto> (5, ''ann''), 12 \<mapsto> (6, ''bob'')],
    sent = [(1, UserList [] []), (2, UserList [(''ann'', Str ''10.0.0.1'', Number 5000)] []),
            (1, UserList [(''bob'', Str ''10.0.0.1'', Number 5001)] [])], closed = [], reset_peers = {}\<rparr>"
  unfolding two_clients_def one_client by (simp add: run_defs user_of_def)

lemma two_clients_reachable: "chat_step\<^sup>*\<^sup>* empty_server two_clients"
proof (rule rtranclp.rtrancl_into_rtrancl [OF r_into_rtranclp])
  show "chat_step empty_server (snd (process_request 5 (Request (request ''register'' ''ann'' 5000)) 1 11 empty_server))"
    by (rule registers [where n = "''ann''" and ip = "Str ''10.0.0.1''" and port = "Number 5000"])
       (simp_all add: request_def empty_server_def hashable_def inbox_def)
  show "chat_step (snd (process_request 5 (Request (request ''register'' ''ann'' 5000)) 1 11 empty_server)) two_clients"
    unfolding two_clients_def one_client
    by (rule registers [where n = "''bob''" and ip = "Str ''10.0.0.1''" and port = "Number 5001"])
       (simp_all add: request_def hashable_def inbox_def)
qed


section \<open>Where the contract breaks\<close>

text \<open>
  The early returns release the lock, and the finally part releases it again: a second registration of a nickname and the
  deregistration of an unknown one end with a RuntimeError instead of \<open>False\<close>. A known nickname that is
  deregistered from an address without registration is removed, and nobody is told.
\<close>

theorem chat_refusals:
  assumes "\<not> locked s"
  shows "(if snd n \<in> set (names s) then register_client n ip port conn addr s = (Inl RuntimeError, s)
      else unregister_client (snd n) addr s = (Inl RuntimeError, s)) \<and>
    (if snd n \<in> set (names s) \<and> addr_to_nick s addr = None
     then unregister_client (snd n) addr s = (Inl KeyError, s\<lparr>clientList := filter (\<lambda>e. text_of e \<noteq> snd n) (clientList s)\<rparr>) else True)"
proof (cases "snd n \<in> set (names s)")
  case True
  then obtain e where "find_client (snd n) (clientList s) = Some e"
    using find_client_None [of "snd n" "clientList s"] by auto
  then show ?thesis using True register_known [OF assms True] unregister_locked_known [OF assms]
    by (simp add: unregister_client_def sbind_def)
qed (simp add: unregister_unknown [OF assms])

theorem chat_refusals_witness:
  "\<not> locked two_clients \<and> register_client (7, ''ann'') Null Null 3 13 two_clients = (Inl RuntimeError, two_clients) \<and>
   fst (unregister_client ''ann'' 13 two_clients) = Inl KeyError \<and> names (snd (unregister_client ''ann'' 13 two_clients)) = [''bob'']"
proof -
  have s: "\<not> locked two_clients" "addr_to_nick two_clients 13 = None" "names two_clients = [''ann'', ''bob'']"
    by (simp_all add: two_clients_eq)
  show ?thesis using chat_refusals [OF s(1), of "(7, ''ann'')" Null Null 3 13] s by (simp add: filter_map two_clients_eq)
qed

text \<open>
  A client that deregisters while another one registers, after the list of users was copied and before it was sent,
  stays in the other's list: its removal is announced before the list that contains it arrives.
\<close>

theorem chat_race_stale:
  assumes "registry_ok s" and "snd n \<notin> set (names s)" "(ip, port) \<notin> set (addrs s)" "conn \<notin> set (conns s)"
    and "hashable (ip, port)" "conn \<notin> set (closed s)" "addr_to_nick s addr = None" "conn \<notin> reset_peers s" "inbox conn s = []"
    and "e \<in> set (clientList s)" and "addr_to_nick s other = Some (fst e)"
    and "register_locked n ip port conn addr s = (Inr (Some us), s1)"
    and "unregister_client (text_of e) other s1 = (Inr True, s2)"
    and "register_notify n ip port conn us s2 = (r, s3)"
  shows "text_of e \<notin> set (names s3) \<and> known (view conn s3) (text_of e) = Some (addr_of e)"
proof -
  let ?rest = "filter (\<lambda>d. text_of d \<noteq> text_of e) (clientList s1)"
  have "\<not> locked s" using assms(1) by (simp add: registry_ok_def)
  from register_locked_fresh [OF this assms(2)] have us: "us = map user_of (clientList s)"
    and s1: "s1 = s\<lparr>clientList := clientList s @ [(n, ip, port, conn)], addr_to_nick := (addr_to_nick s)(addr \<mapsto> n)\<rparr>"
    using assms(12) by simp_all
  have ok1: "registry_ok s1" by (rule register_registry [OF assms(1-7)]) (simp_all add: s1)
  then have free: "\<not> locked s1" "distinct (names s1)" "\<forall>e \<in> set (clientList s1). conn_of e \<notin> set (closed s1)"
    by (simp_all add: registry_ok_def)
  have e1: "e \<in> set (clientList s1)" "addr_to_nick s1 other = Some (fst e)" using assms(7,10,11) by (auto simp: s1)
  have s2: "s2 = s1\<lparr>clientList := ?rest, addr_to_nick := (addr_to_nick s1)(other := None),
      sent := sent s1 @ deliveries (UserList [] [user_of e]) None ?rest (reset_peers s1), closed := closed s1 @ [conn_of e]\<rparr>"
    using assms(13) unregister_known [OF free(1,2) e1(1) _ free(3), of other] e1(2) by simp
  have ok2: "registry_ok s2" by (rule unregister_registry [OF ok1 e1]) (simp_all add: s2)
  let ?a = "(n, ip, port, conn)"
  let ?d1 = "deliveries (UserList [] [user_of e]) None (clientList s2) (reset_peers s)"
  let ?d2 = "deliveries (UserList [(snd n, ip, port)] []) (Some n) (clientList s2) (reset_peers s)"
  have "conn_of e \<noteq> conn" "text_of e \<noteq> snd n" using assms(2,4,10) by (metis image_eqI set_map)+
  then have a: "?a \<in> set (clientList s2)" and conn: "conn \<notin> set (closed s2)" "conn \<notin> reset_peers s2"
    using assms(6,8) by (auto simp: s2 s1 text_of_fst)
  have "\<not> locked s2" "\<forall>e \<in> set (clientList s2). conn_of e \<notin> set (closed s2)" using ok2 by (simp_all add: registry_ok_def)
  then have s3: "s3 = s2\<lparr>sent := sent s2 @ (conn, UserList us []) # ?d2\<rparr>"
    using assms(14) conn by (simp add: register_notify_def sbind_def send_def broadcast_sends ret_def s2 s1)
  have "sent s3 = sent s @ ?d1 @ (conn, UserList us []) # ?d2" by (simp add: s3 s2 s1)
  moreover have "pick conn (?d1 @ (conn, UserList us []) # ?d2) = [UserList [] [user_of e], UserList us []]"
    using pick_deliveries [of "clientList s2" ?a] a assms(8) ok2 by (simp add: registry_ok_def pick_append)
  ultimately have "view conn s3 = receive (UserList us []) (receive (UserList [] [user_of e]) (view conn s))"
    by (simp add: listener_append view_listener)
  also have "receive (UserList [] [user_of e]) (view conn s) = new_client"
    using assms(9) by (simp add: view_def receive_def update_user_list_def new_client_def user_of_def)
  finally have "agrees (view conn s3) (directory s)"
    using cl.initial_follows [OF assms(1)] us by simp
  then have "known (view conn s3) (text_of e) = Some (addr_of e)"
    using directory_entry [OF assms(1,10)] by (simp add: agrees_def)
  moreover have "text_of e \<notin> set (names s3)" by (auto simp: s3 s2)
  ultimately show ?thesis by simp
qed

theorem chat_race_stale_witness:
  "\<exists>s1 s2 r s3.
     register_locked (7, ''cid'') (Str ''10.0.0.1'') (Number 5002) 3 13 two_clients =
       (Inr (Some [(''ann'', Str ''10.0.0.1'', Number 5000), (''bob'', Str ''10.0.0.1'', Number 5001)]), s1) \<and>
     unregister_client ''ann'' 11 s1 = (Inr True, s2) \<and>
     register_notify (7, ''cid'') (Str ''10.0.0.1'') (Number 5002) 3
       [(''ann'', Str ''10.0.0.1'', Number 5000), (''bob'', Str ''10.0.0.1'', Number 5001)] s2 = (r, s3) \<and>
     ''ann'' \<notin> set (names s3) \<and> known (view 3 s3) ''ann'' = Some (Str ''10.0.0.1'', Number 5000)"
proof -
  let ?e = "((5, ''ann''), Str ''10.0.0.1'', Number 5000, 1) :: entry"
  let ?n = "(7, ''cid'')" and ?ip = "Str ''10.0.0.1''" and ?port = "Number 5002"
  have ok: "registry_ok two_clients" using chat_reachable_inv [OF two_clients_reachable] by (simp add: chat_inv_def)
  have new: "snd ?n \<notin> set (names two_clients)" "(?ip, ?port) \<notin> set (addrs two_clients)" "3 \<notin> set (conns two_clients)"
    "hashable (?ip, ?port)" "3 \<notin> set (closed two_clients)" "addr_to_nick two_clients 13 = None" "3 \<notin> reset_peers two_clients"
    "inbox 3 two_clients = []" "?e \<in> set (clientList two_clients)" "addr_to_nick two_clients 11 = Some (fst ?e)"
    by (simp_all add: two_clients_eq hashable_def inbox_def)
  obtain us s1 where s1: "register_locked ?n ?ip ?port 3 13 two_clients = (Inr (Some us), s1)"
    and us: "us = [(''ann'', ?ip, Number 5000), (''bob'', ?ip, Number 5001)]"
    and ok1: "registry_ok s1" and e1: "?e \<in> set (clientList s1)" "addr_to_nick s1 11 \<noteq> None"
  proof
    have free: "\<not> locked two_clients" by (simp add: two_clients_eq)
    show "register_locked ?n ?ip ?port 3 13 two_clients =
      (Inr (Some [(''ann'', ?ip, Number 5000), (''bob'', ?ip, Number 5001)]),
       two_clients\<lparr>clientList := clientList two_clients @ [(?n, ?ip, ?port, 3)], addr_to_nick := (addr_to_nick two_clients)(13 \<mapsto> ?n)\<rparr>)"
      using register_locked_fresh [OF free new(1)] by (simp add: two_clients_eq user_of_def)
    show "registry_ok (two_clients\<lparr>clientList := clientList two_clients @ [(?n, ?ip, ?port, 3)], addr_to_nick := (addr_to_nick two_clients)(13 \<mapsto> ?n)\<rparr>)"
      by (rule register_registry [OF ok new(1-6)]) simp_all
  qed (simp_all add: two_clients_eq)
  obtain s2 where s2: "unregister_client (text_of ?e) 11 s1 = (Inr True, s2)"
    using unregister_known [OF _ _ e1(1) e1(2)] ok1 by (simp add: registry_ok_def)
  obtain r s3 where s3: "register_notify ?n ?ip ?port 3 us s2 = (r, s3)" by fastforce
  from chat_race_stale [OF ok new s1 s2 s3] show ?thesis using s1 s2 s3 us by auto
qed

end
