(* ===== verification/Geometry.thy ===== *)
theory Geometry
  imports Prelude
begin

text \<open>
  Plane geometry of the robot simulator,
  \<open>src/Sem5/MobileRobotik/RoboterSimulator/Robot_Simulator_V3/geometry.py\<close>: distances, intersections of lines, segments and rays, with
  real numbers for floats. The functions treat lines as parallel when the determinant of their directions is below 1/1000.
\<close>

section \<open>Definitions\<close>

type_synonym point = "real \<times> real"
type_synonym segment = "point \<times> point"

definition dist_points :: "point \<Rightarrow> point \<Rightarrow> real" where
  "dist_points = (\<lambda>(x1, y1) (x2, y2). let dx = x1 - x2; dy = y1 - y2 in sqrt (dx * dx + dy * dy))"

text \<open>The Hesse normal form of a line: \<open>a\<close>, \<open>b\<close> and \<open>c\<close> of the equation \<open>a x + b y = c\<close>.\<close>

definition hesse :: "segment \<Rightarrow> (real \<times> real \<times> real) res" where
  "hesse = (\<lambda>((vx, vy), (wx, wy)).
     let dx = wx - vx; dy = wy - vy; l = sqrt (dx * dx + dy * dy); c = vy * dx - vx * dy; sign = (if c < 0 then -1 else 1)
     in if l = 0 then Inl ZeroDivisionError else Inr (- sign * dy / l, sign * dx / l, sign * c / l))"

definition distPointLineWithSign :: "point \<Rightarrow> segment \<Rightarrow> real res" where
  "distPointLineWithSign = (\<lambda>(px, py) line. rbind (hesse line) (\<lambda>(a, b, c). Inr (a * px + b * py - c)))"

definition normalToLine :: "point \<Rightarrow> segment \<Rightarrow> point res" where
  "normalToLine = (\<lambda>(px, py) line. rbind (hesse line) (\<lambda>(a, b, c).
     let d = a * px + b * py - c in Inr (- d * a, - d * b)))"

definition intersectLines :: "segment \<Rightarrow> segment \<Rightarrow> point option" where
  "intersectLines = (\<lambda>((px, py), (qx, qy)) ((vx, vy), (wx, wy)).
     let dx1 = qx - px; dy1 = qy - py; dx2 = wx - vx; dy2 = wy - vy; det = dx2 * dy1 - dx1 * dy2
     in if \<bar>det\<bar> < 1 / 1000 then None
        else let det2 = dx1 * (vy - py) - dy1 * (vx - px); k2 = det2 / det
             in Some (vx + k2 * dx2, vy + k2 * dy2))"

definition intersectLineSegment :: "segment \<Rightarrow> segment \<Rightarrow> point option" where
  "intersectLineSegment = (\<lambda>((px, py), (qx, qy)) ((vx, vy), (wx, wy)).
     let dx1 = qx - px; dy1 = qy - py; dx2 = wx - vx; dy2 = wy - vy; det = dx2 * dy1 - dx1 * dy2
     in if \<bar>det\<bar> < 1 / 1000 then None
        else let det2 = dx1 * (vy - py) - dy1 * (vx - px); k2 = det2 / det
             in if k2 < 0 \<or> k2 > 1 then None else Some (vx + k2 * dx2, vy + k2 * dy2))"

definition intersectSegments :: "segment \<Rightarrow> segment \<Rightarrow> point option" where
  "intersectSegments = (\<lambda>((px, py), (qx, qy)) ((vx, vy), (wx, wy)).
     let dx1 = qx - px; dy1 = qy - py; dx2 = wx - vx; dy2 = wy - vy; det = dx2 * dy1 - dx1 * dy2
     in if \<bar>det\<bar> < 1 / 1000 then None
        else let det1 = dx2 * (vy - py) - dy2 * (vx - px); det2 = dx1 * (vy - py) - dy1 * (vx - px);
                 k1 = det1 / det; k2 = det2 / det
             in if k1 < 0 \<or> k1 > 1 then None
                else if k2 < 0 \<or> k2 > 1 then None
                else Some (vx + k2 * dx2, vy + k2 * dy2))"

definition intersectRaySegment :: "point \<times> real \<Rightarrow> segment \<Rightarrow> point option" where
  "intersectRaySegment = (\<lambda>((px, py), theta) ((vx, vy), (wx, wy)).
     let dx1 = cos theta; dy1 = sin theta; dx2 = wx - vx; dy2 = wy - vy; det = dx2 * dy1 - dx1 * dy2
     in if \<bar>det\<bar> < 1 / 1000 then None
        else let det1 = dx2 * (vy - py) - dy2 * (vx - px); det2 = dx1 * (vy - py) - dy1 * (vx - px);
                 k1 = det1 / det; k2 = det2 / det
             in if k2 < 0 \<or> k2 > 1 then None
                else if k1 < 0 then None
                else Some (vx + k2 * dx2, vy + k2 * dy2))"

definition distPointSegment :: "point \<Rightarrow> segment \<Rightarrow> real" where
  "distPointSegment = (\<lambda>(px, py) ((vx, vy), (wx, wy)).
     let dx = wx - vx; dy = wy - vy in
     case intersectLineSegment ((px, py), (px + dy, py - dx)) ((vx, vy), (wx, wy)) of
       None \<Rightarrow> (let d1 = dist_points (px, py) (vx, vy); d2 = dist_points (px, py) (wx, wy) in if d1 \<le> d2 then d1 else d2)
     | Some ip \<Rightarrow> dist_points (px, py) ip)"

definition neareastPointOnLine :: "point \<Rightarrow> segment \<Rightarrow> point option" where
  "neareastPointOnLine = (\<lambda>(px, py) ((vx, vy), (wx, wy)).
     let dx = wx - vx; dy = wy - vy in intersectLines ((vx, vy), (wx, wy)) ((px, py), (px + dy, py - dx)))"

section \<open>Points of lines, segments and rays\<close>

text \<open>The point with parameter \<open>k\<close> on the line from \<open>v\<close> in direction \<open>d\<close>.\<close>

definition along :: "point \<Rightarrow> point \<Rightarrow> real \<Rightarrow> point" where
  "along v d k = (fst v + k * fst d, snd v + k * snd d)"

definition direction :: "segment \<Rightarrow> point" where
  "direction l = (fst (snd l) - fst (fst l), snd (snd l) - snd (fst l))"

definition on_line :: "segment \<Rightarrow> point \<Rightarrow> bool" where
  "on_line l p = (\<exists>k. p = along (fst l) (direction l) k)"

definition on_segment :: "segment \<Rightarrow> point \<Rightarrow> bool" where
  "on_segment l p = (\<exists>k. 0 \<le> k \<and> k \<le> 1 \<and> p = along (fst l) (direction l) k)"

definition on_ray :: "point \<times> real \<Rightarrow> point \<Rightarrow> bool" where
  "on_ray r p = (\<exists>k. 0 \<le> k \<and> p = along (fst r) (cos (snd r), sin (snd r)) k)"

text \<open>The determinant of two directions.\<close>

definition cross :: "point \<Rightarrow> point \<Rightarrow> real" where
  "cross d1 d2 = fst d2 * snd d1 - fst d1 * snd d2"

text \<open>Cramer's rule: the parameters of the only common point of two lines.\<close>

lemma cramer:
  assumes "cross d1 d2 \<noteq> 0"
  shows "along p d1 k1 = along v d2 k2 \<longleftrightarrow>
    k1 = (fst d2 * (snd v - snd p) - snd d2 * (fst v - fst p)) / cross d1 d2 \<and>
    k2 = (fst d1 * (snd v - snd p) - snd d1 * (fst v - fst p)) / cross d1 d2"
proof -
  obtain px py vx vy a b c d where e: "p = (px, py)" "v = (vx, vy)" "d1 = (a, b)" "d2 = (c, d)" by (meson surj_pair)
  have det: "c * b - a * d \<noteq> 0" using assms by (simp add: e cross_def)
  show ?thesis
  proof
    assume "along p d1 k1 = along v d2 k2"
    then have "px + k1 * a = vx + k2 * c" "py + k1 * b = vy + k2 * d" by (simp_all add: along_def e)
    then have "k1 * (c * b - a * d) = c * (vy - py) - d * (vx - px)" "k2 * (c * b - a * d) = a * (vy - py) - b * (vx - px)"
      by algebra+
    then show "k1 = (fst d2 * (snd v - snd p) - snd d2 * (fst v - fst p)) / cross d1 d2 \<and>
        k2 = (fst d1 * (snd v - snd p) - snd d1 * (fst v - fst p)) / cross d1 d2"
      using det by (simp add: e cross_def eq_divide_eq)
  next
    assume "k1 = (fst d2 * (snd v - snd p) - snd d2 * (fst v - fst p)) / cross d1 d2 \<and>
        k2 = (fst d1 * (snd v - snd p) - snd d1 * (fst v - fst p)) / cross d1 d2"
    then have k: "k1 * (c * b - a * d) = c * (vy - py) - d * (vx - px)" "k2 * (c * b - a * d) = a * (vy - py) - b * (vx - px)"
      using det by (simp_all add: e cross_def)
    have "(px + k1 * a) * (c * b - a * d) = (vx + k2 * c) * (c * b - a * d)"
        "(py + k1 * b) * (c * b - a * d) = (vy + k2 * d) * (c * b - a * d)"
      using k by algebra+
    then show "along p d1 k1 = along v d2 k2" using det by (simp add: along_def e)
  qed
qed

section \<open>Intersections\<close>

definition param1 :: "point \<Rightarrow> point \<Rightarrow> point \<Rightarrow> point \<Rightarrow> real" where
  "param1 p d1 v d2 = (fst d2 * (snd v - snd p) - snd d2 * (fst v - fst p)) / cross d1 d2"

definition param2 :: "point \<Rightarrow> point \<Rightarrow> point \<Rightarrow> point \<Rightarrow> real" where
  "param2 p d1 v d2 = (fst d1 * (snd v - snd p) - snd d1 * (fst v - fst p)) / cross d1 d2"

lemmas geometry_defs = Let_def split_beta along_def direction_def cross_def param1_def param2_def

lemma intersectLines_eq:
  "intersectLines l m =
   (let d1 = direction l; d2 = direction m; k = param2 (fst l) d1 (fst m) d2
    in if \<bar>cross d1 d2\<bar> < 1 / 1000 then None else Some (along (fst m) d2 k))"
  by (simp add: intersectLines_def geometry_defs)

lemma intersectLineSegment_eq:
  "intersectLineSegment l m =
   (let d1 = direction l; d2 = direction m; k = param2 (fst l) d1 (fst m) d2
    in if \<bar>cross d1 d2\<bar> < 1 / 1000 \<or> k < 0 \<or> k > 1 then None else Some (along (fst m) d2 k))"
  by (simp add: intersectLineSegment_def geometry_defs)

lemma intersectSegments_eq:
  "intersectSegments l m =
   (let d1 = direction l; d2 = direction m; j = param1 (fst l) d1 (fst m) d2; k = param2 (fst l) d1 (fst m) d2
    in if \<bar>cross d1 d2\<bar> < 1 / 1000 \<or> j < 0 \<or> j > 1 \<or> k < 0 \<or> k > 1 then None else Some (along (fst m) d2 k))"
  by (simp add: intersectSegments_def geometry_defs)

lemma intersectRaySegment_eq:
  "intersectRaySegment r m =
   (let d1 = (cos (snd r), sin (snd r)); d2 = direction m; j = param1 (fst r) d1 (fst m) d2; k = param2 (fst r) d1 (fst m) d2
    in if \<bar>cross d1 d2\<bar> < 1 / 1000 \<or> k < 0 \<or> k > 1 \<or> j < 0 then None else Some (along (fst m) d2 k))"
  by (simp add: intersectRaySegment_def geometry_defs)

lemma common_point:
  assumes "cross d1 d2 \<noteq> 0"
  shows "(\<exists>j. P j \<and> x = along p d1 j) \<and> (\<exists>k. Q k \<and> x = along v d2 k) \<longleftrightarrow>
    P (param1 p d1 v d2) \<and> Q (param2 p d1 v d2) \<and> x = along v d2 (param2 p d1 v d2)"
proof -
  have c: "along p d1 j = along v d2 k \<longleftrightarrow> j = param1 p d1 v d2 \<and> k = param2 p d1 v d2" for j k
    using cramer [OF assms] by (simp add: param1_def param2_def)
  show ?thesis
  proof
    assume "(\<exists>j. P j \<and> x = along p d1 j) \<and> (\<exists>k. Q k \<and> x = along v d2 k)"
    then obtain j k where "P j" "Q k" "x = along p d1 j" "x = along v d2 k" by blast
    moreover from this have "j = param1 p d1 v d2 \<and> k = param2 p d1 v d2" using c by metis
    ultimately show "P (param1 p d1 v d2) \<and> Q (param2 p d1 v d2) \<and> x = along v d2 (param2 p d1 v d2)" by simp
  next
    assume *: "P (param1 p d1 v d2) \<and> Q (param2 p d1 v d2) \<and> x = along v d2 (param2 p d1 v d2)"
    moreover have "along p d1 (param1 p d1 v d2) = along v d2 (param2 p d1 v d2)" using c by blast
    ultimately show "(\<exists>j. P j \<and> x = along p d1 j) \<and> (\<exists>k. Q k \<and> x = along v d2 k)" by metis
  qed
qed

text \<open>The four intersections, for directions that are not nearly parallel.\<close>

lemma intersectLines_iff:
  assumes "1 / 1000 \<le> \<bar>cross (direction l) (direction m)\<bar>"
  shows "intersectLines l m = Some x \<longleftrightarrow> on_line l x \<and> on_line m x"
proof -
  have "cross (direction l) (direction m) \<noteq> 0" using assms by auto
  from common_point [OF this, of "\<lambda>_. True" x "fst l" "\<lambda>_. True" "fst m"] show ?thesis
    using assms by (auto simp: intersectLines_eq Let_def on_line_def)
qed

lemma intersectLineSegment_iff:
  assumes "1 / 1000 \<le> \<bar>cross (direction l) (direction m)\<bar>"
  shows "intersectLineSegment l m = Some x \<longleftrightarrow> on_line l x \<and> on_segment m x"
proof -
  have "cross (direction l) (direction m) \<noteq> 0" using assms by auto
  from common_point [OF this, of "\<lambda>_. True" x "fst l" "\<lambda>k. 0 \<le> k \<and> k \<le> 1" "fst m"] show ?thesis
    using assms by (auto simp: intersectLineSegment_eq Let_def on_line_def on_segment_def)
qed

lemma intersectSegments_iff:
  assumes "1 / 1000 \<le> \<bar>cross (direction l) (direction m)\<bar>"
  shows "intersectSegments l m = Some x \<longleftrightarrow> on_segment l x \<and> on_segment m x"
proof -
  have "cross (direction l) (direction m) \<noteq> 0" using assms by auto
  from common_point [OF this, of "\<lambda>k. 0 \<le> k \<and> k \<le> 1" x "fst l" "\<lambda>k. 0 \<le> k \<and> k \<le> 1" "fst m"] show ?thesis
    using assms by (auto simp: intersectSegments_eq Let_def on_segment_def)
qed

lemma intersectRaySegment_iff:
  assumes "1 / 1000 \<le> \<bar>cross (cos (snd r), sin (snd r)) (direction m)\<bar>"
  shows "intersectRaySegment r m = Some x \<longleftrightarrow> on_ray r x \<and> on_segment m x"
proof -
  have "cross (cos (snd r), sin (snd r)) (direction m) \<noteq> 0" using assms by auto
  from common_point [OF this, of "\<lambda>k. 0 \<le> k" x "fst r" "\<lambda>k. 0 \<le> k \<and> k \<le> 1" "fst m"] show ?thesis
    using assms by (auto simp: intersectRaySegment_eq Let_def on_ray_def on_segment_def)
qed

lemma intersectRaySegment_exact:
  "intersectRaySegment r m = Some x \<longleftrightarrow> 1 / 1000 \<le> \<bar>cross (cos (snd r), sin (snd r)) (direction m)\<bar> \<and> on_ray r x \<and> on_segment m x"
  using intersectRaySegment_iff [of r m x]
  by (cases "1 / 1000 \<le> \<bar>cross (cos (snd r), sin (snd r)) (direction m)\<bar>") (blast, simp add: intersectRaySegment_eq Let_def)

section \<open>Distances\<close>

definition square_dist :: "point \<Rightarrow> point \<Rightarrow> real" where
  "square_dist p q = (fst p - fst q) * (fst p - fst q) + (snd p - snd q) * (snd p - snd q)"

definition square_length :: "segment \<Rightarrow> real" where
  "square_length m = square_dist (snd m) (fst m)"

lemma dist_points_eq: "dist_points p q = sqrt (square_dist p q)"
  by (simp add: dist_points_def square_dist_def Let_def split_beta)

lemma dist_points_le_iff [simp]: "dist_points p q \<le> dist_points a b \<longleftrightarrow> square_dist p q \<le> square_dist a b"
  by (simp add: dist_points_eq)

lemma dist_points_norm: "dist_points p q = cmod (Complex (fst p) (snd p) - Complex (fst q) (snd q))"
  by (simp add: dist_points_eq square_dist_def cmod_def power2_eq_square)

lemma dist_points_triangle: "dist_points p r \<le> dist_points p q + dist_points q r"
  unfolding dist_points_norm by (metis dist_norm dist_triangle)

lemma dist_points_commute: "dist_points p q = dist_points q p"
  unfolding dist_points_norm by (rule norm_minus_commute)

text \<open>The parameter of the foot of the perpendicular.\<close>

definition foot :: "point \<Rightarrow> segment \<Rightarrow> real" where
  "foot p m = (fst (direction m) * (fst p - fst (fst m)) + snd (direction m) * (snd p - snd (fst m))) / square_length m"

lemma square_dist_along:
  assumes "square_length m \<noteq> 0"
  shows "square_dist p (along (fst m) (direction m) k) =
    square_dist p (along (fst m) (direction m) (foot p m)) + (k - foot p m) * (k - foot p m) * square_length m"
proof -
  obtain px py vx vy wx wy where e: "p = (px, py)" "m = ((vx, vy), (wx, wy))" by (metis surj_pair)
  define L where "L = square_length m"
  define t where "t = foot p m"
  have L: "L = (wx - vx) * (wx - vx) + (wy - vy) * (wy - vy)" by (simp add: L_def e square_length_def square_dist_def)
  have t: "t * L = (wx - vx) * (px - vx) + (wy - vy) * (py - vy)"
    using assms by (simp add: t_def L_def foot_def e direction_def)
  have "(px - (vx + k * (wx - vx))) * (px - (vx + k * (wx - vx))) + (py - (vy + k * (wy - vy))) * (py - (vy + k * (wy - vy))) =
     (px - (vx + t * (wx - vx))) * (px - (vx + t * (wx - vx))) + (py - (vy + t * (wy - vy))) * (py - (vy + t * (wy - vy)))
     + (k - t) * (k - t) * L"
    using t unfolding L by algebra
  then show ?thesis by (simp add: square_dist_def e along_def direction_def t_def [symmetric, unfolded e] L_def [symmetric, unfolded e])
qed

lemma cross_normal: "cross (snd d, - fst d) d = - (fst d * fst d + snd d * snd d)"
  by (simp add: cross_def)

lemma square_length_direction: "square_length m = fst (direction m) * fst (direction m) + snd (direction m) * snd (direction m)"
  by (simp add: square_length_def square_dist_def direction_def)

lemma square_length_nonneg: "0 \<le> square_length m"
  by (simp add: square_length_direction)

lemma distPointSegment_eq:
  "distPointSegment p m =
   (if square_length m < 1 / 1000 \<or> foot p m < 0 \<or> foot p m > 1 then min (dist_points p (fst m)) (dist_points p (snd m))
    else dist_points p (along (fst m) (direction m) (foot p m)))"
proof -
  obtain px py vx vy wx wy where e: "p = (px, py)" "m = ((vx, vy), (wx, wy))" by (metis surj_pair)
  let ?l = "((px, py), (px + (wy - vy), py - (wx - vx)))"
  have dl: "direction ?l = (snd (direction m), - fst (direction m))" by (simp add: direction_def e)
  have c: "cross (direction ?l) (direction m) = - square_length m"
    unfolding dl cross_normal square_length_direction by simp
  have k: "param2 (px, py) (direction ?l) (fst m) (direction m) = foot p m"
  proof -
    have "fst (direction ?l) * (snd (fst m) - py) - snd (direction ?l) * (fst (fst m) - px) =
        - (fst (direction m) * (fst p - fst (fst m)) + snd (direction m) * (snd p - snd (fst m)))"
      unfolding dl by (simp add: e algebra_simps)
    then show ?thesis unfolding param2_def c foot_def fst_conv snd_conv by (simp only: minus_divide_divide)
  qed
  have "intersectLineSegment ?l m =
      (if square_length m < 1 / 1000 \<or> foot p m < 0 \<or> foot p m > 1 then None else Some (along (fst m) (direction m) (foot p m)))"
    using square_length_nonneg [of m] k unfolding intersectLineSegment_eq Let_def c by simp
  then show ?thesis by (simp add: distPointSegment_def e Let_def min_def)
qed

lemma along_ends: "along (fst m) (direction m) 0 = fst m" "along (fst m) (direction m) 1 = snd m"
  by (simp_all add: along_def direction_def prod_eq_iff)

lemma on_segment_ends: "on_segment m (fst m)" "on_segment m (snd m)"
  unfolding on_segment_def using along_ends [of m] by (metis order_refl zero_le_one)+

text \<open>The square of the distance is convex along the segment.\<close>

lemma square_dist_ends:
  assumes "square_length m \<noteq> 0" and "foot p m < 0 \<or> foot p m > 1" and "0 \<le> k" "k \<le> 1"
  shows "min (square_dist p (fst m)) (square_dist p (snd m)) \<le> square_dist p (along (fst m) (direction m) k)"
proof -
  let ?t = "foot p m"
  have L: "0 < square_length m" using square_length_nonneg [of m] assms(1) by simp
  have f: "square_dist p (along (fst m) (direction m) j) =
      square_dist p (along (fst m) (direction m) ?t) + (j - ?t) * (j - ?t) * square_length m" for j
    by (rule square_dist_along [OF assms(1)])
  show ?thesis
  proof (cases "?t < 0")
    case True
    then have "(0 - ?t) * (0 - ?t) \<le> (k - ?t) * (k - ?t)" using assms(3) by (intro mult_mono) auto
    then have "square_dist p (along (fst m) (direction m) 0) \<le> square_dist p (along (fst m) (direction m) k)"
      using L f [of 0] f [of k] by (simp add: mult_right_mono)
    then show ?thesis by (simp add: along_ends min_le_iff_disj)
  next
    case False
    then have "(?t - 1) * (?t - 1) \<le> (?t - k) * (?t - k)" using assms(2,4) by (intro mult_mono) auto
    then have "(1 - ?t) * (1 - ?t) \<le> (k - ?t) * (k - ?t)" by (simp add: algebra_simps)
    then have "(1 - ?t) * (1 - ?t) * square_length m \<le> (k - ?t) * (k - ?t) * square_length m" using L by (intro mult_right_mono) auto
    then have "square_dist p (along (fst m) (direction m) 1) \<le> square_dist p (along (fst m) (direction m) k)"
      using f [of 1] f [of k] by linarith
    then show ?thesis by (simp add: along_ends min_le_iff_disj)
  qed
qed

lemma distPointSegment_attained: "\<exists>x. on_segment m x \<and> distPointSegment p m = dist_points p x"
proof (cases "square_length m < 1 / 1000 \<or> foot p m < 0 \<or> foot p m > 1")
  case True
  then have "distPointSegment p m = dist_points p (fst m) \<or> distPointSegment p m = dist_points p (snd m)"
    by (simp add: distPointSegment_eq min_def)
  then show ?thesis using on_segment_ends by blast
next
  case False
  then have "on_segment m (along (fst m) (direction m) (foot p m))"
    unfolding on_segment_def by (intro exI [of _ "foot p m"]) simp
  moreover have "distPointSegment p m = dist_points p (along (fst m) (direction m) (foot p m))"
    using False by (simp add: distPointSegment_eq)
  ultimately show ?thesis by blast
qed

lemma distPointSegment_least:
  assumes "1 / 1000 \<le> square_length m" and "on_segment m x"
  shows "distPointSegment p m \<le> dist_points p x"
proof -
  have nz: "square_length m \<noteq> 0" using assms(1) by auto
  obtain k where k: "0 \<le> k" "k \<le> 1" "x = along (fst m) (direction m) k" using assms(2) by (auto simp: on_segment_def)
  show ?thesis
  proof (cases "foot p m < 0 \<or> foot p m > 1")
    case True
    from square_dist_ends [OF nz True k(1,2)] show ?thesis
      using True by (auto simp: distPointSegment_eq min_le_iff_disj k(3))
  next
    case False
    have "0 \<le> (k - foot p m) * (k - foot p m) * square_length m" using square_length_nonneg by simp
    then have "square_dist p (along (fst m) (direction m) (foot p m)) \<le> square_dist p x"
      unfolding k(3) square_dist_along [OF nz, of p k] by simp
    then show ?thesis using False assms(1) by (simp add: distPointSegment_eq)
  qed
qed

lemma on_segment_near_start:
  assumes "on_segment m x"
  shows "dist_points x (fst m) \<le> sqrt (square_length m)"
proof -
  obtain k where k: "0 \<le> k" "k \<le> 1" "x = along (fst m) (direction m) k" using assms by (auto simp: on_segment_def)
  have "square_dist x (fst m) = k * k * square_length m"
    by (simp add: square_dist_def k(3) along_def square_length_direction algebra_simps)
  also have "\<dots> \<le> 1 * square_length m"
    using k square_length_nonneg by (intro mult_right_mono) (auto intro: mult_le_one)
  finally show ?thesis by (simp add: dist_points_eq)
qed

lemma distPointSegment_short:
  assumes "square_length m < 1 / 1000" and "on_segment m x"
  shows "distPointSegment p m \<le> dist_points p x + 4 / 125"
proof -
  have "sqrt (square_length m) \<le> 4 / 125" using assms(1) by (intro real_le_lsqrt) (simp_all add: power2_eq_square square_length_nonneg)
  then have "dist_points x (fst m) \<le> 4 / 125" using on_segment_near_start [OF assms(2)] by linarith
  moreover have "distPointSegment p m \<le> dist_points p (fst m)" using assms(1) by (simp add: distPointSegment_eq)
  ultimately show ?thesis using dist_points_triangle [of p "fst m" x] by linarith
qed

section \<open>What the functions compute\<close>

text \<open>
  C35: For directions whose determinant is at least 1/1000, each intersection function returns a point exactly when it lies on both figures:
  two lines, a line and a segment, two segments, a ray and a segment. Below that value all four return None.
\<close>

theorem intersections_exact:
  shows "(let det = \<bar>cross (direction l) (direction m)\<bar>; det_r = \<bar>cross (cos (snd r), sin (snd r)) (direction m)\<bar> in
    (intersectLines l m = Some x) = (1 / 1000 \<le> det \<and> on_line l x \<and> on_line m x) \<and>
    (intersectLineSegment l m = Some x) = (1 / 1000 \<le> det \<and> on_line l x \<and> on_segment m x) \<and>
    (intersectSegments l m = Some x) = (1 / 1000 \<le> det \<and> on_segment l x \<and> on_segment m x) \<and>
    (intersectRaySegment r m = Some x) = (1 / 1000 \<le> det_r \<and> on_ray r x \<and> on_segment m x))"
proof -
  let ?det = "\<bar>cross (direction l) (direction m)\<bar>" and ?det_r = "\<bar>cross (cos (snd r), sin (snd r)) (direction m)\<bar>"
  have "(intersectLines l m = Some x) = (1 / 1000 \<le> ?det \<and> on_line l x \<and> on_line m x)"
    using intersectLines_iff [of l m x] by (cases "1 / 1000 \<le> ?det") (blast, simp add: intersectLines_eq Let_def)
  moreover have "(intersectLineSegment l m = Some x) = (1 / 1000 \<le> ?det \<and> on_line l x \<and> on_segment m x)"
    using intersectLineSegment_iff [of l m x] by (cases "1 / 1000 \<le> ?det") (blast, simp add: intersectLineSegment_eq Let_def)
  moreover have "(intersectSegments l m = Some x) = (1 / 1000 \<le> ?det \<and> on_segment l x \<and> on_segment m x)"
    using intersectSegments_iff [of l m x] by (cases "1 / 1000 \<le> ?det") (blast, simp add: intersectSegments_eq Let_def)
  moreover have "(intersectRaySegment r m = Some x) = (1 / 1000 \<le> ?det_r \<and> on_ray r x \<and> on_segment m x)"
    by (rule intersectRaySegment_exact)
  ultimately show ?thesis by (simp add: Let_def)
qed

text \<open>
  The distance of a point to a segment is the distance to one of its points, and no point of the segment is nearer by more than
  4/125, or nearer at all when the square of the length of the segment is at least 1/1000.
\<close>

theorem segment_distance:
  assumes "on_segment m x"
  shows "(\<exists>y. on_segment m y \<and> distPointSegment p m = dist_points p y) \<and>
    distPointSegment p m \<le> dist_points p x + (if square_length m < 1 / 1000 then 4 / 125 else 0)"
  using distPointSegment_attained [of m p] distPointSegment_least [OF _ assms, of p] distPointSegment_short [OF _ assms, of p] by simp

theorem segment_distance_witness:
  "on_segment ((0, 0), (4, 0)) (1, 0) \<and> distPointSegment (1, 3) ((0, 0), (4, 0)) \<le> 3"
proof -
  have s: "on_segment ((0, 0), (4, 0)) (1, 0)"
    unfolding on_segment_def by (intro exI [of _ "1 / 4"]) (simp add: along_def direction_def)
  have "dist_points (1, 3) (1, 0) = 3" by (simp add: dist_points_def)
  moreover have "\<not> square_length ((0, 0), (4, 0)) < 1 / 1000" by (simp add: square_length_def square_dist_def)
  ultimately show ?thesis using segment_distance [OF s, of "(1, 3)"] s by simp
qed

text \<open>
  The Hesse normal form: the vector from a point to a line is orthogonal to it, ends on the line and has the signed distance as its
  length; the origin has no positive distance.
\<close>

lemma normal_reaches_line:
  assumes "normalToLine p l = Inr n" and "distPointLineWithSign p l = Inr d"
  shows "on_line l (fst p + fst n, snd p + snd n)" and "fst n * fst (direction l) + snd n * snd (direction l) = 0"
    and "square_dist n (0, 0) = d * d" and "distPointLineWithSign (0, 0) l = Inr e \<Longrightarrow> e \<le> 0"
proof -
  obtain px py vx vy wx wy where pl: "p = (px, py)" "l = ((vx, vy), (wx, wy))" by (metis surj_pair)
  define dx dy where d_def: "dx = wx - vx" "dy = wy - vy"
  define L where "L = sqrt (dx * dx + dy * dy)"
  define c where "c = vy * dx - vx * dy"
  define sg where "sg = (if c < 0 then -1 else 1 :: real)"
  have nz: "L \<noteq> 0" using assms(1) by (auto simp: normalToLine_def hesse_def pl Let_def L_def d_def)
  have LL: "L * L = dx * dx + dy * dy" by (simp add: L_def)
  have ss: "sg * sg = 1" by (simp add: sg_def)
  let ?a = "- sg * dy / L" and ?b = "sg * dx / L" and ?c = "sg * c / L"
  have h: "hesse l = Inr (?a, ?b, ?c)"
    using nz by (simp add: hesse_def pl Let_def sg_def c_def L_def d_def)
  have d: "d = ?a * px + ?b * py - ?c" using assms(2) h by (simp add: distPointLineWithSign_def pl)
  have n: "n = (- d * ?a, - d * ?b)" using assms(1) unfolding normalToLine_def d pl(1) prod.case h by (simp only: rbind.simps Let_def prod.case sum.inject)
  have "?a * ?a + ?b * ?b = sg * sg * (dx * dx + dy * dy) / (L * L)" by (simp add: algebra_simps add_divide_distrib)
  then have unit: "?a * ?a + ?b * ?b = 1" using nz unfolding ss LL [symmetric] by simp
  have dir: "direction l = (dx, dy)" by (simp add: direction_def pl d_def)
  show "fst n * fst (direction l) + snd n * snd (direction l) = 0" by (simp add: n dir)
  have "square_dist n (0, 0) = d * d * (?a * ?a + ?b * ?b)" by (simp add: square_dist_def n algebra_simps)
  then show "square_dist n (0, 0) = d * d" using unit by simp
  show "e \<le> 0" if "distPointLineWithSign (0, 0) l = Inr e"
  proof -
    have "e = - ?c" using that h by (simp add: distPointLineWithSign_def)
    moreover have "0 \<le> sg * c" by (simp add: sg_def)
    moreover have "0 \<le> L" by (simp add: L_def)
    then have "0 < L" using nz by simp
    ultimately show ?thesis by simp
  qed
  let ?k = "((px + fst n - vx) * dx + (py + snd n - vy) * dy) / (L * L)"
  have eq: "?a * (px + fst n) + ?b * (py + snd n) = ?c"
  proof -
    have "?a * (px + fst n) + ?b * (py + snd n) = ?a * px + ?b * py - d * (?a * ?a + ?b * ?b)" by (simp add: n algebra_simps)
    then show ?thesis unfolding unit d by simp
  qed
  have "sg * (- dy * (px + fst n) + dx * (py + snd n)) / L = ?a * (px + fst n) + ?b * (py + snd n)"
    by (simp add: algebra_simps add_divide_distrib diff_divide_distrib)
  then have "sg * (- dy * (px + fst n) + dx * (py + snd n)) / L = sg * c / L" unfolding eq .
  then have "sg * (- dy * (px + fst n) + dx * (py + snd n)) = sg * c" using nz by (simp only: divide_cancel_right) blast
  then have "- dy * (px + fst n) + dx * (py + snd n) = c" by (simp add: sg_def split: if_splits)
  then have "(px + fst n - vx) * dy = (py + snd n - vy) * dx" by (simp add: c_def algebra_simps)
  then have "(px + fst n - vx) * (L * L) = ((px + fst n - vx) * dx + (py + snd n - vy) * dy) * dx"
      "(py + snd n - vy) * (L * L) = ((px + fst n - vx) * dx + (py + snd n - vy) * dy) * dy"
    unfolding LL by algebra+
  then have "px + fst n = vx + ?k * dx" "py + snd n = vy + ?k * dy" using nz by (simp_all add: field_simps)
  then show "on_line l (fst p + fst n, snd p + snd n)"
    unfolding on_line_def by (intro exI [of _ ?k]) (simp add: along_def dir [unfolded pl] pl)
qed

end
