(* ===== verification/Sensor.thy ===== *)
theory Sensor
  imports Geometry "HOL-Library.Sublist" "HOL-Library.Monad_Syntax"
begin

text \<open>
  The evaluation of laser data in the robot simulator,
  \<open>src/Sem5/MobileRobotik/RoboterSimulator/Robot_Simulator_V3/sensorUtilities.py\<close>: the polyline of Douglas and Peucker through the measured
  points, the segments taken from it, and the change from the robot's coordinates to those of the world.
\<close>

section \<open>Polylines\<close>

text \<open>A numbered point: its coordinates and its number.\<close>

type_synonym npoint = "point \<times> nat"

definition farthest_step :: "npoint list \<Rightarrow> segment \<Rightarrow> nat \<Rightarrow> real \<times> nat \<Rightarrow> real \<times> nat" where
  "farthest_step pts l i = (\<lambda>(dmax, imax). let d = distPointSegment (fst (pts ! i)) l in if d > dmax then (d, i) else (dmax, imax))"

definition farthest :: "npoint list \<Rightarrow> real \<times> nat" where
  "farthest pts = fold (farthest_step pts (fst (hd pts), fst (last pts))) [1..<length pts] (0, 0)"

text \<open>With a negative \<open>eps\<close> the list is not always shortened by the recursion: \<open>None\<close> is a call that does not return.\<close>

partial_function (option) extractPolyLine :: "npoint list \<Rightarrow> real \<Rightarrow> npoint list option" where
  "extractPolyLine pts eps =
     (if length pts \<le> 2 then Some pts
      else let (dmax, imax) = farthest pts in
           if dmax > eps
           then do { res1 \<leftarrow> extractPolyLine (take (imax + 1) pts) eps;
                     res2 \<leftarrow> extractPolyLine (drop imax pts) eps;
                     Some (res1 @ tl res2) }
           else Some [hd pts, last pts])"

text \<open>The measured points in the coordinates of the robot; a beam without a value is left out.\<close>

fun polar_points :: "real option list \<Rightarrow> real list \<Rightarrow> nat \<Rightarrow> npoint list res" where
  "polar_points [] dirs nr = Inr []"
| "polar_points (None # ds) dirs nr = polar_points ds (tl dirs) nr"
| "polar_points (Some d # ds) [] nr = Inl IndexError"
| "polar_points (Some d # ds) (alpha # dirs) nr =
     rbind (polar_points ds dirs (Suc nr)) (\<lambda>ps. Inr (((d * cos alpha, d * sin alpha), nr) # ps))"

definition minPoints :: nat where "minPoints = 3"

fun supported :: "npoint list \<Rightarrow> segment list" where
  "supported (p # q # ps) =
     (if int (snd q) - int (snd p) + 1 \<ge> int minPoints then [(fst p, fst q)] else []) @ supported (q # ps)"
| "supported ps = []"

definition extractSegmentsFromSensorData :: "real option list \<Rightarrow> real list \<Rightarrow> real \<Rightarrow> segment list res option" where
  "extractSegmentsFromSensorData dists directions eps =
     (case polar_points dists directions 0 of
        Inl e \<Rightarrow> Some (Inl e)
      | Inr ps \<Rightarrow> map_option (\<lambda>r. Inr (supported r)) (extractPolyLine ps eps))"

section \<open>Change of coordinates\<close>

type_synonym pose = "real \<times> real \<times> real"

definition local_to_global :: "pose \<Rightarrow> point \<Rightarrow> point" where
  "local_to_global = (\<lambda>(x_R, y_R, theta_R) (x, y).
     (x_R + x * cos theta_R - y * sin theta_R, y_R + x * sin theta_R + y * cos theta_R))"

definition transformPolylinesL2G :: "point list list \<Rightarrow> pose \<Rightarrow> point list list" where
  "transformPolylinesL2G polylines p = map (map (local_to_global p)) polylines"

fun transformPolarCoordL2G :: "real option list \<Rightarrow> real list \<Rightarrow> pose \<Rightarrow> point list res" where
  "transformPolarCoordL2G [] alphas p = Inr []"
| "transformPolarCoordL2G (None # ds) alphas p = transformPolarCoordL2G ds (tl alphas) p"
| "transformPolarCoordL2G (Some d # ds) [] p = Inl IndexError"
| "transformPolarCoordL2G (Some d # ds) (alpha # alphas) p =
     rbind (transformPolarCoordL2G ds alphas p) (\<lambda>cs. Inr (local_to_global p (d * cos alpha, d * sin alpha) # cs))"

section \<open>The farthest point\<close>

lemma dist_points_self [simp]: "dist_points p p = 0"
  by (simp add: dist_points_eq square_dist_def)

lemma dist_points_nonneg [simp]: "0 \<le> dist_points p q"
  by (simp add: dist_points_norm)

lemma distPointSegment_nonneg: "0 \<le> distPointSegment p m"
  using distPointSegment_attained [of m p] by auto

lemma distPointSegment_end: "p = fst m \<or> p = snd m \<Longrightarrow> distPointSegment p m = 0"
proof -
  assume p: "p = fst m \<or> p = snd m"
  show ?thesis
  proof (cases "square_length m < 1 / 1000")
    case True
    then show ?thesis using p by (auto simp: distPointSegment_eq min_absorb1 min_absorb2 simp del: dist_points_le_iff)
  next
    case False
    then have "distPointSegment p m \<le> dist_points p p" using p on_segment_ends [of m] by (intro distPointSegment_least) auto
    then show ?thesis using distPointSegment_nonneg [of p m] by simp
  qed
qed

lemma farthest_fold:
  assumes "fold (farthest_step pts l) is s = (dmax, imax)"
  shows "fst s \<le> dmax \<and> (\<forall>i \<in> set is. distPointSegment (fst (pts ! i)) l \<le> dmax) \<and>
    ((dmax, imax) = s \<or> imax \<in> set is \<and> fst s < dmax \<and> dmax = distPointSegment (fst (pts ! imax)) l)"
  using assms
proof (induction "is" arbitrary: s)
  case (Cons i js)
  let ?d = "distPointSegment (fst (pts ! i)) l"
  have step: "farthest_step pts l i s = (if ?d > fst s then (?d, i) else s)"
    by (cases s) (simp add: farthest_step_def)
  from Cons.IH [of "farthest_step pts l i s"] Cons.prems show ?case
    by (auto simp: step split: if_splits)
qed auto

lemma farthest_inner:
  assumes "farthest pts = (dmax, imax)" and "2 < length pts" and "0 < dmax"
  shows "0 < imax \<and> Suc imax < length pts"
proof -
  let ?l = "(fst (hd pts), fst (last pts))"
  from farthest_fold [of pts ?l "[1..<length pts]" "(0, 0)" dmax imax] assms
  have i: "1 \<le> imax" "imax < length pts" "dmax = distPointSegment (fst (pts ! imax)) ?l" by (auto simp: farthest_def)
  have "imax \<noteq> length pts - 1"
  proof
    assume "imax = length pts - 1"
    then have "pts ! imax = last pts" using assms(2) by (metis last_conv_nth list.size(3) not_less_zero)
    then have "dmax = 0" using i(3) distPointSegment_end [of _ ?l] by simp
    then show False using assms(3) by simp
  qed
  then show ?thesis using i by simp
qed

lemma farthest_bound:
  assumes "farthest pts = (dmax, imax)" and "p \<in> set pts"
  shows "distPointSegment (fst p) (fst (hd pts), fst (last pts)) \<le> dmax"
proof -
  let ?l = "(fst (hd pts), fst (last pts))"
  from farthest_fold [of pts ?l "[1..<length pts]" "(0, 0)" dmax imax] assms(1)
  have all: "0 \<le> dmax" "\<And>i. 1 \<le> i \<Longrightarrow> i < length pts \<Longrightarrow> distPointSegment (fst (pts ! i)) ?l \<le> dmax" by (auto simp: farthest_def)
  obtain i where i: "i < length pts" "p = pts ! i" using assms(2) by (auto simp: in_set_conv_nth)
  show ?thesis
  proof (cases i)
    case 0
    then have "p = hd pts" using i by (metis hd_conv_nth list.size(3) not_less_zero)
    then show ?thesis using all(1) distPointSegment_end [of _ ?l] by simp
  qed (use all(2) i in auto)
qed

section \<open>The polyline\<close>

text \<open>A point within \<open>eps\<close> of one of the segments of a polyline.\<close>

definition near_polyline :: "real \<Rightarrow> npoint list \<Rightarrow> npoint \<Rightarrow> bool" where
  "near_polyline eps r p = (\<exists>i. Suc i < length r \<and> distPointSegment (fst p) (fst (r ! i), fst (r ! Suc i)) \<le> eps)"

lemma near_appendL: "near_polyline eps r p \<Longrightarrow> near_polyline eps (r @ t) p"
proof -
  assume "near_polyline eps r p"
  then obtain i where "Suc i < length r" "distPointSegment (fst p) (fst (r ! i), fst (r ! Suc i)) \<le> eps" by (auto simp: near_polyline_def)
  then show ?thesis unfolding near_polyline_def by (intro exI [of _ i]) (simp add: nth_append)
qed

lemma near_appendR:
  assumes "near_polyline eps t p" and "r \<noteq> []" and "last r = hd t"
  shows "near_polyline eps (r @ tl t) p"
proof -
  obtain i where i: "Suc i < length t" "distPointSegment (fst p) (fst (t ! i), fst (t ! Suc i)) \<le> eps"
    using assms(1) by (auto simp: near_polyline_def)
  have t: "t \<noteq> []" using i(1) by auto
  have "(r @ tl t) ! (length r - 1 + j) = t ! j" if "j < length t" for j
  proof (cases j)
    case 0
    then show ?thesis using assms(2,3) t by (simp add: nth_append last_conv_nth hd_conv_nth)
  next
    case (Suc k)
    then have "length r - 1 + j = length r + k" using assms(2) by (cases r) auto
    then have "(r @ tl t) ! (length r - 1 + j) = tl t ! k" by (simp only: nth_append_length_plus)
    then show ?thesis using Suc that by (simp add: nth_tl)
  qed
  from this [of i] this [of "Suc i"] i assms(2) show ?thesis
    unfolding near_polyline_def by (intro exI [of _ "length r - 1 + i"]) (cases r; simp)
qed

definition polyline_of :: "real \<Rightarrow> npoint list \<Rightarrow> npoint list \<Rightarrow> bool" where
  "polyline_of eps pts r = (r \<noteq> [] \<and> subseq r pts \<and> hd r = hd pts \<and> last r = last pts \<and>
     (2 \<le> length pts \<longrightarrow> (\<forall>p \<in> set pts. near_polyline eps r p)))"

lemma polyline_of_self: "0 \<le> eps \<Longrightarrow> pts \<noteq> [] \<Longrightarrow> length pts \<le> 2 \<Longrightarrow> polyline_of eps pts pts"
proof -
  assume e: "0 \<le> eps" and n: "pts \<noteq> []" "length pts \<le> 2"
  have "near_polyline eps pts p" if "length pts = 2" "p \<in> set pts" for p
  proof -
    obtain a b where "pts = [a, b]" using \<open>length pts = 2\<close> by (auto simp: numeral_2_eq_2 length_Suc_conv)
    then show ?thesis using that(2) e distPointSegment_end [of "fst p" "(fst a, fst b)"] by (auto simp: near_polyline_def intro!: exI [of _ 0])
  qed
  then show ?thesis using n by (auto simp: polyline_of_def)
qed

lemma polyline_of_ends:
  assumes "0 \<le> eps" and "2 < length pts" and "farthest pts = (dmax, imax)" and "dmax \<le> eps"
  shows "polyline_of eps pts [hd pts, last pts]"
proof -
  have "subseq [hd pts, last pts] pts"
  proof (cases pts)
    case (Cons a qs)
    then have "qs \<noteq> []" using assms(2) by auto
    then show ?thesis using Cons by (simp add: subseq_singleton_left)
  qed (use assms(2) in simp)
  moreover have "near_polyline eps [hd pts, last pts] p" if "p \<in> set pts" for p
    using farthest_bound [OF assms(3) that] assms(4) by (auto simp: near_polyline_def intro!: exI [of _ 0])
  ultimately show ?thesis using assms(2) by (auto simp: polyline_of_def)
qed

lemma polyline_of_join:
  assumes "polyline_of eps (take (i + 1) pts) r" and "polyline_of eps (drop i pts) t" and "0 < i" and "Suc i < length pts"
  shows "polyline_of eps pts (r @ tl t)"
proof -
  let ?A = "take (i + 1) pts" and ?B = "drop i pts"
  have r: "r \<noteq> []" "subseq r ?A" "hd r = hd ?A" "last r = last ?A" "\<forall>p \<in> set ?A. near_polyline eps r p"
    and t: "t \<noteq> []" "subseq t ?B" "hd t = hd ?B" "last t = last ?B" "\<forall>p \<in> set ?B. near_polyline eps t p"
    using assms by (auto simp: polyline_of_def)
  have mid: "last ?A = hd ?B" using assms(3,4) by (simp add: hd_drop_conv_nth take_Suc_conv_app_nth)
  have B: "?B = hd ?B # drop (i + 1) pts" using assms(4) by (simp add: Cons_nth_drop_Suc hd_drop_conv_nth)
  have "t = hd ?B # tl t" using t(1,3) by (cases t) auto
  then have "subseq (tl t) (drop (i + 1) pts)" using t(2) B by (metis subseq_Cons2_iff)
  then have "subseq (r @ tl t) (?A @ drop (i + 1) pts)" using r(2) by (rule list_emb_append_mono [rotated])
  then have "subseq (r @ tl t) pts" by simp
  moreover have "hd (r @ tl t) = hd pts" using r(1,3) by simp
  moreover have "last (r @ tl t) = last pts"
  proof (cases "tl t")
    case Nil
    then have "length t = 1" using t(1) by (cases t) auto
    then have "last t = hd t" by (cases t) auto
    then have "last pts = hd ?B" using t(3,4) assms(4) by simp
    then show ?thesis using Nil r(4) mid by simp
  next
    case Cons
    then have "last (r @ tl t) = last t" using t(1) by (cases t) auto
    then show ?thesis using t(4) assms(4) by simp
  qed
  moreover have "near_polyline eps (r @ tl t) p" if "p \<in> set pts" for p
  proof -
    have "p \<in> set ?A \<or> p \<in> set (drop (i + 1) pts)" using that by (metis append_take_drop_id Un_iff set_append)
    moreover have "set (drop (i + 1) pts) \<subseteq> set ?B" using B by (metis set_subset_Cons)
    moreover have "last r = hd t" using r(4) t(3) mid by simp
    ultimately show ?thesis using near_appendL near_appendR [OF _ r(1)] r(5) t(5) by blast
  qed
  ultimately show ?thesis using r(1) by (auto simp: polyline_of_def)
qed

lemma extractPolyLine_ok: "0 \<le> eps \<Longrightarrow> pts \<noteq> [] \<Longrightarrow> \<exists>r. extractPolyLine pts eps = Some r \<and> polyline_of eps pts r"
proof (induction "length pts" arbitrary: pts rule: less_induct)
  case less
  obtain dmax imax where f: "farthest pts = (dmax, imax)" by force
  show ?case
  proof (cases "length pts \<le> 2")
    case True
    then show ?thesis using polyline_of_self [OF less.prems] by (auto simp: extractPolyLine.simps)
  next
    case False
    show ?thesis
    proof (cases "dmax > eps")
      case True
      have i: "0 < imax" "Suc imax < length pts" using farthest_inner [OF f] False True less.prems(1) by auto
      obtain r where r: "extractPolyLine (take (imax + 1) pts) eps = Some r" "polyline_of eps (take (imax + 1) pts) r"
        using less.hyps [of "take (imax + 1) pts"] less.prems i by auto
      obtain t where t: "extractPolyLine (drop imax pts) eps = Some t" "polyline_of eps (drop imax pts) t"
        using less.hyps [of "drop imax pts"] less.prems i by auto
      have "extractPolyLine pts eps = Some (r @ tl t)"
        using f False True r(1) t(1) by (subst extractPolyLine.simps) simp
      with polyline_of_join [OF r(2) t(2) i] show ?thesis by blast
    next
      case small: False
      have "extractPolyLine pts eps = Some [hd pts, last pts]"
        using f False small by (subst extractPolyLine.simps) simp
      with polyline_of_ends [OF less.prems(1) _ f] False small show ?thesis by auto
    qed
  qed
qed

section \<open>What the functions compute\<close>

text \<open>
  C32: For \<open>eps\<close> not negative the extraction of a polyline returns. The result consists of some of the points in their order, with the first and
  the last one, and every point of the list is within \<open>eps\<close> of one of its segments.
\<close>

theorem polyline_extracted:
  assumes "0 \<le> eps" and "2 \<le> length pts"
  shows "\<exists>r. extractPolyLine pts eps = Some r \<and> subseq r pts \<and> hd r = hd pts \<and> last r = last pts \<and>
    (\<forall>p \<in> set pts. \<exists>i. Suc i < length r \<and> distPointSegment (fst p) (fst (r ! i), fst (r ! Suc i)) \<le> eps)"
proof -
  have "pts \<noteq> []" using assms(2) by auto
  from extractPolyLine_ok [OF assms(1) this] show ?thesis using assms(2) by (auto simp: polyline_of_def near_polyline_def)
qed

theorem polyline_extracted_witness:
  "\<exists>r. extractPolyLine [((0, 0), 0), ((1, 5), 1), ((2, 0), 2)] 1 = Some r \<and> hd r = ((0, 0), 0) \<and> last r = ((2, 0), 2)"
  using polyline_extracted [of 1 "[((0, 0), 0), ((1, 5), 1), ((2, 0), 2)]"] by auto

text \<open>The change of coordinates is an isometry.\<close>

lemma local_to_global_isometry: "dist_points (local_to_global pose p) (local_to_global pose q) = dist_points p q"
proof -
  obtain x y t px py qx qy where e: "pose = (x, y, t)" "p = (px, py)" "q = (qx, qy)" by (metis surj_pair)
  let ?u = "px - qx" and ?v = "py - qy"
  have "square_dist (local_to_global pose p) (local_to_global pose q) =
      (?u * cos t - ?v * sin t) * (?u * cos t - ?v * sin t) + (?u * sin t + ?v * cos t) * (?u * sin t + ?v * cos t)"
    by (simp add: square_dist_def local_to_global_def e algebra_simps)
  also have "\<dots> = (?u * ?u + ?v * ?v) * (sin t * sin t + cos t * cos t)" by algebra
  also have "sin t * sin t + cos t * cos t = 1" using sin_cos_squared_add [of t] by (simp add: power2_eq_square)
  finally show ?thesis by (simp add: dist_points_eq square_dist_def e)
qed

end
