(* ===== verification/ShortestWalk.thy ===== *)
theory ShortestWalk
  imports Prelude
begin

text \<open>
  Shortest walks in a finite weighted graph by relaxation of estimates, for any order in which the open nodes are taken: what the distance
  grid of the robot simulator relies on. An estimate is \<open>None\<close> as long as the node has not been reached.
\<close>

locale relaxation =
  fixes N :: "'n set" and adj :: "'n \<Rightarrow> 'n list" and w :: "'n \<Rightarrow> 'n \<Rightarrow> real" and S :: "'n set"
  assumes finite_N: "finite N" and S_N: "S \<subseteq> N" and adj_N: "u \<in> N \<Longrightarrow> set (adj u) \<subseteq> N" and w_pos: "0 < w u v"
begin

text \<open>\<open>walk n u d\<close>: a walk of \<open>n\<close> steps and weight \<open>d\<close> leads from a source to \<open>u\<close>.\<close>

inductive walk :: "nat \<Rightarrow> 'n \<Rightarrow> real \<Rightarrow> bool" where
  source: "u \<in> S \<Longrightarrow> walk 0 u 0"
| forth: "walk n u d \<Longrightarrow> v \<in> set (adj u) \<Longrightarrow> walk (Suc n) v (d + w u v)"

lemma walk_N: "walk n u d \<Longrightarrow> u \<in> N"
  by (induction rule: walk.induct) (use S_N adj_N in auto)

definition least_w :: real where
  "least_w = Min (insert 1 ((\<lambda>(u, v). w u v) ` (N \<times> N)))"

definition most_w :: real where
  "most_w = Max (insert 1 ((\<lambda>(u, v). w u v) ` (N \<times> N)))"

lemma least_w_pos: "0 < least_w"
  unfolding least_w_def using finite_N w_pos by (subst Min_gr_iff) auto

lemma least_w_le: "u \<in> N \<Longrightarrow> v \<in> N \<Longrightarrow> least_w \<le> w u v"
  unfolding least_w_def using finite_N by (intro Min_le) auto

lemma most_w_ge: "u \<in> N \<Longrightarrow> v \<in> N \<Longrightarrow> w u v \<le> most_w"
  unfolding most_w_def using finite_N by (intro Max_ge) auto

lemma most_w_pos: "0 < most_w"
proof -
  have "1 \<le> most_w" unfolding most_w_def using finite_N by (intro Max_ge) auto
  then show ?thesis by simp
qed

lemma walk_weight: "walk n u d \<Longrightarrow> of_nat n * least_w \<le> d"
proof (induction rule: walk.induct)
  case (forth n u d v)
  have "least_w \<le> w u v" using walk_N [OF forth(1)] adj_N forth(2) by (intro least_w_le) auto
  with forth show ?case by (simp add: algebra_simps)
qed simp

lemma finite_walk_weights: "finite {d. \<exists>u. walk n u d}"
proof (induction n)
  case 0
  have "{d. \<exists>u. walk 0 u d} \<subseteq> {0}" by (auto elim: walk.cases)
  then show ?case by (rule finite_subset) simp
next
  case (Suc n)
  have "{d. \<exists>u. walk (Suc n) u d} \<subseteq> (\<lambda>(d, u, v). d + w u v) ` ({d. \<exists>u. walk n u d} \<times> N \<times> N)"
  proof
    fix d assume "d \<in> {d. \<exists>u. walk (Suc n) u d}"
    then obtain v where "walk (Suc n) v d" by auto
    then obtain u c where *: "walk n u c" "v \<in> set (adj u)" "d = c + w u v" by (auto elim: walk.cases)
    moreover have "u \<in> N" "v \<in> N" using walk_N [OF *(1)] adj_N *(2) by auto
    ultimately show "d \<in> (\<lambda>(d, u, v). d + w u v) ` ({d. \<exists>u. walk n u d} \<times> N \<times> N)" by force
  qed
  then show ?case by (rule finite_subset) (use Suc finite_N in simp)
qed

text \<open>The weights of walks up to a bound are finitely many.\<close>

definition weights_upto :: "real \<Rightarrow> real set" where
  "weights_upto B = {d. d \<le> B \<and> (\<exists>n u. walk n u d)}"

lemma finite_weights_upto: "finite (weights_upto B)"
proof -
  have "weights_upto B \<subseteq> (\<Union>n \<le> nat \<lceil>B / least_w\<rceil>. {d. \<exists>u. walk n u d})"
  proof
    fix d assume "d \<in> weights_upto B"
    then obtain n u where *: "d \<le> B" "walk n u d" by (auto simp: weights_upto_def)
    have "of_nat n \<le> B / least_w" using walk_weight [OF *(2)] *(1) least_w_pos by (simp add: pos_le_divide_eq)
    also have "\<dots> \<le> of_int \<lceil>B / least_w\<rceil>" by simp
    finally have "int n \<le> \<lceil>B / least_w\<rceil>" by (metis of_int_le_iff of_int_of_nat_eq)
    then have "n \<le> nat \<lceil>B / least_w\<rceil>" by linarith
    then show "d \<in> (\<Union>n \<le> nat \<lceil>B / least_w\<rceil>. {d. \<exists>u. walk n u d})" using *(2) by auto
  qed
  then show ?thesis by (rule finite_subset) (use finite_walk_weights in simp)
qed

section \<open>Relaxation\<close>

definition better :: "('n \<rightharpoonup> real) \<Rightarrow> 'n \<Rightarrow> real \<Rightarrow> bool" where
  "better D v e = (case D v of None \<Rightarrow> True | Some d \<Rightarrow> e < d)"

definition relax :: "'n \<Rightarrow> 'n \<Rightarrow> ('n \<rightharpoonup> real) \<times> 'n multiset \<Rightarrow> ('n \<rightharpoonup> real) \<times> 'n multiset" where
  "relax u v = (\<lambda>(D, Q). let e = the (D u) + w u v in
     if better D v e then (D(v \<mapsto> e), add_mset v Q) else (D, Q))"

text \<open>Estimates are weights of walks and not too large, sources have estimate 0, and the open nodes are those with an estimate that
  is possibly not yet passed on.\<close>

definition passed_on :: "('n \<rightharpoonup> real) \<Rightarrow> 'n \<Rightarrow> 'n \<Rightarrow> bool" where
  "passed_on D u v = (\<forall>d. D u = Some d \<longrightarrow> (\<exists>e. D v = Some e \<and> e \<le> d + w u v))"

definition estimates_ok :: "('n \<rightharpoonup> real) \<Rightarrow> bool" where
  "estimates_ok D = (dom D \<subseteq> N \<and> (\<forall>u \<in> S. D u = Some 0) \<and>
     (\<forall>u d. D u = Some d \<longrightarrow> (\<exists>n. walk n u d) \<and> d \<le> most_w * of_nat (card (dom D))))"

definition search_ok :: "('n \<rightharpoonup> real) \<times> 'n multiset \<Rightarrow> bool" where
  "search_ok = (\<lambda>(D, Q). estimates_ok D \<and> set_mset Q \<subseteq> dom D \<and> (\<forall>u. u \<in># Q \<or> (\<forall>v \<in> set (adj u). passed_on D u v)))"

lemma walk_nonneg: "walk n u d \<Longrightarrow> 0 \<le> d"
  by (induction rule: walk.induct) (use w_pos in \<open>auto intro: add_nonneg_nonneg less_imp_le\<close>)

lemma passed_on_upd:
  assumes "passed_on D a b" and "better D v e" and "a \<noteq> v"
  shows "passed_on (D(v \<mapsto> e)) a b"
  using assms by (fastforce simp: passed_on_def better_def split: option.splits)

lemma passed_on_self: "passed_on D u u"
  using w_pos [of u u] by (auto simp: passed_on_def)

text \<open>The state while the edges of \<open>u\<close> are relaxed: \<open>A\<close> are the neighbours already seen.\<close>

definition relaxing :: "'n \<Rightarrow> 'n set \<Rightarrow> ('n \<rightharpoonup> real) \<times> 'n multiset \<Rightarrow> bool" where
  "relaxing u A = (\<lambda>(D, Q). estimates_ok D \<and> u \<in> dom D \<and> set_mset Q \<subseteq> dom D \<and> (\<forall>v \<in> A. passed_on D u v) \<and>
     (\<forall>a. a = u \<or> a \<in># Q \<or> (\<forall>v \<in> set (adj a). passed_on D a v)))"

lemma estimates_upd:
  assumes ok: "estimates_ok D" and u: "D u = Some d" and v: "v \<in> set (adj u)" and b: "better D v (d + w u v)"
  shows "estimates_ok (D(v \<mapsto> d + w u v))"
proof -
  let ?e = "d + w u v" and ?D = "D(v \<mapsto> d + w u v)"
  have N: "dom D \<subseteq> N" and est: "\<And>a c. D a = Some c \<Longrightarrow> (\<exists>n. walk n a c) \<and> c \<le> most_w * of_nat (card (dom D))"
    and src: "\<forall>a \<in> S. D a = Some 0" using ok by (auto simp: estimates_ok_def)
  have fin: "finite (dom D)" using N finite_N finite_subset by blast
  obtain n where n: "walk n u d" using est [OF u] by blast
  have uv: "u \<in> N" "v \<in> N" using walk_N [OF n] adj_N v by auto
  have we: "walk (Suc n) v ?e" using forth [OF n v] .
  have mono: "most_w * of_nat (card (dom D)) \<le> most_w * of_nat (card (dom ?D))"
    using most_w_pos fin by (intro mult_left_mono) (auto simp: card_insert_if)
  have e: "?e \<le> most_w * of_nat (card (dom ?D))"
  proof (cases "D v")
    case None
    then have "card (dom ?D) = Suc (card (dom D))" using fin by (simp add: card_insert_if domIff)
    then show ?thesis using est [OF u] most_w_ge [OF uv] by (simp add: algebra_simps)
  next
    case (Some c)
    then have "?e < c" using b by (simp add: better_def)
    then show ?thesis using est [OF Some] mono by simp
  qed
  have "v \<notin> S"
  proof
    assume "v \<in> S"
    then have "?e < 0" using src b by (simp add: better_def)
    then show False using walk_nonneg [OF we] by simp
  qed
  then have "\<forall>a \<in> S. ?D a = Some 0" using src by auto
  moreover have "(\<exists>n. walk n a c) \<and> c \<le> most_w * of_nat (card (dom ?D))" if "?D a = Some c" for a c
  proof (cases "a = v")
    case True
    with that we e show ?thesis by auto
  next
    case False
    then have "D a = Some c" using that by simp
    from est [OF this] mono show ?thesis by (meson order_trans)
  qed
  ultimately show ?thesis using N uv by (auto simp: estimates_ok_def simp del: fun_upd_apply)
qed

lemma relaxing_step:
  assumes "relaxing u A st" and v: "v \<in> set (adj u)"
  shows "relaxing u (insert v A) (relax u v st)"
proof -
  obtain D Q where st: "st = (D, Q)" by force
  obtain d where d: "D u = Some d" using assms(1) by (auto simp: relaxing_def st)
  let ?e = "d + w u v"
  show ?thesis
  proof (cases "better D v ?e")
    case False
    then have "passed_on D u v" using d by (auto simp: better_def passed_on_def split: option.splits)
    with False assms(1) d show ?thesis by (simp add: relaxing_def st relax_def)
  next
    case True
    have "u \<noteq> v" using True d w_pos [of u v] by (auto simp: better_def)
    moreover have "passed_on (D(v \<mapsto> ?e)) u v" using \<open>u \<noteq> v\<close> d by (auto simp: passed_on_def)
    moreover have "\<forall>b \<in> A. passed_on (D(v \<mapsto> ?e)) u b"
      using assms(1) passed_on_upd [OF _ True \<open>u \<noteq> v\<close>] by (simp add: relaxing_def st)
    moreover have "a = u \<or> a \<in># add_mset v Q \<or> (\<forall>b \<in> set (adj a). passed_on (D(v \<mapsto> ?e)) a b)" for a
      using assms(1) passed_on_upd [OF _ True, of a] by (cases "a = v") (auto simp: relaxing_def st)
    moreover have "estimates_ok (D(v \<mapsto> ?e))"
      using assms(1) by (intro estimates_upd [OF _ d v True]) (simp add: relaxing_def st)
    ultimately show ?thesis using assms(1) True d
      by (auto simp: relaxing_def st relax_def simp del: fun_upd_apply)
  qed
qed

section \<open>A measure\<close>

definition possible :: "real set" where
  "possible = weights_upto (most_w * of_nat (card N))"

definition rank :: "('n \<rightharpoonup> real) \<Rightarrow> 'n \<Rightarrow> nat" where
  "rank D u = (case D u of None \<Rightarrow> card possible | Some d \<Rightarrow> card {x \<in> possible. x < d})"

definition work :: "('n \<rightharpoonup> real) \<times> 'n multiset \<Rightarrow> nat" where
  "work = (\<lambda>(D, Q). 2 * (\<Sum>u \<in> N. rank D u) + size Q)"

lemma estimate_possible:
  assumes "estimates_ok D" and "D u = Some d"
  shows "d \<in> possible"
proof -
  have "card (dom D) \<le> card N" using assms(1) finite_N by (intro card_mono) (simp_all add: estimates_ok_def)
  then have "most_w * of_nat (card (dom D)) \<le> most_w * of_nat (card N)" using most_w_pos by (intro mult_left_mono) auto
  then show ?thesis using assms by (force simp: estimates_ok_def possible_def weights_upto_def)
qed

lemma rank_drops:
  assumes "e \<in> possible" and "better D v e"
  shows "rank (D(v \<mapsto> e)) v < rank D v"
proof -
  have fin: "finite possible" by (simp add: possible_def finite_weights_upto)
  show ?thesis
  proof (cases "D v")
    case None
    have "{x \<in> possible. x < e} \<subset> possible" using assms(1) by auto
    then show ?thesis using None fin by (simp add: rank_def psubset_card_mono)
  next
    case (Some d)
    then have "{x \<in> possible. x < e} \<subset> {x \<in> possible. x < d}" using assms by (auto simp: better_def)
    then show ?thesis using Some fin by (simp add: rank_def psubset_card_mono)
  qed
qed

lemma relax_work:
  assumes "relaxing u A st" and v: "v \<in> set (adj u)"
  shows "work (relax u v st) \<le> work st"
proof -
  obtain D Q where st: "st = (D, Q)" by force
  obtain d where d: "D u = Some d" and ok: "estimates_ok D" using assms(1) by (auto simp: relaxing_def st)
  let ?e = "d + w u v"
  show ?thesis
  proof (cases "better D v ?e")
    case True
    have "D u \<noteq> None" using d by simp
    then have "u \<in> N" using ok by (auto simp: estimates_ok_def)
    then have vN: "v \<in> N" using adj_N v by auto
    have ok': "estimates_ok (D(v \<mapsto> ?e))" by (rule estimates_upd [OF ok d v True])
    have "?e \<in> possible" using estimate_possible [OF ok', of v] by simp
    from rank_drops [OF this True] have lt: "rank (D(v \<mapsto> ?e)) v < rank D v" .
    have le: "rank (D(v \<mapsto> ?e)) x \<le> rank D x" for x using lt by (cases "x = v") (auto simp: rank_def)
    have "(\<Sum>x \<in> N. rank (D(v \<mapsto> ?e)) x) < (\<Sum>x \<in> N. rank D x)"
      by (rule sum_strict_mono_ex1) (use finite_N le lt vN in auto)
    then show ?thesis using True d by (simp add: work_def st relax_def)
  qed (use d in \<open>simp add: work_def st relax_def\<close>)
qed

lemma relaxing_all:
  assumes "relaxing u A st" and "set vs \<subseteq> set (adj u)"
  shows "relaxing u (A \<union> set vs) (fold (relax u) vs st) \<and> work (fold (relax u) vs st) \<le> work st"
  using assms
proof (induction vs arbitrary: A st)
  case (Cons v vs)
  have step: "relaxing u (insert v A) (relax u v st)" and le: "work (relax u v st) \<le> work st"
    using relaxing_step [OF Cons.prems(1)] relax_work [OF Cons.prems(1)] Cons.prems(2) by auto
  from Cons.IH [OF step] Cons.prems(2) le show ?case by auto
qed simp

text \<open>Taking out any open node and relaxing its edges keeps the invariant and makes progress.\<close>

lemma search_step:
  assumes "search_ok (D, add_mset u Q)"
  shows "search_ok (fold (relax u) (adj u) (D, Q)) \<and> work (fold (relax u) (adj u) (D, Q)) < work (D, add_mset u Q)"
proof -
  have "relaxing u {} (D, Q)" using assms by (auto simp: search_ok_def relaxing_def)
  then have *: "relaxing u (set (adj u)) (fold (relax u) (adj u) (D, Q))" "work (fold (relax u) (adj u) (D, Q)) \<le> work (D, Q)"
    using relaxing_all [of u "{}" "(D, Q)" "adj u"] by auto
  have "search_ok (fold (relax u) (adj u) (D, Q))"
    using *(1) unfolding relaxing_def search_ok_def by (cases "fold (relax u) (adj u) (D, Q)") auto
  moreover have "work (D, Q) < work (D, add_mset u Q)" by (simp add: work_def)
  ultimately show ?thesis using *(2) by simp
qed

text \<open>At the end the estimates are the least weights.\<close>

lemma search_done:
  assumes ok: "search_ok (D, {#})"
  shows "walk n u d \<Longrightarrow> \<exists>e. D u = Some e \<and> e \<le> d"
proof (induction rule: walk.induct)
  case (source u)
  then show ?case using ok by (auto simp: search_ok_def estimates_ok_def)
next
  case (forth n u d v)
  then obtain e where e: "D u = Some e" "e \<le> d" by auto
  have "passed_on D u v" using ok forth(2) by (auto simp: search_ok_def)
  then obtain c where "D v = Some c" "c \<le> e + w u v" using e(1) by (auto simp: passed_on_def)
  with e(2) show ?case by auto
qed

lemma search_walk: "search_ok (D, Q) \<Longrightarrow> D u = Some d \<Longrightarrow> \<exists>n. walk n u d"
  by (auto simp: search_ok_def estimates_ok_def)

lemma search_start: "search_ok (\<lambda>u. if u \<in> S then Some 0 else None, mset_set S)"
proof -
  have fin: "finite S" using S_N finite_N finite_subset by blast
  have "0 \<le> most_w * of_nat (card S)" using most_w_pos by simp
  moreover have "dom (\<lambda>u. if u \<in> S then Some 0 else None) = S" by (auto split: if_splits)
  ultimately show ?thesis using S_N fin source
    by (auto simp: search_ok_def estimates_ok_def passed_on_def split: if_splits)
qed

end

end
