(* ===== verification/OccGrid.thy ===== *)
theory OccGrid
  imports ShortestWalk "HOL-Library.Product_Lexorder"
begin

text \<open>
  The occupancy grid of the robot simulator,
  \<open>src/Sem5/MobileRobotik/RoboterSimulator/Robot_Simulator_V3/OccupancyGrid.py\<close>: construction, lines, single values, and the
  extension to a distance grid, with \<open>heapq\<close> as the sorted list of its elements. Drawing and printing are left out. Lengths and cell
  values are real numbers.
\<close>

section \<open>The grid\<close>

record occ_grid =
  xSize :: int
  ySize :: int
  grid :: "real list list"
  width :: real
  height :: real
  cellSize :: real
  isDistanceGrid :: bool

text \<open>\<open>int(x)\<close> of a float truncates towards zero.\<close>

definition int_of_float :: "real \<Rightarrow> int" where
  "int_of_float x = (if x < 0 then - \<lfloor>- x\<rfloor> else \<lfloor>x\<rfloor>)"

definition new_grid :: "real \<Rightarrow> real \<Rightarrow> real \<Rightarrow> occ_grid res" where
  "new_grid wd ht cs =
     (if cs = 0 then Inl ZeroDivisionError
      else let xs = int_of_float ((wd + cs / 2) / cs) + 1; ys = int_of_float ((ht + cs / 2) / cs) + 1
           in Inr \<lparr>xSize = xs, ySize = ys, grid = replicate (nat xs) (replicate (nat ys) 0), width = wd, height = ht,
                   cellSize = cs, isDistanceGrid = False\<rparr>)"

text \<open>\<open>grid[xi][yi]\<close> and \<open>grid[xi][yi] = v\<close>.\<close>

definition get_cell :: "real list list \<Rightarrow> int \<Rightarrow> int \<Rightarrow> real res" where
  "get_cell g xi yi = rbind (py_nth g xi) (\<lambda>col. py_nth col yi)"

definition put_cell :: "int \<Rightarrow> int \<Rightarrow> real \<Rightarrow> real list list \<Rightarrow> real list list res" where
  "put_cell xi yi v g = rbind (py_nth g xi) (\<lambda>col. rbind (py_set col yi v) (\<lambda>col'. py_set g xi col'))"

definition put :: "int \<Rightarrow> int \<Rightarrow> real \<Rightarrow> occ_grid \<Rightarrow> occ_grid res" where
  "put xi yi v og = rbind (put_cell xi yi v (grid og)) (\<lambda>g. Inr (og\<lparr>grid := g\<rparr>))"

definition cell_index :: "real \<Rightarrow> occ_grid \<Rightarrow> int" where
  "cell_index x og = int_of_float (x / cellSize og + 1 / 2)"

text \<open>The interval between two indices, in either order, as the loops of \<open>_addLine\<close> run over it.\<close>

definition between :: "int \<Rightarrow> int \<Rightarrow> int list" where
  "between a b = (if a < b then [a..b] else [b..a])"

definition addLine :: "real \<Rightarrow> real \<Rightarrow> real \<Rightarrow> real \<Rightarrow> real \<Rightarrow> occ_grid \<Rightarrow> occ_grid res" where
  "addLine x0 y0 x1 y1 value og =
     (if x0 \<noteq> x1 \<and> y0 \<noteq> y1 then Inl ValueError
      else let x0i = cell_index x0 og; y0i = cell_index y0 og
           in if x0 = x1 then rfold (\<lambda>yi. put x0i yi value) (between y0i (cell_index y1 og)) og
              else rfold (\<lambda>xi. put xi y0i value) (between x0i (cell_index x1 og)) og)"

definition setValue :: "real \<Rightarrow> real \<Rightarrow> real \<Rightarrow> occ_grid \<Rightarrow> occ_grid res" where
  "setValue x y value og =
     (if x < 0 \<or> x > width og then Inr og
      else if y < 0 \<or> y > height og then Inr og
      else put (cell_index x og) (cell_index y og) value og)"

definition getValue :: "real \<Rightarrow> real \<Rightarrow> occ_grid \<Rightarrow> real option res" where
  "getValue x y og =
     (if x < 0 \<or> x > width og then Inr None
      else if y < 0 \<or> y > height og then Inr None
      else rbind (get_cell (grid og) (cell_index x og) (cell_index y og)) (\<lambda>v. Inr (Some v)))"

section \<open>The distance grid\<close>

type_synonym open_list = "(real \<times> int \<times> int) list"

definition heappush :: "real \<times> int \<times> int \<Rightarrow> open_list \<Rightarrow> open_list" where
  "heappush e q = insort e q"

definition cost :: "int \<times> int \<Rightarrow> int \<times> int \<Rightarrow> real" where
  "cost = (\<lambda>(x1, y1) (x2, y2). if \<bar>x1 - x2\<bar> = 1 \<and> \<bar>y1 - y2\<bar> \<noteq> 0 then 141 / 100 else 1)"

definition cells :: "int \<Rightarrow> int \<Rightarrow> (int \<times> int) list" where
  "cells xs ys = concat (map (\<lambda>yi. map (\<lambda>xi. (xi, yi)) [0..xs - 1]) [0..ys - 1])"

definition seeds :: "occ_grid \<Rightarrow> open_list res" where
  "seeds og = rfold (\<lambda>(xi, yi) q. rbind (get_cell (grid og) xi yi) (\<lambda>v. Inr (if v = 1 then heappush (0, xi, yi) q else q)))
     (cells (xSize og) (ySize og)) []"

record search =
  field :: "real list list"
  openList :: open_list

definition relax_cell :: "int \<Rightarrow> int \<Rightarrow> real \<Rightarrow> int \<times> int \<Rightarrow> int \<times> int \<Rightarrow> search \<Rightarrow> search res" where
  "relax_cell xs ys cs u v s =
     (let (xn, yn) = v in
      if xn < 0 \<or> xn \<ge> xs then Inr s
      else if yn < 0 \<or> yn \<ge> ys then Inr s
      else rbind (get_cell (field s) (fst u) (snd u)) (\<lambda>du.
           let dn = du + cost u v * cs in
           rbind (get_cell (field s) xn yn) (\<lambda>dv.
             if dv = 0 \<or> dn < dv
             then rbind (put_cell xn yn dn (field s)) (\<lambda>g. Inr (s\<lparr>field := g, openList := heappush (dn, xn, yn) (openList s)\<rparr>))
             else Inr s)))"

definition nine :: "int \<times> int \<Rightarrow> (int \<times> int) list" where
  "nine = (\<lambda>(xi, yi). concat (map (\<lambda>xn. map (\<lambda>yn. (xn, yn)) [yi - 1, yi, yi + 1]) [xi - 1, xi, xi + 1]))"

definition pop_cell :: "int \<Rightarrow> int \<Rightarrow> real \<Rightarrow> search \<Rightarrow> search res" where
  "pop_cell xs ys cs s =
     (case openList s of
        [] \<Rightarrow> Inl IndexError
      | (_, u) # q \<Rightarrow> rfold (relax_cell xs ys cs u) (nine u) (s\<lparr>openList := q\<rparr>))"

definition subtract_one :: "int \<Rightarrow> int \<Rightarrow> real list list \<Rightarrow> real list list res" where
  "subtract_one xs ys = rfold (\<lambda>(xi, yi) g. rbind (get_cell g xi yi) (\<lambda>v. put_cell xi yi (v - 1) g)) (cells xs ys)"

definition extendToDistanceGrid :: "nat \<Rightarrow> occ_grid \<Rightarrow> occ_grid res option" where
  "extendToDistanceGrid n og =
     (case seeds og of
        Inl e \<Rightarrow> Some (Inl e)
      | Inr q \<Rightarrow>
          map_option (\<lambda>r. rbind r (\<lambda>s. rbind (subtract_one (xSize og) (ySize og) (field s)) (\<lambda>g.
              Inr (og\<lparr>grid := g, isDistanceGrid := True\<rparr>))))
            (loop n (\<lambda>s. openList s \<noteq> []) (pop_cell (xSize og) (ySize og) (cellSize og)) \<lparr>field = grid og, openList = q\<rparr>))"

section \<open>Cells in range\<close>

definition inside :: "int \<Rightarrow> int \<Rightarrow> int \<times> int \<Rightarrow> bool" where
  "inside xs ys p = (0 \<le> fst p \<and> fst p < xs \<and> 0 \<le> snd p \<and> snd p < ys)"

definition shaped :: "int \<Rightarrow> int \<Rightarrow> real list list \<Rightarrow> bool" where
  "shaped xs ys g = (int (length g) = xs \<and> (\<forall>col \<in> set g. int (length col) = ys))"

definition cell_at :: "real list list \<Rightarrow> int \<times> int \<Rightarrow> real" where
  "cell_at g p = g ! nat (fst p) ! nat (snd p)"

lemma get_cell_inside: "shaped xs ys g \<Longrightarrow> inside xs ys (x, y) \<Longrightarrow> get_cell g x y = Inr (cell_at g (x, y))"
  by (auto simp: get_cell_def py_nth_def shaped_def inside_def cell_at_def)

lemma put_cell_inside:
  assumes "shaped xs ys g" and "inside xs ys (x, y)"
  shows "\<exists>h. put_cell x y v g = Inr h \<and> shaped xs ys h \<and>
    (\<forall>p. inside xs ys p \<longrightarrow> cell_at h p = (if p = (x, y) then v else cell_at g p))"
proof -
  let ?h = "g[nat x := (g ! nat x)[nat y := v]]"
  have x: "nat x < length g" "0 \<le> x" "0 \<le> y" "y < ys" using assms by (auto simp: shaped_def inside_def)
  have "int (length (g ! nat x)) = ys" using assms(1) nth_mem [OF x(1)] by (simp add: shaped_def)
  with x have r: "nat x < length g" "nat y < length (g ! nat x)" "0 \<le> x" "0 \<le> y" by auto
  have "put_cell x y v g = Inr ?h"
    using r by (simp add: put_cell_def py_nth_def py_set_def nat_less_iff)
  moreover have "shaped xs ys ?h"
    using assms(1) r by (auto simp: shaped_def dest!: set_update_subset_insert [THEN subsetD])
  moreover have "cell_at ?h p = (if p = (x, y) then v else cell_at g p)" if "inside xs ys p" for p
    using r that by (auto simp: cell_at_def inside_def nth_list_update shaped_def prod_eq_iff)
  ultimately show ?thesis by blast
qed

lemma set_cells: "p \<in> set (cells xs ys) \<longleftrightarrow> inside xs ys p"
proof -
  obtain a b where p: "p = (a, b)" by force
  have "p \<in> set (cells xs ys) \<longleftrightarrow> a \<in> {0..xs - 1} \<and> b \<in> {0..ys - 1}" 
    unfolding cells_def p by (auto intro!: bexI [of _ b])
  then show ?thesis by (auto simp: inside_def p)
qed

lemma distinct_product: "distinct xs \<Longrightarrow> distinct ys \<Longrightarrow> distinct (concat (map (\<lambda>y. map (\<lambda>x. (x, y)) xs) ys))"
  by (induction ys) (auto simp: distinct_map inj_on_def)

lemma distinct_cells: "distinct (cells xs ys)"
  unfolding cells_def by (rule distinct_product) simp_all

lemma finite_inside: "finite {p. inside xs ys p}"
proof -
  have "{p. inside xs ys p} = set (cells xs ys)" using set_cells by blast
  then show ?thesis by simp
qed

section \<open>The search is a relaxation\<close>

definition neighbours :: "int \<Rightarrow> int \<Rightarrow> int \<times> int \<Rightarrow> (int \<times> int) list" where
  "neighbours xs ys u = filter (inside xs ys) (nine u)"

lemma cost_cases: "cost u v = 1 \<or> cost u v = 141 / 100"
  by (simp add: cost_def split_beta)

lemma cost_pos: "0 < cost u v"
  using cost_cases [of u v] by auto

interpretation rg: relaxation "{p. inside xs ys p}" "neighbours xs ys" cost "{p. inside xs ys p \<and> P p}"
  for xs ys :: int and P :: "int \<times> int \<Rightarrow> bool"
  by unfold_locales (auto simp: finite_inside neighbours_def cost_pos)

text \<open>Estimates in units of the cell size. A cell with value 0 has not been reached.\<close>

definition estimate :: "int \<Rightarrow> int \<Rightarrow> real \<Rightarrow> real list list \<Rightarrow> int \<times> int \<rightharpoonup> real" where
  "estimate xs ys cs g p = (if inside xs ys p \<and> cell_at g p \<noteq> 0 then Some ((cell_at g p - 1) / cs) else None)"

definition plausible :: "int \<Rightarrow> int \<Rightarrow> real list list \<Rightarrow> bool" where
  "plausible xs ys g = (shaped xs ys g \<and> (\<forall>p. inside xs ys p \<longrightarrow> cell_at g p = 0 \<or> 1 \<le> cell_at g p))"

definition abs_search :: "int \<Rightarrow> int \<Rightarrow> real \<Rightarrow> search \<Rightarrow> (int \<times> int \<rightharpoonup> real) \<times> (int \<times> int) multiset" where
  "abs_search xs ys cs s = (estimate xs ys cs (field s), image_mset snd (mset (openList s)))"

lemma mset_heappush [simp]: "mset (heappush e q) = add_mset e (mset q)"
  by (simp add: heappush_def)

lemma relax_cell_outside: "\<not> inside xs ys v \<Longrightarrow> relax_cell xs ys cs u v s = Inr s"
  by (cases v) (auto simp: relax_cell_def inside_def)

lemma relax_cell_inside:
  assumes cs: "0 < cs" and ok: "plausible xs ys (field s)" and u: "inside xs ys u" "cell_at (field s) u \<noteq> 0" and v: "inside xs ys v"
  shows "\<exists>t. relax_cell xs ys cs u v s = Inr t \<and> plausible xs ys (field t) \<and> cell_at (field t) u \<noteq> 0 \<and>
    abs_search xs ys cs t = relaxation.relax cost u v (abs_search xs ys cs s)"
proof -
  let ?g = "field s"
  obtain xu yu xn yn where uv: "u = (xu, yu)" "v = (xn, yn)" by (meson surj_pair)
  have sh: "shaped xs ys ?g" using ok by (simp add: plausible_def)
  have du: "get_cell ?g xu yu = Inr (cell_at ?g u)" and dv: "get_cell ?g xn yn = Inr (cell_at ?g v)"
    using get_cell_inside [OF sh] u v by (simp_all add: uv)
  let ?dn = "cell_at ?g u + cost u v * cs"
  have one: "1 \<le> cell_at ?g u" using ok u unfolding plausible_def by blast
  have pos: "0 < cost u v * cs" using cost_pos [of u v] cs by simp
  have range: "\<not> (xn < 0 \<or> xs \<le> xn)" "\<not> (yn < 0 \<or> ys \<le> yn)" using v by (auto simp: inside_def uv)
  have e: "(?dn - 1) / cs = (cell_at ?g u - 1) / cs + cost u v" using cs by (simp add: field_simps)
  have test: "(cell_at ?g v = 0 \<or> ?dn < cell_at ?g v) \<longleftrightarrow>
      relaxation.better (estimate xs ys cs ?g) v ((cell_at ?g u - 1) / cs + cost u v)"
    using v cs unfolding e [symmetric] by (auto simp: rg.better_def estimate_def divide_less_cancel)
  have eu: "estimate xs ys cs ?g u = Some ((cell_at ?g u - 1) / cs)" using u by (simp add: estimate_def)
  show ?thesis
  proof (cases "cell_at ?g v = 0 \<or> ?dn < cell_at ?g v")
    case False
    then have "relax_cell xs ys cs u v s = Inr s" using du dv range by (simp add: relax_cell_def uv)
    moreover have "relaxation.relax cost u v (abs_search xs ys cs s) = abs_search xs ys cs s"
      using False test by (simp add: abs_search_def rg.relax_def eu)
    ultimately show ?thesis using ok u by simp
  next
    case True
    obtain h where h: "put_cell xn yn ?dn ?g = Inr h" "shaped xs ys h"
        "\<And>p. inside xs ys p \<Longrightarrow> cell_at h p = (if p = v then ?dn else cell_at ?g p)"
      using put_cell_inside [OF sh, of xn yn ?dn] v by (auto simp: uv)
    let ?t = "s\<lparr>field := h, openList := heappush (?dn, xn, yn) (openList s)\<rparr>"
    have "relax_cell xs ys cs u v s = Inr ?t" using du dv range True h(1) by (simp add: relax_cell_def uv)
    moreover have "plausible xs ys h"
      using ok h(2,3) one pos unfolding plausible_def by auto
    moreover have "cell_at h u \<noteq> 0" using h(3) [OF u(1)] u(2) one pos by auto
    moreover have "estimate xs ys cs h = (estimate xs ys cs ?g)(v \<mapsto> (cell_at ?g u - 1) / cs + cost u v)"
      using h(3) v one pos e by (auto simp: estimate_def fun_eq_iff split: if_splits)
    moreover have "abs_search xs ys cs ?t = (estimate xs ys cs h, add_mset v (image_mset snd (mset (openList s))))"
      by (simp add: abs_search_def uv)
    moreover have "relaxation.relax cost u v (abs_search xs ys cs s) =
        ((estimate xs ys cs ?g)(v \<mapsto> (cell_at ?g u - 1) / cs + cost u v), add_mset v (image_mset snd (mset (openList s))))"
      using True test by (simp add: abs_search_def rg.relax_def eu)
    ultimately show ?thesis by simp
  qed
qed

lemma relax_cells:
  assumes "0 < cs" and "plausible xs ys (field s)" and "inside xs ys u" "cell_at (field s) u \<noteq> 0"
  shows "\<exists>t. rfold (relax_cell xs ys cs u) vs s = Inr t \<and> plausible xs ys (field t) \<and>
    abs_search xs ys cs t = fold (relaxation.relax cost u) (filter (inside xs ys) vs) (abs_search xs ys cs s)"
  using assms
proof (induction vs arbitrary: s)
  case (Cons v vs)
  show ?case
  proof (cases "inside xs ys v")
    case True
    from relax_cell_inside [OF Cons.prems True] obtain t where t: "relax_cell xs ys cs u v s = Inr t"
        "plausible xs ys (field t)" "cell_at (field t) u \<noteq> 0" "abs_search xs ys cs t = relaxation.relax cost u v (abs_search xs ys cs s)"
      by blast
    from Cons.IH [OF Cons.prems(1) t(2) Cons.prems(3) t(3)] t(1,4) True show ?thesis by simp
  next
    case False
    from Cons.IH [OF Cons.prems] relax_cell_outside [OF False] False show ?thesis by simp
  qed
qed simp

definition search_inv :: "int \<Rightarrow> int \<Rightarrow> real \<Rightarrow> (int \<times> int \<Rightarrow> bool) \<Rightarrow> search \<Rightarrow> bool" where
  "search_inv xs ys cs P s =
     (0 < cs \<and> plausible xs ys (field s) \<and> rg.search_ok xs ys P (abs_search xs ys cs s))"

lemma pop_cell_step:
  assumes "search_inv xs ys cs P s" and "openList s \<noteq> []"
  shows "\<exists>t. pop_cell xs ys cs s = Inr t \<and> search_inv xs ys cs P t \<and>
    rg.work xs ys P (abs_search xs ys cs t) < rg.work xs ys P (abs_search xs ys cs s)"
proof -
  obtain d u q where q: "openList s = (d, u) # q" using assms(2) by (metis list.exhaust surj_pair)
  let ?s = "s\<lparr>openList := q\<rparr>"
  let ?D = "estimate xs ys cs (field s)" and ?Q = "image_mset snd (mset q)"
  have cs: "0 < cs" and pl: "plausible xs ys (field s)" and ok: "rg.search_ok xs ys P (?D, add_mset u ?Q)"
    using assms(1) by (simp_all add: search_inv_def abs_search_def q)
  have "u \<in> dom ?D" using ok by (auto simp: rg.search_ok_def)
  then have u: "inside xs ys u" "cell_at (field s) u \<noteq> 0" by (auto simp: estimate_def split: if_splits)
  have abs: "abs_search xs ys cs ?s = (?D, ?Q)" "abs_search xs ys cs s = (?D, add_mset u ?Q)" by (simp_all add: abs_search_def q)
  obtain t where t: "rfold (relax_cell xs ys cs u) (nine u) ?s = Inr t" "plausible xs ys (field t)"
      "abs_search xs ys cs t = fold (relaxation.relax cost u) (neighbours xs ys u) (?D, ?Q)"
    using relax_cells [OF cs, of xs ys ?s u "nine u"] pl u by (auto simp: neighbours_def abs)
  have "pop_cell xs ys cs s = Inr t" using t(1) by (simp add: pop_cell_def q)
  with rg.search_step [OF ok] cs t(2,3) show ?thesis by (auto simp: search_inv_def abs)
qed

interpretation gl: guarded_loop "\<lambda>s. openList s \<noteq> []" "pop_cell xs ys cs" "search_inv xs ys cs P"
  "\<lambda>s. rg.work xs ys P (abs_search xs ys cs s)" for xs ys :: int and cs :: real and P :: "int \<times> int \<Rightarrow> bool"
  by unfold_locales (use pop_cell_step in fastforce)+

section \<open>Before and after the search\<close>

definition occupied :: "occ_grid \<Rightarrow> int \<times> int \<Rightarrow> bool" where
  "occupied og p = (cell_at (grid og) p = 1)"

definition on_grid :: "occ_grid \<Rightarrow> int \<times> int \<Rightarrow> bool" where
  "on_grid og = inside (xSize og) (ySize og)"

lemma seeds_from:
  assumes "shaped (xSize og) (ySize og) (grid og)" and "\<forall>p \<in> set ps. on_grid og p"
  shows "\<exists>r. rfold (\<lambda>(xi, yi) q. rbind (get_cell (grid og) xi yi) (\<lambda>v. Inr (if v = 1 then heappush (0, xi, yi) q else q))) ps q = Inr r \<and>
    image_mset snd (mset r) = mset (filter (occupied og) ps) + image_mset snd (mset q)"
  using assms(2)
proof (induction ps arbitrary: q)
  case (Cons p ps)
  obtain x y where p: "p = (x, y)" by force
  have "get_cell (grid og) x y = Inr (cell_at (grid og) p)"
    using get_cell_inside [OF assms(1)] Cons.prems by (simp add: p on_grid_def)
  with Cons.IH [of "if occupied og p then heappush (0, x, y) q else q"] Cons.prems show ?case
    by (auto simp: p occupied_def)
qed simp

lemma seeds_ok:
  assumes "shaped (xSize og) (ySize og) (grid og)"
  shows "\<exists>q. seeds og = Inr q \<and> image_mset snd (mset q) = mset_set {p. on_grid og p \<and> occupied og p}"
proof -
  let ?ps = "cells (xSize og) (ySize og)"
  have "{p. on_grid og p \<and> occupied og p} = set (filter (occupied og) ?ps)" by (auto simp: on_grid_def set_cells)
  then have "mset_set {p. on_grid og p \<and> occupied og p} = mset (filter (occupied og) ?ps)"
    by (simp only: mset_set_set [OF distinct_filter [OF distinct_cells]])
  moreover have "\<forall>p \<in> set ?ps. on_grid og p" by (simp add: set_cells on_grid_def)
  ultimately show ?thesis using seeds_from [OF assms, of ?ps "[]"] by (simp add: seeds_def)
qed

lemma subtract_from:
  assumes "distinct ps" and "\<forall>p \<in> set ps. inside xs ys p" and "shaped xs ys g"
  shows "\<exists>h. rfold (\<lambda>(xi, yi) g. rbind (get_cell g xi yi) (\<lambda>v. put_cell xi yi (v - 1) g)) ps g = Inr h \<and> shaped xs ys h \<and>
    (\<forall>p. inside xs ys p \<longrightarrow> cell_at h p = (if p \<in> set ps then cell_at g p - 1 else cell_at g p))"
  using assms
proof (induction ps arbitrary: g)
  case (Cons p ps)
  obtain x y where p: "p = (x, y)" by force
  have i: "inside xs ys (x, y)" using Cons.prems by (simp add: p)
  obtain g1 where g1: "put_cell x y (cell_at g p - 1) g = Inr g1" "shaped xs ys g1"
      "\<And>r. inside xs ys r \<Longrightarrow> cell_at g1 r = (if r = p then cell_at g p - 1 else cell_at g r)"
    using put_cell_inside [OF Cons.prems(3) i, of "cell_at g p - 1"] by (auto simp: p)
  obtain h where h: "rfold (\<lambda>(xi, yi) g. rbind (get_cell g xi yi) (\<lambda>v. put_cell xi yi (v - 1) g)) ps g1 = Inr h" "shaped xs ys h"
      "\<And>r. inside xs ys r \<Longrightarrow> cell_at h r = (if r \<in> set ps then cell_at g1 r - 1 else cell_at g1 r)"
    using Cons.IH [OF _ _ g1(2)] Cons.prems(1,2) by auto
  have "get_cell g x y = Inr (cell_at g p)" using get_cell_inside [OF Cons.prems(3) i] by (simp add: p)
  moreover have "cell_at h r = (if r \<in> set (p # ps) then cell_at g r - 1 else cell_at g r)" if "inside xs ys r" for r
    using h(3) [OF that] g1(3) [OF that] Cons.prems(1) by auto
  ultimately show ?case using g1(1) h(1,2) by (auto simp: p)
qed simp

lemma subtract_one_ok:
  assumes "shaped xs ys g"
  shows "\<exists>h. subtract_one xs ys g = Inr h \<and> shaped xs ys h \<and> (\<forall>p. inside xs ys p \<longrightarrow> cell_at h p = cell_at g p - 1)"
  using subtract_from [OF distinct_cells _ assms, of xs ys] by (auto simp: subtract_one_def set_cells)

section \<open>Distances\<close>

text \<open>The weight of a sequence of steps to one of the eight neighbours, from an occupied cell.\<close>

inductive trail :: "occ_grid \<Rightarrow> int \<times> int \<Rightarrow> real \<Rightarrow> bool" for og where
  start: "on_grid og p \<Longrightarrow> occupied og p \<Longrightarrow> trail og p 0"
| straight: "trail og (x, y) d \<Longrightarrow> on_grid og (a, b) \<Longrightarrow> \<bar>a - x\<bar> + \<bar>b - y\<bar> = 1 \<Longrightarrow> trail og (a, b) (d + cellSize og)"
| diagonal: "trail og (x, y) d \<Longrightarrow> on_grid og (a, b) \<Longrightarrow> \<bar>a - x\<bar> = 1 \<Longrightarrow> \<bar>b - y\<bar> = 1 \<Longrightarrow> trail og (a, b) (d + cellSize og * 141 / 100)"

lemma set_nine: "(a, b) \<in> set (nine (x, y)) \<longleftrightarrow> \<bar>a - x\<bar> \<le> 1 \<and> \<bar>b - y\<bar> \<le> 1"
proof -
  have near: "\<bar>c - z\<bar> \<le> 1 \<longleftrightarrow> c = z - 1 \<or> c = z \<or> c = z + 1" for c z :: int by arith
  show ?thesis unfolding near by (simp add: nine_def) blast
qed

abbreviation grid_walk :: "occ_grid \<Rightarrow> nat \<Rightarrow> int \<times> int \<Rightarrow> real \<Rightarrow> bool" where
  "grid_walk og \<equiv> rg.walk (xSize og) (ySize og) (occupied og)"

lemma trail_walk: "trail og p d \<Longrightarrow> 0 < cellSize og \<Longrightarrow> \<exists>n. grid_walk og n p (d / cellSize og)"
proof (induction rule: trail.induct)
  case (start p)
  then show ?case using rg.source [of p "xSize og" "ySize og" "occupied og"] by (auto simp: on_grid_def)
next
  case (straight x y d a b)
  then obtain n where n: "grid_walk og n (x, y) (d / cellSize og)" by blast
  have "(a, b) \<in> set (neighbours (xSize og) (ySize og) (x, y))" "cost (x, y) (a, b) = 1"
    using straight by (auto simp: neighbours_def set_nine on_grid_def cost_def)
  from rg.forth [OF n this(1)] this(2) straight.prems show ?case by (auto simp: add_divide_distrib)
next
  case (diagonal x y d a b)
  then obtain n where n: "grid_walk og n (x, y) (d / cellSize og)" by blast
  have "(a, b) \<in> set (neighbours (xSize og) (ySize og) (x, y))" "cost (x, y) (a, b) = 141 / 100"
    using diagonal by (auto simp: neighbours_def set_nine on_grid_def cost_def)
  from rg.forth [OF n this(1)] this(2) diagonal.prems show ?case by (auto simp: add_divide_distrib)
qed

lemma walk_trail: "grid_walk og n p d \<Longrightarrow> 0 < cellSize og \<Longrightarrow> \<exists>e. trail og p e \<and> e \<le> d * cellSize og"
proof (induction rule: rg.walk.induct)
  case (source u)
  then show ?case by (auto simp: on_grid_def intro!: exI [of _ 0] trail.start)
next
  case (forth n u d v)
  obtain x y a b where uv: "u = (x, y)" "v = (a, b)" by (meson surj_pair)
  obtain e where e: "trail og (x, y) e" "e \<le> d * cellSize og" using forth by (auto simp: uv)
  have v: "on_grid og (a, b)" "\<bar>a - x\<bar> \<le> 1" "\<bar>b - y\<bar> \<le> 1"
    using forth(2) by (auto simp: neighbours_def set_nine on_grid_def uv)
  consider "(a, b) = (x, y)" | "\<bar>a - x\<bar> + \<bar>b - y\<bar> = 1" | "\<bar>a - x\<bar> = 1" "\<bar>b - y\<bar> = 1" using v by force
  then show ?case
  proof cases
    case 1
    have "0 < cost u v * cellSize og" using cost_pos forth.prems by simp
    with e 1 show ?thesis by (auto simp: uv algebra_simps intro!: exI [of _ e])
  next
    case 2
    then have "cost u v = 1" by (auto simp: uv cost_def)
    with trail.straight [OF e(1) v(1) 2] e(2) show ?thesis by (auto simp: uv algebra_simps intro!: exI [of _ "e + cellSize og"])
  next
    case 3
    then have c: "cost u v = 141 / 100" by (auto simp: uv cost_def)
    have "e + cellSize og * 141 / 100 \<le> (d + cost u v) * cellSize og" using e(2) unfolding c by (simp add: algebra_simps)
    with trail.diagonal [OF e(1) v(1) 3] show ?thesis unfolding uv by blast
  qed
qed

lemma trail_on_grid: "trail og p d \<Longrightarrow> on_grid og p"
  by (cases rule: trail.cases) auto

lemma trail_everywhere: "trail og (x, y) d \<Longrightarrow> on_grid og (a, b) \<Longrightarrow> \<exists>e. trail og (a, b) e"
proof (induction "nat \<bar>a - x\<bar> + nat \<bar>b - y\<bar>" arbitrary: x y d rule: less_induct)
  case less
  have on: "on_grid og (x, y)" using trail_on_grid [OF less.prems(1)] .
  consider "(a, b) = (x, y)" | "a \<noteq> x" | "a = x" "b \<noteq> y" by auto
  then show ?case
  proof cases
    case 1
    with less.prems(1) show ?thesis by auto
  next
    case 2
    let ?x = "x + sgn (a - x)"
    have "on_grid og (?x, y)" using on less.prems(2) 2 by (auto simp: on_grid_def inside_def sgn_if)
    moreover have "\<bar>?x - x\<bar> + \<bar>y - y\<bar> = 1" using 2 by (simp add: sgn_if)
    ultimately have "trail og (?x, y) (d + cellSize og)" by (rule trail.straight [OF less.prems(1)])
    moreover have "nat \<bar>a - ?x\<bar> + nat \<bar>b - y\<bar> < nat \<bar>a - x\<bar> + nat \<bar>b - y\<bar>" using 2 by (auto simp: sgn_if)
    ultimately show ?thesis using less.hyps less.prems(2) by blast
  next
    case 3
    let ?y = "y + sgn (b - y)"
    have "on_grid og (x, ?y)" using on less.prems(2) 3 by (auto simp: on_grid_def inside_def sgn_if)
    moreover have "\<bar>x - x\<bar> + \<bar>?y - y\<bar> = 1" using 3 by (simp add: sgn_if)
    ultimately have "trail og (x, ?y) (d + cellSize og)" by (rule trail.straight [OF less.prems(1)])
    moreover have "nat \<bar>a - x\<bar> + nat \<bar>b - ?y\<bar> < nat \<bar>a - x\<bar> + nat \<bar>b - y\<bar>" using 3 by (auto simp: sgn_if)
    ultimately show ?thesis using less.hyps less.prems(2) by blast
  qed
qed

definition occupancy :: "occ_grid \<Rightarrow> bool" where
  "occupancy og = (shaped (xSize og) (ySize og) (grid og) \<and> (\<forall>col \<in> set (grid og). \<forall>v \<in> set col. v = 0 \<or> v = 1))"

lemma occupancy_cell: "occupancy og \<Longrightarrow> on_grid og p \<Longrightarrow> cell_at (grid og) p = 0 \<or> cell_at (grid og) p = 1"
proof -
  assume o: "occupancy og" and p: "on_grid og p"
  let ?col = "grid og ! nat (fst p)"
  have "nat (fst p) < length (grid og)" using o p by (auto simp: occupancy_def shaped_def on_grid_def inside_def)
  then have col: "?col \<in> set (grid og)" by simp
  then have "nat (snd p) < length ?col" using o p by (auto simp: occupancy_def shaped_def on_grid_def inside_def)
  with col o show ?thesis by (auto simp: occupancy_def cell_at_def)
qed

lemma search_inv_start:
  assumes cs: "0 < cellSize og" and o: "occupancy og" and q: "image_mset snd (mset q) = mset_set {p. on_grid og p \<and> occupied og p}"
  shows "search_inv (xSize og) (ySize og) (cellSize og) (occupied og) \<lparr>field = grid og, openList = q\<rparr>"
proof -
  let ?S = "{p. on_grid og p \<and> occupied og p}"
  have "plausible (xSize og) (ySize og) (grid og)"
    using o occupancy_cell [OF o] unfolding plausible_def occupancy_def on_grid_def by fastforce
  moreover have "estimate (xSize og) (ySize og) (cellSize og) (grid og) = (\<lambda>u. if u \<in> ?S then Some 0 else None)"
    using occupancy_cell [OF o] by (fastforce simp: estimate_def on_grid_def occupied_def fun_eq_iff)
  ultimately show ?thesis
    using cs rg.search_start [of "xSize og" "ySize og" "occupied og"] q
    by (simp add: search_inv_def abs_search_def on_grid_def)
qed

lemma grid_search_result:
  assumes inv: "search_inv (xSize og) (ySize og) (cellSize og) (occupied og) s" and done_: "openList s = []" and p: "on_grid og p"
  shows "if \<exists>q. on_grid og q \<and> occupied og q
    then trail og p (cell_at (field s) p - 1) \<and> (\<forall>d. trail og p d \<longrightarrow> cell_at (field s) p - 1 \<le> d)
    else cell_at (field s) p = 0"
proof -
  let ?D = "estimate (xSize og) (ySize og) (cellSize og) (field s)"
  have cs: "0 < cellSize og" and ok: "rg.search_ok (xSize og) (ySize og) (occupied og) (?D, {#})"
    using inv done_ by (simp_all add: search_inv_def abs_search_def)
  have walk: "\<exists>n. grid_walk og n u d" if "?D u = Some d" for u d
    using rg.search_walk [OF ok that] .
  show ?thesis
  proof (cases "\<exists>q. on_grid og q \<and> occupied og q")
    case True
    then obtain q where "trail og q 0" using trail.start by blast
    then obtain d0 where "trail og p d0" using trail_everywhere p by (metis surj_pair)
    then obtain n where "grid_walk og n p (d0 / cellSize og)" using trail_walk cs by blast
    then obtain e where e: "?D p = Some e" using rg.search_done [OF ok] by blast
    then have val: "cell_at (field s) p - 1 = e * cellSize og" using cs by (auto simp: estimate_def split: if_splits)
    have least: "e * cellSize og \<le> d" if t: "trail og p d" for d
    proof -
      obtain n where "grid_walk og n p (d / cellSize og)" using trail_walk [OF t cs] by blast
      then have "e \<le> d / cellSize og" using rg.search_done [OF ok] e by fastforce
      then show ?thesis using cs by (simp add: pos_le_divide_eq)
    qed
    obtain n where "grid_walk og n p e" using walk [OF e] by blast
    then obtain d where "trail og p d" "d \<le> e * cellSize og" using walk_trail cs by blast
    moreover from this have "d = e * cellSize og" using least by force
    ultimately show ?thesis using True least val by simp
  next
    case False
    have "?D p = None"
    proof (cases "?D p")
      case (Some e)
      then obtain d where "trail og p d" using walk walk_trail cs by blast
      then have False using False by (induction rule: trail.induct) auto
      then show ?thesis ..
    qed
    then show ?thesis using False p by (auto simp: estimate_def on_grid_def split: if_splits)
  qed
qed

text \<open>
  For every occupancy grid with a positive cell size the extension to a distance grid ends without an error, and then every cell holds
  the length of a shortest sequence of steps from an occupied cell, where a straight step counts one cell size and a diagonal one
  1.41. If no cell is occupied, every cell holds -1.
\<close>

lemma distance_grid:
  assumes "0 < cellSize og" and "occupancy og"
  shows "\<exists>n og'. (\<forall>m \<ge> n. extendToDistanceGrid m og = Some (Inr og')) \<and> isDistanceGrid og' \<and>
    (\<forall>p. on_grid og p \<longrightarrow>
      (if \<exists>q. on_grid og q \<and> occupied og q
       then trail og p (cell_at (grid og') p) \<and> (\<forall>d. trail og p d \<longrightarrow> cell_at (grid og') p \<le> d)
       else cell_at (grid og') p = -1))"
proof -
  have sh: "shaped (xSize og) (ySize og) (grid og)" using assms(2) by (simp add: occupancy_def)
  obtain q where q: "seeds og = Inr q" "image_mset snd (mset q) = mset_set {p. on_grid og p \<and> occupied og p}"
    using seeds_ok [OF sh] by blast
  let ?s = "\<lparr>field = grid og, openList = q\<rparr>"
  let ?n = "Suc (rg.work (xSize og) (ySize og) (occupied og) (abs_search (xSize og) (ySize og) (cellSize og) ?s))"
  obtain t where t: "loop ?n (\<lambda>s. openList s \<noteq> []) (pop_cell (xSize og) (ySize og) (cellSize og)) ?s = Some (Inr t)"
      "search_inv (xSize og) (ySize og) (cellSize og) (occupied og) t" "openList t = []"
    using gl.loop_returns [OF search_inv_start [OF assms q(2)]] by blast
  have "shaped (xSize og) (ySize og) (field t)" using t(2) by (simp add: search_inv_def plausible_def)
  then obtain h where h: "subtract_one (xSize og) (ySize og) (field t) = Inr h"
      "\<And>p. on_grid og p \<Longrightarrow> cell_at h p = cell_at (field t) p - 1"
    using subtract_one_ok unfolding on_grid_def by blast
  let ?o = "og\<lparr>grid := h, isDistanceGrid := True\<rparr>"
  have "extendToDistanceGrid m og = Some (Inr ?o)" if "?n \<le> m" for m
    using loop_mono [OF t(1) that] q(1) h(1) by (simp add: extendToDistanceGrid_def)
  moreover have "if \<exists>q. on_grid og q \<and> occupied og q then trail og p (cell_at h p) \<and> (\<forall>d. trail og p d \<longrightarrow> cell_at h p \<le> d)
      else cell_at h p = -1" if "on_grid og p" for p
    using grid_search_result [OF t(2,3) that] h(2) [OF that] by simp
  ultimately show ?thesis by (intro exI [of _ ?n] exI [of _ ?o]) simp
qed

section \<open>Lines and values\<close>

text \<open>The number of cells is the one computed from the size, the cells are there, and lengths are not negative.\<close>

definition grid_wf :: "occ_grid \<Rightarrow> bool" where
  "grid_wf og = (0 < cellSize og \<and> 0 \<le> width og \<and> 0 \<le> height og \<and>
     xSize og = int_of_float ((width og + cellSize og / 2) / cellSize og) + 1 \<and>
     ySize og = int_of_float ((height og + cellSize og / 2) / cellSize og) + 1 \<and> shaped (xSize og) (ySize og) (grid og))"

lemma int_of_float_mono: "0 \<le> a \<Longrightarrow> a \<le> b \<Longrightarrow> 0 \<le> int_of_float a \<and> int_of_float a \<le> int_of_float b"
  by (auto simp: int_of_float_def floor_mono)

lemma index_range:
  assumes "0 < cellSize og" and "0 \<le> x" and "x \<le> l" and "n = int_of_float ((l + cellSize og / 2) / cellSize og) + 1"
  shows "0 \<le> cell_index x og \<and> cell_index x og < n"
proof -
  have "x / cellSize og + 1 / 2 \<le> (l + cellSize og / 2) / cellSize og"
    using assms by (simp add: add_divide_distrib divide_right_mono)
  moreover have "0 \<le> x / cellSize og + 1 / 2" using assms by simp
  ultimately show ?thesis using int_of_float_mono unfolding cell_index_def assms(4) by fastforce
qed

lemma new_grid_wf:
  assumes "0 < cs" and "0 \<le> wd" and "0 \<le> ht"
  shows "\<exists>og. new_grid wd ht cs = Inr og \<and> grid_wf og \<and> (\<forall>p. on_grid og p \<longrightarrow> cell_at (grid og) p = 0)"
proof -
  have "0 \<le> int_of_float ((wd + cs / 2) / cs)" "0 \<le> int_of_float ((ht + cs / 2) / cs)"
    using assms by (auto intro!: int_of_float_mono [THEN conjunct1, OF _ order_refl] divide_nonneg_pos)
  then show ?thesis
    using assms by (auto simp: new_grid_def Let_def grid_wf_def shaped_def on_grid_def inside_def cell_at_def nat_less_iff)
qed

lemma put_on_grid:
  assumes "grid_wf og" and "on_grid og (x, y)"
  shows "\<exists>g. put x y v og = Inr (og\<lparr>grid := g\<rparr>) \<and> grid_wf (og\<lparr>grid := g\<rparr>) \<and>
    (\<forall>p. on_grid og p \<longrightarrow> cell_at g p = (if p = (x, y) then v else cell_at (grid og) p))"
proof -
  have sh: "shaped (xSize og) (ySize og) (grid og)" using assms(1) unfolding grid_wf_def by blast
  obtain g where "put_cell x y v (grid og) = Inr g" "shaped (xSize og) (ySize og) g"
      "\<forall>p. on_grid og p \<longrightarrow> cell_at g p = (if p = (x, y) then v else cell_at (grid og) p)"
    using put_cell_inside [OF sh, of x y v] assms(2) unfolding on_grid_def by blast
  with assms(1) show ?thesis by (intro exI [of _ g]) (simp add: put_def grid_wf_def)
qed

lemma put_along:
  assumes "grid_wf og" and "\<forall>z \<in> set zs. on_grid og (f z)"
  shows "\<exists>g. rfold (\<lambda>z. put (fst (f z)) (snd (f z)) v) zs og = Inr (og\<lparr>grid := g\<rparr>) \<and> grid_wf (og\<lparr>grid := g\<rparr>) \<and>
    (\<forall>p. on_grid og p \<longrightarrow> cell_at g p = (if p \<in> f ` set zs then v else cell_at (grid og) p))"
  using assms
proof (induction zs arbitrary: og)
  case Nil
  then show ?case by (auto intro!: exI [of _ "grid og"])
next
  case (Cons z zs)
  obtain g where g: "put (fst (f z)) (snd (f z)) v og = Inr (og\<lparr>grid := g\<rparr>)" "grid_wf (og\<lparr>grid := g\<rparr>)"
      "\<And>p. on_grid og p \<Longrightarrow> cell_at g p = (if p = f z then v else cell_at (grid og) p)"
    using put_on_grid [OF Cons.prems(1), of "fst (f z)" "snd (f z)" v] Cons.prems(2) by auto
  have same: "on_grid (og\<lparr>grid := g\<rparr>) = on_grid og" by (simp add: on_grid_def)
  obtain h where "rfold (\<lambda>z. put (fst (f z)) (snd (f z)) v) zs (og\<lparr>grid := g\<rparr>) = Inr (og\<lparr>grid := h\<rparr>)" "grid_wf (og\<lparr>grid := h\<rparr>)"
      "\<And>p. on_grid og p \<Longrightarrow> cell_at h p = (if p \<in> f ` set zs then v else cell_at g p)"
    using Cons.IH [OF g(2)] Cons.prems(2) unfolding same by auto
  with g(1,3) show ?case by (intro exI [of _ h]) (simp del: split_paired_All)
qed

definition spans :: "int \<Rightarrow> int \<Rightarrow> int \<Rightarrow> bool" where
  "spans a b z = (min a b \<le> z \<and> z \<le> max a b)"

lemma set_between: "set (between a b) = {z. spans a b z}"
  by (auto simp: between_def spans_def)

lemma addLine_marks:
  assumes wf: "grid_wf og" and x: "0 \<le> x0" "x0 \<le> width og" "0 \<le> x1" "x1 \<le> width og"
    and y: "0 \<le> y0" "y0 \<le> height og" "0 \<le> y1" "y1 \<le> height og" and straight: "x0 = x1 \<or> y0 = y1"
  shows "\<exists>g. addLine x0 y0 x1 y1 v og = Inr (og\<lparr>grid := g\<rparr>) \<and> grid_wf (og\<lparr>grid := g\<rparr>) \<and>
    (\<forall>p. on_grid og p \<longrightarrow> cell_at g p =
      (if spans (cell_index x0 og) (cell_index x1 og) (fst p) \<and> spans (cell_index y0 og) (cell_index y1 og) (snd p)
       then v else cell_at (grid og) p))"
proof -
  let ?x0 = "cell_index x0 og" and ?x1 = "cell_index x1 og" and ?y0 = "cell_index y0 og" and ?y1 = "cell_index y1 og"
  have ix: "0 \<le> ?x0" "?x0 < xSize og" "0 \<le> ?x1" "?x1 < xSize og" and iy: "0 \<le> ?y0" "?y0 < ySize og" "0 \<le> ?y1" "?y1 < ySize og"
    using wf x y index_range [of og] unfolding grid_wf_def by blast+
  show ?thesis
  proof (cases "x0 = x1")
    case True
    have "\<forall>z \<in> set (between ?y0 ?y1). on_grid og (?x0, z)"
      using ix iy by (auto simp: set_between spans_def on_grid_def inside_def)
    from put_along [OF wf this, of v] True show ?thesis
      by (auto simp: addLine_def set_between spans_def image_iff)
  next
    case False
    have "\<forall>z \<in> set (between ?x0 ?x1). on_grid og (z, ?y0)"
      using ix iy by (auto simp: set_between spans_def on_grid_def inside_def)
    from put_along [OF wf this, of v] False straight show ?thesis
      by (auto simp: addLine_def set_between spans_def image_iff)
  qed
qed

end
