(* ===== verification/World.thy ===== *)
theory World
  imports Sensor OccGrid
begin

text \<open>
  The world and the robot of the robot simulator, \<open>World.py\<close> and \<open>Robot.py\<close> under
  \<open>src/Sem5/MobileRobotik/RoboterSimulator/Robot_Simulator_V3\<close>. A line of the world has a flag that tells whether it is a dynamic
  obstacle. The boxes are a list in the order in which the set of the program is traversed. What is only drawn is left out:
  window, polylines, status bar. \<open>random.gauss(0, sigma)\<close> is \<open>sigma\<close> times the next number of a list.
\<close>

section \<open>State\<close>

record robot =
  diameter :: real
  timeStep :: real
  k_d :: real
  k_theta :: real
  k_drift :: real
  maxSpeed :: real
  maxOmega :: real
  sigmaMotion :: "real \<times> real"
  sensorDirections :: "real list"
  maxSenseValue :: real
  sensorNoise :: real
  landmarks :: "point list"
  senseNoiseLandmarks :: real
  boxSensor :: bool
  boxMinSenseValue :: real
  boxMaxSenseValue :: real
  boxDistSensorNoise :: real
  boxAngleSensorNoise :: real
  boxPlace :: point
  boxPickUp_x :: "real \<times> real"
  boxPickUp_y :: "real \<times> real"
  boxPickedUp :: bool
  boxInPosition :: bool

definition new_robot :: robot where
  "new_robot = \<lparr>diameter = 1 / 2, timeStep = 1 / 10, k_d = 1 / 20 * (1 / 20), k_theta = 25 / 360 * (pi / 180),
     k_drift = 4 * (pi / 180) ^ 2, maxSpeed = 1, maxOmega = pi, sigmaMotion = (0, 0),
     sensorDirections = map (\<lambda>i. (- 135 + 270 / 27 * real i) * (pi / 180)) [0..<28], maxSenseValue = 4, sensorNoise = 1 / 100,
     landmarks = [], senseNoiseLandmarks = 1 / 10, boxSensor = True, boxMinSenseValue = 1 / 5, boxMaxSenseValue = 5,
     boxDistSensorNoise = 1 / 100, boxAngleSensorNoise = pi / 180, boxPlace = (1 / 4, 0), boxPickUp_x = (1 / 5, 1 / 2),
     boxPickUp_y = (- 1 / 10, 1 / 10), boxPickedUp = False, boxInPosition = False\<rparr>"

record world =
  world_width :: real
  world_height :: real
  lines :: "(segment \<times> bool) list"
  boxes :: "point list"
  rooms :: "(string \<times> point) list"
  holding :: bool
  sensed :: "(real \<times> real \<times> bool) list"
  placed :: "(point \<times> real \<times> real) option"
  sensorDist :: "real option list"
  sensorPoints :: "point list"
  clockTime :: real
  drivenDistance :: real
  occGrid :: "occ_grid option"
  distGrid :: "occ_grid option"

definition border :: "real \<Rightarrow> real \<Rightarrow> segment list" where
  "border wd ht = [((0, 0), (wd, 0)), ((wd, 0), (wd, ht)), ((wd, ht), (0, ht)), ((0, ht), (0, 0))]"

definition new_world :: "real \<Rightarrow> real \<Rightarrow> world" where
  "new_world wd ht = \<lparr>world_width = wd, world_height = ht, lines = map (\<lambda>l. (l, False)) (border wd ht), boxes = [], rooms = [], holding = False,
     sensed = [], placed = None, sensorDist = [], sensorPoints = [], clockTime = 0, drivenDistance = 0, occGrid = None, distGrid = None\<rparr>"

definition boxSensorAngle :: real where
  "boxSensorAngle = 140 * (pi / 180)"

section \<open>Building the world\<close>

definition add_line :: "segment \<Rightarrow> world \<Rightarrow> world" where
  "add_line l w = w\<lparr>lines := lines w @ [(l, False)]\<rparr>"

definition addDynObstacleLine :: "segment \<Rightarrow> world \<Rightarrow> world" where
  "addDynObstacleLine l w = w\<lparr>lines := lines w @ [(l, True)]\<rparr>"

definition addBox :: "point \<Rightarrow> world \<Rightarrow> world" where
  "addBox p w = w\<lparr>boxes := boxes w @ [p]\<rparr>"

definition defineRoom :: "string \<Rightarrow> point \<Rightarrow> world \<Rightarrow> world" where
  "defineRoom n p w = w\<lparr>rooms := rooms w @ [(n, p)]\<rparr>"

definition setRobot :: "robot \<Rightarrow> pose \<Rightarrow> world \<Rightarrow> world" where
  "setRobot rob = (\<lambda>(x, y, theta) w. w\<lparr>placed := Some ((x, y), diameter rob / 2, theta), drivenDistance := 0\<rparr>)"

text \<open>The circle of the robot and its orientation; there are none before \<open>setRobot\<close>.\<close>

definition robot_at :: "world \<Rightarrow> (point \<times> real \<times> real) res" where
  "robot_at w = (case placed w of None \<Rightarrow> Inl AttributeError | Some p \<Rightarrow> Inr p)"

definition getTrueRobotPose :: "world \<Rightarrow> pose res" where
  "getTrueRobotPose w = rbind (robot_at w) (\<lambda>((x, y), r, theta). Inr (x, y, theta))"

section \<open>Distances to the walls\<close>

definition getNearestDistance :: "point \<Rightarrow> world \<Rightarrow> real option" where
  "getNearestDistance q w =
     fold (\<lambda>(l, _) dmin. let d = distPointSegment q l in
       case dmin of None \<Rightarrow> Some d | Some m \<Rightarrow> if d < m then Some d else Some m) (lines w) None"

text \<open>The nearest point where a beam meets a line. \<open>None\<close> in the first case is the result for a world without lines.\<close>

definition nearer :: "point \<Rightarrow> point \<Rightarrow> point option \<Rightarrow> point option" where
  "nearer p q ip = (case ip of None \<Rightarrow> Some q | Some i \<Rightarrow> if dist_points p q < dist_points p i then Some q else Some i)"

definition beam_hit :: "point \<Rightarrow> real \<Rightarrow> segment list \<Rightarrow> point option" where
  "beam_hit p theta ls = fold (\<lambda>l ip. case intersectRaySegment (p, theta) l of None \<Rightarrow> ip | Some q \<Rightarrow> nearer p q ip) ls None"

definition getNearestIntersectionWithBeam :: "point \<Rightarrow> real \<Rightarrow> world \<Rightarrow> point option res" where
  "getNearestIntersectionWithBeam p theta w =
     (if lines w = [] then Inr None
      else case beam_hit p theta (map fst (lines w)) of None \<Rightarrow> Inl RuntimeError | Some ip \<Rightarrow> Inr (Some ip))"

text \<open>\<open>__dist(p, q)\<close> fails when there is no point.\<close>

definition dist_to :: "point \<Rightarrow> point option \<Rightarrow> real res" where
  "dist_to p q = (case q of None \<Rightarrow> Inl AttributeError | Some q \<Rightarrow> Inr (dist_points p q))"

definition py_fmod :: "real \<Rightarrow> real \<Rightarrow> real" where
  "py_fmod x m = x - m * of_int \<lfloor>x / m\<rfloor>"

definition sense_beam :: "robot \<Rightarrow> point \<Rightarrow> real \<Rightarrow> real \<Rightarrow> world \<Rightarrow> world res" where
  "sense_beam rob p theta_R alpha w =
     (let theta = py_fmod (theta_R + alpha) (2 * pi); distMax = maxSenseValue rob in
      rbind (getNearestIntersectionWithBeam p theta w) (\<lambda>q.
      rbind (dist_to p q) (\<lambda>d.
        if d > distMax
        then Inr (w\<lparr>sensorDist := sensorDist w @ [None],
                    sensorPoints := sensorPoints w @ [(fst p + distMax * cos theta, snd p + distMax * sin theta)]\<rparr>)
        else Inr (w\<lparr>sensorDist := sensorDist w @ [Some d], sensorPoints := sensorPoints w @ [the q]\<rparr>))))"

definition world_sense :: "robot \<Rightarrow> world \<Rightarrow> world res" where
  "world_sense rob w =
     (if sensorDist w = []
      then rbind (robot_at w) (\<lambda>(p, r, theta). rfold (sense_beam rob p theta) (sensorDirections rob) w)
      else Inr w)"

section \<open>Boxes\<close>

definition boxInPickUpPosition :: "robot \<Rightarrow> point \<Rightarrow> real \<Rightarrow> point \<Rightarrow> bool" where
  "boxInPickUpPosition rob pR thetaR box =
     (let c = cos thetaR; s = sin thetaR; x = fst box - fst pR; y = snd box - snd pR; blx = c * x + s * y; bly = - s * x + c * y
      in if blx < fst (boxPickUp_x rob) \<or> blx > snd (boxPickUp_x rob) then False
         else if bly < fst (boxPickUp_y rob) \<or> bly > snd (boxPickUp_y rob) then False else True)"

fun remove_first :: "('a \<Rightarrow> bool) \<Rightarrow> 'a list \<Rightarrow> 'a list" where
  "remove_first P [] = []"
| "remove_first P (x # xs) = (if P x then xs else x # remove_first P xs)"

definition world_pickUpBox :: "robot \<Rightarrow> world \<Rightarrow> (bool \<times> world) res" where
  "world_pickUpBox rob w =
     (if boxes w = [] then Inr (False, w)
      else rbind (robot_at w) (\<lambda>(p, r, theta).
        if \<exists>b \<in> set (boxes w). boxInPickUpPosition rob p theta b
        then Inr (True, w\<lparr>boxes := remove_first (boxInPickUpPosition rob p theta) (boxes w), holding := True\<rparr>)
        else Inr (False, w)))"

definition world_placeBox :: "robot \<Rightarrow> world \<Rightarrow> world res" where
  "world_placeBox rob w =
     rbind (robot_at w) (\<lambda>((xR, yR), r, thetaR).
       let c = cos thetaR; s = sin thetaR; x = fst (boxPlace rob); y = snd (boxPlace rob)
       in Inr (addBox (xR + c * x - s * y, yR + s * x + c * y) (w\<lparr>holding := False\<rparr>)))"

definition atan2 :: "real \<Rightarrow> real \<Rightarrow> real" where
  "atan2 y x = Arg (Complex x y)"

definition sense_one_box :: "robot \<Rightarrow> point \<Rightarrow> real \<Rightarrow> point \<Rightarrow> world \<Rightarrow> world res" where
  "sense_one_box rob p theta_R pb w =
     (let theta = atan2 (snd pb - snd p) (fst pb - fst p); alphaBox = py_fmod (theta_R - theta + pi) (2 * pi) - pi in
      if \<bar>alphaBox\<bar> \<le> boxSensorAngle / 2
      then let d = dist_points p pb in
           if d \<ge> boxMinSenseValue rob \<and> d \<le> boxMaxSenseValue rob
           then rbind (getNearestIntersectionWithBeam p theta w) (\<lambda>ip.
                rbind (dist_to p ip) (\<lambda>di.
                  Inr (if di > d then w\<lparr>sensed := sensed w @ [(d, alphaBox, boxInPickUpPosition rob p theta_R pb)]\<rparr> else w)))
           else Inr w
      else Inr w)"

definition world_senseBox :: "robot \<Rightarrow> world \<Rightarrow> world res" where
  "world_senseBox rob w =
     (if \<not> boxSensor rob then Inr w
      else if sensed w = []
      then rbind (robot_at w) (\<lambda>(p, r, theta). rfold (sense_one_box rob p theta) (boxes w) w)
      else Inr w)"

section \<open>Moving\<close>

definition moveRobot :: "robot \<Rightarrow> real \<Rightarrow> real \<Rightarrow> real \<Rightarrow> world \<Rightarrow> (bool \<times> world) res" where
  "moveRobot rob d dTheta dT w =
     rbind (robot_at w) (\<lambda>((x, y), r, theta).
       let dx = d * cos (theta + 1 / 2 * dTheta); dy = d * sin (theta + 1 / 2 * dTheta); nc = (x + dx, y + dy) in
       case getNearestDistance nc w of
         None \<Rightarrow> Inl TypeError
       | Some dn \<Rightarrow>
           if dn < r then Inr (False, w)
           else rbind (world_sense rob (w\<lparr>placed := Some (nc, r, py_fmod (theta + dTheta) (2 * pi)),
                         drivenDistance := drivenDistance w + d, sensorPoints := [], sensorDist := []\<rparr>)) (\<lambda>w1.
                rbind (world_senseBox rob (w1\<lparr>sensed := []\<rparr>)) (\<lambda>w2.
                  if dT = 0 then Inl ZeroDivisionError else Inr (True, w2\<lparr>clockTime := clockTime w2 + dT\<rparr>))))"

section \<open>The robot\<close>

definition setTimeStep :: "real \<Rightarrow> robot \<Rightarrow> robot" where
  "setTimeStep T ro = ro\<lparr>timeStep := T\<rparr>"

definition setLandmarks :: "point list \<Rightarrow> robot \<Rightarrow> robot" where
  "setLandmarks l ro = ro\<lparr>landmarks := l\<rparr>"

record sim =
  rob :: robot
  wld :: world
  noise :: "real list"

definition gauss :: "real \<Rightarrow> real list \<Rightarrow> (real \<times> real list) res" where
  "gauss sigma zs = (case zs of [] \<Rightarrow> Inl OutOfDraws | z # rest \<Rightarrow> Inr (sigma * z, rest))"

definition limit :: "real \<Rightarrow> real \<Rightarrow> real" where
  "limit m v = (let u = (if v > m then m else v) in if u < - m then - m else u)"

text \<open>\<open>math.sqrt\<close> fails for negative numbers.\<close>

definition py_sqrt :: "real \<Rightarrow> real res" where
  "py_sqrt x = (if x < 0 then Inl ValueError else Inr (sqrt x))"

definition gauss_var :: "real \<Rightarrow> real list \<Rightarrow> (real \<times> real list) res" where
  "gauss_var sigma2 zs = rbind (py_sqrt sigma2) (\<lambda>sigma. gauss sigma zs)"

definition move :: "real \<times> real \<Rightarrow> sim \<Rightarrow> (bool \<times> sim) res" where
  "move motion s =
     (let ro = rob s; omega = limit (maxOmega ro) (snd motion); v = limit (maxSpeed ro) (fst motion); T = timeStep ro in
      if T = 0 then Inl ZeroDivisionError
      else let sigma_v_2 = k_d ro / T * \<bar>v\<bar>; sigma_tr_2 = k_theta ro / T * \<bar>omega\<bar>; sigma_drift_2 = k_drift ro / T * \<bar>v\<bar> in
        rbind (gauss_var sigma_v_2 (noise s)) (\<lambda>(e1, zs1).
        rbind (gauss_var sigma_tr_2 zs1) (\<lambda>(e2, zs2).
        rbind (gauss_var sigma_drift_2 zs2) (\<lambda>(e3, zs3).
          let ro' = ro\<lparr>sigmaMotion := (sigma_v_2, sigma_tr_2 + sigma_drift_2)\<rparr> in
          rbind (moveRobot ro' ((v + e1) * T) ((omega + e2 + e3) * T) T (wld s)) (\<lambda>(ok, w).
            Inr (ok, s\<lparr>rob := ro', wld := w, noise := zs3\<rparr>))))))"

fun noisy_dists :: "real \<Rightarrow> real option list \<Rightarrow> real list \<Rightarrow> (real option list \<times> real list) res" where
  "noisy_dists sn [] zs = Inr ([], zs)"
| "noisy_dists sn (None # ds) zs = rbind (noisy_dists sn ds zs) (\<lambda>(rs, zs'). Inr (None # rs, zs'))"
| "noisy_dists sn (Some d # ds) zs =
     rbind (gauss_var (sn ^ 2 * d) zs) (\<lambda>(e, zs1). rbind (noisy_dists sn ds zs1) (\<lambda>(rs, zs'). Inr (Some (d + e) # rs, zs')))"

definition sense :: "sim \<Rightarrow> (real option list \<times> sim) res" where
  "sense s =
     rbind (world_sense (rob s) (wld s)) (\<lambda>w.
     rbind (noisy_dists (sensorNoise (rob s)) (sensorDist w) (noise s)) (\<lambda>(ds, zs).
       Inr (ds, s\<lparr>wld := w, noise := zs\<rparr>)))"

fun noisy_boxes :: "robot \<Rightarrow> (real \<times> real \<times> bool) list \<Rightarrow> real list \<Rightarrow> ((real \<times> real) list \<times> real list) res" where
  "noisy_boxes ro [] zs = Inr ([], zs)"
| "noisy_boxes ro ((d, a, pickable) # das) zs =
     rbind (gauss_var (boxDistSensorNoise ro ^ 2 * d) zs) (\<lambda>(e1, zs1).
     rbind (gauss (boxAngleSensorNoise ro) zs1) (\<lambda>(e2, zs2).
     rbind (noisy_boxes ro das zs2) (\<lambda>(rs, zs'). Inr ((d + e1, a + e2) # rs, zs'))))"

definition senseBoxes :: "sim \<Rightarrow> ((real \<times> real) list option \<times> sim) res" where
  "senseBoxes s =
     (if \<not> boxSensor (rob s) then Inr (None, s)
      else rbind (world_senseBox (rob s) (wld s)) (\<lambda>w.
        let das = sensed w; ro = (rob s)\<lparr>boxInPosition := (\<exists>(d, a, pickable) \<in> set das. pickable)\<rparr> in
        if das = [] then Inr (None, s\<lparr>rob := ro, wld := w\<rparr>)
        else rbind (noisy_boxes ro das (noise s)) (\<lambda>(rs, zs). Inr (Some rs, s\<lparr>rob := ro, wld := w, noise := zs\<rparr>))))"

text \<open>A call that finds the box in position but cannot pick it up prints a message and goes on.\<close>

definition pickUpBox :: "sim \<Rightarrow> (bool \<times> sim) res" where
  "pickUpBox s =
     (if boxPickedUp (rob s) then Inr (False, s)
      else rbind (senseBoxes s) (\<lambda>(_, s1).
        if \<not> boxInPosition (rob s1) then Inr (False, s1)
        else rbind (world_pickUpBox (rob s1) (wld s1)) (\<lambda>(_, w).
          Inr (True, s1\<lparr>rob := (rob s1)\<lparr>boxPickedUp := True\<rparr>, wld := w\<rparr>))))"

definition placeBox :: "sim \<Rightarrow> sim res" where
  "placeBox s =
     (if \<not> boxPickedUp (rob s) then Inr s
      else rbind (world_placeBox (rob s) (wld s)) (\<lambda>w. Inr (s\<lparr>rob := (rob s)\<lparr>boxPickedUp := False\<rparr>, wld := w\<rparr>)))"

fun landmark_dists :: "real \<Rightarrow> point \<Rightarrow> point list \<Rightarrow> real list \<Rightarrow> (real list \<times> real list) res" where
  "landmark_dists sn p [] zs = Inr ([], zs)"
| "landmark_dists sn p (l # ls) zs =
     rbind (gauss sn zs) (\<lambda>(e, zs1). rbind (landmark_dists sn p ls zs1) (\<lambda>(rs, zs').
       Inr ((sqrt ((fst l - fst p) ^ 2 + (snd l - snd p) ^ 2) + e) # rs, zs')))"

definition senseLandmarks :: "sim \<Rightarrow> (real list \<times> sim) res" where
  "senseLandmarks s =
     rbind (getTrueRobotPose (wld s)) (\<lambda>(x, y, _).
     rbind (landmark_dists (senseNoiseLandmarks (rob s)) (x, y) (landmarks (rob s)) (noise s)) (\<lambda>(rs, zs).
       Inr (rs, s\<lparr>noise := zs\<rparr>)))"

section \<open>Grids of the world\<close>

definition generateOccupancyGrid :: "real \<Rightarrow> world \<Rightarrow> occ_grid res" where
  "generateOccupancyGrid cs w =
     rbind (new_grid (world_width w) (world_height w) cs) (\<lambda>og.
       rfold (\<lambda>(((x0, y0), (x1, y1)), dynamic) g. if dynamic then Inr g else addLine x0 y0 x1 y1 1 g) (lines w) og)"

definition getOccupancyGrid :: "real \<Rightarrow> world \<Rightarrow> (occ_grid \<times> world) res" where
  "getOccupancyGrid cs w =
     (case occGrid w of
        Some g \<Rightarrow> Inr (g, w)
      | None \<Rightarrow> rbind (generateOccupancyGrid cs w) (\<lambda>g. Inr (g, w\<lparr>occGrid := Some g\<rparr>)))"

definition getDistanceGrid :: "nat \<Rightarrow> real \<Rightarrow> world \<Rightarrow> (occ_grid \<times> world) res option" where
  "getDistanceGrid n cs w =
     (case distGrid w of
        Some g \<Rightarrow> Some (Inr (g, w))
      | None \<Rightarrow>
          (case generateOccupancyGrid cs w of
             Inl e \<Rightarrow> Some (Inl e)
           | Inr og \<Rightarrow> map_option (\<lambda>r. rbind r (\<lambda>g. Inr (g, w\<lparr>distGrid := Some g\<rparr>))) (extendToDistanceGrid n og)))"

end
