(* ===== verification/WorldRun.thy ===== *)
theory WorldRun
  imports World
begin

text \<open>
  Runs of the robot in its world: no operation fails, the robot touches no wall and does not pass through one, and the sensors measure
  the distance to the nearest wall in the direction of the beam.
\<close>

section \<open>Walls near a point\<close>

lemma nearest_fold:
  assumes "fold (\<lambda>(l, b) dmin. let d = distPointSegment q l in
      case dmin of None \<Rightarrow> Some d | Some m \<Rightarrow> if d < m then Some d else Some m) ls start = res"
  shows "(res = None \<longleftrightarrow> start = None \<and> ls = []) \<and>
    (\<forall>m. res = Some m \<longrightarrow> (\<forall>l \<in> fst ` set ls. m \<le> distPointSegment q l) \<and> (\<forall>k. start = Some k \<longrightarrow> m \<le> k))"
  using assms
proof (induction ls arbitrary: start)
  case (Cons x ls)
  obtain l b where x: "x = (l, b)" by (metis surj_pair)
  let ?s = "let d = distPointSegment q l in case start of None \<Rightarrow> Some d | Some m \<Rightarrow> if d < m then Some d else Some m"
  have s: "\<exists>k. ?s = Some k \<and> k \<le> distPointSegment q l \<and> (\<forall>m. start = Some m \<longrightarrow> k \<le> m)"
    by (cases start) (auto simp: Let_def)
  then obtain k where k: "?s = Some k" "k \<le> distPointSegment q l" "\<And>m. start = Some m \<Longrightarrow> k \<le> m" by blast
  from Cons.IH [of ?s] Cons.prems k show ?case by (fastforce simp: x)
qed auto

lemma getNearestDistance_least:
  assumes "lines w \<noteq> []"
  obtains m where "getNearestDistance q w = Some m" and "\<And>l. l \<in> fst ` set (lines w) \<Longrightarrow> m \<le> distPointSegment q l"
proof -
  from nearest_fold [OF refl, of q "lines w" None] assms obtain m where
    "getNearestDistance q w = Some m" "\<forall>l \<in> fst ` set (lines w). m \<le> distPointSegment q l"
    unfolding getNearestDistance_def by (metis (no_types, lifting) not_None_eq)
  then show ?thesis by (intro that) auto
qed

lemma dist_along: "dist_points c (along c d k) = \<bar>k\<bar> * sqrt (fst d * fst d + snd d * snd d)"
proof -
  have "square_dist c (along c d k) = (k * k) * (fst d * fst d + snd d * snd d)"
    by (simp add: square_dist_def along_def algebra_simps)
  then show ?thesis by (simp add: dist_points_eq real_sqrt_mult)
qed

lemma dist_along2: "dist_points (along c d 1) (along c d k) = \<bar>1 - k\<bar> * sqrt (fst d * fst d + snd d * snd d)"
proof -
  have "square_dist (along c d 1) (along c d k) = ((1 - k) * (1 - k)) * (fst d * fst d + snd d * snd d)"
    by (simp add: square_dist_def along_def algebra_simps)
  then show ?thesis by (simp add: dist_points_eq real_sqrt_mult)
qed

text \<open>A straight way shorter than the diameter, between two places at which no wall is touched, meets no wall.\<close>

lemma way_clear:
  assumes "r \<le> dist_points c b" and "r \<le> dist_points (along c d 1) b" and "b = along c d k" and "0 \<le> k" "k \<le> 1"
  shows "2 * r \<le> sqrt (fst d * fst d + snd d * snd d)"
proof -
  let ?D = "sqrt (fst d * fst d + snd d * snd d)"
  have "r \<le> k * ?D" "r \<le> (1 - k) * ?D" using assms dist_along [of c d k] dist_along2 [of c d k] by simp_all
  then have "r + r \<le> k * ?D + (1 - k) * ?D" by linarith
  then show ?thesis by (simp add: algebra_simps)
qed

section \<open>The border\<close>

definition interior :: "real \<Rightarrow> real \<Rightarrow> point \<Rightarrow> bool" where
  "interior wd ht c = (0 < fst c \<and> fst c < wd \<and> 0 < snd c \<and> snd c < ht)"

text \<open>From inside, every direction leads to a side: first to a vertical or to a horizontal one.\<close>

lemma reach_end:
  fixes x u w :: real
  assumes "0 < x" "x < w" "u \<noteq> 0"
  obtains k where "0 < k" and "x + k * u = 0 \<or> x + k * u = w" and "\<And>j. 0 \<le> j \<Longrightarrow> j \<le> k \<Longrightarrow> 0 \<le> x + j * u \<and> x + j * u \<le> w"
proof (cases "0 < u")
  case True
  let ?k = "(w - x) / u"
  have "x + j * u \<le> w" if "j \<le> ?k" for j using that True by (simp add: pos_le_divide_eq)
  moreover have "0 \<le> x + j * u" if "0 \<le> j" for j using that True assms by simp
  ultimately show ?thesis using that [of ?k] True assms by simp
next
  case False
  then have u: "u < 0" using assms by simp
  let ?k = "(- x) / u"
  have "0 \<le> x + j * u" if "j \<le> ?k" for j
  proof -
    have "- x \<le> j * u" using that u by (simp only: neg_le_divide_eq)
    then show ?thesis by simp
  qed
  moreover have "x + j * u \<le> w" if "0 \<le> j" for j
  proof -
    have "j * u \<le> 0" using that u by (simp add: mult_nonneg_nonpos)
    then show ?thesis using assms by simp
  qed
  moreover have "0 < ?k" using u assms by (simp add: divide_pos_neg)
  ultimately show ?thesis using that [of ?k] u by simp
qed

lemma exit:
  assumes "interior wd ht c" and "d \<noteq> (0, 0)"
  obtains k where "0 < k" and "\<And>j. 0 \<le> j \<Longrightarrow> j < k \<Longrightarrow> 0 \<le> fst c + j * fst d \<and> fst c + j * fst d \<le> wd \<and> 0 \<le> snd c + j * snd d \<and> snd c + j * snd d \<le> ht"
    and "(fst d \<noteq> 0 \<and> (fst c + k * fst d = 0 \<or> fst c + k * fst d = wd) \<and> 0 \<le> snd c + k * snd d \<and> snd c + k * snd d \<le> ht) \<or>
      (snd d \<noteq> 0 \<and> (snd c + k * snd d = 0 \<or> snd c + k * snd d = ht) \<and> 0 \<le> fst c + k * fst d \<and> fst c + k * fst d \<le> wd)"
proof -
  have c: "0 < fst c" "fst c < wd" "0 < snd c" "snd c < ht" using assms(1) by (auto simp: interior_def)
  consider "fst d = 0" "snd d \<noteq> 0" | "fst d \<noteq> 0" "snd d = 0" | "fst d \<noteq> 0" "snd d \<noteq> 0" using assms(2) by (metis prod.collapse)
  then show ?thesis
  proof cases
    case 1
    from reach_end [OF c(3,4) 1(2)] obtain k where "0 < k" "snd c + k * snd d = 0 \<or> snd c + k * snd d = ht"
      "\<And>j. 0 \<le> j \<Longrightarrow> j \<le> k \<Longrightarrow> 0 \<le> snd c + j * snd d \<and> snd c + j * snd d \<le> ht" by metis
    then show ?thesis using that [of k] c 1 by auto
  next
    case 2
    from reach_end [OF c(1,2) 2(1)] obtain k where "0 < k" "fst c + k * fst d = 0 \<or> fst c + k * fst d = wd"
      "\<And>j. 0 \<le> j \<Longrightarrow> j \<le> k \<Longrightarrow> 0 \<le> fst c + j * fst d \<and> fst c + j * fst d \<le> wd" by metis
    then show ?thesis using that [of k] c 2 by auto
  next
    case 3
    from reach_end [OF c(1,2) 3(1)] obtain k where k: "0 < k" "fst c + k * fst d = 0 \<or> fst c + k * fst d = wd"
      "\<And>j. 0 \<le> j \<Longrightarrow> j \<le> k \<Longrightarrow> 0 \<le> fst c + j * fst d \<and> fst c + j * fst d \<le> wd" by metis
    from reach_end [OF c(3,4) 3(2)] obtain m where m: "0 < m" "snd c + m * snd d = 0 \<or> snd c + m * snd d = ht"
      "\<And>j. 0 \<le> j \<Longrightarrow> j \<le> m \<Longrightarrow> 0 \<le> snd c + j * snd d \<and> snd c + j * snd d \<le> ht" by metis
    show ?thesis
    proof (cases "k \<le> m")
      case True
      then show ?thesis using that [of k] k m 3 by auto
    next
      case False
      then show ?thesis using that [of m] k m 3 by auto
    qed
  qed
qed

lemma border_points:
  assumes "0 < wd" "0 < ht"
  shows "0 \<le> y \<Longrightarrow> y \<le> ht \<Longrightarrow> on_segment ((wd, 0), (wd, ht)) (wd, y)" and "0 \<le> y \<Longrightarrow> y \<le> ht \<Longrightarrow> on_segment ((0, ht), (0, 0)) (0, y)"
    and "0 \<le> x \<Longrightarrow> x \<le> wd \<Longrightarrow> on_segment ((0, 0), (wd, 0)) (x, 0)" and "0 \<le> x \<Longrightarrow> x \<le> wd \<Longrightarrow> on_segment ((wd, ht), (0, ht)) (x, ht)"
proof -
  show "on_segment ((wd, 0), (wd, ht)) (wd, y)" if "0 \<le> y" "y \<le> ht"
    unfolding on_segment_def using assms that by (intro exI [of _ "y / ht"]) (simp add: along_def direction_def)
  show "on_segment ((0, ht), (0, 0)) (0, y)" if "0 \<le> y" "y \<le> ht"
    unfolding on_segment_def using assms that by (intro exI [of _ "1 - y / ht"]) (simp add: along_def direction_def left_diff_distrib)
  show "on_segment ((0, 0), (wd, 0)) (x, 0)" if "0 \<le> x" "x \<le> wd"
    unfolding on_segment_def using assms that by (intro exI [of _ "x / wd"]) (simp add: along_def direction_def)
  show "on_segment ((wd, ht), (0, ht)) (x, ht)" if "0 \<le> x" "x \<le> wd"
    unfolding on_segment_def using assms that by (intro exI [of _ "1 - x / wd"]) (simp add: along_def direction_def left_diff_distrib)
qed


lemma border_long:
  assumes "1 \<le> wd" "1 \<le> ht" and "l \<in> set (border wd ht)"
  shows "1 / 1000 \<le> square_length l"
proof -
  have "1 * 1 \<le> wd * wd" "1 * 1 \<le> ht * ht" using assms(1,2) by (intro mult_mono; simp)+
  then show ?thesis using assms(3) by (auto simp: border_def square_length_def square_dist_def)
qed

text \<open>A place is clear of some walls when none of them is nearer than the radius.\<close>

definition clear :: "real \<Rightarrow> segment set \<Rightarrow> point \<Rightarrow> bool" where
  "clear r ls c = (\<forall>l \<in> ls. r \<le> distPointSegment c l)"

lemma clear_point: "clear r ls c \<Longrightarrow> l \<in> ls \<Longrightarrow> 1 / 1000 \<le> square_length l \<Longrightarrow> on_segment l b \<Longrightarrow> r \<le> dist_points c b"
  unfolding clear_def using distPointSegment_least by (meson order_trans)

lemma margins:
  assumes "interior wd ht c" and "1 \<le> wd" "1 \<le> ht" and "clear r (set (border wd ht)) c"
  shows "r \<le> fst c" "fst c \<le> wd - r" "r \<le> snd c" "snd c \<le> ht - r"
proof -
  have i: "0 < fst c" "fst c < wd" "0 < snd c" "snd c < ht" "0 < wd" "0 < ht" using assms(1-3) by (auto simp: interior_def)
  note near = clear_point [OF assms(4) _ border_long [OF assms(2,3)]]
  note pts = border_points [OF i(5,6)]
  have "r \<le> dist_points c (wd, snd c)" by (rule near [OF _ _ pts(1)]) (use i in \<open>auto simp: border_def\<close>)
  then show "fst c \<le> wd - r" using i by (simp add: dist_points_eq square_dist_def)
  have "r \<le> dist_points c (0, snd c)" by (rule near [OF _ _ pts(2)]) (use i in \<open>auto simp: border_def\<close>)
  then show "r \<le> fst c" using i by (simp add: dist_points_eq square_dist_def)
  have "r \<le> dist_points c (fst c, 0)" by (rule near [OF _ _ pts(3)]) (use i in \<open>auto simp: border_def\<close>)
  then show "r \<le> snd c" using i by (simp add: dist_points_eq square_dist_def)
  have "r \<le> dist_points c (fst c, ht)" by (rule near [OF _ _ pts(4)]) (use i in \<open>auto simp: border_def\<close>)
  then show "snd c \<le> ht - r" using i by (simp add: dist_points_eq square_dist_def)
qed

text \<open>From inside, every direction reaches the border, at a side that is not nearly parallel to it.\<close>

lemma reach_border:
  assumes "interior wd ht c" and "d \<noteq> (0, 0)" and "0 < wd" "0 < ht"
  obtains k l where "0 < k" and "l \<in> set (border wd ht)" and "on_segment l (along c d k)"
    and "\<And>j. 0 \<le> j \<Longrightarrow> j < k \<Longrightarrow> 0 \<le> fst (along c d j) \<and> fst (along c d j) \<le> wd \<and> 0 \<le> snd (along c d j) \<and> snd (along c d j) \<le> ht"
    and "\<bar>cross d (direction l)\<bar> = \<bar>fst d\<bar> * ht \<and> (fst c + k * fst d = 0 \<or> fst c + k * fst d = wd) \<and> \<bar>k * snd d\<bar> \<le> ht \<or>
      \<bar>cross d (direction l)\<bar> = \<bar>snd d\<bar> * wd \<and> (snd c + k * snd d = 0 \<or> snd c + k * snd d = ht) \<and> \<bar>k * fst d\<bar> \<le> wd"
proof -
  have i: "0 < fst c" "fst c < wd" "0 < snd c" "snd c < ht" using assms(1) by (auto simp: interior_def)
  note pts = border_points [OF assms(3,4)]
  obtain k where k: "0 < k" "\<And>j. 0 \<le> j \<Longrightarrow> j < k \<Longrightarrow> 0 \<le> fst c + j * fst d \<and> fst c + j * fst d \<le> wd \<and> 0 \<le> snd c + j * snd d \<and> snd c + j * snd d \<le> ht"
    and side: "(fst d \<noteq> 0 \<and> (fst c + k * fst d = 0 \<or> fst c + k * fst d = wd) \<and> 0 \<le> snd c + k * snd d \<and> snd c + k * snd d \<le> ht) \<or>
      (snd d \<noteq> 0 \<and> (snd c + k * snd d = 0 \<or> snd c + k * snd d = ht) \<and> 0 \<le> fst c + k * fst d \<and> fst c + k * fst d \<le> wd)"
    using exit [OF assms(1,2)] by blast
  have box: "0 \<le> j \<Longrightarrow> j < k \<Longrightarrow> 0 \<le> fst (along c d j) \<and> fst (along c d j) \<le> wd \<and> 0 \<le> snd (along c d j) \<and> snd (along c d j) \<le> ht" for j
    using k(2) by (simp add: along_def)
  note found = that [OF k(1) _ _ box]
  from side consider
      (left) "fst c + k * fst d = 0" "0 \<le> snd c + k * snd d" "snd c + k * snd d \<le> ht"
    | (right) "fst c + k * fst d = wd" "0 \<le> snd c + k * snd d" "snd c + k * snd d \<le> ht"
    | (bottom) "snd c + k * snd d = 0" "0 \<le> fst c + k * fst d" "fst c + k * fst d \<le> wd"
    | (upper) "snd c + k * snd d = ht" "0 \<le> fst c + k * fst d" "fst c + k * fst d \<le> wd" by blast
  then show ?thesis
  proof cases
    case left
    then show ?thesis using pts(2) [of "snd c + k * snd d"] i assms(3,4)
      by (intro found [of "((0, ht), (0, 0))"]) (auto simp: border_def along_def cross_def direction_def abs_mult)
  next
    case right
    then show ?thesis using pts(1) [of "snd c + k * snd d"] i assms(3,4)
      by (intro found [of "((wd, 0), (wd, ht))"]) (auto simp: border_def along_def cross_def direction_def abs_mult)
  next
    case bottom
    then show ?thesis using pts(3) [of "fst c + k * fst d"] i assms(3,4)
      by (intro found [of "((0, 0), (wd, 0))"]) (auto simp: border_def along_def cross_def direction_def abs_mult)
  next
    case upper
    then show ?thesis using pts(4) [of "fst c + k * fst d"] i assms(3,4)
      by (intro found [of "((wd, ht), (0, ht))"]) (auto simp: border_def along_def cross_def direction_def abs_mult)
  qed
qed


section \<open>Beams\<close>

definition unit_dir :: "real \<Rightarrow> point" where
  "unit_dir theta = (cos theta, sin theta)"

text \<open>A side that is reached after a distance of at least 1/100, and before the other coordinate has left the world, is not nearly parallel.\<close>

lemma side_not_parallel:
  fixes u v h k :: real
  assumes "u * u + v * v = 1" and "0 < k" and "1 / 100 \<le> k * \<bar>u\<bar>" and "k * \<bar>v\<bar> \<le> h" and "1 \<le> h"
  shows "1 / 1000 \<le> \<bar>u\<bar> * h"
proof (rule ccontr)
  assume "\<not> ?thesis"
  then have small: "\<bar>u\<bar> * h < 1 / 1000" by simp
  have "k * (\<bar>u\<bar> * h) \<le> k * (1 / 1000)" using small assms(2) by (intro mult_left_mono) auto
  moreover have "1 / 100 * h \<le> k * \<bar>u\<bar> * h" using assms(3,5) by (intro mult_right_mono) auto
  ultimately have "10 * h \<le> k" by (simp add: mult.assoc)
  then have "10 * h * \<bar>v\<bar> \<le> k * \<bar>v\<bar>" by (intro mult_right_mono) auto
  then have "h * (10 * \<bar>v\<bar>) \<le> h * 1" using assms(4) by simp
  then have v: "\<bar>v\<bar> \<le> 1 / 10" using assms(5) by simp
  have "\<bar>u\<bar> * 1 \<le> \<bar>u\<bar> * h" using assms(5) by (intro mult_left_mono) auto
  then have u: "\<bar>u\<bar> \<le> 1 / 10" using small by simp
  have "\<bar>u\<bar> * \<bar>u\<bar> \<le> 1 / 10 * (1 / 10)" "\<bar>v\<bar> * \<bar>v\<bar> \<le> 1 / 10 * (1 / 10)" using u v by (intro mult_mono; simp)+
  then show False using assms(1) by simp
qed

lemma beam_reaches_border:
  assumes "interior wd ht c" and "1 \<le> wd" "1 \<le> ht" and "clear r (set (border wd ht)) c" and "1 / 100 \<le> r"
  obtains l x where "l \<in> set (border wd ht)" and "intersectRaySegment (c, theta) l = Some x"
proof -
  have nz: "unit_dir theta \<noteq> (0, 0)" using sin_cos_squared_add [of theta] by (auto simp: unit_dir_def simp del: sin_cos_squared_add)
  have pos: "0 < wd" "0 < ht" using assms(2,3) by auto
  obtain k l where k: "0 < k" "l \<in> set (border wd ht)" "on_segment l (along c (unit_dir theta) k)"
    and side: "\<bar>cross (unit_dir theta) (direction l)\<bar> = \<bar>cos theta\<bar> * ht \<and> (fst c + k * cos theta = 0 \<or> fst c + k * cos theta = wd) \<and> \<bar>k * sin theta\<bar> \<le> ht \<or>
      \<bar>cross (unit_dir theta) (direction l)\<bar> = \<bar>sin theta\<bar> * wd \<and> (snd c + k * sin theta = 0 \<or> snd c + k * sin theta = ht) \<and> \<bar>k * cos theta\<bar> \<le> wd"
    using reach_border [OF assms(1) nz pos] unfolding unit_dir_def fst_conv snd_conv by blast
  note m = margins [OF assms(1-4)]
  have one: "cos theta * cos theta + sin theta * sin theta = 1" "sin theta * sin theta + cos theta * cos theta = 1"
    using sin_cos_squared_add [of theta] by (simp_all add: power2_eq_square)
  have "1 / 1000 \<le> \<bar>cross (unit_dir theta) (direction l)\<bar>"
    using side
  proof (elim disjE conjE)
    assume a: "\<bar>cross (unit_dir theta) (direction l)\<bar> = \<bar>cos theta\<bar> * ht" "\<bar>k * sin theta\<bar> \<le> ht"
    { assume "fst c + k * cos theta = 0"
      then have "1 / 100 \<le> \<bar>k * cos theta\<bar>" using m assms(5) by linarith
      then show ?thesis unfolding a using side_not_parallel [OF one(1) k(1)] a(2) k(1) assms(3) by (simp add: abs_mult) }
    { assume "fst c + k * cos theta = wd"
      then have "1 / 100 \<le> \<bar>k * cos theta\<bar>" using m assms(5) by linarith
      then show ?thesis unfolding a using side_not_parallel [OF one(1) k(1)] a(2) k(1) assms(3) by (simp add: abs_mult) }
  next
    assume a: "\<bar>cross (unit_dir theta) (direction l)\<bar> = \<bar>sin theta\<bar> * wd" "\<bar>k * cos theta\<bar> \<le> wd"
    { assume "snd c + k * sin theta = 0"
      then have "1 / 100 \<le> \<bar>k * sin theta\<bar>" using m assms(5) by linarith
      then show ?thesis unfolding a using side_not_parallel [OF one(2) k(1)] a(2) k(1) assms(2) by (simp add: abs_mult) }
    { assume "snd c + k * sin theta = ht"
      then have "1 / 100 \<le> \<bar>k * sin theta\<bar>" using m assms(5) by linarith
      then show ?thesis unfolding a using side_not_parallel [OF one(2) k(1)] a(2) k(1) assms(2) by (simp add: abs_mult) }
  qed
  moreover have "on_ray (c, theta) (along c (unit_dir theta) k)"
    unfolding on_ray_def by (intro exI [of _ k]) (use k(1) in \<open>simp add: unit_dir_def\<close>)
  ultimately have "intersectRaySegment (c, theta) l = Some (along c (unit_dir theta) k)"
    using intersectRaySegment_iff [of "(c, theta)" l] k(3) by (simp add: unit_dir_def)
  then show ?thesis by (rule that [OF k(2)])
qed

text \<open>The loop over the lines keeps the nearest intersection.\<close>

definition hits :: "point \<Rightarrow> real \<Rightarrow> segment list \<Rightarrow> point set" where
  "hits p theta ls = {x. \<exists>l \<in> set ls. intersectRaySegment (p, theta) l = Some x}"

lemma beam_fold:
  assumes "fold (\<lambda>l ip. case intersectRaySegment (p, theta) l of None \<Rightarrow> ip | Some q \<Rightarrow> nearer p q ip) ls start = res"
  shows "(res = None \<longleftrightarrow> start = None \<and> hits p theta ls = {}) \<and>
    (\<forall>x. res = Some x \<longrightarrow> (x \<in> hits p theta ls \<or> start = Some x) \<and>
      (\<forall>y \<in> hits p theta ls. dist_points p x \<le> dist_points p y) \<and> (\<forall>y. start = Some y \<longrightarrow> dist_points p x \<le> dist_points p y))"
  using assms
proof (induction ls arbitrary: start)
  case (Cons l ls)
  show ?case
  proof (cases "intersectRaySegment (p, theta) l")
    case None
    then have same: "hits p theta (l # ls) = hits p theta ls" by (simp add: hits_def)
    have "fold (\<lambda>l ip. case intersectRaySegment (p, theta) l of None \<Rightarrow> ip | Some q \<Rightarrow> nearer p q ip) ls start = res"
      using Cons.prems None by simp
    from Cons.IH [OF this] show ?thesis unfolding same .
  next
    case (Some q)
    then have h: "hits p theta (l # ls) = insert q (hits p theta ls)" by (auto simp: hits_def)
    define k where "k = (case start of None \<Rightarrow> q | Some i \<Rightarrow> if dist_points p q < dist_points p i then q else i)"
    have k: "nearer p q start = Some k" "k = q \<or> start = Some k" "dist_points p k \<le> dist_points p q"
        "start = Some y \<Longrightarrow> dist_points p k \<le> dist_points p y" for y
      unfolding k_def by (cases start; simp add: nearer_def del: dist_points_le_iff)+
    from Cons.IH [of "Some k"] Cons.prems Some k have
      *: "\<exists>x. res = Some x \<and> (x \<in> hits p theta ls \<or> x = k) \<and> (\<forall>y \<in> hits p theta ls. dist_points p x \<le> dist_points p y) \<and> dist_points p x \<le> dist_points p k"
      by auto
    then show ?thesis unfolding h using k by (auto simp del: dist_points_le_iff intro: order_trans)
  qed
qed (auto simp: hits_def)

lemma beam_hit_nearest:
  "beam_hit p theta ls = None \<longleftrightarrow> hits p theta ls = {}"
  "beam_hit p theta ls = Some x \<Longrightarrow> x \<in> hits p theta ls"
  "beam_hit p theta ls = Some x \<Longrightarrow> y \<in> hits p theta ls \<Longrightarrow> dist_points p x \<le> dist_points p y"
  using beam_fold [OF refl, of p theta ls None] unfolding beam_hit_def by (auto simp del: dist_points_le_iff)


text \<open>
  The points that a beam can see: those of a wall that is not nearly parallel to it. A reading is the distance of the nearest of them, or
  None when all are farther than the range of the sensor.
\<close>

definition seen :: "point \<Rightarrow> real \<Rightarrow> segment set \<Rightarrow> point set" where
  "seen p theta ls = {x. \<exists>l \<in> ls. 1 / 1000 \<le> \<bar>cross (unit_dir theta) (direction l)\<bar> \<and> on_ray (p, theta) x \<and> on_segment l x}"

definition reading :: "point \<Rightarrow> real \<Rightarrow> real \<Rightarrow> segment set \<Rightarrow> real option \<Rightarrow> bool" where
  "reading p theta far ls r =
     (case r of
        None \<Rightarrow> \<forall>x \<in> seen p theta ls. far < dist_points p x
      | Some d \<Rightarrow> d \<le> far \<and> (\<exists>x \<in> seen p theta ls. d = dist_points p x) \<and> (\<forall>x \<in> seen p theta ls. d \<le> dist_points p x))"

lemma hits_seen: "hits p theta ls = seen p theta (set ls)"
  by (simp add: hits_def seen_def intersectRaySegment_exact unit_dir_def)

section \<open>A robot that stands clear of the walls\<close>

text \<open>No measured distance is negative.\<close>

definition sensor_ok :: "world \<Rightarrow> bool" where
  "sensor_ok w \<longleftrightarrow> (\<forall>d. Some d \<in> set (sensorDist w) \<longrightarrow> 0 \<le> d) \<and> (\<forall>(d, a) \<in> set (sensed w). 0 \<le> d)"

definition same_place :: "world \<Rightarrow> world \<Rightarrow> bool" where
  "same_place w w' \<longleftrightarrow> world_width w' = world_width w \<and> world_height w' = world_height w \<and> lines w' = lines w \<and> placed w' = placed w \<and>
     (sensor_ok w \<longrightarrow> sensor_ok w')"

definition standing :: "real \<Rightarrow> point \<Rightarrow> real \<Rightarrow> world \<Rightarrow> bool" where
  "standing r c theta w \<longleftrightarrow>
     placed w = Some (c, r, theta) \<and> 1 \<le> world_width w \<and> 1 \<le> world_height w \<and> interior (world_width w) (world_height w) c \<and>
     set (border (world_width w) (world_height w)) \<subseteq> fst ` set (lines w) \<and> clear r (fst ` set (lines w)) c"

lemma standing_same: "same_place w w' \<Longrightarrow> standing r c theta w' = standing r c theta w"
  by (simp add: same_place_def standing_def)

lemma same_place_refl [simp]: "same_place w w"
  by (simp add: same_place_def)

lemma same_place_trans: "same_place u v \<Longrightarrow> same_place v w \<Longrightarrow> same_place u w"
  by (simp add: same_place_def)

lemma nearest_seen:
  assumes "standing r c th w" and "1 / 100 \<le> r"
  obtains x where "getNearestIntersectionWithBeam c theta w = Inr (Some x)" and "x \<in> seen c theta (fst ` set (lines w))"
    and "\<And>y. y \<in> seen c theta (fst ` set (lines w)) \<Longrightarrow> dist_points c x \<le> dist_points c y"
proof -
  let ?ls = "map fst (lines w)"
  have s: "interior (world_width w) (world_height w) c" "1 \<le> world_width w" "1 \<le> world_height w"
      "set (border (world_width w) (world_height w)) \<subseteq> set ?ls" "clear r (set (border (world_width w) (world_height w))) c"
    using assms(1) unfolding standing_def set_map clear_def by blast+
  from beam_reaches_border [OF s(1-3,5) assms(2)] s(4) have "hits c theta ?ls \<noteq> {}" unfolding hits_def by blast
  then obtain x where x: "beam_hit c theta ?ls = Some x" using beam_hit_nearest(1) [of c theta ?ls] by blast
  moreover have "lines w \<noteq> []" using s(4) by (auto simp: border_def)
  ultimately have "getNearestIntersectionWithBeam c theta w = Inr (Some x)" by (simp add: getNearestIntersectionWithBeam_def)
  then show ?thesis using beam_hit_nearest(2,3) [OF x] unfolding hits_seen set_map by (rule that)
qed

lemma sense_beam_ok:
  assumes "standing r c th w" and "1 / 100 \<le> r"
  shows "\<exists>w' d. sense_beam ro c th alpha w = Inr w' \<and> same_place w w' \<and> sensorDist w' = sensorDist w @ [d] \<and>
    reading c (py_fmod (th + alpha) (2 * pi)) (maxSenseValue ro) (fst ` set (lines w)) d"
proof -
  let ?theta = "py_fmod (th + alpha) (2 * pi)"
  obtain x where x: "getNearestIntersectionWithBeam c ?theta w = Inr (Some x)" "x \<in> seen c ?theta (fst ` set (lines w))"
      "\<And>y. y \<in> seen c ?theta (fst ` set (lines w)) \<Longrightarrow> dist_points c x \<le> dist_points c y"
    using nearest_seen [OF assms] by blast
  show ?thesis
  proof (cases "dist_points c x > maxSenseValue ro")
    case True
    then have "reading c ?theta (maxSenseValue ro) (fst ` set (lines w)) None"
      using x(3) by (auto simp: reading_def simp del: dist_points_le_iff intro: less_le_trans)
    with x(1) True show ?thesis
      unfolding sense_beam_def by (simp add: Let_def dist_to_def same_place_def sensor_ok_def del: rbind_Inr_iff dist_points_le_iff)
  next
    case False
    then have "reading c ?theta (maxSenseValue ro) (fst ` set (lines w)) (Some (dist_points c x))"
      using x(2,3) by (auto simp: reading_def simp del: dist_points_le_iff)
    with x(1) False show ?thesis
      unfolding sense_beam_def by (simp add: Let_def dist_to_def same_place_def sensor_ok_def del: rbind_Inr_iff dist_points_le_iff)
  qed
qed

lemma sense_beams_ok:
  assumes "standing r c th w" and "1 / 100 \<le> r"
  shows "\<exists>w' ds. rfold (sense_beam ro c th) alphas w = Inr w' \<and> same_place w w' \<and> sensorDist w' = sensorDist w @ ds \<and>
    list_all2 (\<lambda>alpha. reading c (py_fmod (th + alpha) (2 * pi)) (maxSenseValue ro) (fst ` set (lines w))) alphas ds"
  using assms
proof (induction alphas arbitrary: w)
  case (Cons alpha alphas)
  from sense_beam_ok [OF Cons.prems] obtain w1 d where 1: "sense_beam ro c th alpha w = Inr w1" "same_place w w1"
      "sensorDist w1 = sensorDist w @ [d]" "reading c (py_fmod (th + alpha) (2 * pi)) (maxSenseValue ro) (fst ` set (lines w)) d"
    by blast
  have "lines w1 = lines w" using 1(2) by (simp add: same_place_def)
  moreover from Cons.IH [of w1] Cons.prems standing_same [OF 1(2)] obtain w2 ds where "rfold (sense_beam ro c th) alphas w1 = Inr w2"
      "same_place w1 w2" "sensorDist w2 = sensorDist w1 @ ds"
      "list_all2 (\<lambda>alpha. reading c (py_fmod (th + alpha) (2 * pi)) (maxSenseValue ro) (fst ` set (lines w1))) alphas ds"
    by blast
  ultimately show ?case using 1 same_place_trans [OF 1(2)] by (intro exI [of _ w2] exI [of _ "d # ds"]) (simp del: rbind_Inr_iff)
qed simp


lemma sense_ok:
  assumes "standing r c th w" and "1 / 100 \<le> r" and "sensorDist w = []"
  shows "\<exists>w'. world_sense ro w = Inr w' \<and> same_place w w' \<and>
    list_all2 (\<lambda>alpha. reading c (py_fmod (th + alpha) (2 * pi)) (maxSenseValue ro) (fst ` set (lines w))) (sensorDirections ro) (sensorDist w')"
proof -
  have "placed w = Some (c, r, th)" using assms(1) by (simp add: standing_def)
  then show ?thesis using sense_beams_ok [OF assms(1,2), of ro "sensorDirections ro"] assms(3)
    unfolding world_sense_def by (simp add: robot_at_def del: rbind_Inr_iff)
qed

lemma world_sense_place:
  assumes "standing r c th w" and "1 / 100 \<le> r"
  shows "\<exists>w'. world_sense ro w = Inr w' \<and> same_place w w'"
proof (cases "sensorDist w = []")
  case True
  then show ?thesis using sense_ok [OF assms] by blast
qed (simp add: world_sense_def)

lemma sense_one_box_ok:
  assumes "standing r c th w" and "1 / 100 \<le> r"
  shows "\<exists>w'. sense_one_box ro c th pb w = Inr w' \<and> same_place w w' \<and> sensorDist w' = sensorDist w"
proof -
  let ?theta = "atan2 (snd pb - snd c) (fst pb - fst c)"
  obtain x where "getNearestIntersectionWithBeam c ?theta w = Inr (Some x)" using nearest_seen [OF assms] by blast
  then show ?thesis unfolding sense_one_box_def by (auto simp: Let_def dist_to_def same_place_def sensor_ok_def simp del: rbind_Inr_iff)
qed

lemma senseBox_ok:
  assumes "standing r c th w" and "1 / 100 \<le> r"
  shows "\<exists>w'. world_senseBox ro w = Inr w' \<and> same_place w w' \<and> sensorDist w' = sensorDist w"
proof -
  have p: "placed w = Some (c, r, th)" using assms(1) by (simp add: standing_def)
  have "\<exists>w'. rfold (sense_one_box ro c th) (boxes w) w = Inr w' \<and> same_place w w' \<and> sensorDist w' = sensorDist w"
  proof (rule rfold_total)
    fix x u assume u: "same_place w u \<and> sensorDist u = sensorDist w"
    then have "standing r c th u" using assms(1) standing_same by blast
    from sense_one_box_ok [OF this assms(2), of ro x] u show "\<exists>v. sense_one_box ro c th x u = Inr v \<and> same_place w v \<and> sensorDist v = sensorDist w"
      using same_place_trans by metis
  qed simp
  then show ?thesis unfolding world_senseBox_def by (simp add: robot_at_def p del: rbind_Inr_iff)
qed

section \<open>Moves\<close>

definition span :: "point \<Rightarrow> real" where
  "span d = sqrt (fst d * fst d + snd d * snd d)"

text \<open>A way shorter than the diameter that ends clear of the walls stays inside and passes through no wall.\<close>

lemma way_passes:
  assumes "standing r c th w" and "span d < 2 * r" and "clear r (fst ` set (lines w)) (along c d 1)"
    and "l \<in> fst ` set (lines w)" "1 / 1000 \<le> square_length l" and "0 \<le> k" "k \<le> 1"
  shows "\<not> on_segment l (along c d k)"
proof
  assume on: "on_segment l (along c d k)"
  have "clear r (fst ` set (lines w)) c" using assms(1) by (simp add: standing_def)
  from way_clear [OF clear_point [OF this assms(4,5) on] clear_point [OF assms(3-5) on] refl assms(6,7)] assms(2)
  show False by (simp add: span_def)
qed

lemma way_inside:
  assumes "standing r c th w" and "span d < 2 * r" and "clear r (fst ` set (lines w)) (along c d 1)"
  shows "interior (world_width w) (world_height w) (along c d 1)"
proof (cases "d = (0, 0)")
  case True
  then show ?thesis using assms(1) by (simp add: standing_def along_def)
next
  case False
  let ?wd = "world_width w" and ?ht = "world_height w"
  have s: "interior ?wd ?ht c" "0 < ?wd" "0 < ?ht" "1 \<le> ?wd" "1 \<le> ?ht" "set (border ?wd ?ht) \<subseteq> fst ` set (lines w)"
    using assms(1) by (auto simp: standing_def)
  obtain k l where k: "0 < k" "l \<in> set (border ?wd ?ht)" "on_segment l (along c d k)"
      "\<And>j. 0 \<le> j \<Longrightarrow> j < k \<Longrightarrow> 0 \<le> fst (along c d j) \<and> fst (along c d j) \<le> ?wd \<and> 0 \<le> snd (along c d j) \<and> snd (along c d j) \<le> ?ht"
    using reach_border [OF s(1) False s(2,3)] by metis
  note pass = way_passes [OF assms]
  have walls: "m \<in> fst ` set (lines w)" "1 / 1000 \<le> square_length m" if "m \<in> set (border ?wd ?ht)" for m
    using that s(6) border_long [OF s(4,5)] by blast+
  have "1 < k" using pass [OF walls [OF k(2)], of k] k(1,3) by force
  obtain x y where e: "along c d 1 = (x, y)" by (metis surj_pair)
  have box: "0 \<le> x" "x \<le> ?wd" "0 \<le> y" "y \<le> ?ht" using k(4) [of 1] \<open>1 < k\<close> e by auto
  have off: "\<not> on_segment m (x, y)" if "m \<in> set (border ?wd ?ht)" for m using pass [OF walls [OF that], of 1] e by simp
  note pts = border_points [OF s(2,3)]
  have "x \<noteq> ?wd" using off [of "((?wd, 0), (?wd, ?ht))"] pts(1) [OF box(3,4)] by (auto simp: border_def)
  moreover have "x \<noteq> 0" using off [of "((0, ?ht), (0, 0))"] pts(2) [OF box(3,4)] by (auto simp: border_def)
  moreover have "y \<noteq> 0" using off [of "((0, 0), (?wd, 0))"] pts(3) [OF box(1,2)] by (auto simp: border_def)
  moreover have "y \<noteq> ?ht" using off [of "((?wd, ?ht), (0, ?ht))"] pts(4) [OF box(1,2)] by (auto simp: border_def)
  ultimately show ?thesis using box e by (simp add: interior_def)
qed

text \<open>
  What a move does: it is refused without effect, or the robot stands at the new place, has come there through no wall and its readings
  are those of the new place.
\<close>

definition moved :: "robot \<Rightarrow> real \<Rightarrow> point \<Rightarrow> world \<Rightarrow> world \<Rightarrow> bool" where
  "moved ro r c w w' \<longleftrightarrow>
     world_width w' = world_width w \<and> world_height w' = world_height w \<and> lines w' = lines w \<and> sensor_ok w' \<and>
     (\<exists>d theta. standing r (along c d 1) theta w' \<and>
        (\<forall>l \<in> fst ` set (lines w). \<forall>k. 1 / 1000 \<le> square_length l \<longrightarrow> 0 \<le> k \<longrightarrow> k \<le> 1 \<longrightarrow> \<not> on_segment l (along c d k)) \<and>
        list_all2 (\<lambda>alpha. reading (along c d 1) (py_fmod (theta + alpha) (2 * pi)) (maxSenseValue ro) (fst ` set (lines w)))
          (sensorDirections ro) (sensorDist w'))"

lemma span_polar: "span (d * cos a, d * sin a) = \<bar>d\<bar>"
proof -
  have "d * cos a * (d * cos a) + d * sin a * (d * sin a) = d * d * ((sin a)\<^sup>2 + (cos a)\<^sup>2)"
    by algebra
  then show ?thesis by (simp add: span_def)
qed

lemma moveRobot_ok:
  assumes "standing r c th w" and "1 / 100 \<le> r" and "\<bar>d\<bar> < 2 * r" and "dT \<noteq> 0" and "sensor_ok w"
  shows "\<exists>ok w'. moveRobot ro d dTheta dT w = Inr (ok, w') \<and> (if ok then moved ro r c w w' else w' = w)"
proof -
  have p: "placed w = Some (c, r, th)" and b: "set (border (world_width w) (world_height w)) \<subseteq> fst ` set (lines w)"
    using assms(1) by (auto simp: standing_def)
  define a where "a = (d * cos (th + 1 / 2 * dTheta), d * sin (th + 1 / 2 * dTheta))"
  have nc: "(fst c + d * cos (th + 1 / 2 * dTheta), snd c + d * sin (th + 1 / 2 * dTheta)) = along c a 1" by (simp add: a_def along_def)
  obtain x y where c: "c = (x, y)" by (metis surj_pair)
  have "lines w \<noteq> []" using b by (auto simp: border_def)
  then obtain m where m: "getNearestDistance (along c a 1) w = Some m" "\<And>l. l \<in> fst ` set (lines w) \<Longrightarrow> m \<le> distPointSegment (along c a 1) l"
    using getNearestDistance_least [of w "along c a 1"] by blast
  have eq: "moveRobot ro d dTheta dT w =
      (if m < r then Inr (False, w)
       else rbind (world_sense ro (w\<lparr>placed := Some (along c a 1, r, py_fmod (th + dTheta) (2 * pi)),
                     drivenDistance := drivenDistance w + d, sensorPoints := [], sensorDist := []\<rparr>)) (\<lambda>w1.
            rbind (world_senseBox ro (w1\<lparr>sensed := []\<rparr>)) (\<lambda>w2. Inr (True, w2\<lparr>clockTime := clockTime w2 + dT\<rparr>))))"
    using m(1) nc assms(4) unfolding moveRobot_def by (simp add: robot_at_def p Let_def c del: rbind_Inr_iff)
  show ?thesis
  proof (cases "m < r")
    case True
    then show ?thesis unfolding eq by auto
  next
    case False
    let ?th = "py_fmod (th + dTheta) (2 * pi)"
    let ?w = "w\<lparr>placed := Some (along c a 1, r, ?th), drivenDistance := drivenDistance w + d, sensorPoints := [], sensorDist := []\<rparr>"
    have cl: "clear r (fst ` set (lines w)) (along c a 1)" using False m(2) unfolding clear_def by (meson not_less order_trans)
    have sp: "span a < 2 * r" using assms(3) by (simp add: a_def span_polar)
    have st: "standing r (along c a 1) ?th ?w" using assms(1) way_inside [OF assms(1) sp cl] cl by (simp add: standing_def)
    obtain w1 where w1: "world_sense ro ?w = Inr w1" "same_place ?w w1"
        "list_all2 (\<lambda>alpha. reading (along c a 1) (py_fmod (?th + alpha) (2 * pi)) (maxSenseValue ro) (fst ` set (lines w))) (sensorDirections ro) (sensorDist w1)"
      using sense_ok [OF st assms(2), of ro] by auto
    have st1: "standing r (along c a 1) ?th (w1\<lparr>sensed := []\<rparr>)" using st standing_same [OF w1(2)] by (simp add: standing_def)
    obtain w2 where w2: "world_senseBox ro (w1\<lparr>sensed := []\<rparr>) = Inr w2" "same_place (w1\<lparr>sensed := []\<rparr>) w2" "sensorDist w2 = sensorDist w1"
      using senseBox_ok [OF st1 assms(2), of ro] by auto
    let ?w2 = "w2\<lparr>clockTime := clockTime w2 + dT\<rparr>"
    have "standing r (along c a 1) ?th ?w2" using st1 standing_same [OF w2(2)] by (simp add: standing_def)
    moreover have "sensor_ok ?w2"
    proof -
      have "sensor_ok ?w" using assms(5) by (simp add: sensor_ok_def)
      then have "sensor_ok w1" using w1(2) by (simp add: same_place_def)
      then have "sensor_ok (w1\<lparr>sensed := []\<rparr>)" by (simp add: sensor_ok_def)
      then have "sensor_ok w2" using w2(2) by (simp add: same_place_def)
      then show ?thesis by (simp add: sensor_ok_def)
    qed
    moreover have "world_width ?w2 = world_width w" "world_height ?w2 = world_height w" "lines ?w2 = lines w"
      using w1(2) w2(2) by (simp_all add: same_place_def)
    moreover have "sensorDist ?w2 = sensorDist w1" using w2(3) by simp
    moreover have "\<forall>l \<in> fst ` set (lines w). \<forall>k. 1 / 1000 \<le> square_length l \<longrightarrow> 0 \<le> k \<longrightarrow> k \<le> 1 \<longrightarrow> \<not> on_segment l (along c a k)"
      using way_passes [OF assms(1) sp cl] by blast
    ultimately have "moved ro r c w ?w2" unfolding moved_def using w1(3) by (intro conjI exI [of _ a] exI [of _ ?th]) simp_all
    moreover have "moveRobot ro d dTheta dT w = Inr (True, ?w2)" unfolding eq using False w1(1) w2(1) by (simp del: rbind_Inr_iff)
    ultimately show ?thesis by auto
  qed
qed


section \<open>Runs of the robot\<close>

text \<open>
  A robot is slow when a single step, with a motion noise of at most \<open>Z\<close> standard deviations, is shorter than its diameter.
\<close>

definition slow :: "real \<Rightarrow> robot \<Rightarrow> bool" where
  "slow Z ro \<longleftrightarrow> 0 < timeStep ro \<and> 0 \<le> k_d ro \<and> 0 \<le> k_theta ro \<and> 0 \<le> k_drift ro \<and> 0 \<le> maxSpeed ro \<and> 1 / 50 \<le> diameter ro \<and>
     (maxSpeed ro + sqrt (k_d ro / timeStep ro * maxSpeed ro) * Z) * timeStep ro < diameter ro"

text \<open>What no command changes: the size of the world, the walls and the size of the robot.\<close>

definition grounds :: "sim \<Rightarrow> real \<times> real \<times> (segment \<times> bool) list \<times> real" where
  "grounds s = (world_width (wld s), world_height (wld s), lines (wld s), diameter (rob s))"

definition sim_ok :: "real \<Rightarrow> real \<times> real \<times> (segment \<times> bool) list \<times> real \<Rightarrow> sim \<Rightarrow> bool" where
  "sim_ok Z G s \<longleftrightarrow> slow Z (rob s) \<and> (\<forall>z \<in> set (noise s). \<bar>z\<bar> \<le> Z) \<and> grounds s = G \<and> sensor_ok (wld s) \<and>
     (\<exists>c theta. standing (diameter (rob s) / 2) c theta (wld s))"

datatype robot_command = Move real real | Sense | SenseBoxes | PickUpBox | PlaceBox | SenseLandmarks

fun obey :: "robot_command \<Rightarrow> sim \<Rightarrow> sim res" where
  "obey (Move v omega) s = rbind (move (v, omega) s) (\<lambda>(_, s'). Inr s')"
| "obey Sense s = rbind (sense s) (\<lambda>(_, s'). Inr s')"
| "obey SenseBoxes s = rbind (senseBoxes s) (\<lambda>(_, s'). Inr s')"
| "obey PickUpBox s = rbind (pickUpBox s) (\<lambda>(_, s'). Inr s')"
| "obey PlaceBox s = placeBox s"
| "obey SenseLandmarks s = rbind (senseLandmarks s) (\<lambda>(_, s'). Inr s')"

lemma limit_bound: "0 \<le> m \<Longrightarrow> \<bar>limit m v\<bar> \<le> m"
  by (auto simp: limit_def Let_def)

lemma step_length:
  assumes "slow Z ro" and "\<bar>z\<bar> \<le> Z"
  shows "\<bar>(limit (maxSpeed ro) v + sqrt (k_d ro / timeStep ro * \<bar>limit (maxSpeed ro) v\<bar>) * z) * timeStep ro\<bar> < diameter ro"
proof -
  let ?v = "limit (maxSpeed ro) v" and ?q = "k_d ro / timeStep ro"
  have s: "0 < timeStep ro" "0 \<le> k_d ro" "0 \<le> maxSpeed ro" using assms(1) by (auto simp: slow_def)
  have v: "\<bar>?v\<bar> \<le> maxSpeed ro" by (rule limit_bound [OF s(3)])
  have q: "0 \<le> ?q" using s by simp
  then have "sqrt (?q * \<bar>?v\<bar>) \<le> sqrt (?q * maxSpeed ro)" using v by (simp add: mult_left_mono del: times_divide_eq_left)
  then have "sqrt (?q * \<bar>?v\<bar>) * \<bar>z\<bar> \<le> sqrt (?q * maxSpeed ro) * Z" using assms(2) q s(3)
    by (intro mult_mono) (auto simp del: times_divide_eq_left)
  moreover have "\<bar>sqrt (?q * \<bar>?v\<bar>) * z\<bar> = sqrt (?q * \<bar>?v\<bar>) * \<bar>z\<bar>" using q by (simp add: abs_mult del: times_divide_eq_left)
  ultimately have "\<bar>?v + sqrt (?q * \<bar>?v\<bar>) * z\<bar> \<le> maxSpeed ro + sqrt (?q * maxSpeed ro) * Z" using v by linarith
  then have "\<bar>?v + sqrt (?q * \<bar>?v\<bar>) * z\<bar> * timeStep ro \<le> (maxSpeed ro + sqrt (?q * maxSpeed ro) * Z) * timeStep ro"
    using s(1) by (intro mult_right_mono) auto
  then show ?thesis using assms(1) s(1) unfolding slow_def abs_mult by linarith
qed

definition draws_within :: "real \<Rightarrow> real list \<Rightarrow> bool" where
  "draws_within Z zs = (\<forall>z \<in> set zs. \<bar>z\<bar> \<le> Z)"

lemma gauss_ok: "draws_within Z zs \<Longrightarrow> unless_dry (gauss sigma zs) (\<lambda>(e, zs'). (\<exists>z. \<bar>z\<bar> \<le> Z \<and> e = sigma * z) \<and> draws_within Z zs')"
  by (cases zs) (auto simp: gauss_def unless_dry_def draws_within_def)

lemma gauss_var_ok:
  "draws_within Z zs \<Longrightarrow> 0 \<le> v \<Longrightarrow> unless_dry (gauss_var v zs) (\<lambda>(e, zs'). (\<exists>z. \<bar>z\<bar> \<le> Z \<and> e = sqrt v * z) \<and> draws_within Z zs')"
  using gauss_ok by (simp add: gauss_var_def py_sqrt_def del: rbind_Inr_iff)

lemma move_step:
  assumes "sim_ok Z G s" and "standing (diameter (rob s) / 2) c th (wld s)" and "\<bar>d\<bar> < diameter (rob s)" and "draws_within Z zs"
  shows "unless_dry (rbind (moveRobot (rob s\<lparr>sigmaMotion := sg\<rparr>) d dTheta (timeStep (rob s)) (wld s))
      (\<lambda>(ok, w). Inr (ok, s\<lparr>rob := rob s\<lparr>sigmaMotion := sg\<rparr>, wld := w, noise := zs\<rparr>)))
    (\<lambda>(ok, s'). sim_ok Z G s' \<and> (if ok then moved (rob s) (diameter (rob s) / 2) c (wld s) (wld s') else wld s' = wld s))"
proof -
  have sl: "slow Z (rob s)" and T: "timeStep (rob s) \<noteq> 0" "1 / 100 \<le> diameter (rob s) / 2"
    using assms(1) by (auto simp: sim_ok_def slow_def)
  have same: "moved (rob s\<lparr>sigmaMotion := sg\<rparr>) = moved (rob s)" "slow Z (rob s\<lparr>sigmaMotion := sg\<rparr>) = slow Z (rob s)"
    by (simp_all add: moved_def slow_def fun_eq_iff)
  have "\<bar>d\<bar> < 2 * (diameter (rob s) / 2)" using assms(3) by simp
  moreover have "sensor_ok (wld s)" using assms(1) by (simp add: sim_ok_def)
  ultimately obtain ok w' where
    m: "moveRobot (rob s\<lparr>sigmaMotion := sg\<rparr>) d dTheta (timeStep (rob s)) (wld s) = Inr (ok, w')"
      "if ok then moved (rob s) (diameter (rob s) / 2) c (wld s) w' else w' = wld s"
    using moveRobot_ok [OF assms(2) T(2) _ T(1), where ro = "rob s\<lparr>sigmaMotion := sg\<rparr>" and dTheta = dTheta, unfolded same] by blast
  have "\<exists>c theta. standing (diameter (rob s) / 2) c theta w'" using m(2) assms(2) unfolding moved_def by (cases ok) (simp_all only: if_True if_False, blast+)
  moreover have "world_width w' = world_width (wld s)" "world_height w' = world_height (wld s)" "lines w' = lines (wld s)" "sensor_ok w'"
    using m(2) \<open>sensor_ok (wld s)\<close> unfolding moved_def by (cases ok; simp)+
  ultimately show ?thesis using m sl assms(1,4) by (simp add: sim_ok_def same draws_within_def grounds_def del: rbind_Inr_iff)
qed

lemma move_ok:
  assumes "sim_ok Z G s" and "standing (diameter (rob s) / 2) c th (wld s)"
  shows "unless_dry (move m s) (\<lambda>(ok, s'). sim_ok Z G s' \<and>
    (if ok then moved (rob s) (diameter (rob s) / 2) c (wld s) (wld s') else wld s' = wld s))"
proof -
  have z: "draws_within Z (noise s)" and sl: "slow Z (rob s)" and T: "timeStep (rob s) \<noteq> 0"
    and nn: "0 \<le> k_d (rob s) / timeStep (rob s) * \<bar>v\<bar>" "0 \<le> k_theta (rob s) / timeStep (rob s) * \<bar>v\<bar>" "0 \<le> k_drift (rob s) / timeStep (rob s) * \<bar>v\<bar>" for v
    using assms(1) by (auto simp: sim_ok_def draws_within_def slow_def)
  show ?thesis unfolding move_def Let_def if_not_P [OF T]
  proof (intro unless_dry_bind2 [OF gauss_var_ok [OF z nn(1)]])
    fix e1 zs1
    assume 1: "(\<exists>z. \<bar>z\<bar> \<le> Z \<and> e1 = sqrt (k_d (rob s) / timeStep (rob s) * \<bar>limit (maxSpeed (rob s)) (fst m)\<bar>) * z) \<and> draws_within Z zs1"
    then have d: "\<bar>(limit (maxSpeed (rob s)) (fst m) + e1) * timeStep (rob s)\<bar> < diameter (rob s)"
      using step_length [OF sl] by blast
    from 1 have "draws_within Z zs1" ..
    then show "unless_dry (rbind (gauss_var (k_theta (rob s) / timeStep (rob s) * \<bar>limit (maxOmega (rob s)) (snd m)\<bar>) zs1) (\<lambda>(e2, zs2).
        rbind (gauss_var (k_drift (rob s) / timeStep (rob s) * \<bar>limit (maxSpeed (rob s)) (fst m)\<bar>) zs2) (\<lambda>(e3, zs3).
          rbind (moveRobot (rob s\<lparr>sigmaMotion := (k_d (rob s) / timeStep (rob s) * \<bar>limit (maxSpeed (rob s)) (fst m)\<bar>,
              k_theta (rob s) / timeStep (rob s) * \<bar>limit (maxOmega (rob s)) (snd m)\<bar> +
              k_drift (rob s) / timeStep (rob s) * \<bar>limit (maxSpeed (rob s)) (fst m)\<bar>)\<rparr>)
            ((limit (maxSpeed (rob s)) (fst m) + e1) * timeStep (rob s))
            ((limit (maxOmega (rob s)) (snd m) + e2 + e3) * timeStep (rob s)) (timeStep (rob s)) (wld s)) (\<lambda>(ok, w).
            Inr (ok, s\<lparr>rob := rob s\<lparr>sigmaMotion := (k_d (rob s) / timeStep (rob s) * \<bar>limit (maxSpeed (rob s)) (fst m)\<bar>,
              k_theta (rob s) / timeStep (rob s) * \<bar>limit (maxOmega (rob s)) (snd m)\<bar> +
              k_drift (rob s) / timeStep (rob s) * \<bar>limit (maxSpeed (rob s)) (fst m)\<bar>)\<rparr>, wld := w, noise := zs3\<rparr>)))))
      (\<lambda>(ok, s'). sim_ok Z G s' \<and> (if ok then moved (rob s) (diameter (rob s) / 2) c (wld s) (wld s') else wld s' = wld s))"
      by (intro unless_dry_bind2 [OF gauss_var_ok [OF _ nn(2)], of Z] unless_dry_bind2 [OF gauss_var_ok [OF _ nn(3)], of Z] move_step [OF assms d]) blast+
  qed
qed

lemma noisy_dists_ok:
  "draws_within Z zs \<Longrightarrow> \<forall>d. Some d \<in> set ds \<longrightarrow> 0 \<le> d \<Longrightarrow> unless_dry (noisy_dists sn ds zs) (\<lambda>(rs, zs'). draws_within Z zs')"
proof (induction ds arbitrary: zs)
  case (Cons d ds)
  note more = unless_dry_bind2 [OF Cons.IH]
  show ?case
  proof (cases d)
    case None
    then show ?thesis using Cons.prems by (auto intro!: more)
  next
    case (Some x)
    then have "0 \<le> sn ^ 2 * x" using Cons.prems(2) by simp
    then show ?thesis unfolding Some noisy_dists.simps
      using Cons.prems(2) by (auto intro!: unless_dry_bind2 [OF gauss_var_ok [OF Cons.prems(1)]] more)
  qed
qed simp

lemma noisy_boxes_ok:
  "draws_within Z zs \<Longrightarrow> \<forall>(d, a) \<in> set das. 0 \<le> d \<Longrightarrow> unless_dry (noisy_boxes ro das zs) (\<lambda>(rs, zs'). draws_within Z zs')"
proof (induction das arbitrary: zs)
  case (Cons x das)
  obtain d a b where x: "x = (d, a, b)" by (metis surj_pair)
  have "0 \<le> boxDistSensorNoise ro ^ 2 * d" using Cons.prems(2) by (simp add: x)
  then show ?case unfolding x noisy_boxes.simps using Cons.prems(2)
    by (auto intro!: unless_dry_bind2 [OF gauss_var_ok [OF Cons.prems(1)]] unless_dry_bind2 [OF gauss_ok, of Z] unless_dry_bind2 [OF Cons.IH])
qed simp

lemma landmark_dists_ok: "draws_within Z zs \<Longrightarrow> unless_dry (landmark_dists sn p ls zs) (\<lambda>(rs, zs'). draws_within Z zs')"
proof (induction ls arbitrary: zs)
  case (Cons l ls)
  show ?case unfolding landmark_dists.simps
    by (auto intro!: unless_dry_bind2 [OF gauss_ok [OF Cons.prems]] unless_dry_bind2 [OF Cons.IH])
qed simp

text \<open>A change that leaves the place, the walls and the motion parameters of the robot as they are.\<close>

definition still :: "sim \<Rightarrow> sim \<Rightarrow> bool" where
  "still s s' \<longleftrightarrow> same_place (wld s) (wld s') \<and> (\<forall>Z. slow Z (rob s') = slow Z (rob s)) \<and> diameter (rob s') = diameter (rob s)"

lemma still_ok: "sim_ok Z G s \<Longrightarrow> still s s' \<Longrightarrow> draws_within Z (noise s') \<Longrightarrow> sim_ok Z G s'"
  using standing_same [of "wld s" "wld s'"] by (simp add: sim_ok_def still_def draws_within_def grounds_def same_place_def)

lemma sim_okE:
  assumes "sim_ok Z G s"
  obtains c th where "standing (diameter (rob s) / 2) c th (wld s)" and "1 / 100 \<le> diameter (rob s) / 2" and "draws_within Z (noise s)"
proof -
  have "1 / 100 \<le> diameter (rob s) / 2" "draws_within Z (noise s)" using assms by (auto simp: sim_ok_def slow_def draws_within_def)
  moreover obtain c th where "standing (diameter (rob s) / 2) c th (wld s)" using assms unfolding sim_ok_def by blast
  ultimately show ?thesis by (intro that)
qed

lemma sense_runs:
  assumes "sim_ok Z G s"
  shows "unless_dry (sense s) (\<lambda>(ds, s'). sim_ok Z G s')"
proof -
  obtain c th where c: "standing (diameter (rob s) / 2) c th (wld s)" "1 / 100 \<le> diameter (rob s) / 2" "draws_within Z (noise s)"
    using sim_okE [OF assms] .
  obtain w where w: "world_sense (rob s) (wld s) = Inr w" "same_place (wld s) w" using world_sense_place [OF c(1,2)] by blast
  have "sim_ok Z G (s\<lparr>wld := w, noise := zs\<rparr>)" if "draws_within Z zs" for zs
    by (rule still_ok [OF assms]) (use w(2) that in \<open>simp_all add: still_def slow_def\<close>)
  moreover have "sensor_ok w" using assms w(2) by (simp add: sim_ok_def same_place_def)
  ultimately show ?thesis unfolding sense_def w(1) rbind.simps by (intro unless_dry_bind2 [OF noisy_dists_ok [OF c(3)]]) (simp_all add: sensor_ok_def)
qed

lemma senseBoxes_runs:
  assumes "sim_ok Z G s"
  shows "unless_dry (senseBoxes s) (\<lambda>(ds, s'). sim_ok Z G s')"
proof (cases "boxSensor (rob s)")
  case True
  obtain c th where c: "standing (diameter (rob s) / 2) c th (wld s)" "1 / 100 \<le> diameter (rob s) / 2" "draws_within Z (noise s)"
    using sim_okE [OF assms] .
  obtain w where w: "world_senseBox (rob s) (wld s) = Inr w" "same_place (wld s) w" using senseBox_ok [OF c(1,2)] by blast
  have ok: "sim_ok Z G (s\<lparr>rob := rob s\<lparr>boxInPosition := b\<rparr>, wld := w, noise := zs\<rparr>)" if "draws_within Z zs" for zs b
    by (rule still_ok [OF assms]) (use w(2) that in \<open>simp_all add: still_def slow_def\<close>)
  have so: "\<forall>(d, a) \<in> set (sensed w). 0 \<le> d" using assms w(2) by (simp add: sim_ok_def same_place_def sensor_ok_def)
  have "sim_ok Z G (s\<lparr>rob := rob s\<lparr>boxInPosition := b\<rparr>, wld := w\<rparr>)" for b
    by (rule still_ok [OF assms]) (use w(2) c(3) in \<open>simp_all add: still_def slow_def\<close>)
  then show ?thesis
    unfolding senseBoxes_def w(1) rbind.simps Let_def using True ok by (auto intro!: unless_dry_bind2 [OF noisy_boxes_ok [OF c(3) so]])
qed (use assms in \<open>simp add: senseBoxes_def\<close>)

lemma pickUpBox_runs:
  assumes "sim_ok Z G s"
  shows "unless_dry (pickUpBox s) (\<lambda>(ok, s'). sim_ok Z G s')"
proof -
  have "unless_dry (rbind (world_pickUpBox (rob u) (wld u)) (\<lambda>(_, w). Inr (True, u\<lparr>rob := (rob u)\<lparr>boxPickedUp := True\<rparr>, wld := w\<rparr>)))
      (\<lambda>(ok, s'). sim_ok Z G s')" if u: "sim_ok Z G u" for u
  proof -
    obtain c th where c: "standing (diameter (rob u) / 2) c th (wld u)" "draws_within Z (noise u)" using sim_okE [OF u] by blast
    then have "placed (wld u) = Some (c, diameter (rob u) / 2, th)" by (simp add: standing_def)
    then have "\<exists>r. world_pickUpBox (rob u) (wld u) = Inr r \<and> same_place (wld u) (snd r)"
      unfolding world_pickUpBox_def by (auto simp: robot_at_def same_place_def sensor_ok_def simp del: rbind_Inr_iff)
    then obtain ok w where w: "world_pickUpBox (rob u) (wld u) = Inr (ok, w)" "same_place (wld u) w" by (metis surj_pair snd_conv)
    have "sim_ok Z G (u\<lparr>rob := (rob u)\<lparr>boxPickedUp := True\<rparr>, wld := w\<rparr>)"
      by (rule still_ok [OF u]) (use w(2) c(2) in \<open>simp_all add: still_def slow_def\<close>)
    then show ?thesis by (simp add: w(1))
  qed
  then show ?thesis unfolding pickUpBox_def using assms by (auto intro!: unless_dry_bind2 [OF senseBoxes_runs [OF assms]])
qed

lemma placeBox_runs:
  assumes "sim_ok Z G s"
  shows "unless_dry (placeBox s) (sim_ok Z G)"
proof -
  obtain c th where c: "standing (diameter (rob s) / 2) c th (wld s)" "draws_within Z (noise s)" using sim_okE [OF assms] by blast
  then have "placed (wld s) = Some (c, diameter (rob s) / 2, th)" by (simp add: standing_def)
  then obtain w where w: "world_placeBox (rob s) (wld s) = Inr w" "same_place (wld s) w"
    unfolding world_placeBox_def by (auto simp: robot_at_def same_place_def sensor_ok_def addBox_def split_beta Let_def simp del: rbind_Inr_iff)
  have "sim_ok Z G (s\<lparr>rob := (rob s)\<lparr>boxPickedUp := False\<rparr>, wld := w\<rparr>)"
    by (rule still_ok [OF assms]) (use w(2) c(2) in \<open>simp_all add: still_def slow_def\<close>)
  then show ?thesis using assms by (simp add: placeBox_def w(1))
qed

lemma senseLandmarks_runs:
  assumes "sim_ok Z G s"
  shows "unless_dry (senseLandmarks s) (\<lambda>(ds, s'). sim_ok Z G s')"
proof -
  obtain c th where c: "standing (diameter (rob s) / 2) c th (wld s)" "draws_within Z (noise s)" using sim_okE [OF assms] by blast
  then have "placed (wld s) = Some (c, diameter (rob s) / 2, th)" by (simp add: standing_def)
  then have p: "getTrueRobotPose (wld s) = Inr (fst c, snd c, th)" by (simp add: getTrueRobotPose_def robot_at_def split_beta del: rbind_Inr_iff)
  have "sim_ok Z G (s\<lparr>noise := zs\<rparr>)" if "draws_within Z zs" for zs
    by (rule still_ok [OF assms]) (use that in \<open>simp_all add: still_def slow_def\<close>)
  then show ?thesis unfolding senseLandmarks_def p rbind.simps prod.case
    by (intro unless_dry_bind2 [OF landmark_dists_ok [OF c(2)]]) simp
qed

lemma obey_ok:
  assumes "sim_ok Z G s"
  shows "unless_dry (obey cmd s) (sim_ok Z G)"
proof (cases cmd)
  case (Move v omega)
  obtain c th where "standing (diameter (rob s) / 2) c th (wld s)" using sim_okE [OF assms] by blast
  then show ?thesis unfolding Move obey.simps by (intro unless_dry_bind2 [OF move_ok [OF assms]]) auto
qed (auto intro: unless_dry_bind2 [OF sense_runs] unless_dry_bind2 [OF senseBoxes_runs] unless_dry_bind2 [OF pickUpBox_runs]
  unless_dry_bind2 [OF senseLandmarks_runs] placeBox_runs assms)


section \<open>What the simulator guarantees\<close>

text \<open>A world in which the robot can be set at a pose, before anything is measured.\<close>

definition ready :: "robot \<Rightarrow> point \<Rightarrow> world \<Rightarrow> bool" where
  "ready ro c w \<longleftrightarrow> 1 \<le> world_width w \<and> 1 \<le> world_height w \<and> set (border (world_width w) (world_height w)) \<subseteq> fst ` set (lines w) \<and>
     sensorDist w = [] \<and> sensed w = [] \<and> interior (world_width w) (world_height w) c \<and> clear (diameter ro / 2) (fst ` set (lines w)) c"

lemma ready_start:
  assumes "ready ro (x, y) w"
  shows "standing (diameter ro / 2) (x, y) theta (setRobot ro (x, y, theta) w)" and "sensor_ok (setRobot ro (x, y, theta) w)"
  using assms by (simp_all add: ready_def standing_def setRobot_def sensor_ok_def)

lemma start_ok:
  assumes "ready ro (x, y) w" and "slow Z ro" and "draws_within Z zs"
  shows "sim_ok Z (world_width w, world_height w, lines w, diameter ro) \<lparr>rob = ro, wld = setRobot ro (x, y, theta) w, noise = zs\<rparr>"
  unfolding sim_ok_def using ready_start [OF assms(1), of theta] assms(2,3)
  by (auto simp: grounds_def draws_within_def setRobot_def simp del: split_paired_Ex)

text \<open>Inside the world and clear of all walls, which are the ones the world had at the start.\<close>

definition safe :: "robot \<Rightarrow> world \<Rightarrow> sim \<Rightarrow> bool" where
  "safe ro w s \<longleftrightarrow> lines (wld s) = lines w \<and> (\<exists>c th. placed (wld s) = Some (c, diameter ro / 2, th) \<and>
     interior (world_width w) (world_height w) c \<and> clear (diameter ro / 2) (fst ` set (lines w)) c)"

lemma sim_ok_safe:
  assumes ok: "sim_ok Z (world_width w, world_height w, lines w, diameter ro) s"
  shows "safe ro w s"
proof -
  have g: "world_width (wld s) = world_width w" "world_height (wld s) = world_height w" "lines (wld s) = lines w" "diameter (rob s) = diameter ro"
    using ok by (simp_all add: sim_ok_def grounds_def)
  obtain c th where "standing (diameter (rob s) / 2) c th (wld s)" using sim_okE [OF ok] by blast
  then show ?thesis unfolding standing_def safe_def g by blast
qed

text \<open>
  C8: A run of the robot, in a world of at least one metre by one metre with any walls, from a place inside that is clear of all walls:
  whatever the commands are, none of them fails (the finite list of random numbers may be used up), and at the end the robot is inside and
  clear of all walls. The random numbers must be small enough for a step to be shorter than the robot.
\<close>

theorem robot_runs:
  assumes "ready ro (x, y) w" and "slow Z ro" and "draws_within Z zs"
  shows "case rfold obey cmds \<lparr>rob = ro, wld = setRobot ro (x, y, theta) w, noise = zs\<rparr> of
      Inl e \<Rightarrow> e = OutOfDraws
    | Inr s \<Rightarrow> safe ro w s"
proof (rule unless_dry_case)
  show "unless_dry (rfold obey cmds \<lparr>rob = ro, wld = setRobot ro (x, y, theta) w, noise = zs\<rparr>)
      (sim_ok Z (world_width w, world_height w, lines w, diameter ro))"
    by (rule unless_dry_rfold) (use start_ok [OF assms] obey_ok in blast)+
qed (rule sim_ok_safe)

text \<open>
  C31: One move of a robot that stands clear of the walls either runs out of random numbers, or is refused and leaves the world as it was,
  or brings the robot to a clear place on a straight way that meets no wall; then each of its sensors reads the distance to the
  nearest wall point on its beam, or nothing when there is none within its range. (Of walls of at least 3.2 cm, and seen by beams that are
  not nearly parallel to them.)
\<close>

theorem move_is_safe:
  assumes "sim_ok Z G s" and "standing (diameter (rob s) / 2) c th (wld s)"
  shows "move m s = Inl OutOfDraws \<or> (\<exists>s'. move m s = Inr (False, s') \<and> wld s' = wld s) \<or>
    (\<exists>s'. move m s = Inr (True, s') \<and> moved (rob s) (diameter (rob s) / 2) c (wld s) (wld s'))"
  using move_ok [OF assms, of m] unfolding unless_dry_def
proof (elim disjE exE conjE)
  fix r
  assume r: "move m s = Inr r"
    "case r of (ok, s') \<Rightarrow> sim_ok Z G s' \<and> (if ok then moved (rob s) (diameter (rob s) / 2) c (wld s) (wld s') else wld s' = wld s)"
  obtain ok s' where e: "r = (ok, s')" by (metis surj_pair)
  show ?thesis using r unfolding e prod.case by (cases ok) (simp_all only: if_True if_False, blast+)
qed blast

lemma new_robot_slow: "slow 20 new_robot"
proof -
  have "sqrt (1 / 40) < 1 / 6" by (rule real_less_lsqrt) (simp_all add: power2_eq_square)
  then show ?thesis by (simp add: slow_def new_robot_def)
qed

lemma room_clear: "clear (1 / 4) (set (border 10 10)) (5, 5)"
  by (simp add: clear_def border_def distPointSegment_eq foot_def square_length_def square_dist_def direction_def along_def dist_points_def)

lemma room_ready: "ready new_robot (5, 5) (new_world 10 10)"
  using room_clear by (simp add: ready_def new_world_def interior_def new_robot_def clear_def image_image)

theorem robot_runs_witness:
  "case rfold obey [SenseLandmarks, Move 1 0] \<lparr>rob = new_robot, wld = setRobot new_robot (5, 5, 0) (new_world 10 10), noise = [0, 1, 0]\<rparr> of
      Inl e \<Rightarrow> e = OutOfDraws
    | Inr s \<Rightarrow> safe new_robot (new_world 10 10) s"
  by (rule robot_runs [OF room_ready new_robot_slow]) (simp add: draws_within_def)

theorem move_is_safe_witness:
  "\<exists>s. wld s = setRobot new_robot (5, 5, 0) (new_world 10 10) \<and> noise s = [0, 1, 0] \<and>
    (move (1, 0) s = Inl OutOfDraws \<or> (\<exists>s'. move (1, 0) s = Inr (False, s') \<and> wld s' = wld s) \<or>
     (\<exists>s'. move (1, 0) s = Inr (True, s') \<and> moved new_robot (1 / 4) (5, 5) (wld s) (wld s')))"
proof -
  let ?w = "setRobot new_robot (5, 5, 0) (new_world 10 10)"
  let ?s = "\<lparr>rob = new_robot, wld = ?w, noise = [0, 1, 0]\<rparr>"
  have d: "diameter new_robot / 2 = 1 / 4" by (simp add: new_robot_def)
  have "draws_within 20 [0, 1, 0]" by (simp add: draws_within_def)
  from move_is_safe [OF start_ok [OF room_ready new_robot_slow this, of 0], of "(5, 5)" 0 "(1, 0)"] ready_start(1) [OF room_ready, of 0]
  show ?thesis by (intro exI [of _ ?s]) (simp add: d)
qed

end
