(* ===== verification/WorldGrid.thy ===== *)
theory WorldGrid
  imports World
begin

text \<open>
  The grids of a world: the occupied cells are those of its static lines, and the distance grid holds the length of a shortest trail to
  one of them.
\<close>

section \<open>Lines on the grid\<close>

text \<open>The cells of a line, and the static lines that the grid can show: parallel to an axis and inside the world.\<close>

definition line_covers :: "occ_grid \<Rightarrow> segment \<Rightarrow> int \<times> int \<Rightarrow> bool" where
  "line_covers og l p = (spans (cell_index (fst (fst l)) og) (cell_index (fst (snd l)) og) (fst p) \<and>
     spans (cell_index (snd (fst l)) og) (cell_index (snd (snd l)) og) (snd p))"

definition line_fits :: "real \<Rightarrow> real \<Rightarrow> segment \<Rightarrow> bool" where
  "line_fits wd ht = (\<lambda>((x0, y0), (x1, y1)). (x0 = x1 \<or> y0 = y1) \<and> 0 \<le> x0 \<and> x0 \<le> wd \<and> 0 \<le> x1 \<and> x1 \<le> wd \<and>
     0 \<le> y0 \<and> y0 \<le> ht \<and> 0 \<le> y1 \<and> y1 \<le> ht)"

definition draw_line :: "segment \<times> bool \<Rightarrow> occ_grid \<Rightarrow> occ_grid res" where
  "draw_line = (\<lambda>(((x0, y0), (x1, y1)), dynamic) g. if dynamic then Inr g else addLine x0 y0 x1 y1 1 g)"

lemma draw_line_marks:
  assumes "grid_wf og" and "b \<or> line_fits (width og) (height og) l"
  shows "\<exists>g. draw_line (l, b) og = Inr (og\<lparr>grid := g\<rparr>) \<and> grid_wf (og\<lparr>grid := g\<rparr>) \<and>
    (\<forall>p. on_grid og p \<longrightarrow> cell_at g p = (if \<not> b \<and> line_covers og l p then 1 else cell_at (grid og) p))"
proof -
  obtain x0 y0 x1 y1 where l: "l = ((x0, y0), (x1, y1))" by (metis surj_pair)
  show ?thesis
  proof (cases b)
    case True
    then show ?thesis using assms(1) by (intro exI [of _ "grid og"]) (simp add: draw_line_def l)
  next
    case False
    then have f: "0 \<le> x0" "x0 \<le> width og" "0 \<le> x1" "x1 \<le> width og" "0 \<le> y0" "y0 \<le> height og" "0 \<le> y1" "y1 \<le> height og" "x0 = x1 \<or> y0 = y1"
      using assms(2) by (auto simp: line_fits_def l)
    from addLine_marks [OF assms(1) f, of 1] False show ?thesis by (simp add: draw_line_def l line_covers_def)
  qed
qed

lemma draw_lines_mark:
  assumes "grid_wf og" and "\<forall>(l, b) \<in> set ls. b \<or> line_fits (width og) (height og) l"
  shows "\<exists>g. rfold draw_line ls og = Inr (og\<lparr>grid := g\<rparr>) \<and> grid_wf (og\<lparr>grid := g\<rparr>) \<and>
    (\<forall>p. on_grid og p \<longrightarrow> cell_at g p = (if \<exists>l. (l, False) \<in> set ls \<and> line_covers og l p then 1 else cell_at (grid og) p))"
  using assms
proof (induction ls arbitrary: og)
  case Nil
  then show ?case by (auto intro!: exI [of _ "grid og"])
next
  case (Cons x ls)
  obtain l b where x: "x = (l, b)" by (metis surj_pair)
  obtain g where g: "draw_line (l, b) og = Inr (og\<lparr>grid := g\<rparr>)" "grid_wf (og\<lparr>grid := g\<rparr>)"
      "\<And>p. on_grid og p \<Longrightarrow> cell_at g p = (if \<not> b \<and> line_covers og l p then 1 else cell_at (grid og) p)"
    using draw_line_marks [OF Cons.prems(1), of b l] Cons.prems(2) unfolding x by (simp del: split_paired_All) blast
  have same: "on_grid (og\<lparr>grid := g\<rparr>) = on_grid og" "line_covers (og\<lparr>grid := g\<rparr>) = line_covers og" "grid (og\<lparr>grid := g\<rparr>) = g"
      "og\<lparr>grid := g, grid := k\<rparr> = og\<lparr>grid := k\<rparr>" for k
    by (simp_all add: on_grid_def line_covers_def cell_index_def fun_eq_iff)
  have "\<forall>(l, b) \<in> set ls. b \<or> line_fits (width (og\<lparr>grid := g\<rparr>)) (height (og\<lparr>grid := g\<rparr>)) l" using Cons.prems(2) by simp
  from Cons.IH [OF g(2) this, unfolded same] obtain h where h: "rfold draw_line ls (og\<lparr>grid := g\<rparr>) = Inr (og\<lparr>grid := h\<rparr>)"
      "grid_wf (og\<lparr>grid := h\<rparr>)"
      "\<And>p. on_grid og p \<Longrightarrow> cell_at h p = (if \<exists>l. (l, False) \<in> set ls \<and> line_covers og l p then 1 else cell_at g p)"
    by blast
  have "cell_at h p = (if \<exists>k. (k, False) \<in> set (x # ls) \<and> line_covers og k p then 1 else cell_at (grid og) p)" if "on_grid og p" for p
    using g(3) [OF that] h(3) [OF that] unfolding x by (cases b) (auto simp del: split_paired_Ex split_paired_All)
  moreover have "rfold draw_line (x # ls) og = Inr (og\<lparr>grid := h\<rparr>)" using g(1) h(1) by (simp add: x)
  ultimately show ?case using h(2) by blast
qed

lemma occupancyI:
  assumes "shaped (xSize og) (ySize og) (grid og)" and "\<And>p. on_grid og p \<Longrightarrow> cell_at (grid og) p = 0 \<or> cell_at (grid og) p = 1"
  shows "occupancy og"
  unfolding occupancy_def
proof (intro conjI ballI)
  fix col v
  assume "col \<in> set (grid og)" "v \<in> set col"
  then obtain i j where i: "i < length (grid og)" "grid og ! i = col" "j < length col" "col ! j = v" by (metis in_set_conv_nth)
  have "int (length (grid og)) = xSize og" "int (length col) = ySize og" using assms(1) i(1,2) by (auto simp: shaped_def)
  then have "on_grid og (int i, int j)" using i by (simp add: on_grid_def inside_def)
  from assms(2) [OF this] show "v = 0 \<or> v = 1" using i by (simp add: cell_at_def)
qed (rule assms(1))

lemma generate_marks:
  assumes "0 < cs" and "0 \<le> world_width w" "0 \<le> world_height w"
    and "\<forall>(l, b) \<in> set (lines w). b \<or> line_fits (world_width w) (world_height w) l"
  shows "\<exists>og. generateOccupancyGrid cs w = Inr og \<and> grid_wf og \<and> occupancy og \<and>
    (\<forall>p. on_grid og p \<longrightarrow> occupied og p = (\<exists>l. (l, False) \<in> set (lines w) \<and> line_covers og l p))"
proof -
  obtain e where e: "new_grid (world_width w) (world_height w) cs = Inr e" "grid_wf e" "\<And>p. on_grid e p \<Longrightarrow> cell_at (grid e) p = 0"
    using new_grid_wf [OF assms(1-3)] by blast
  have wh: "width e = world_width w" "height e = world_height w" using e(1) assms(1) by (auto simp: new_grid_def Let_def)
  obtain g where g: "rfold draw_line (lines w) e = Inr (e\<lparr>grid := g\<rparr>)" "grid_wf (e\<lparr>grid := g\<rparr>)"
      "\<And>p. on_grid e p \<Longrightarrow> cell_at g p = (if \<exists>l. (l, False) \<in> set (lines w) \<and> line_covers e l p then 1 else cell_at (grid e) p)"
    using draw_lines_mark [OF e(2), of "lines w"] assms(4) unfolding wh by blast
  let ?o = "e\<lparr>grid := g\<rparr>"
  have same: "on_grid ?o = on_grid e" "line_covers ?o = line_covers e" by (simp_all add: on_grid_def line_covers_def cell_index_def fun_eq_iff)
  have "generateOccupancyGrid cs w = Inr ?o" using e(1) g(1) unfolding generateOccupancyGrid_def draw_line_def by simp
  moreover have c: "cell_at g p = (if \<exists>l. (l, False) \<in> set (lines w) \<and> line_covers e l p then 1 else 0)" if "on_grid e p" for p
    using g(3) [OF that] e(3) [OF that] by simp
  moreover have "occupancy ?o"
  proof (rule occupancyI)
    show "shaped (xSize ?o) (ySize ?o) (grid ?o)" using g(2) unfolding grid_wf_def by blast
    show "cell_at (grid ?o) p = 0 \<or> cell_at (grid ?o) p = 1" if "on_grid ?o p" for p using c [of p] that unfolding same by simp
  qed
  moreover have "occupied ?o p = (\<exists>l. (l, False) \<in> set (lines w) \<and> line_covers ?o l p)" if "on_grid ?o p" for p
    using c [of p] that unfolding same occupied_def by simp
  ultimately show ?thesis using g(2) by blast
qed

section \<open>The distance grid\<close>

text \<open>
  C11: For a world whose static lines are parallel to an axis and inside it, the occupied cells of its grid are those of the static
  lines, the computation of the distance grid ends, the world keeps it, and each of its cells holds the length of a shortest trail over
  neighbouring cells to an occupied one, or -1 when no cell is occupied.
\<close>

theorem world_distance_grid:
  assumes "0 < cs" and "0 \<le> world_width w" "0 \<le> world_height w" and "distGrid w = None"
    and "\<forall>(l, b) \<in> set (lines w). b \<or> line_fits (world_width w) (world_height w) l"
  shows "\<exists>og n g. generateOccupancyGrid cs w = Inr og \<and>
    (\<forall>p. on_grid og p \<longrightarrow> occupied og p = (\<exists>l. (l, False) \<in> set (lines w) \<and> line_covers og l p)) \<and>
    (\<forall>m \<ge> n. getDistanceGrid m cs w = Some (Inr (g, w\<lparr>distGrid := Some g\<rparr>))) \<and>
    (\<forall>p. on_grid og p \<longrightarrow>
      (if \<exists>q. on_grid og q \<and> occupied og q
       then trail og p (cell_at (grid g) p) \<and> (\<forall>d. trail og p d \<longrightarrow> cell_at (grid g) p \<le> d)
       else cell_at (grid g) p = -1))"
proof -
  obtain og where og: "generateOccupancyGrid cs w = Inr og" "grid_wf og" "occupancy og"
      "\<forall>p. on_grid og p \<longrightarrow> occupied og p = (\<exists>l. (l, False) \<in> set (lines w) \<and> line_covers og l p)"
    using generate_marks [OF assms(1-3,5)] by blast
  then have "0 < cellSize og" by (simp add: grid_wf_def)
  from distance_grid [OF this og(3)] obtain n g where g: "\<And>m. n \<le> m \<Longrightarrow> extendToDistanceGrid m og = Some (Inr g)"
      "\<forall>p. on_grid og p \<longrightarrow>
      (if \<exists>q. on_grid og q \<and> occupied og q
       then trail og p (cell_at (grid g) p) \<and> (\<forall>d. trail og p d \<longrightarrow> cell_at (grid g) p \<le> d)
       else cell_at (grid g) p = -1)" by blast
  have "getDistanceGrid m cs w = Some (Inr (g, w\<lparr>distGrid := Some g\<rparr>))" if "n \<le> m" for m
    using g(1) [OF that] og(1) assms(4) by (simp add: getDistanceGrid_def)
  with og(1,4) g(2) show ?thesis by blast
qed

theorem world_distance_grid_witness:
  "\<exists>n g. getDistanceGrid n (1 / 10) (addDynObstacleLine ((1, 1), (2, 2)) (new_world 10 10)) =
     Some (Inr (g, (addDynObstacleLine ((1, 1), (2, 2)) (new_world 10 10))\<lparr>distGrid := Some g\<rparr>))"
proof -
  let ?w = "addDynObstacleLine ((1, 1), (2, 2)) (new_world 10 10)"
  have "\<forall>(l, b) \<in> set (lines ?w). b \<or> line_fits (world_width ?w) (world_height ?w) l" "0 \<le> world_width ?w" "0 \<le> world_height ?w" "distGrid ?w = None"
    by (simp_all add: addDynObstacleLine_def new_world_def border_def line_fits_def)
  from world_distance_grid [OF _ this(2-4,1), of "1 / 10"] show ?thesis by (simp del: split_paired_Ex split_paired_All) blast
qed

end
