(* ===== verification/Worlds.thy ===== *)
theory Worlds
  imports WorldRun WorldGrid
begin

text \<open>
  The worlds that come with the robot simulator and the demos that drive through them
  (\<open>*World*.py\<close>, \<open>KeyboardController.py\<close> and \<open>demo_Simulator_*.py\<close> under
  \<open>src/Sem5/MobileRobotik/RoboterSimulator/Robot_Simulator_V3\<close>), and what the theorems about worlds say of them.
\<close>

section \<open>The worlds\<close>

definition emptyWorld :: world where
  "emptyWorld = new_world 20 20"

definition simpleWorld :: world where
  "simpleWorld = fold id [
    add_line ((2, 2), (16, 2)), add_line ((16, 2), (16, 12)), add_line ((16, 12), (4, 12)), add_line ((4, 12), (4, 10)),
    add_line ((4, 10), (2, 10)), add_line ((2, 10), (2, 2))] (new_world 18 14)"

definition twoRoomsWorld :: world where
  "twoRoomsWorld = fold id [
    add_line ((1, 1), (15, 1)), add_line ((15, 1), (15, 9)), add_line ((15, 21 / 2), (15, 13)), add_line ((15, 13), (1, 13)),
    add_line ((1, 13), (1, 1)), defineRoom ''Room 01'' (4, 3 / 2), defineRoom ''Room 02'' (11, 3 / 2), add_line ((8, 1), (8, 2)),
    add_line ((8, 7 / 2), (8, 13)), defineRoom ''depot'' (16, 25 / 2), add_line ((15, 13), (17, 13)),
    add_line ((17, 13), (17, 12)), addBox (16 / 5, 3 / 2), addBox (2, 23 / 2), addBox (36 / 5, 49 / 5), addBox (87 / 10, 61 / 5),
    addBox (27 / 2, 2)] (new_world 18 14)"

definition officeWorld :: world where
  "officeWorld = fold id [
    add_line ((1, 1), (18, 1)), add_line ((18, 1), (18, 13)), add_line ((18, 13), (1, 13)), add_line ((1, 13), (1, 1)),
    add_line ((3, 3), (17 / 2, 3)), add_line ((19 / 2, 3), (11, 3)), add_line ((3, 6), (9 / 2, 6)),
    add_line ((11 / 2, 6), (11, 6)), add_line ((11, 3), (11, 6)), add_line ((7, 3), (7, 4)), add_line ((7, 5), (7, 6)),
    add_line ((3, 6), (3, 3)), defineRoom ''Room 01'' (5, 9 / 2), defineRoom ''Room 02'' (9, 9 / 2),
    add_line ((3, 8), (17 / 2, 8)), add_line ((19 / 2, 8), (11, 8)), add_line ((3, 11), (9 / 2, 11)),
    add_line ((11 / 2, 11), (11, 11)), add_line ((11, 8), (11, 11)), add_line ((7, 8), (7, 11)), add_line ((3, 11), (3, 8)),
    defineRoom ''Room 03'' (5, 19 / 2), defineRoom ''Room 04'' (9, 19 / 2), add_line ((13, 11), (14, 11)),
    add_line ((15, 11), (16, 11)), add_line ((13, 7), (14, 7)), add_line ((15, 7), (16, 7)), add_line ((13, 3), (16, 3)),
    add_line ((16, 3), (16, 9 / 2)), add_line ((16, 11 / 2), (16, 11)), add_line ((13, 11), (13, 3)),
    defineRoom ''Room 05'' (29 / 2, 9), defineRoom ''Room 06'' (29 / 2, 9 / 2), addBox (16 / 5, 29 / 5), addBox (36 / 5, 54 / 5),
    addBox (66 / 5, 34 / 5)] (new_world 19 14)"

definition labyrinthWorld :: world where
  "labyrinthWorld = fold id [
    add_line ((1, 1), (19, 1)), add_line ((1, 1), (1, 19)), add_line ((7, 1), (7, 3)), add_line ((15, 1), (15, 7)),
    add_line ((3, 3), (3, 7)), add_line ((5, 3), (5, 7)), add_line ((5, 3), (7, 3)), add_line ((9, 3), (9, 5)),
    add_line ((11, 3), (13, 3)), add_line ((11, 3), (11, 5)), add_line ((13, 3), (13, 9)), add_line ((17, 3), (17, 7)),
    add_line ((17, 3), (19, 3)), add_line ((19, 3), (19, 19)), add_line ((7, 5), (11, 5)), add_line ((3, 7), (11, 7)),
    add_line ((11, 7), (11, 15)), add_line ((3, 9), (3, 11)), add_line ((3, 9), (7, 9)), add_line ((7, 9), (7, 11)),
    add_line ((9, 9), (9, 13)), add_line ((13, 9), (19, 9)), add_line ((5, 11), (5, 15)), add_line ((7, 11), (9, 11)),
    add_line ((13, 11), (17, 11)), add_line ((17, 11), (17, 17)), add_line ((1, 13), (5, 13)), add_line ((7, 13), (9, 13)),
    add_line ((7, 13), (7, 15)), add_line ((15, 13), (15, 19)), add_line ((3, 15), (5, 15)), add_line ((3, 15), (3, 17)),
    add_line ((7, 15), (9, 15)), add_line ((9, 15), (9, 17)), add_line ((11, 15), (13, 15)), add_line ((3, 17), (7, 17)),
    add_line ((9, 17), (15, 17)), add_line ((1, 19), (19, 19))] (new_world 20 20)"

definition obstacleWorld :: world where
  "obstacleWorld = fold id [
    add_line ((10, 4), (11, 4)), add_line ((11, 4), (11, 6)), add_line ((11, 6), (10, 6)), add_line ((10, 6), (10, 4)),
    add_line ((13, 10), (15, 10)), add_line ((16, 10), (18, 10)), add_line ((13, 12), (14, 12)), add_line ((15, 12), (18, 12)),
    add_line ((4, 15), (4, 5)), add_line ((6, 15), (6, 5)), add_line ((4, 10), (5, 10)), add_line ((4, 9), (5, 9)),
    add_line ((5, 9), (5, 10))] (new_world 40 20)"

definition obstacleWorld1 :: world where
  "obstacleWorld1 = fold id [
    add_line ((4, 15), (4, 5)), add_line ((6, 15), (6, 5)), add_line ((4, 10), (5, 10)), add_line ((4, 9), (5, 9)),
    add_line ((5, 9), (5, 10))] (new_world 40 20)"

definition obstacleWorld2 :: world where
  "obstacleWorld2 = fold id [
    add_line ((9, 4), (10, 4)), add_line ((10, 4), (10, 6)), add_line ((10, 6), (9, 6)), add_line ((9, 6), (9, 4)),
    add_line ((13, 5), (14, 5)), add_line ((14, 5), (14, 7)), add_line ((14, 7), (13, 7)), add_line ((13, 7), (13, 5))] (new_world 25 10)"

definition obstacleWorld3 :: world where
  "obstacleWorld3 = fold id [
    add_line ((1, 5), (10, 5)), add_line ((11, 5), (19, 5)), add_line ((1, 7), (19, 7)), addBox (13, 6), addBox (21 / 2, 3)] (new_world 20 10)"

definition corridorWithDoorWorld :: world where
  "corridorWithDoorWorld = fold id [
    add_line ((1, 5), (10, 5)), add_line ((11, 5), (19, 5)), add_line ((1, 7), (19, 7)), add_line ((11, 5), (11, 7 / 2)),
    add_line ((11, 5 / 2), (11, 1)), addBox (15, 3)] (new_world 20 10)"

section \<open>The keyboard\<close>

record keyboard =
  v_key :: real
  omega_key :: real

definition new_keyboard :: keyboard where
  "new_keyboard = \<lparr>v_key = 0, omega_key = 0\<rparr>"

datatype box_cmd = NoBox | BoxUp | BoxDown

text \<open>The key that \<open>checkKey\<close> returns is an argument; the result is the motion, the box command and whether to leave.\<close>

definition getCmd :: "string \<Rightarrow> keyboard \<Rightarrow> ((real \<times> real) option \<times> box_cmd \<times> bool) \<times> keyboard" where
  "getCmd key k =
     (if key = [] then ((Some (v_key k, omega_key k), NoBox, False), k)
      else if key = ''Escape'' then ((None, NoBox, True), k)
      else let d_v = 1 / 10; d_omega = 2 * (pi / 180); v_Max = 1; omega_max = 90 * (pi / 180);
               k' = (if key = ''Up'' then (if v_key k < v_Max then k\<lparr>v_key := v_key k + d_v\<rparr> else k)
                     else if key = ''Down'' then (if v_key k > - v_Max then k\<lparr>v_key := v_key k - d_v\<rparr> else k)
                     else if key = ''Left'' then (if omega_key k < omega_max then k\<lparr>omega_key := omega_key k + d_omega\<rparr> else k)
                     else if key = ''Right'' then (if omega_key k > - omega_max then k\<lparr>omega_key := omega_key k - d_omega\<rparr> else k)
                     else if key = ''Return'' then k\<lparr>omega_key := 0\<rparr>
                     else if key = ''space'' then k\<lparr>v_key := 0, omega_key := 0\<rparr>
                     else k);
               boxCmd = (if key = ''u'' then BoxUp else if key = ''d'' then BoxDown else NoBox)
           in ((Some (v_key k', omega_key k'), boxCmd, False), k'))"

section \<open>The demos\<close>

text \<open>
  A demo that is driven from the keyboard runs until the key Escape; a run of the model is given a finite list of keys. Demo 2 ignores the
  commands for boxes. \<open>move\<close> without a motion would be a TypeError.
\<close>

definition move_opt :: "(real \<times> real) option \<Rightarrow> sim \<Rightarrow> sim res" where
  "move_opt motion s = (case motion of None \<Rightarrow> Inl TypeError | Some (v, omega) \<Rightarrow> obey (Move v omega) s)"

fun drive_loop :: "bool \<Rightarrow> string list \<Rightarrow> keyboard \<Rightarrow> sim \<Rightarrow> sim res" where
  "drive_loop box [] k s = Inr s"
| "drive_loop box (key # keys) k s =
     (let ((motion, boxCmd, leave), k') = getCmd key k in
      if leave then Inr s
      else rbind (if box \<and> boxCmd = BoxUp then obey PickUpBox s
                  else if box \<and> boxCmd = BoxDown then obey PlaceBox s
                  else move_opt motion s) (drive_loop box keys k'))"

definition set_up :: "world \<Rightarrow> pose \<Rightarrow> real list \<Rightarrow> sim" where
  "set_up w p zs = \<lparr>rob = new_robot, wld = setRobot new_robot p w, noise = zs\<rparr>"

definition demo_1 :: "real list \<Rightarrow> sim res" where
  "demo_1 zs = rfold obey (concat (replicate 150 [Move 1 (- 24 * pi / 180), Sense])) (set_up emptyWorld (2, 11 / 2, pi / 2) zs)"

definition demo_2 :: "string list \<Rightarrow> real list \<Rightarrow> sim res" where
  "demo_2 keys zs = drive_loop False keys new_keyboard (set_up officeWorld (2, 11 / 2, pi / 2) zs)"

definition demo_3 :: "string list \<Rightarrow> real list \<Rightarrow> sim res" where
  "demo_3 keys zs = drive_loop True keys new_keyboard (set_up obstacleWorld3 (1, 6, 0) zs)"

definition demo_6 :: "real list \<Rightarrow> sim res" where
  "demo_6 zs =
     (let s0 = set_up obstacleWorld3 (117 / 10, 6, 0) zs; v = 1 / 5; n = nat (int_of_float ((1 / v) / timeStep (rob s0))) in
      rbind (rfold obey (replicate n (Move v 0)) s0) (\<lambda>s1.
      rbind (obey SenseBoxes s1) (\<lambda>s2.
      rbind (if boxInPosition (rob s2) then obey PickUpBox s2 else Inr s2)
        (rfold obey (replicate n (Move 0 0) @ replicate n (Move v 0) @ [PlaceBox] @ replicate n (Move 0 0))))))"

definition demo_7 :: "string list \<Rightarrow> real list \<Rightarrow> sim res" where
  "demo_7 keys zs = drive_loop True keys new_keyboard (set_up twoRoomsWorld (2, 4, 0) zs)"

section \<open>The demos are safe\<close>

lemma getCmd_motion: "getCmd key k = ((motion, boxCmd, leave), k') \<Longrightarrow> \<not> leave \<Longrightarrow> \<exists>v omega. motion = Some (v, omega)"
  by (auto simp: getCmd_def Let_def split: if_splits)

lemma drive_loop_ok: "sim_ok Z G s \<Longrightarrow> unless_dry (drive_loop box keys k s) (sim_ok Z G)"
proof (induction keys arbitrary: k s)
  case (Cons key keys)
  obtain motion boxCmd leave k' where g: "getCmd key k = ((motion, boxCmd, leave), k')" by (metis surj_pair)
  show ?case
  proof (cases leave)
    case False
    then obtain v omega where m: "motion = Some (v, omega)" using getCmd_motion [OF g] by blast
    have "unless_dry (if box \<and> boxCmd = BoxUp then obey PickUpBox s else if box \<and> boxCmd = BoxDown then obey PlaceBox s else move_opt motion s)
        (sim_ok Z G)"
      using obey_ok [OF Cons.prems] by (simp add: move_opt_def m del: obey.simps)
    from unless_dry_bind [OF this Cons.IH] show ?thesis using False by (simp add: g del: obey.simps)
  qed (use Cons.prems in \<open>simp add: g\<close>)
qed simp

lemma obey_all_ok: "sim_ok Z G s \<Longrightarrow> unless_dry (rfold obey cmds s) (sim_ok Z G)"
  by (rule unless_dry_rfold) (use obey_ok in blast)+

lemmas world_defs = emptyWorld_def simpleWorld_def twoRoomsWorld_def officeWorld_def labyrinthWorld_def obstacleWorld_def obstacleWorld1_def
  obstacleWorld2_def obstacleWorld3_def corridorWithDoorWorld_def add_line_def addBox_def defineRoom_def new_world_def border_def

lemmas distance_defs = distPointSegment_eq foot_def square_length_def square_dist_def direction_def along_def dist_points_eq

lemma four_sqrt: "1 / 16 \<le> x \<Longrightarrow> 1 \<le> sqrt x * 4"
proof -
  assume "1 / 16 \<le> x"
  then have "1 / 4 \<le> sqrt x" by (intro real_le_rsqrt) (simp add: power2_eq_square)
  then show ?thesis by simp
qed

lemma four_min: "1 \<le> min a b * (4 :: real) \<longleftrightarrow> 1 \<le> a * 4 \<and> 1 \<le> b * 4"
  by (auto simp: min_def)

lemma demos_ready:
  "ready new_robot (2, 11 / 2) emptyWorld" "ready new_robot (2, 11 / 2) officeWorld" "ready new_robot (1, 6) obstacleWorld3"
  "ready new_robot (117 / 10, 6) obstacleWorld3" "ready new_robot (2, 4) twoRoomsWorld"
  by (simp_all add: ready_def world_defs interior_def new_robot_def clear_def distance_defs four_sqrt four_min)

text \<open>
  C39: The demos 1, 2, 3, 6 and 7, with any keys and any motion noise of at most 20 standard deviations, run without an error (as long as there
  are random numbers), and the robot ends inside the world and clear of its walls.
\<close>

theorem demos_safe:
  assumes "draws_within 20 zs"
  shows "(case demo_1 zs of Inl e \<Rightarrow> e = OutOfDraws | Inr s \<Rightarrow> safe new_robot emptyWorld s) \<and>
    (case demo_2 keys zs of Inl e \<Rightarrow> e = OutOfDraws | Inr s \<Rightarrow> safe new_robot officeWorld s) \<and>
    (case demo_3 keys zs of Inl e \<Rightarrow> e = OutOfDraws | Inr s \<Rightarrow> safe new_robot obstacleWorld3 s) \<and>
    (case demo_6 zs of Inl e \<Rightarrow> e = OutOfDraws | Inr s \<Rightarrow> safe new_robot obstacleWorld3 s) \<and>
    (case demo_7 keys zs of Inl e \<Rightarrow> e = OutOfDraws | Inr s \<Rightarrow> safe new_robot twoRoomsWorld s)"
proof (intro conjI)
  let ?G = "\<lambda>w. (world_width w, world_height w, lines w, diameter new_robot)"
  have start: "sim_ok 20 (?G w) (set_up w (x, y, theta) zs)" if "ready new_robot (x, y) w" for x y theta w
    unfolding set_up_def by (rule start_ok [OF that new_robot_slow assms])
  note fin = unless_dry_case [OF _ sim_ok_safe [of 20]]
  show "case demo_1 zs of Inl e \<Rightarrow> e = OutOfDraws | Inr s \<Rightarrow> safe new_robot emptyWorld s"
    unfolding demo_1_def by (rule fin [OF obey_all_ok [OF start [OF demos_ready(1)]]])
  show "case demo_2 keys zs of Inl e \<Rightarrow> e = OutOfDraws | Inr s \<Rightarrow> safe new_robot officeWorld s"
    unfolding demo_2_def by (rule fin [OF drive_loop_ok [OF start [OF demos_ready(2)]]])
  show "case demo_3 keys zs of Inl e \<Rightarrow> e = OutOfDraws | Inr s \<Rightarrow> safe new_robot obstacleWorld3 s"
    unfolding demo_3_def by (rule fin [OF drive_loop_ok [OF start [OF demos_ready(3)]]])
  show "case demo_7 keys zs of Inl e \<Rightarrow> e = OutOfDraws | Inr s \<Rightarrow> safe new_robot twoRoomsWorld s"
    unfolding demo_7_def by (rule fin [OF drive_loop_ok [OF start [OF demos_ready(5)]]])
  have pick: "unless_dry (if boxInPosition (rob s) then obey PickUpBox s else Inr s) (sim_ok 20 (?G obstacleWorld3))"
    if "sim_ok 20 (?G obstacleWorld3) s" for s using obey_ok [OF that] that by (simp del: obey.simps)
  have "unless_dry (demo_6 zs) (sim_ok 20 (?G obstacleWorld3))" unfolding demo_6_def Let_def
    by (rule unless_dry_bind [OF obey_all_ok [OF start [OF demos_ready(4)]]], erule unless_dry_bind [OF obey_ok],
        erule unless_dry_bind [OF pick], erule obey_all_ok)
  then show "case demo_6 zs of Inl e \<Rightarrow> e = OutOfDraws | Inr s \<Rightarrow> safe new_robot obstacleWorld3 s" by (rule fin)
qed

theorem demos_safe_witness:
  "draws_within 20 [0, 0, 0] \<and> (case demo_3 [''Up'', ''u'', ''Escape''] [0, 0, 0] of Inl e \<Rightarrow> e = OutOfDraws | Inr s \<Rightarrow> safe new_robot obstacleWorld3 s)"
proof -
  have "draws_within 20 [0, 0, 0]" by (simp add: draws_within_def)
  with demos_safe [OF this, of "[''Up'', ''u'', ''Escape'']"] show ?thesis by blast
qed

text \<open>Each of the ten worlds has a distance grid.\<close>

lemma worlds_fit:
  assumes "w \<in> {emptyWorld, simpleWorld, twoRoomsWorld, officeWorld, labyrinthWorld, obstacleWorld, obstacleWorld1, obstacleWorld2,
    obstacleWorld3, corridorWithDoorWorld}"
  shows "\<forall>(l, b) \<in> set (lines w). b \<or> line_fits (world_width w) (world_height w) l" and "distGrid w = None"
  using assms by (auto simp: world_defs line_fits_def)

end
