(* ===== verification/Particle.thy ===== *)
theory Particle
  imports WorldGrid
begin

text \<open>
  The particle filter that estimates the pose of the robot,
  \<open>src/Sem5/MobileRobotik/RoboterSimulator/MonteCarlo_6/ParticleFilterPoseEstimator.py\<close>: construction, motion of the particles, their weights
  and the resampling. \<open>numpy.exp\<close> is a parameter. \<open>random.random()\<close> takes the next number of a list, \<open>random.gauss\<close> that of another
  one. The mean and the covariance of the particles are single calls of numpy and are left out.
\<close>

section \<open>Definitions\<close>

record particle_filter =
  particles :: "pose list"
  stepT :: real

definition next_random :: "real list \<Rightarrow> (real \<times> real list) res" where
  "next_random us = (case us of [] \<Rightarrow> Inl OutOfDraws | u # rest \<Rightarrow> Inr (u, rest))"

definition uniform :: "real \<Rightarrow> real \<Rightarrow> real list \<Rightarrow> (real \<times> real list) res" where
  "uniform a b us = rbind (next_random us) (\<lambda>(u, us'). Inr (a + (b - a) * u, us'))"

fun random_poses :: "nat \<Rightarrow> pose \<Rightarrow> pose \<Rightarrow> real list \<Rightarrow> (pose list \<times> real list) res" where
  "random_poses 0 f t us = Inr ([], us)"
| "random_poses (Suc n) f t us =
     rbind (uniform (fst f) (fst t) us) (\<lambda>(x, us1).
     rbind (uniform (fst (snd f)) (fst (snd t)) us1) (\<lambda>(y, us2).
     rbind (uniform (snd (snd f)) (snd (snd t)) us2) (\<lambda>(theta, us3).
     rbind (random_poses n f t us3) (\<lambda>(ps, us'). Inr ((x, y, theta) # ps, us')))))"

definition new_filter :: "pose \<Rightarrow> pose \<Rightarrow> nat \<Rightarrow> real list \<Rightarrow> (particle_filter \<times> real list) res" where
  "new_filter f t n us = rbind (random_poses n f t us) (\<lambda>(ps, us'). Inr (\<lparr>particles = ps, stepT = 1 / 10\<rparr>, us'))"

fun move_particles :: "real \<Rightarrow> real \<Rightarrow> real \<Rightarrow> real \<Rightarrow> real \<Rightarrow> pose list \<Rightarrow> real list \<Rightarrow> (pose list \<times> real list) res" where
  "move_particles v omega s0 s1 T [] zs = Inr ([], zs)"
| "move_particles v omega s0 s1 T ((px, py, pt) # ps) zs =
     rbind (gauss_var s0 zs) (\<lambda>(e0, zs1).
     rbind (gauss_var s1 zs1) (\<lambda>(e1, zs2).
       let v_noisy = v + e0; omega_noisy = omega + e1 in
       rbind (move_particles v omega s0 s1 T ps zs2) (\<lambda>(qs, zs').
         Inr ((px + v_noisy * T * cos pt, py + v_noisy * T * sin pt, pt + omega_noisy * T) # qs, zs'))))"

definition integrateMovement :: "real \<times> real \<Rightarrow> real \<Rightarrow> real \<Rightarrow> real list \<Rightarrow> particle_filter \<Rightarrow> (particle_filter \<times> real list) res" where
  "integrateMovement motion s0 s1 zs pf =
     rbind (move_particles (fst motion) (snd motion) s0 s1 (stepT pf) (particles pf) zs) (\<lambda>(ps, zs'). Inr (pf\<lparr>particles := ps\<rparr>, zs'))"

definition ndf :: "(real \<Rightarrow> real) \<Rightarrow> real \<Rightarrow> real \<Rightarrow> real \<Rightarrow> real" where
  "ndf np_exp x d sigma = 1 / sqrt (2 * sigma * pi) * np_exp (- 1 / 2 * (x - d) ^ 2 / sigma)"

definition getWeightLikeliHood :: "(real \<Rightarrow> real) \<Rightarrow> pose \<Rightarrow> real option list \<Rightarrow> real list \<Rightarrow> occ_grid \<Rightarrow> real res" where
  "getWeightLikeliHood np_exp p dist_list alpha_list og =
     rbind (transformPolarCoordL2G dist_list alpha_list p) (\<lambda>coords.
       rfold (\<lambda>(x, y) prob. rbind (getValue x y og) (\<lambda>d.
         Inr (case d of None \<Rightarrow> prob | Some d \<Rightarrow> prob * ndf np_exp 0 d ((4 / 10) ^ 2)))) coords 1)"

fun all_weights :: "(real \<Rightarrow> real) \<Rightarrow> real option list \<Rightarrow> real list \<Rightarrow> occ_grid \<Rightarrow> pose list \<Rightarrow> real list res" where
  "all_weights np_exp ds as og [] = Inr []"
| "all_weights np_exp ds as og (p # ps) =
     rbind (getWeightLikeliHood np_exp p ds as og) (\<lambda>w. rbind (all_weights np_exp ds as og ps) (\<lambda>ws. Inr (w # ws)))"

text \<open>The inner loop turns the wheel until the weight at the index is not less than the rest; it is cut off after \<open>n\<close> rounds.\<close>

definition turn :: "real list \<Rightarrow> real \<times> nat \<Rightarrow> (real \<times> nat) res" where
  "turn ws = (\<lambda>(actw, index). Inr (actw - ws ! index, (index + 1) mod length ws))"

definition turn_on :: "real list \<Rightarrow> real \<times> nat \<Rightarrow> bool" where
  "turn_on ws = (\<lambda>(actw, index). actw > ws ! index)"

fun resample :: "nat \<Rightarrow> nat \<Rightarrow> real list \<Rightarrow> pose list \<Rightarrow> real \<Rightarrow> real \<times> nat \<Rightarrow> real list \<Rightarrow> (pose list \<times> real list) res option" where
  "resample n 0 ws ps maxw s us = Some (Inr ([], us))"
| "resample n (Suc k) ws ps maxw s us =
     (case next_random us of
        Inl e \<Rightarrow> Some (Inl e)
      | Inr (u, us1) \<Rightarrow>
          (case loop n (turn_on ws) (turn ws) (fst s + u * maxw, snd s) of
             None \<Rightarrow> None
           | Some (Inl e) \<Rightarrow> Some (Inl e)
           | Some (Inr s') \<Rightarrow> map_option (\<lambda>r. rbind r (\<lambda>(qs, us'). Inr (ps ! snd s' # qs, us'))) (resample n k ws ps maxw s' us1)))"

definition integrateMeasurement ::
    "(real \<Rightarrow> real) \<Rightarrow> nat \<Rightarrow> real option list \<Rightarrow> real list \<Rightarrow> occ_grid \<Rightarrow> real list \<Rightarrow> particle_filter \<Rightarrow> (particle_filter \<times> real list) res option" where
  "integrateMeasurement np_exp n dist_list alpha_list og us pf =
     (case all_weights np_exp dist_list alpha_list og (particles pf) of
        Inl e \<Rightarrow> Some (Inl e)
      | Inr ws \<Rightarrow>
          (case next_random us of
             Inl e \<Rightarrow> Some (Inl e)
           | Inr (u, us1) \<Rightarrow>
               if ws = [] then Some (Inl ValueError)
               else map_option (\<lambda>r. rbind r (\<lambda>(ps, us'). Inr (pf\<lparr>particles := ps\<rparr>, us')))
                      (resample n (length ws) ws (particles pf) (Max (set ws)) (0, nat \<lfloor>u * real (length ws)\<rfloor>) us1)))"

section \<open>The wheel\<close>

lemma wheel_runs:
  assumes "loop n (turn_on ws) (turn ws) (a, i) = None" and "0 \<le> a" and "i < length ws"
  shows "(\<Sum>t < n. ws ! ((i + t) mod length ws)) \<le> a"
  using assms
proof (induction n arbitrary: a i)
  case (Suc n)
  let ?N = "length ws"
  have on: "a > ws ! i" and rest: "loop n (turn_on ws) (turn ws) (a - ws ! i, (i + 1) mod ?N) = None"
    using Suc.prems(1) by (auto simp: turn_on_def turn_def split: if_splits)
  have "(i + 1) mod ?N < ?N" using Suc.prems(3) by (intro mod_less_divisor) auto
  with Suc.IH [OF rest] on have "(\<Sum>t < n. ws ! (((i + 1) mod ?N + t) mod ?N)) \<le> a - ws ! i" by simp
  moreover have "(\<Sum>t < n. ws ! (((i + 1) mod ?N + t) mod ?N)) = (\<Sum>t < n. ws ! ((i + Suc t) mod ?N))"
    by (simp add: mod_simps)
  moreover have "(\<Sum>t < Suc n. ws ! ((i + t) mod ?N)) = ws ! i + (\<Sum>t < n. ws ! ((i + Suc t) mod ?N))"
    using Suc.prems(3) by (simp add: sum.lessThan_Suc_shift del: sum.lessThan_Suc)
  ultimately show ?case by linarith
qed simp

text \<open>Every weight is met again and again: after enough rounds the largest one has been subtracted often enough.\<close>

lemma wheel_sum:
  assumes "\<forall>w \<in> set ws. 0 \<le> w" and "j < length ws" and "i < length ws"
  shows "real m * ws ! j \<le> (\<Sum>t < m * length ws. ws ! ((i + t) mod length ws))"
proof (induction m)
  case (Suc m)
  let ?N = "length ws"
  let ?f = "\<lambda>t. ws ! ((i + t) mod ?N)"
  have nn: "0 \<le> ?f t" for t using assms by (intro assms(1) [rule_format] nth_mem mod_less_divisor) auto
  define t where "t = m * ?N + (j + ?N - i) mod ?N"
  have "(j + ?N - i) mod ?N < ?N" using assms(2) by (intro mod_less_divisor) auto
  then have t: "m * ?N \<le> t" "t < Suc m * ?N" by (auto simp: t_def)
  have "i + t = i + (j + ?N - i) mod ?N + m * ?N" by (simp add: t_def)
  then have "(i + t) mod ?N = (i + (j + ?N - i) mod ?N) mod ?N" by (simp only: mod_mult_self1)
  also have "\<dots> = (i + (j + ?N - i)) mod ?N" by (rule mod_add_right_eq)
  also have "\<dots> = j" using assms(2,3) by simp
  finally have f: "?f t = ws ! j" by simp
  have split: "{..<Suc m * ?N} = {..<m * ?N} \<union> {m * ?N..<Suc m * ?N}" by auto
  have "sum ?f {..<Suc m * ?N} = sum ?f {..<m * ?N} + sum ?f {m * ?N..<Suc m * ?N}"
    unfolding split by (rule sum.union_disjoint) auto
  moreover have "?f t \<le> sum ?f {m * ?N..<Suc m * ?N}" using t nn by (intro member_le_sum) auto
  ultimately show ?case using Suc.IH f by (simp add: algebra_simps)
qed simp


definition wheel_ok :: "real list \<Rightarrow> real \<times> nat \<Rightarrow> bool" where
  "wheel_ok ws s \<longleftrightarrow> 0 \<le> fst s \<and> fst s \<le> Max (set ws) \<and> snd s < length ws"

lemma wheel_result:
  assumes "loop n (turn_on ws) (turn ws) (a, i) = Some r" and "0 \<le> a" and "i < length ws"
  shows "\<exists>s. r = Inr s \<and> wheel_ok ws s"
  using assms
proof (induction n arbitrary: a i)
  case (Suc n)
  show ?case
  proof (cases "turn_on ws (a, i)")
    case True
    have "(i + 1) mod length ws < length ws" using Suc.prems(3) by (intro mod_less_divisor) auto
    moreover have "0 \<le> a - ws ! i" using True by (simp add: turn_on_def)
    moreover have "loop n (turn_on ws) (turn ws) (a - ws ! i, (i + 1) mod length ws) = Some r"
      using Suc.prems(1) True by (simp add: turn_def)
    ultimately show ?thesis using Suc.IH by blast
  next
    case False
    then have "a \<le> ws ! i" by (simp add: turn_on_def)
    also have "\<dots> \<le> Max (set ws)" using Suc.prems(3) by (intro Max_ge) auto
    finally have "wheel_ok ws (a, i)" using Suc.prems by (simp add: wheel_ok_def)
    moreover have "r = Inr (a, i)" using Suc.prems(1) False by simp
    ultimately show ?thesis by blast
  qed
qed simp

lemma wheel_stops:
  assumes "\<forall>w \<in> set ws. 0 \<le> w" and "0 \<le> a" and "i < length ws" and "Max (set ws) = 0 \<longrightarrow> a = 0"
  shows "\<exists>n s. loop n (turn_on ws) (turn ws) (a, i) = Some (Inr s) \<and> wheel_ok ws s"
proof -
  have ne: "set ws \<noteq> {}" using assms(3) by auto
  have "\<exists>n. loop n (turn_on ws) (turn ws) (a, i) \<noteq> None"
  proof (cases "Max (set ws) = 0")
    case True
    moreover have "0 \<le> ws ! i" using assms(1,3) nth_mem by blast
    ultimately have "\<not> turn_on ws (a, i)" using assms(4) by (simp add: turn_on_def)
    then show ?thesis by (intro exI [of _ "Suc 0"]) simp
  next
    case False
    obtain j where j: "j < length ws" "ws ! j = Max (set ws)" using Max_in [OF _ ne] by (metis in_set_conv_nth List.finite_set)
    have "0 \<le> ws ! j" using assms(1) j(1) by (metis nth_mem)
    then have pos: "0 < ws ! j" using False j(2) by simp
    obtain m where "a < real m * ws ! j" using reals_Archimedean3 [OF pos] by blast
    then have "\<not> (\<Sum>t < m * length ws. ws ! ((i + t) mod length ws)) \<le> a" using wheel_sum [OF assms(1) j(1) assms(3), of m] by linarith
    then show ?thesis using wheel_runs [OF _ assms(2,3), of "m * length ws"] by blast
  qed
  then show ?thesis using wheel_result [OF _ assms(2,3)] by blast
qed

section \<open>Resampling\<close>

lemma resample_returns:
  assumes "\<forall>w \<in> set ws. 0 \<le> w" and "length ps = length ws" and "wheel_ok ws s" and "\<forall>u \<in> set us. 0 \<le> u" and "k \<le> length us"
  shows "\<exists>n qs. (\<forall>m \<ge> n. resample m k ws ps (Max (set ws)) s us = Some (Inr (qs, drop k us))) \<and> length qs = k \<and> set qs \<subseteq> set ps"
  using assms(3-5)
proof (induction k arbitrary: s us)
  case (Suc k)
  obtain u us1 where us: "us = u # us1" using Suc.prems(3) by (cases us) auto
  let ?M = "Max (set ws)"
  have M: "0 \<le> ?M" using Suc.prems(1) by (auto simp: wheel_ok_def)
  have "0 \<le> u * ?M" using M Suc.prems(2) us by simp
  moreover have "?M = 0 \<longrightarrow> fst s + u * ?M = 0" using Suc.prems(1) by (auto simp: wheel_ok_def)
  ultimately obtain n1 s1 where 1: "loop n1 (turn_on ws) (turn ws) (fst s + u * ?M, snd s) = Some (Inr s1)" "wheel_ok ws s1"
    using wheel_stops [OF assms(1), of "fst s + u * ?M" "snd s"] Suc.prems(1) by (auto simp: wheel_ok_def)
  obtain n2 qs where 2: "\<And>m. n2 \<le> m \<Longrightarrow> resample m k ws ps ?M s1 us1 = Some (Inr (qs, drop k us1))" "length qs = k" "set qs \<subseteq> set ps"
    using Suc.IH [OF 1(2), of us1] Suc.prems(2,3) us by auto
  have "resample m (Suc k) ws ps ?M s us = Some (Inr (ps ! snd s1 # qs, drop (Suc k) us))" if "max n1 n2 \<le> m" for m
    using loop_mono [OF 1(1), of m] 2(1) [of m] that by (simp add: us next_random_def)
  moreover have "ps ! snd s1 \<in> set ps" using 1(2) assms(2) by (simp add: wheel_ok_def)
  ultimately show ?case using 2(2,3) by (intro exI [of _ "max n1 n2"] exI [of _ "ps ! snd s1 # qs"]) simp
qed simp

section \<open>Weights\<close>

lemma polar_coords: "length ds \<le> length as \<Longrightarrow> \<exists>cs. transformPolarCoordL2G ds as p = Inr cs"
proof (induction ds arbitrary: as)
  case (Cons d ds)
  then show ?case by (cases d; cases as) auto
qed simp

lemma getValue_ok: "grid_wf og \<Longrightarrow> \<exists>v. getValue x y og = Inr v"
proof (cases "x < 0 \<or> x > width og \<or> y < 0 \<or> y > height og")
  case False
  assume wf: "grid_wf og"
  then have "0 \<le> cell_index x og" "cell_index x og < xSize og" "0 \<le> cell_index y og" "cell_index y og < ySize og"
    using index_range [of og x "width og" "xSize og"] index_range [of og y "height og" "ySize og"] False unfolding grid_wf_def by auto
  then have "inside (xSize og) (ySize og) (cell_index x og, cell_index y og)" by (simp add: inside_def)
  moreover have "shaped (xSize og) (ySize og) (grid og)" using wf unfolding grid_wf_def by blast
  ultimately show ?thesis using get_cell_inside False by (simp add: getValue_def)
qed (auto simp: getValue_def)

lemma weight_ok:
  assumes "\<forall>x. 0 \<le> np_exp x" and "grid_wf og" and "length ds \<le> length as"
  shows "\<exists>w. getWeightLikeliHood np_exp p ds as og = Inr w \<and> 0 \<le> w"
proof -
  obtain cs where cs: "transformPolarCoordL2G ds as p = Inr cs" using polar_coords [OF assms(3)] by blast
  have nn: "0 \<le> ndf np_exp x d ((4 / 10) ^ 2)" for x d using assms(1) by (simp add: ndf_def)
  have "\<exists>w. rfold (\<lambda>(x, y) prob. rbind (getValue x y og) (\<lambda>d.
      Inr (case d of None \<Rightarrow> prob | Some d \<Rightarrow> prob * ndf np_exp 0 d ((4 / 10) ^ 2)))) cs 1 = Inr w \<and> 0 \<le> w"
  proof (rule rfold_total)
    fix c :: point and prob :: real
    assume prob: "0 \<le> prob"
    obtain x y where c: "c = (x, y)" by (metis surj_pair)
    obtain v where v: "getValue x y og = Inr v" using getValue_ok [OF assms(2)] by blast
    show "\<exists>w. (case c of (x, y) \<Rightarrow> \<lambda>prob. rbind (getValue x y og) (\<lambda>d.
        Inr (case d of None \<Rightarrow> prob | Some d \<Rightarrow> prob * ndf np_exp 0 d ((4 / 10) ^ 2)))) prob = Inr w \<and> 0 \<le> w"
      unfolding c prod.case v rbind.simps using prob nn by (cases v) (simp_all del: power_divide)
  qed simp
  then show ?thesis by (simp add: getWeightLikeliHood_def cs del: rbind_Inr_iff)
qed

lemma all_weights_ok:
  assumes "\<forall>x. 0 \<le> np_exp x" and "grid_wf og" and "length ds \<le> length as"
  shows "\<exists>ws. all_weights np_exp ds as og ps = Inr ws \<and> length ws = length ps \<and> (\<forall>w \<in> set ws. 0 \<le> w)"
proof (induction ps)
  case (Cons p ps)
  then show ?case using weight_ok [OF assms, where p = p] by auto
qed simp

text \<open>
  C34: The integration of a measurement ends: for any measured distances with a direction each, any well-formed grid, any non-empty set of particles
  and enough random numbers, there is a number of rounds after which every inner loop has stopped, and then the filter has as many
  particles as before, each of them one of the old ones.
\<close>

theorem particle_resampling:
  assumes "\<forall>x. 0 \<le> np_exp x" and "grid_wf og" and "length dist_list \<le> length alpha_list"
    and "particles pf \<noteq> []" and "\<forall>u \<in> set us. 0 \<le> u \<and> u < 1" and "length (particles pf) < length us"
  shows "\<exists>n pf'. (\<forall>m \<ge> n. integrateMeasurement np_exp m dist_list alpha_list og us pf = Some (Inr (pf', drop (Suc (length (particles pf))) us))) \<and>
    length (particles pf') = length (particles pf) \<and> set (particles pf') \<subseteq> set (particles pf)"
proof -
  let ?N = "length (particles pf)"
  obtain ws where ws: "all_weights np_exp dist_list alpha_list og (particles pf) = Inr ws" "length ws = ?N" "\<forall>w \<in> set ws. 0 \<le> w"
    using all_weights_ok [OF assms(1-3)] by blast
  obtain u us1 where us: "us = u # us1" using assms(6) by (cases us) auto
  have ne: "ws \<noteq> []" using ws(2) assms(4) by auto
  have "0 \<le> Max (set ws)" using ws(3) ne by (meson Max_in List.finite_set set_empty)
  moreover have "nat \<lfloor>u * real (length ws)\<rfloor> < length ws"
  proof -
    have "u * real (length ws) < 1 * real (length ws)" using assms(5) us ne by (intro mult_strict_right_mono) auto
    moreover have "0 \<le> u * real (length ws)" using assms(5) us by simp
    ultimately show ?thesis by (simp add: nat_less_iff floor_less_iff)
  qed
  ultimately have "wheel_ok ws (0, nat \<lfloor>u * real (length ws)\<rfloor>)" by (simp add: wheel_ok_def)
  from resample_returns [OF ws(3) _ this, of "particles pf" us1 ?N] ws(2) assms(5,6) us obtain n qs where
    "\<And>m. n \<le> m \<Longrightarrow> resample m ?N ws (particles pf) (Max (set ws)) (0, nat \<lfloor>u * real (length ws)\<rfloor>) us1 = Some (Inr (qs, drop ?N us1))"
    "length qs = ?N" "set qs \<subseteq> set (particles pf)" by auto
  then show ?thesis
    by (intro exI [of _ n] exI [of _ "pf\<lparr>particles := qs\<rparr>"]) (simp add: integrateMeasurement_def ws(1,2) ne us next_random_def)
qed

theorem particle_resampling_witness:
  "\<exists>n pf'. integrateMeasurement exp n [Some 1] [0] \<lparr>xSize = 2, ySize = 2, grid = [[0, 0], [0, 0]], width = 1, height = 1, cellSize = 1, isDistanceGrid = True\<rparr>
    [1 / 2, 1 / 3, 0] \<lparr>particles = [(0, 0, 0), (1, 1, 0)], stepT = 1 / 10\<rparr> = Some (Inr (pf', [])) \<and> length (particles pf') = 2"
proof -
  let ?og = "\<lparr>xSize = 2, ySize = 2, grid = [[0, 0], [0, 0]], width = 1, height = 1, cellSize = 1, isDistanceGrid = True\<rparr>"
  let ?pf = "\<lparr>particles = [(0, 0, 0), (1, 1, 0 :: real)], stepT = 1 / 10\<rparr>"
  have "grid_wf ?og" by (simp add: grid_wf_def shaped_def int_of_float_def)
  from particle_resampling [OF _ this, of exp "[Some 1]" "[0]" ?pf "[1 / 2, 1 / 3, 0]"] obtain n pf' where
    "\<forall>m \<ge> n. integrateMeasurement exp m [Some 1] [0] ?og [1 / 2, 1 / 3, 0] ?pf = Some (Inr (pf', []))" "length (particles pf') = 2"
    by auto
  then show ?thesis by blast
qed

end
