(* ===== verification/Spec2Isabelle.thy ===== *)
theory Spec2Isabelle
  imports Malloc Raid PagePolicy ProcessRun X86Locks X86Types OldAsm Scheduler Lottery Mlfq Translate Multilevel Multi Supermarket DiskRun ChatRun Worlds Particle
begin

text \<open>
  Verification of the simulators of the archive.

  \<^bold>\<open>The programs.\<close> The repository holds course work. Its algorithmic core are the simulators under \<open>src/Sem3/BSYS\<close>, one Python program for
  each topic of an operating-systems course, under \<open>src/Sem5/Rechnernetze/Praxis\<close> the discrete-event simulation
  \<open>Aufgabe1_EventList\<close> and the server of \<open>PeerToPeerChat\<close>, and under \<open>src/Sem5/MobileRobotik/RoboterSimulator\<close> the robot simulator \<open>Robot_Simulator_V3\<close> with the
  particle filter \<open>MonteCarlo_6\<close> that uses it. Else the programs do not call each other. Each simulator reads options or a script, draws random
  numbers, runs a state machine and prints what it does. Within a program the parts work on shared state: a heap and its free list,
  processors and their caches, threads and a memory, customers and stations that share an event list. A theory holds one program,
  or one part of it, in the order of the source; its state is a record with the names of the source, each method or block of
  the main program one definition. Printing changes no state and is left out.

  \<^bold>\<open>Errors and input.\<close> \<open>Prelude\<close> has the result type \<open>py_error + 'a\<close> with one constructor for each exception the programs can raise. \<open>sys.exit\<close>
  is an exception too. \<open>py_nth\<close>, \<open>py_set\<close>, \<open>py_pop\<close> and \<open>py_lookup\<close> are the accesses of Python lists and dictionaries, negative
  indices included. Numbers from \<open>random.random()\<close> are a list of rationals; a computation that needs more ends with \<open>OutOfDraws\<close>,
  and \<open>unless_dry\<close> states a property of every other outcome. Python integers are \<open>int\<close>, floats are exact rationals, in the robot simulator real
  numbers: rounding is not modelled. \<open>PyString\<close> has \<open>split\<close>, \<open>strip\<close>, \<open>int\<close>, \<open>float\<close> and \<open>str\<close>, so that the option strings the programs parse are parsed in the model.

  \<^bold>\<open>Loops.\<close> A loop that is not structural is \<open>loop\<close> with a number of rounds, and \<open>None\<close> says that it is still running. The locale \<open>guarded_loop\<close>
  (an invariant the body keeps and a measure it lowers) gives that the loop returns; \<open>failing_loop\<close> allows the body one known
  error, and \<open>drawing_loop\<close>, a sublocale of it, to run out of random numbers. They are interpreted on the loops of
  \<open>process-run.py\<close>, \<open>scheduler.py\<close>, \<open>mlfq.py\<close>, \<open>multi.py\<close>, \<open>disk.py\<close> and the supermarket. Every fuel in a property is computed from the
  input by a measure of the work that is left (\<open>steps_left\<close>, \<open>disk_time\<close>, \<open>rr_measure\<close> and others), so enough fuel always exists and is stated.

  \<^bold>\<open>The theories.\<close>

  \<^item> \<open>Malloc\<close>, \<open>17_Freespace/malloc.py\<close>: class \<open>malloc\<close> with all policies, list orders, coalescing, alignment and headers, and both ways
    the main program uses it. Free list and allocated ranges partition the heap after every operation and every run; the
    policies choose the chunk they name (locale \<open>chunk_choice\<close>); with an address-sorted list and coalescing, \<open>free\<close> undoes \<open>malloc\<close>.
  \<^item> \<open>Raid\<close>, \<open>38_RAID/raid.py\<close>: the block maps and request handling of RAID 0, 1, 4 and 5 and the disks' accounting. The maps are
    invertible (locales \<open>block_layout\<close>, \<open>parity_layout\<close>, \<open>stripe_layout\<close>), a write reaches data and parity blocks, and a run accounts for every request.
  \<^item> \<open>PagePolicy\<close>, \<open>22_Policy/paging-policy.py\<close>: all replacement policies. The cache invariant comes from the locale \<open>replacement\<close>; LRU keeps the most
    recent pages and has the inclusion property.
  \<^item> \<open>ProcessRun\<close>, \<open>04_Process/process-run.py\<close>: the process table and scheduler with both I/O policies. One process runs at a time, the table keeps
    its invariant on every reachable state, and the run completes unless the I/O length is zero.
  \<^item> \<open>X86\<close>, \<open>X86Asm\<close>, \<open>X86Threads\<close>, \<open>X86Locks\<close>, \<open>28_Locks/x86.py\<close> and its programs: instructions, assembler, threads with timer interrupts. A run is an
    interleaving of threads (refinement of an \<open>inductive\<close> step relation), and the test-and-set lock, assembled from its source,
    loses no update under any interleaving; the flag lock does. \<open>X86Types\<close>: instructions that access data addresses only keep the state well-typed
    and raise nothing.
  \<^item> \<open>OldX86\<close>, \<open>OldAsm\<close>, \<open>26_Threads/x86.py\<close>, the earlier version of that simulator with its own instructions, thread list and assembler. \<open>new_machine\<close>
    embeds its states into those of the later one; every program it loads that pops no register runs on both alike, and its
    \<open>getarg\<close> accepts single digits and one register only.
  \<^item> \<open>Scheduler\<close>, \<open>Lottery\<close>, \<open>Mlfq\<close>, \<open>Multi\<close>, the programs of chapters 07 to 10: FIFO, SJF and RR with their statistics, the lottery, the multi-level
    feedback queue with boosts and I/O, the multiprocessor scheduler with caches, affinity, per-CPU queues and work
    stealing. All jobs complete within a stated time, no job is lost or in two places, SJF minimises the averages, tickets are
    served in proportion, caches do not overflow.
  \<^item> \<open>Translate\<close>, \<open>Multilevel\<close>, chapters 15, 16, 18 and 20: base and bounds, two segments, linear and two-level page tables. Translations stay in the
    owner's memory and agree with the page map; the two-level table is a refinement of a map for each process.
  \<^item> \<open>Disk\<close>, \<open>DiskLayout\<close>, \<open>DiskPolicy\<close>, \<open>DiskRun\<close>, \<open>37_HDD/disk.py\<close>: layout, policies, window, seek, rotation and transfer. The layout has a closed form; SATF is an
    \<open>arg_min_list\<close> and SSTF a filter; every run with positive speeds and existing blocks serves all requests within
    \<open>disk_time\<close> ticks and its times add up to the clock. One request takes at most two tracks of seek, a revolution of waiting and
    one of transfer, which is \<open>request_time\<close>. The proof that a rotation ends uses that the head stops at multiples of the rotation
    speed only (\<open>slots\<close>) and that one of them is close to any target.
  \<^item> \<open>EventSim\<close>, \<open>EventInv\<close>, \<open>Supermarket\<close>, \<open>Aufgabe1_EventList/src\<close>: event list, customers, stations, logger. The event list is an interpretation of the locale
    \<open>priority_queue\<close>. Objects are positions in lists of the state, so that queues and events share them as the program does. In
    every reachable state a customer is in at most one queue and has at most one pending event; the simulation ends, and the
    only exception is the one of a customer who passes the last station. The measure counts four events for each stop and
    one customer of a type for each unit of time, which is why \<open>time_between_customers\<close> must be positive.
  \<^item> \<open>Chat\<close>, \<open>ChatInv\<close>, \<open>ChatViews\<close>, \<open>ChatRun\<close>, \<open>PeerToPeerChat\<close>: the registry of \<open>Server.py\<close> with its lock, the handling of a request, the framing of messages and the user
    list of \<open>Client.py\<close>. An operation returns a result or an exception together with the state. Nicknames are string objects with an
    identity, because \<open>broadcast_clients\<close> compares with \<open>is\<close>. No request leaves the lock taken. What the server relies on, a
    receiver that follows the announced changes, is the locale \<open>follower\<close>, interpreted on \<open>update_user_list\<close>; in runs of the \<open>inductive\<close> relation
    \<open>chat_step\<close> every registered client knows exactly the others. Requests are one after the other there; \<open>chat_race_stale\<close> is an
    interleaving of two that breaks the contract.
  \<^item> \<open>Geometry\<close>, \<open>Sensor\<close>, \<open>Robot_Simulator_V3/geometry.py\<close> and \<open>sensorUtilities.py\<close>: the intersections are exactly the common points unless the directions are
    nearly parallel, the distance to a segment is attained and least, and the polyline of Douglas and Peucker is found (a \<open>partial_function\<close>: it
    returns for every tolerance that is not negative) and is close to every point.
  \<^item> \<open>ShortestWalk\<close>, \<open>OccGrid\<close>, \<open>WorldGrid\<close>, \<open>OccupancyGrid.py\<close>: the locale \<open>relaxation\<close> is the search with an open list on any finite graph, where a node may be
    improved again after it was taken; its measure counts the walks that are shorter than an estimate. It is interpreted on the
    grid (\<open>rg\<close>), and the loop of \<open>_extendToDistanceGrid\<close> as a \<open>guarded_loop\<close> on top of it, so that each cell of a world's distance grid is the length of
    a shortest trail to a cell of a wall.
  \<^item> \<open>World\<close>, \<open>WorldRun\<close>, \<open>Worlds\<close>, \<open>World.py\<close>, \<open>Robot.py\<close>, \<open>KeyboardController.py\<close>, the world files and demos: walls, boxes, moves with noise, sensors. A robot whose steps are shorter than
    its diameter never touches or passes a wall, no beam misses the border (so that the RuntimeError of the simulator does not
    occur), and its readings are the distances to the nearest walls. The starts of the demos fulfil the assumptions.
  \<^item> \<open>Particle\<close>, \<open>MonteCarlo_6/ParticleFilterPoseEstimator.py\<close>: motion, weights from the distance grid and resampling. The wheel of the resampling stops for
    all weights that are not negative, because a whole turn subtracts the largest of them.

  \<^bold>\<open>Deviations found.\<close> Properties, and theorems beside them, state behaviour that looks unintended: pointer numbers in
  \<open>malloc.py\<close>, I/O of length zero in \<open>process-run.py\<close>, a stolen job that starves in \<open>multi.py\<close>, late requests given as a list and the inner
  track that random requests never reach in \<open>disk.py\<close>, the customer who arrives nowhere and the divisions of the report in the
  supermarket, the lock released twice, the stale user list and the byte order of the chat, the operands that the earlier x86 assembler rejects or shortens, short segments in
  \<open>geometry.py\<close>, the flag lock of the course material, which is meant to fail.

  \<^bold>\<open>Not modelled.\<close> Option parsing beyond the strings above, help texts and traces. Graphics: \<open>disk.py\<close> is modelled in its other mode, the
  robot simulator without its drawing, which is third-party. \<open>mlfq-2.py\<close>, \<open>lottery-1.py\<close> and \<open>disk-precise.py\<close> are rewritten copies of
  modelled programs. The exercises in signal processing and kinematics, the Kalman filter and the odometry are floating-point scripts on
  numpy, cameras and plots. The supermarket in real time is driven by sleeping threads, the socket exercises by sockets, the
  Moodle client by HTTP. Of the chat, the loops that wait for sockets and the direct connections between clients are left out, and
  the text of JSON: a request is the dictionary it stands for, or one of the ways in which reading it fails.
\<close>

end
